(* ===== verification/Prelude.thy ===== *)
theory Prelude
  imports
    Complex_Main
    "HOL-Library.Word"
    "HOL-Library.AList"
    "HOL-Library.Multiset"
    "HOL-Library.List_Lexorder"
    "HOL-Library.Char_ord"
begin

text \<open>
  Shared vocabulary of the development: the machine types of the Go source, Go maps, Go's
  \<open>sort.Slice\<close>, truncating division, time, and the error results every component uses.

  A Go map is an association list whose keys are distinct; the list order stands for the (unspecified)
  iteration order of the map, so a theorem that holds for every list holds for every iteration order.
  Lookup is \<open>map_of\<close>, insertion \<open>gput\<close>, deletion \<open>gdel\<close>.
\<close>

unbundle bit_operations_syntax

named_theorems gomap_simps \<open>lookup and key-set equations of the Go map operations\<close>
named_theorems inv_intros \<open>preservation rules of the component invariants\<close>

section \<open>Machine types\<close>

type_synonym u16 = "16 word"
type_synonym u32 = "32 word"
type_synonym u64 = "64 word"

text \<open>
  A \<open>time.Time\<close> is the number of nanoseconds since 0001-01-01T00:00:00Z, so that the zero value of the
  Go type is 0; a \<open>time.Duration\<close> is a number of nanoseconds.
\<close>

type_synonym time = int
type_synonym duration = int

text \<open>
  A \<open>float64\<close> is an infinity, not a number, or a finite value; finite values are exact rationals here (the
  rounding of IEEE arithmetic is not modelled, and no operation of the model rounds except where the code
  converts to an integer). Comparisons with \<open>NaN\<close> are false.
\<close>

datatype float64 = Fin rat | PosInf | NegInf | NaN

fun float_lt :: "float64 \<Rightarrow> float64 \<Rightarrow> bool" where
  "float_lt NaN y = False"
| "float_lt x NaN = False"
| "float_lt (Fin a) (Fin b) = (a < b)"
| "float_lt NegInf y = (y \<noteq> NegInf)"
| "float_lt x PosInf = (x \<noteq> PosInf)"
| "float_lt x y = False"

fun float_is_nan :: "float64 \<Rightarrow> bool" where
  "float_is_nan NaN = True"
| "float_is_nan x = False"

fun float_is_inf :: "float64 \<Rightarrow> bool" where
  "float_is_inf PosInf = True"
| "float_is_inf NegInf = True"
| "float_is_inf x = False"

section \<open>Results\<close>

text \<open>A Go function that returns a value and an error returns \<open>Inl\<close> the error or \<open>Inr\<close> the value.\<close>

definition guard_err :: "bool \<Rightarrow> 'e \<Rightarrow> 'e + 'a \<Rightarrow> 'e + 'a" where
  "guard_err b e k = (if b then Inl e else k)"

lemma guard_err_simps [simp]:
  "guard_err True e k = Inl e"
  "guard_err False e k = k"
  by (simp_all add: guard_err_def)

lemma guard_err_Inr [simp]: "guard_err b e k = Inr x \<longleftrightarrow> \<not> b \<and> k = Inr x"
  by (simp add: guard_err_def)

section \<open>Go maps\<close>

type_synonym ('k, 'v) gomap = "('k \<times> 'v) list"

definition gomap_ok :: "('k, 'v) gomap \<Rightarrow> bool" where
  "gomap_ok m \<longleftrightarrow> distinct (map fst m)"

definition gput :: "'k \<Rightarrow> 'v \<Rightarrow> ('k, 'v) gomap \<Rightarrow> ('k, 'v) gomap" where
  "gput = AList.update"

definition gdel :: "'k \<Rightarrow> ('k, 'v) gomap \<Rightarrow> ('k, 'v) gomap" where
  "gdel = AList.delete"

text \<open>A range loop that deletes the entries that satisfy a test keeps the others.\<close>

definition gdel_where :: "('v \<Rightarrow> bool) \<Rightarrow> ('k, 'v) gomap \<Rightarrow> ('k, 'v) gomap" where
  "gdel_where P m = filter (\<lambda>(k, v). \<not> P v) m"

text \<open>A range loop that rewrites each value in place.\<close>

definition gmap_vals :: "('k \<Rightarrow> 'v \<Rightarrow> 'v) \<Rightarrow> ('k, 'v) gomap \<Rightarrow> ('k, 'v) gomap" where
  "gmap_vals f m = map (\<lambda>(k, v). (k, f k v)) m"

definition ghas :: "('k, 'v) gomap \<Rightarrow> 'k \<Rightarrow> bool" where
  "ghas m k \<longleftrightarrow> map_of m k \<noteq> None"

lemma map_of_gput [gomap_simps, simp]:
  "map_of (gput k v m) = (map_of m)(k \<mapsto> v)"
  by (simp add: gput_def update_conv')

lemma map_of_gput_SomeD:
  "map_of (gput k v m) x = Some y \<Longrightarrow> x = k \<and> y = v \<or> x \<noteq> k \<and> map_of m x = Some y"
  by (simp split: if_splits)

lemma map_of_gdel [gomap_simps, simp]:
  "map_of (gdel k m) = (map_of m)(k := None)"
  by (simp add: gdel_def delete_conv')

lemma gomap_ok_Nil [simp]: "gomap_ok []"
  by (simp add: gomap_ok_def)

lemma gomap_ok_Cons [simp]: "gomap_ok (p # m) \<longleftrightarrow> map_of m (fst p) = None \<and> gomap_ok m"
  by (simp add: gomap_ok_def map_of_eq_None_iff)

lemma gput_Nil [simp]: "gput k v [] = [(k, v)]"
  by (simp add: gput_def)

lemma gput_Cons: "gput k v (p # m) = (if fst p = k then (k, v) # m else p # gput k v m)"
  by (cases p) (simp add: gput_def)

lemma gdel_Cons: "gdel k (p # m) = (if fst p = k then gdel k m else p # gdel k m)"
  by (simp add: gdel_def)

lemma gdel_Nil [simp]: "gdel k [] = []"
  by (simp add: gdel_def)

lemma gomap_ok_gput [simp]: "gomap_ok m \<Longrightarrow> gomap_ok (gput k v m)"
  by (simp add: gomap_ok_def gput_def distinct_update)

lemma gomap_ok_gdel [simp]: "gomap_ok m \<Longrightarrow> gomap_ok (gdel k m)"
  by (simp add: gomap_ok_def gdel_def distinct_delete)

lemma keys_gput [gomap_simps, simp]: "fst ` set (gput k v m) = insert k (fst ` set m)"
  by (simp add: gput_def dom_update)

lemma gomap_ok_filter [simp]: "gomap_ok m \<Longrightarrow> gomap_ok (filter P m)"
  by (induction m) (auto simp: gomap_ok_def)

lemma gomap_ok_gdel_where [simp]: "gomap_ok m \<Longrightarrow> gomap_ok (gdel_where P m)"
  by (simp add: gdel_where_def)

lemma gomap_ok_gmap_vals [simp]: "gomap_ok (gmap_vals f m) = gomap_ok m"
  by (simp add: gomap_ok_def gmap_vals_def case_prod_beta comp_def)

lemma map_of_filter_val:
  "gomap_ok m \<Longrightarrow> map_of (filter (\<lambda>(k, v). Q k v) m) k =
     (case map_of m k of None \<Rightarrow> None | Some v \<Rightarrow> if Q k v then Some v else None)"
proof (induction m)
  case Nil
  then show ?case by simp
next
  case (Cons p m)
  then have "map_of m (fst p) = None"
    by (auto simp: gomap_ok_def map_of_eq_None_iff)
  with Cons show ?case
    by (cases p) (auto simp: gomap_ok_def split: option.splits)
qed

lemma map_of_gdel_where [gomap_simps]:
  "gomap_ok m \<Longrightarrow> map_of (gdel_where P m) k =
     (case map_of m k of None \<Rightarrow> None | Some v \<Rightarrow> if P v then None else Some v)"
  unfolding gdel_where_def
  by (subst map_of_filter_val) (auto split: option.splits)

lemma map_of_gmap_vals [gomap_simps]:
  "map_of (gmap_vals f m) k = map_option (f k) (map_of m k)"
  unfolding gmap_vals_def by (induction m) auto

lemma ghas_iff [gomap_simps]: "ghas m k \<longleftrightarrow> k \<in> fst ` set m"
  by (simp add: ghas_def map_of_eq_None_iff)

lemma map_of_in_values: "map_of m k = Some v \<Longrightarrow> v \<in> snd ` set m"
  by (drule map_of_SomeD) force

lemma in_values_map_of: "gomap_ok m \<Longrightarrow> v \<in> snd ` set m \<Longrightarrow> \<exists>k. map_of m k = Some v"
  by (force simp: gomap_ok_def)

lemma values_iff: "gomap_ok m \<Longrightarrow> v \<in> snd ` set m \<longleftrightarrow> (\<exists>k. map_of m k = Some v)"
  using in_values_map_of map_of_in_values by metis

lemma in_set_map_of: "gomap_ok m \<Longrightarrow> (k, v) \<in> set m \<longleftrightarrow> map_of m k = Some v"
  by (simp add: gomap_ok_def)

text \<open>Two well-formed maps with the same lookups hold the same entries, in some order.\<close>

lemma gomap_eq_mset:
  assumes "gomap_ok m" "gomap_ok n" "map_of m = map_of n"
  shows "mset m = mset n"
proof -
  have "distinct m" "distinct n"
    using assms by (auto simp: gomap_ok_def distinct_map)
  moreover have "set m = set n"
    using assms by (auto simp: in_set_map_of simp del: map_of_eq_Some_iff)
  ultimately show ?thesis
    by (simp add: set_eq_iff_mset_eq_distinct)
qed

section \<open>sort.Slice\<close>

text \<open>
  \<open>sort.Slice(s, less)\<close> leaves a permutation of \<open>s\<close> in which no later element is smaller than an earlier
  one, provided \<open>less\<close> is a strict weak order. It promises nothing on elements that compare equal; the
  model keeps their order, as one of the results Go may give.
\<close>

fun insert_by :: "('a \<Rightarrow> 'a \<Rightarrow> bool) \<Rightarrow> 'a \<Rightarrow> 'a list \<Rightarrow> 'a list" where
  "insert_by lt x [] = [x]"
| "insert_by lt x (y # ys) = (if lt y x then y # insert_by lt x ys else x # y # ys)"

definition sort_slice :: "('a \<Rightarrow> 'a \<Rightarrow> bool) \<Rightarrow> 'a list \<Rightarrow> 'a list" where
  "sort_slice lt xs = foldr (insert_by lt) xs []"

lemma mset_insert_by [simp]: "mset (insert_by lt x ys) = add_mset x (mset ys)"
  by (induction ys) auto

lemma mset_sort_slice [simp]: "mset (sort_slice lt xs) = mset xs"
  by (induction xs) (simp_all add: sort_slice_def)

lemma set_sort_slice [simp]: "set (sort_slice lt xs) = set xs"
  by (metis mset_sort_slice set_mset_mset)

lemma length_sort_slice [simp]: "length (sort_slice lt xs) = length xs"
  by (metis mset_sort_slice size_mset)

lemma distinct_sort_slice [simp]: "distinct (sort_slice lt xs) = distinct xs"
  by (metis mset_sort_slice mset_eq_imp_distinct_iff)

locale strict_weak_order =
  fixes lt :: "'a \<Rightarrow> 'a \<Rightarrow> bool"
  assumes lt_asym: "lt x y \<Longrightarrow> \<not> lt y x"
    and lt_cotrans: "\<not> lt x y \<Longrightarrow> \<not> lt y z \<Longrightarrow> \<not> lt x z"
begin

lemma sorted_insert_by:
  "sorted_wrt (\<lambda>a b. \<not> lt b a) ys \<Longrightarrow> sorted_wrt (\<lambda>a b. \<not> lt b a) (insert_by lt x ys)"
proof (induction ys)
  case Nil
  then show ?case by simp
next
  case (Cons y ys)
  have elems: "set (insert_by lt x ys) = insert x (set ys)"
    by (metis mset_insert_by set_mset_add_mset_insert set_mset_mset)
  show ?case
  proof (cases "lt y x")
    case True
    with Cons elems show ?thesis by (auto dest: lt_asym)
  next
    case False
    have "\<not> lt z x" if "z \<in> set ys" for z
      using that Cons.prems False lt_cotrans [of z y x] by auto
    with False Cons show ?thesis by auto
  qed
qed

lemma sorted_sort_slice: "sorted_wrt (\<lambda>a b. \<not> lt b a) (sort_slice lt xs)"
  by (induction xs) (simp_all add: sort_slice_def sorted_insert_by)

text \<open>Where no two different elements tie, the result depends only on the elements.\<close>

lemma sorted_unique:
  assumes "sorted_wrt (\<lambda>a b. \<not> lt b a) xs" "sorted_wrt (\<lambda>a b. \<not> lt b a) ys"
    and "mset xs = mset ys"
    and "\<And>a b. a \<in> set xs \<Longrightarrow> b \<in> set xs \<Longrightarrow> \<not> lt a b \<Longrightarrow> \<not> lt b a \<Longrightarrow> a = b"
  shows "xs = ys"
  using assms
proof (induction xs arbitrary: ys)
  case Nil
  then show ?case by simp
next
  case (Cons x xs)
  then obtain y zs where ys: "ys = y # zs"
    by (cases ys) auto
  have same: "set (x # xs) = set ys"
    by (metis Cons.prems(3) set_mset_mset)
  have "\<not> lt y x"
    using Cons.prems(1) same ys by (cases "y = x") (auto dest: lt_asym)
  moreover have "\<not> lt x y"
    using Cons.prems(2) same ys by (cases "y = x") (auto dest: lt_asym)
  ultimately have "x = y"
    using Cons.prems(4) same ys by auto
  with Cons ys show ?case by auto
qed

lemma sort_slice_unique:
  assumes "mset xs = mset ys"
    and "\<And>a b. a \<in> set xs \<Longrightarrow> b \<in> set xs \<Longrightarrow> \<not> lt a b \<Longrightarrow> \<not> lt b a \<Longrightarrow> a = b"
  shows "sort_slice lt xs = sort_slice lt ys"
  by (rule sorted_unique) (use assms in \<open>simp_all add: sorted_sort_slice\<close>)

text \<open>A comparison that looks at one key first and at \<open>lt\<close> only where it ties, as the longer comparison functions do.\<close>

lemma then_key:
  fixes f :: "'a \<Rightarrow> 'k :: linorder"
  shows "strict_weak_order (\<lambda>x y. if f x = f y then lt x y else f x < f y)"
proof
  fix x y z
  let ?lt = "\<lambda>x y. if f x = f y then lt x y else f x < f y"
  show "?lt x y \<Longrightarrow> \<not> ?lt y x"
    by (cases "f x = f y") (auto dest: lt_asym)
  assume "\<not> ?lt x y" "\<not> ?lt y z"
  then show "\<not> ?lt x z"
    using lt_cotrans [of x y z] by (cases "f x = f y"; cases "f y = f z") auto
qed

lemma then_key_desc:
  fixes f :: "'a \<Rightarrow> 'k :: linorder"
  shows "strict_weak_order (\<lambda>x y. if f x = f y then lt x y else f y < f x)"
proof
  fix x y z
  let ?lt = "\<lambda>x y. if f x = f y then lt x y else f y < f x"
  show "?lt x y \<Longrightarrow> \<not> ?lt y x"
    by (cases "f x = f y") (auto dest: lt_asym)
  assume "\<not> ?lt x y" "\<not> ?lt y z"
  then show "\<not> ?lt x z"
    using lt_cotrans [of x y z] by (cases "f x = f y"; cases "f y = f z") auto
qed

end

text \<open>Ordering by a key, ascending: the comparison function of most \<open>sort.Slice\<close> calls of the code.\<close>

interpretation by_key: strict_weak_order "\<lambda>x y. f x < (f y :: 'k :: linorder)" for f
  by unfold_locales auto

lemma swo_by_key: "strict_weak_order (\<lambda>x y. f x < (f y :: 'k :: linorder))"
  by unfold_locales

lemma swo_by_key_desc: "strict_weak_order (\<lambda>x y. f y < (f x :: 'k :: linorder))"
  by unfold_locales auto

section \<open>Integers and time\<close>

text \<open>Go integer division truncates towards zero.\<close>

definition go_div :: "int \<Rightarrow> int \<Rightarrow> int" where
  "go_div a b = sgn a * sgn b * (\<bar>a\<bar> div \<bar>b\<bar>)"

lemma go_div_nonneg: "0 \<le> a \<Longrightarrow> 0 < b \<Longrightarrow> go_div a b = a div b"
  by (cases "a = 0") (auto simp: go_div_def)

abbreviation "go_nanosecond \<equiv> (1 :: int)"
abbreviation "go_millisecond \<equiv> (1000000 :: int)"
abbreviation "go_second \<equiv> (1000000000 :: int)"
abbreviation "go_minute \<equiv> (60000000000 :: int)"
abbreviation "go_hour \<equiv> (3600000000000 :: int)"

text \<open>\<open>Time.Sub\<close> saturates at the range of a 64-bit duration.\<close>

definition time_sub :: "time \<Rightarrow> time \<Rightarrow> duration" where
  "time_sub t u = max (- (2 ^ 63)) (min (2 ^ 63 - 1) (t - u))"

definition time_is_zero :: "time \<Rightarrow> bool" where
  "time_is_zero t \<longleftrightarrow> t = 0"

text \<open>\<open>Time.Truncate\<close> rounds down to a multiple of the duration since the zero time.\<close>

definition time_truncate :: "time \<Rightarrow> duration \<Rightarrow> time" where
  "time_truncate t d = (if d \<le> 0 then t else t - t mod d)"

text \<open>\<open>Time.Unix\<close>: 1970-01-01 is 62135596800 seconds after the zero time.\<close>

definition time_unix :: "time \<Rightarrow> int" where
  "time_unix t = t div go_second - 62135596800"

definition unix_time :: "int \<Rightarrow> time" where
  "unix_time s = (s + 62135596800) * go_second"

lemma time_unix_unix_time [simp]: "time_unix (unix_time s) = s"
  by (simp add: time_unix_def unix_time_def)

lemma time_truncate_le: "0 < d \<Longrightarrow> time_truncate t d \<le> t"
  by (simp add: time_truncate_def)

lemma time_truncate_gt: "0 < d \<Longrightarrow> t - d < time_truncate t d"
  by (simp add: time_truncate_def)

lemma time_sub_ge_iff: "d \<le> 2 ^ 63 - 1 \<Longrightarrow> - (2 ^ 63) < d \<Longrightarrow> time_sub t u \<ge> d \<longleftrightarrow> u + d \<le> t"
  by (auto simp: time_sub_def)

end
