(* ===== verification/GoStrings.thy ===== *)
theory GoStrings
  imports Prelude
begin

text \<open>
  The functions of Go's \<open>strings\<close>, \<open>strconv\<close> and \<open>fmt\<close> packages that the program calls. A Go string is a
  sequence of bytes, modelled as a HOL \<open>string\<close> (each \<open>char\<close> is one byte), so \<open>length\<close> is Go's \<open>len\<close> and the
  order of \<open>List_Lexorder\<close> is Go's \<open><\<close> on strings. White space is Unicode's, matched on its UTF-8 encoding.
\<close>

section \<open>Prefixes, searching, replacing\<close>

definition has_prefix :: "string \<Rightarrow> string \<Rightarrow> bool" where
  "has_prefix s p \<longleftrightarrow> take (length p) s = p"

definition has_suffix :: "string \<Rightarrow> string \<Rightarrow> bool" where
  "has_suffix s p \<longleftrightarrow> has_prefix (rev s) (rev p)"

definition trim_prefix :: "string \<Rightarrow> string \<Rightarrow> string" where
  "trim_prefix s p = (if has_prefix s p then drop (length p) s else s)"

fun contains_sub :: "string \<Rightarrow> string \<Rightarrow> bool" where
  "contains_sub [] p = (p = [])"
| "contains_sub (c # s) p = (has_prefix (c # s) p \<or> contains_sub s p)"

definition contains_char :: "string \<Rightarrow> char \<Rightarrow> bool" where
  "contains_char s c \<longleftrightarrow> c \<in> set s"

text \<open>\<open>strings.Split\<close> at a one-byte separator.\<close>

fun split_on :: "char \<Rightarrow> string \<Rightarrow> string list" where
  "split_on c [] = [[]]"
| "split_on c (x # s) =
     (if x = c then [] # split_on c s
      else (case split_on c s of [] \<Rightarrow> [[x]] | w # ws \<Rightarrow> (x # w) # ws))"

text \<open>\<open>strings.ReplaceAll(s, c, "")\<close> for a one-byte \<open>c\<close>.\<close>

definition remove_char :: "char \<Rightarrow> string \<Rightarrow> string" where
  "remove_char c s = filter (\<lambda>x. x \<noteq> c) s"

lemma has_prefix_append [simp]: "has_prefix (p @ s) p"
  by (simp add: has_prefix_def)

lemma has_prefixD: "has_prefix s p \<Longrightarrow> \<exists>t. s = p @ t"
  unfolding has_prefix_def by (metis append_take_drop_id)

lemma trim_prefix_append [simp]: "trim_prefix (p @ s) p = s"
  by (simp add: trim_prefix_def)

section \<open>White space\<close>

text \<open>The UTF-8 encodings of the code points \<open>unicode.IsSpace\<close> accepts.\<close>

definition space_seqs :: "string list" where
  "space_seqs =
     [[CHR 0x20], [CHR 0x09], [CHR 0x0A], [CHR 0x0B], [CHR 0x0C], [CHR 0x0D],
      [CHR 0xC2, CHR 0x85], [CHR 0xC2, CHR 0xA0], [CHR 0xE1, CHR 0x9A, CHR 0x80],
      [CHR 0xE2, CHR 0x80, CHR 0x80], [CHR 0xE2, CHR 0x80, CHR 0x81], [CHR 0xE2, CHR 0x80, CHR 0x82],
      [CHR 0xE2, CHR 0x80, CHR 0x83], [CHR 0xE2, CHR 0x80, CHR 0x84], [CHR 0xE2, CHR 0x80, CHR 0x85],
      [CHR 0xE2, CHR 0x80, CHR 0x86], [CHR 0xE2, CHR 0x80, CHR 0x87], [CHR 0xE2, CHR 0x80, CHR 0x88],
      [CHR 0xE2, CHR 0x80, CHR 0x89], [CHR 0xE2, CHR 0x80, CHR 0x8A], [CHR 0xE2, CHR 0x80, CHR 0xA8],
      [CHR 0xE2, CHR 0x80, CHR 0xA9], [CHR 0xE2, CHR 0x80, CHR 0xAF], [CHR 0xE2, CHR 0x81, CHR 0x9F],
      [CHR 0xE3, CHR 0x80, CHR 0x80]]"

lemma space_seqs_nonempty: "p \<in> set space_seqs \<Longrightarrow> p \<noteq> []"
  by (auto simp: space_seqs_def)

text \<open>The length of the white-space sequence a string starts with, 0 when it starts with none.\<close>

fun lead_of :: "string list \<Rightarrow> string \<Rightarrow> nat" where
  "lead_of [] s = 0"
| "lead_of (p # ps) s = (if has_prefix s p then length p else lead_of ps s)"

function trim_seqs :: "string list \<Rightarrow> string \<Rightarrow> string" where
  "trim_seqs ps s = (if s = [] \<or> lead_of ps s = 0 then s else trim_seqs ps (drop (lead_of ps s) s))"
  by pat_completeness auto
termination
  by (relation "measure (\<lambda>(ps, s). length s)") auto

declare trim_seqs.simps [simp del]

definition trim_space :: "string \<Rightarrow> string" where
  "trim_space s =
     rev (trim_seqs (map rev space_seqs) (rev (trim_seqs space_seqs s)))"

lemma trim_seqs_suffix: "\<exists>p. s = p @ trim_seqs ps s"
proof (induction ps s rule: trim_seqs.induct)
  case (1 ps s)
  show ?case
  proof (cases "s = [] \<or> lead_of ps s = 0")
    case True
    then show ?thesis by (subst trim_seqs.simps) simp
  next
    case False
    with "1.IH" obtain p where "drop (lead_of ps s) s = p @ trim_seqs ps (drop (lead_of ps s) s)"
      by blast
    then have "s = (take (lead_of ps s) s @ p) @ trim_seqs ps (drop (lead_of ps s) s)"
      by (metis append.assoc append_take_drop_id)
    moreover from False have "trim_seqs ps s = trim_seqs ps (drop (lead_of ps s) s)"
      by (subst trim_seqs.simps) simp
    ultimately show ?thesis by metis
  qed
qed

lemma trim_space_infix: "\<exists>p q. s = p @ trim_space s @ q"
proof -
  obtain p where p: "s = p @ trim_seqs space_seqs s"
    using trim_seqs_suffix by blast
  obtain q where "rev (trim_seqs space_seqs s) = q @ rev (trim_space s)"
    unfolding trim_space_def using trim_seqs_suffix by fastforce
  then have "trim_seqs space_seqs s = trim_space s @ rev q"
    by (metis rev_append rev_rev_ident)
  with p show ?thesis by metis
qed

lemma length_trim_space: "length (trim_space s) \<le> length s"
  using trim_space_infix [of s] by (metis length_append le_add1 le_add2 le_trans)

lemma set_trim_space: "set (trim_space s) \<subseteq> set s"
  using trim_space_infix [of s] by (metis set_append Un_upper1 Un_upper2 subset_trans)

text \<open>A string whose first and last bytes start and end no white-space sequence is left alone.\<close>

definition space_leads :: "char set" where
  "space_leads = {CHR 0x20, CHR 0x09, CHR 0x0A, CHR 0x0B, CHR 0x0C, CHR 0x0D, CHR 0xC2, CHR 0xE1, CHR 0xE2, CHR 0xE3}"

definition space_tails :: "char set" where
  "space_tails = hd ` set (map rev space_seqs)"

lemma lead_of_zero: "(\<And>p. p \<in> set ps \<Longrightarrow> p \<noteq> [] \<and> hd p \<noteq> c) \<Longrightarrow> lead_of ps (c # s) = 0"
proof (induction ps)
  case Nil
  then show ?case by simp
next
  case (Cons p ps)
  then have "p \<noteq> []" "hd p \<noteq> c" by auto
  then have "\<not> has_prefix (c # s) p"
    by (cases p) (auto simp: has_prefix_def)
  with Cons show ?case by simp
qed

lemma trim_seqs_id: "lead_of ps s = 0 \<Longrightarrow> trim_seqs ps s = s"
  by (subst trim_seqs.simps) simp

lemma trim_space_id:
  assumes "s = [] \<or> hd s \<notin> space_leads \<and> last s \<notin> space_tails"
  shows "trim_space s = s"
proof (cases "s = []")
  case True
  then show ?thesis by (simp add: trim_space_def trim_seqs.simps)
next
  case False
  with assms obtain c t where s: "s = c # t" and c: "c \<notin> space_leads"
    by (cases s) auto
  have "lead_of space_seqs s = 0"
    unfolding s by (rule lead_of_zero) (use c in \<open>auto simp: space_seqs_def space_leads_def\<close>)
  then have left: "trim_seqs space_seqs s = s" by (rule trim_seqs_id)
  have r: "rev s = last s # rev (butlast s)"
    using False by (metis append_butlast_last_id rev.simps(2) rev_rev_ident)
  have "lead_of (map rev space_seqs) (rev s) = 0"
    unfolding r
  proof (rule lead_of_zero)
    fix p assume p: "p \<in> set (map rev space_seqs)"
    then have "hd p \<in> space_tails" by (simp add: space_tails_def)
    with False assms have "hd p \<noteq> last s" by metis
    with p space_seqs_nonempty show "p \<noteq> [] \<and> hd p \<noteq> last s" by auto
  qed
  then have "trim_seqs (map rev space_seqs) (rev s) = rev s" by (rule trim_seqs_id)
  with left show ?thesis by (simp add: trim_space_def)
qed

lemma trim_space_Nil [simp]: "trim_space [] = []"
  by (simp add: trim_space_id)

section \<open>Letter case\<close>

definition is_lower :: "char \<Rightarrow> bool" where
  "is_lower c \<longleftrightarrow> CHR ''a'' \<le> c \<and> c \<le> CHR ''z''"

definition is_upper :: "char \<Rightarrow> bool" where
  "is_upper c \<longleftrightarrow> CHR ''A'' \<le> c \<and> c \<le> CHR ''Z''"

definition is_digit :: "char \<Rightarrow> bool" where
  "is_digit c \<longleftrightarrow> CHR ''0'' \<le> c \<and> c \<le> CHR ''9''"

definition ascii_lower :: "char \<Rightarrow> char" where
  "ascii_lower c = (if is_upper c then char_of (of_char c + 32 :: nat) else c)"

definition ascii_upper :: "char \<Rightarrow> char" where
  "ascii_upper c = (if is_lower c then char_of (of_char c - 32 :: nat) else c)"

definition is_ascii :: "string \<Rightarrow> bool" where
  "is_ascii s \<longleftrightarrow> (\<forall>c \<in> set s. (of_char c :: nat) < 128)"

text \<open>
  \<open>strings.ToLower\<close> works byte by byte on an ASCII string. On any other string it maps every rune by the
  Unicode tables; that mapping is the argument \<open>ul\<close> (\<open>uu\<close> for upper case).
\<close>

definition to_lower :: "(string \<Rightarrow> string) \<Rightarrow> string \<Rightarrow> string" where
  "to_lower ul s = (if is_ascii s then map ascii_lower s else ul s)"

definition to_upper :: "(string \<Rightarrow> string) \<Rightarrow> string \<Rightarrow> string" where
  "to_upper uu s = (if is_ascii s then map ascii_upper s else uu s)"

text \<open>
  \<open>strings.EqualFold\<close> against a lower-case ASCII literal: the only non-ASCII runes that fold to ASCII letters
  are U+017F (to s) and U+212A (to k).
\<close>

fun equal_fold :: "string \<Rightarrow> string \<Rightarrow> bool" where
  "equal_fold [] t = (t = [])"
| "equal_fold (c # s) [] = False"
| "equal_fold (c # s) (d # t) =
     (if ascii_lower c = d then equal_fold s t
      else if d = CHR ''s'' \<and> c = CHR 0xC5 \<and> has_prefix s [CHR 0xBF] then equal_fold (drop 1 s) t
      else if d = CHR ''k'' \<and> c = CHR 0xE2 \<and> has_prefix s [CHR 0x84, CHR 0xAA] then equal_fold (drop 2 s) t
      else False)"

section \<open>Decimal numbers\<close>

definition digit_char :: "nat \<Rightarrow> char" where
  "digit_char d = char_of (48 + d)"

definition digit_val :: "char \<Rightarrow> nat" where
  "digit_val c = of_char c - 48"

fun nat_string :: "nat \<Rightarrow> string" where
  "nat_string n = (if n < 10 then [digit_char n] else nat_string (n div 10) @ [digit_char (n mod 10)])"

declare nat_string.simps [simp del]

definition string_nat :: "string \<Rightarrow> nat" where
  "string_nat s = foldl (\<lambda>n c. 10 * n + digit_val c) 0 s"

lemma digit_val_char [simp]: "d < 10 \<Longrightarrow> digit_val (digit_char d) = d"
  by (simp add: digit_val_def digit_char_def)

lemma is_digit_char [simp]: "d < 10 \<Longrightarrow> is_digit (digit_char d)"
  by (simp add: is_digit_def digit_char_def less_eq_char_def)

lemma nat_string_nonempty [simp]: "nat_string n \<noteq> []"
  by (subst nat_string.simps) simp

lemma nat_string_digits: "c \<in> set (nat_string n) \<Longrightarrow> is_digit c"
proof (induction n rule: nat_string.induct)
  case (1 n)
  then show ?case by (cases "n < 10") (auto simp: nat_string.simps [of n])
qed

lemma string_nat_snoc: "string_nat (s @ [c]) = 10 * string_nat s + digit_val c"
  by (simp add: string_nat_def)

lemma string_nat_nat_string [simp]: "string_nat (nat_string n) = n"
proof (induction n rule: nat_string.induct)
  case (1 n)
  show ?case
  proof (cases "n < 10")
    case True
    then show ?thesis by (subst nat_string.simps) (simp add: string_nat_def)
  next
    case False
    with "1.IH" show ?thesis
      by (subst nat_string.simps) (simp add: string_nat_snoc)
  qed
qed

lemma digit_char_eval:
  "digit_char 0 = CHR ''0''" "digit_char 1 = CHR ''1''" "digit_char 2 = CHR ''2''"
  "digit_char 3 = CHR ''3''" "digit_char 4 = CHR ''4''" "digit_char 5 = CHR ''5''"
  "digit_char 6 = CHR ''6''" "digit_char 7 = CHR ''7''" "digit_char 8 = CHR ''8''"
  "digit_char 9 = CHR ''9''"
  by (simp_all add: digit_char_def char_of_def bit_iff_odd)

lemma nat_string_inject [simp]: "nat_string m = nat_string n \<longleftrightarrow> m = n"
  by (metis string_nat_nat_string)

section \<open>Hexadecimal\<close>

definition hex_digit :: "nat \<Rightarrow> char" where
  "hex_digit d = ''0123456789abcdef'' ! d"

text \<open>\<open>hex.EncodeToString\<close>: two digits a byte.\<close>

definition hex_encode :: "string \<Rightarrow> string" where
  "hex_encode bytes = concat (map (\<lambda>c. [hex_digit (of_char c div 16), hex_digit (of_char c mod 16)]) bytes)"

lemma hex_digit_inject: "a < 16 \<Longrightarrow> b < 16 \<Longrightarrow> hex_digit a = hex_digit b \<longleftrightarrow> a = b"
  unfolding hex_digit_def by (subst nth_eq_iff_index_eq) simp_all

lemma hex_encode_Cons: "hex_encode (c # s) = hex_digit (of_char c div 16) # hex_digit (of_char c mod 16) # hex_encode s"
  by (simp add: hex_encode_def)

lemma length_hex_encode [simp]: "length (hex_encode s) = 2 * length s"
  by (induction s) (simp_all add: hex_encode_def)

lemma of_char_256: "(of_char c :: nat) < 256"
  using nat_of_char_less_256 .

lemma hex_encode_inject: "hex_encode s = hex_encode t \<longleftrightarrow> s = t"
proof (induction s arbitrary: t)
  case Nil
  then show ?case by (cases t) (simp_all add: hex_encode_def)
next
  case (Cons c s)
  show ?case
  proof (cases t)
    case Nil
    then show ?thesis by (simp add: hex_encode_def)
  next
    case (Cons d t')
    have b: "(of_char x :: nat) div 16 < 16" "(of_char x :: nat) mod 16 < 16" for x :: char
      using of_char_256 [of x] by (simp_all add: div_less_iff_less_mult)
    have "c = d" if "(of_char c :: nat) div 16 = of_char d div 16" "(of_char c :: nat) mod 16 = of_char d mod 16"
      using that by (metis div_mult_mod_eq of_char_eq_iff)
    then show ?thesis unfolding Cons hex_encode_Cons using b by (auto simp: hex_digit_inject Cons.IH)
  qed
qed

end
