(* ===== verification/NetAddr.thy ===== *)
theory NetAddr
  imports GoStrings
begin

text \<open>
  The functions of Go's \<open>net\<close> package (Go 1.19, the version of \<open>go.mod\<close>) that the program calls: parsing of IP
  addresses and CIDR blocks, membership, address classes, and joining and splitting of host and port. A
  \<open>net.IP\<close> is its 16-byte form, a 128-bit word; an IPv4 address is the IPv4-mapped one, as in Go.
\<close>

type_synonym ip = "128 word"

section \<open>Parsing numbers\<close>

text \<open>\<open>dtoi\<close>: value and length of a leading decimal number, \<open>None\<close> when there is none or it exceeds the bound.\<close>

fun take_digits :: "string \<Rightarrow> string" where
  "take_digits [] = []"
| "take_digits (c # s) = (if is_digit c then c # take_digits s else [])"

definition net_big :: nat where
  "net_big = 16777215"

definition dtoi :: "string \<Rightarrow> (nat \<times> nat) option" where
  "dtoi s = (let d = take_digits s; n = string_nat d
             in if d = [] \<or> net_big \<le> n then None else Some (n, length d))"

text \<open>The bound compared on integers, for evaluation.\<close>

lemma dtoi_code [code]:
  "dtoi s = (let d = take_digits s; n = string_nat d
             in if d = [] \<or> (16777215 :: int) \<le> int n then None else Some (n, length d))"
proof -
  have "net_big \<le> n \<longleftrightarrow> (16777215 :: int) \<le> int n" for n by (simp add: net_big_def)
  then show ?thesis by (simp add: dtoi_def Let_def)
qed

definition hex_val :: "char \<Rightarrow> nat option" where
  "hex_val c =
     (if is_digit c then Some (of_char c - 48)
      else if CHR ''a'' \<le> c \<and> c \<le> CHR ''f'' then Some (of_char c - 87)
      else if CHR ''A'' \<le> c \<and> c \<le> CHR ''F'' then Some (of_char c - 55)
      else None)"

fun take_hex :: "string \<Rightarrow> nat list" where
  "take_hex [] = []"
| "take_hex (c # s) = (case hex_val c of Some v \<Rightarrow> v # take_hex s | None \<Rightarrow> [])"

definition xtoi :: "string \<Rightarrow> (nat \<times> nat) option" where
  "xtoi s = (let d = take_hex s; n = foldl (\<lambda>a v. 16 * a + v) 0 d
             in if d = [] \<or> net_big \<le> n then None else Some (n, length d))"

section \<open>IPv4 and IPv6 addresses\<close>

text \<open>The four decimal fields of an IPv4 address, separated by dots, without leading zeros.\<close>

fun ipv4_fields :: "nat \<Rightarrow> bool \<Rightarrow> string \<Rightarrow> nat list option" where
  "ipv4_fields 0 dot s = (if s = [] then Some [] else None)"
| "ipv4_fields (Suc k) dot s =
     (if s = [] then None
      else if dot \<and> hd s \<noteq> CHR ''.'' then None
      else let t = (if dot then tl s else s)
           in case dtoi t of
                None \<Rightarrow> None
              | Some (n, c) \<Rightarrow>
                  if 255 < n then None
                  else if 1 < c \<and> hd t = CHR ''0'' then None
                  else map_option (\<lambda>ns. n # ns) (ipv4_fields k True (drop c t)))"

definition ip_of_v4 :: "32 word \<Rightarrow> ip" where
  "ip_of_v4 a = push_bit 32 0xFFFF OR ucast a"

definition v4_of_bytes :: "nat list \<Rightarrow> 32 word" where
  "v4_of_bytes bs = foldl (\<lambda>a b. 256 * a + of_nat b) 0 bs"

definition parse_ipv4 :: "string \<Rightarrow> ip option" where
  "parse_ipv4 s = map_option (\<lambda>bs. ip_of_v4 (v4_of_bytes bs)) (ipv4_fields 4 False s)"

text \<open>
  The loop of \<open>parseIPv6\<close>. The state is the list of bytes read so far and the position of the ellipsis; the
  first argument bounds the number of 16-bit groups, eight.
\<close>

fun ipv6_loop :: "nat \<Rightarrow> nat list \<Rightarrow> nat option \<Rightarrow> string \<Rightarrow> (nat list \<times> nat option) option" where
  "ipv6_loop 0 bs ell s = (if s = [] then Some (bs, ell) else None)"
| "ipv6_loop (Suc k) bs ell s =
     (case xtoi s of
        None \<Rightarrow> None
      | Some (n, c) \<Rightarrow>
          if 65535 < n then None
          else if c < length s \<and> s ! c = CHR ''.'' then
            (if ell = None \<and> length bs \<noteq> 12 then None
             else if 16 < length bs + 4 then None
             else map_option (\<lambda>fs. (bs @ fs, ell)) (ipv4_fields 4 False s))
          else
            (let bs' = bs @ [n div 256, n mod 256]; t = drop c s
             in if t = [] then Some (bs', ell)
                else if hd t \<noteq> CHR '':'' \<or> length t = 1 then None
                else let u = tl t
                     in if hd u = CHR '':'' then
                          (if ell \<noteq> None then None
                           else if tl u = [] then Some (bs', Some (length bs'))
                           else ipv6_loop k bs' (Some (length bs')) (tl u))
                        else ipv6_loop k bs' ell u))"

definition bytes_ip :: "nat list \<Rightarrow> ip" where
  "bytes_ip bs = foldl (\<lambda>a b. 256 * a + of_nat b) 0 bs"

definition parse_ipv6 :: "string \<Rightarrow> ip option" where
  "parse_ipv6 s =
     (let ell0 = (if has_prefix s ''::'' then Some 0 else None);
          t = (if has_prefix s ''::'' then drop 2 s else s)
      in if has_prefix s ''::'' \<and> t = [] then Some 0
         else case ipv6_loop 8 [] ell0 t of
                None \<Rightarrow> None
              | Some (bs, ell) \<Rightarrow>
                  (case ell of
                     None \<Rightarrow> if length bs < 16 then None else Some (bytes_ip bs)
                   | Some e \<Rightarrow> if length bs < 16
                              then Some (bytes_ip (take e bs @ replicate (16 - length bs) 0 @ drop e bs))
                              else None))"

text \<open>\<open>net.ParseIP\<close> looks for the first dot or colon to choose the syntax.\<close>

definition parse_ip :: "string \<Rightarrow> ip option" where
  "parse_ip s =
     (case find (\<lambda>c. c = CHR ''.'' \<or> c = CHR '':'') s of
        None \<Rightarrow> None
      | Some c \<Rightarrow> if c = CHR ''.'' then parse_ipv4 s else parse_ipv6 s)"

section \<open>Classes of addresses\<close>

definition ip_to4 :: "ip \<Rightarrow> (32 word) option" where
  "ip_to4 a = (if drop_bit 32 a = 0xFFFF then Some (ucast a) else None)"

definition octet :: "32 word \<Rightarrow> nat \<Rightarrow> nat" where
  "octet a i = unat (drop_bit (8 * (3 - i)) a) mod 256"

lemma octet_code [code]: "octet a i = nat (uint (drop_bit (8 * (3 - i)) a) mod 256)"
  by (simp add: octet_def nat_mod_distrib)

definition octet6 :: "ip \<Rightarrow> nat \<Rightarrow> nat" where
  "octet6 a i = unat (drop_bit (8 * (15 - i)) a) mod 256"

definition is_unspecified :: "ip \<Rightarrow> bool" where
  "is_unspecified a \<longleftrightarrow> ip_to4 a = Some 0 \<or> a = 0"

definition is_loopback :: "ip \<Rightarrow> bool" where
  "is_loopback a = (case ip_to4 a of Some v \<Rightarrow> octet v 0 = 127 | None \<Rightarrow> a = 1)"

definition is_private :: "ip \<Rightarrow> bool" where
  "is_private a =
     (case ip_to4 a of
        Some v \<Rightarrow> octet v 0 = 10 \<or> (octet v 0 = 172 \<and> octet v 1 div 16 = 1) \<or> (octet v 0 = 192 \<and> octet v 1 = 168)
      | None \<Rightarrow> octet6 a 0 div 2 = 126)"

definition is_multicast :: "ip \<Rightarrow> bool" where
  "is_multicast a = (case ip_to4 a of Some v \<Rightarrow> octet v 0 div 16 = 14 | None \<Rightarrow> octet6 a 0 = 255)"

definition is_link_local_unicast :: "ip \<Rightarrow> bool" where
  "is_link_local_unicast a =
     (case ip_to4 a of Some v \<Rightarrow> octet v 0 = 169 \<and> octet v 1 = 254
      | None \<Rightarrow> octet6 a 0 = 254 \<and> octet6 a 1 div 64 = 2)"

definition is_link_local_multicast :: "ip \<Rightarrow> bool" where
  "is_link_local_multicast a =
     (case ip_to4 a of Some v \<Rightarrow> octet v 0 = 224 \<and> octet v 1 = 0 \<and> octet v 2 = 0
      | None \<Rightarrow> octet6 a 0 = 255 \<and> octet6 a 1 mod 16 = 2)"

section \<open>CIDR blocks\<close>

text \<open>
  A \<open>net.IPNet\<close>: the masked network number in its 16-byte form and the mask, 32 bits long for an IPv4 block and
  128 bits long for an IPv6 one.
\<close>

datatype ipnet = Net4 "32 word" "32 word" | Net6 ip ip

definition mask_of :: "nat \<Rightarrow> nat \<Rightarrow> 'a :: len word" where
  "mask_of width n = push_bit (width - n) (-1)"

fun split_at_char :: "char \<Rightarrow> string \<Rightarrow> (string \<times> string) option" where
  "split_at_char c [] = None"
| "split_at_char c (x # s) =
     (if x = c then Some ([], s) else map_option (\<lambda>(a, b). (x # a, b)) (split_at_char c s))"

definition parse_cidr :: "string \<Rightarrow> ipnet option" where
  "parse_cidr s =
     (case split_at_char CHR ''/'' s of
        None \<Rightarrow> None
      | Some (addr, m) \<Rightarrow>
          (case ipv4_fields 4 False addr of
             Some bs \<Rightarrow>
               (case dtoi m of
                  Some (n, c) \<Rightarrow> if c = length m \<and> n \<le> 32
                                then Some (Net4 (v4_of_bytes bs AND mask_of 32 n) (mask_of 32 n)) else None
                | None \<Rightarrow> None)
           | None \<Rightarrow>
               (case parse_ipv6 addr of
                  None \<Rightarrow> None
                | Some a \<Rightarrow>
                    (case dtoi m of
                       Some (n, c) \<Rightarrow> if c = length m \<and> n \<le> 128
                                     then Some (Net6 (a AND mask_of 128 n) (mask_of 128 n)) else None
                     | None \<Rightarrow> None))))"

text \<open>
  \<open>IPNet.Contains\<close>: both sides are brought to four bytes where they are IPv4 (mapped) addresses; a block whose
  masked number is IPv4-mapped is compared as IPv4, with the last 32 bits of its mask.
\<close>

definition net_contains :: "ipnet \<Rightarrow> ip \<Rightarrow> bool" where
  "net_contains net a =
     (case net of
        Net4 nn m \<Rightarrow> (case ip_to4 a of Some v \<Rightarrow> nn AND m = v AND m | None \<Rightarrow> False)
      | Net6 nn m \<Rightarrow>
          (case ip_to4 nn of
             Some nv \<Rightarrow> (case ip_to4 a of Some v \<Rightarrow> nv AND ucast m = v AND ucast m | None \<Rightarrow> False)
           | None \<Rightarrow> (case ip_to4 a of Some v \<Rightarrow> False | None \<Rightarrow> nn AND m = a AND m)))"

section \<open>Host and port\<close>

definition join_host_port :: "string \<Rightarrow> string \<Rightarrow> string" where
  "join_host_port host port =
     (if contains_char host CHR '':'' then ''['' @ host @ '']:'' @ port else host @ '':'' @ port)"

text \<open>The parts of a string before and after its last colon.\<close>

fun split_last_colon :: "string \<Rightarrow> (string \<times> string) option" where
  "split_last_colon [] = None"
| "split_last_colon (c # s) =
     (case split_last_colon s of
        Some (a, b) \<Rightarrow> Some (c # a, b)
      | None \<Rightarrow> if c = CHR '':'' then Some ([], s) else None)"

definition split_host_port :: "string \<Rightarrow> (string \<times> string) option" where
  "split_host_port hp =
     (case split_last_colon hp of
        None \<Rightarrow> None
      | Some (pre, port) \<Rightarrow>
          if has_prefix hp ''['' then
            (case split_at_char CHR '']'' hp of
               None \<Rightarrow> None
             | Some (inside, rest) \<Rightarrow>
                 if rest = '':'' @ port \<and> CHR ''['' \<notin> set (tl hp) \<and> CHR '']'' \<notin> set rest
                 then Some (tl inside, port) else None)
          else if contains_char pre CHR '':'' then None
          else if CHR ''['' \<in> set hp \<or> CHR '']'' \<in> set hp then None
          else Some (pre, port))"

section \<open>Facts about joined addresses\<close>

lemma split_last_colon_append:
  "CHR '':'' \<notin> set port \<Longrightarrow> split_last_colon (host @ CHR '':'' # port) = Some (host, port)"
proof (induction host)
  case Nil
  then have "split_last_colon port = None"
    by (induction port) auto
  then show ?case by simp
next
  case (Cons c host)
  then show ?case by simp
qed

lemma split_at_char_append:
  "c \<notin> set a \<Longrightarrow> split_at_char c (a @ c # b) = Some (a, b)"
  by (induction a) auto

lemma split_join_host_port:
  assumes "CHR ''['' \<notin> set host" "CHR '']'' \<notin> set host"
    and "CHR ''['' \<notin> set port" "CHR '']'' \<notin> set port" "CHR '':'' \<notin> set port"
  shows "split_host_port (join_host_port host port) = Some (host, port)"
proof (cases "contains_char host CHR '':''")
  case True
  let ?hp = "CHR ''['' # host @ CHR '']'' # CHR '':'' # port"
  have "split_last_colon ((CHR ''['' # host @ [CHR '']'']) @ CHR '':'' # port)
      = Some (CHR ''['' # host @ [CHR '']''], port)"
    by (rule split_last_colon_append) (use assms in simp)
  then have last: "split_last_colon ?hp = Some (CHR ''['' # host @ [CHR '']''], port)"
    by simp
  have "split_at_char CHR '']'' ((CHR ''['' # host) @ CHR '']'' # CHR '':'' # port)
      = Some (CHR ''['' # host, CHR '':'' # port)"
    by (rule split_at_char_append) (use assms in simp)
  then have mid: "split_at_char CHR '']'' ?hp = Some (CHR ''['' # host, CHR '':'' # port)"
    by simp
  show ?thesis
    using True assms last mid
    by (simp add: split_host_port_def join_host_port_def has_prefix_def
        del: split_last_colon.simps split_at_char.simps)
next
  case False
  then have "split_last_colon (host @ CHR '':'' # port) = Some (host, port)"
    using assms by (simp add: split_last_colon_append)
  moreover have "\<not> has_prefix (host @ CHR '':'' # port) ''[''"
    using assms by (cases host) (auto simp: has_prefix_def)
  ultimately show ?thesis
    using False assms by (simp add: split_host_port_def join_host_port_def contains_char_def)
qed

lemma not_digit_colon: "is_digit c \<Longrightarrow> c \<noteq> CHR '':'' \<and> c \<noteq> CHR ''['' \<and> c \<noteq> CHR '']''"
  by (auto simp: is_digit_def less_eq_char_def)

text \<open>The port of a joined address can be read back, so different ports give different addresses.\<close>

lemma split_last_colon_join:
  assumes "CHR '':'' \<notin> set port"
  shows "\<exists>h. split_last_colon (join_host_port host port) = Some (h, port)
           \<and> h = (if contains_char host CHR '':'' then ''['' @ host @ '']'' else host)"
  using assms split_last_colon_append [of port host]
    split_last_colon_append [of port "''['' @ host @ '']''"]
  by (simp add: join_host_port_def)

lemma join_host_port_inject:
  assumes "CHR '':'' \<notin> set p" "CHR '':'' \<notin> set q"
    and "join_host_port h p = join_host_port g q"
  shows "p = q \<and> (h = g \<or> h = ''['' @ g @ '']'' \<or> g = ''['' @ h @ '']'')"
  using split_last_colon_join [OF assms(1), of h] split_last_colon_join [OF assms(2), of g] assms(3)
  by (auto split: if_splits)

lemma ipv4_fields_4: "ipv4_fields 4 dot s = ipv4_fields (Suc (Suc (Suc (Suc 0)))) dot s"
  by (rule arg_cong [where f = "\<lambda>k. ipv4_fields k dot s"]) simp

lemma ipv6_loop_8:
  "ipv6_loop 8 bs e s = ipv6_loop (Suc (Suc (Suc (Suc (Suc (Suc (Suc (Suc 0)))))))) bs e s"
  by (rule arg_cong [where f = "\<lambda>k. ipv6_loop k bs e s"]) simp

lemma replicate_num: "replicate (numeral k) x = x # replicate (pred_numeral k) x"
  by (simp add: numeral_eq_Suc)

text \<open>The equations that evaluate the functions of this theory on literals.\<close>

lemmas char_eval = is_digit_def is_lower_def is_upper_def less_eq_char_def less_char_def
lemmas string_eval = char_eval has_prefix_def has_suffix_def trim_prefix_def contains_char_def
  string_nat_def digit_val_def
lemmas net_eval = string_eval dtoi_def xtoi_def hex_val_def net_big_def Let_def ipv4_fields_4
  ipv6_loop_8 ip_of_v4_def v4_of_bytes_def bytes_ip_def parse_ipv4_def parse_ipv6_def parse_ip_def
  parse_cidr_def ip_to4_def octet_def octet6_def is_unspecified_def is_loopback_def is_private_def
  is_multicast_def is_link_local_unicast_def is_link_local_multicast_def mask_of_def net_contains_def
  mask_numeral replicate_num

lemma nat_string_no_colon: "CHR '':'' \<notin> set (nat_string n)"
  using nat_string_digits not_digit_colon by blast

end
