(* ===== verification/Domain.thy ===== *)
theory Domain
  imports NetAddr
begin

text \<open>
  The shared model of \<open>internal/domain/model.go\<close>: protocols, nodes, forwarding rules and the validation every
  rule passes before the agent or the control plane uses it. The string-typed enumerations of the source
  (\<open>Protocol\<close>, \<open>NodeStatus\<close>, the forwarding mode) stay strings, because the source checks them at run time.
\<close>

section \<open>Protocols and modes\<close>

type_synonym protocol = string
type_synonym node_status = string

abbreviation "ProtocolTCP \<equiv> ''tcp''"
abbreviation "ProtocolUDP \<equiv> ''udp''"
abbreviation "ProtocolTCPUDP \<equiv> ''tcp_udp''"
abbreviation "ForwardDirect \<equiv> ''direct''"
abbreviation "ForwardRelay \<equiv> ''relay''"
abbreviation "NodeOnline \<equiv> ''online''"
abbreviation "NodeOffline \<equiv> ''offline''"
abbreviation "NodeDisabled \<equiv> ''disabled''"

definition MaxBandwidthKbps :: u64 where
  "MaxBandwidthKbps = 10000000"

definition ProtocolsOverlap :: "protocol \<Rightarrow> protocol \<Rightarrow> bool" where
  "ProtocolsOverlap first second =
     (if first = ProtocolTCPUDP \<or> second = ProtocolTCPUDP then True else first = second)"

definition ValidTunnelAddress :: "string \<Rightarrow> bool" where
  "ValidTunnelAddress value =
     (case parse_ip (trim_space value) of
        None \<Rightarrow> False
      | Some address \<Rightarrow> ip_to4 address \<noteq> None \<and> \<not> is_unspecified address
                        \<and> (is_private address \<or> is_loopback address))"

section \<open>Nodes and rules\<close>

record node =
  node_id :: string
  node_name :: string
  node_region :: string
  node_public_ip :: string
  node_status :: node_status
  node_architecture :: string
  node_agent_version :: string
  node_last_heartbeat :: time
  node_config_version :: u64
  node_applied_config_version :: u64
  node_attempted_config_version :: u64
  node_last_config_error :: string
  node_last_config_attempt :: time
  node_cpu_percent :: float64
  node_memory_percent :: float64
  node_load_one :: float64
  node_disk_percent :: float64
  node_network_rx_bps :: u64
  node_network_tx_bps :: u64
  node_active_conns :: u64
  node_bytes_in :: u64
  node_bytes_out :: u64
  node_tunnel_address :: string

text \<open>The zero value of the struct, which reading an absent key of a Go map returns.\<close>

definition zero_node :: node where
  "zero_node = \<lparr>node_id = [], node_name = [], node_region = [], node_public_ip = [], node_status = [],
     node_architecture = [], node_agent_version = [], node_last_heartbeat = 0, node_config_version = 0,
     node_applied_config_version = 0, node_attempted_config_version = 0, node_last_config_error = [],
     node_last_config_attempt = 0, node_cpu_percent = Fin 0, node_memory_percent = Fin 0,
     node_load_one = Fin 0, node_disk_percent = Fin 0, node_network_rx_bps = 0, node_network_tx_bps = 0,
     node_active_conns = 0, node_bytes_in = 0, node_bytes_out = 0, node_tunnel_address = []\<rparr>"

record forward_rule =
  rule_id :: string
  rule_name :: string
  rule_protocol :: protocol
  rule_mode :: string
  rule_ingress :: string
  rule_egress :: string
  rule_listen_host :: string
  rule_listen_port :: u16
  rule_target_host :: string
  rule_target_port :: u16
  rule_relay_host :: string
  rule_relay_port :: u16
  rule_enabled :: bool
  rule_bandwidth_kbps :: u64
  rule_max_connections :: u32
  rule_allow_cidrs :: "string list"
  rule_deny_cidrs :: "string list"
  rule_config_version :: u64
  rule_egress_config_version :: u64
  rule_active_conns :: u64
  rule_bytes_in :: u64
  rule_bytes_out :: u64
  rule_runtime_updated :: time

section \<open>Validation\<close>

datatype rule_error =
    RuleIDRequired | RuleNameRequired | UnsupportedProtocol string | UnsupportedMode string
  | IngressRequired | EgressRequired | NodesMustDiffer | RelayPortRequired | RelayTunnelRequired
  | DirectRelayEndpoint | DirectEgress | PortsRequired | BandwidthTooHigh | TargetHostRequired
  | InvalidCIDR string

text \<open>The loop over the allow and deny lists: the first block that does not parse is the error.\<close>

fun first_bad_cidr :: "string list \<Rightarrow> string option" where
  "first_bad_cidr [] = None"
| "first_bad_cidr (c # cs) = (if parse_cidr c = None then Some c else first_bad_cidr cs)"

definition rule_validate :: "forward_rule \<Rightarrow> rule_error option" where
  "rule_validate r =
     (if trim_space (rule_id r) = [] then Some RuleIDRequired
      else if trim_space (rule_name r) = [] then Some RuleNameRequired
      else if rule_protocol r \<noteq> ProtocolTCP \<and> rule_protocol r \<noteq> ProtocolUDP \<and> rule_protocol r \<noteq> ProtocolTCPUDP
        then Some (UnsupportedProtocol (rule_protocol r))
      else if rule_mode r \<noteq> ForwardDirect \<and> rule_mode r \<noteq> ForwardRelay then Some (UnsupportedMode (rule_mode r))
      else if rule_ingress r = [] then Some IngressRequired
      else if rule_mode r = ForwardRelay \<and> rule_egress r = [] then Some EgressRequired
      else if rule_mode r = ForwardRelay \<and> rule_ingress r = rule_egress r then Some NodesMustDiffer
      else if rule_mode r = ForwardRelay \<and> rule_relay_port r = 0 then Some RelayPortRequired
      else if rule_mode r = ForwardRelay \<and> rule_enabled r \<and> \<not> ValidTunnelAddress (rule_relay_host r)
        then Some RelayTunnelRequired
      else if rule_mode r = ForwardDirect \<and> (rule_relay_host r \<noteq> [] \<or> rule_relay_port r \<noteq> 0)
        then Some DirectRelayEndpoint
      else if rule_mode r = ForwardDirect \<and> rule_egress r \<noteq> [] then Some DirectEgress
      else if rule_listen_port r = 0 \<or> rule_target_port r = 0 then Some PortsRequired
      else if rule_bandwidth_kbps r > MaxBandwidthKbps then Some BandwidthTooHigh
      else if trim_space (rule_target_host r) = [] then Some TargetHostRequired
      else map_option InvalidCIDR (first_bad_cidr (rule_allow_cidrs r @ rule_deny_cidrs r)))"

section \<open>What validation guarantees\<close>

text \<open>The transports a protocol opens; the abstract reading of the protocol enumeration.\<close>

definition transports :: "protocol \<Rightarrow> string set" where
  "transports p =
     (if p = ProtocolTCP then {''tcp''} else if p = ProtocolUDP then {''udp''}
      else if p = ProtocolTCPUDP then {''tcp'', ''udp''} else {})"

definition valid_protocol :: "protocol \<Rightarrow> bool" where
  "valid_protocol p \<longleftrightarrow> p = ProtocolTCP \<or> p = ProtocolUDP \<or> p = ProtocolTCPUDP"

lemma first_bad_cidr_None: "first_bad_cidr cs = None \<longleftrightarrow> (\<forall>c \<in> set cs. parse_cidr c \<noteq> None)"
  by (induction cs) auto

lemma first_bad_cidr_Some:
  "first_bad_cidr cs = Some c \<Longrightarrow> c \<in> set cs \<and> parse_cidr c = None"
  by (induction cs) (auto split: if_splits)

lemma rule_valid_protocol: "rule_validate r = None \<Longrightarrow> valid_protocol (rule_protocol r)"
  by (auto simp: rule_validate_def valid_protocol_def split: if_splits)

lemma rule_valid_mode:
  "rule_validate r = None \<Longrightarrow> rule_mode r = ForwardDirect \<or> rule_mode r = ForwardRelay"
  by (auto simp: rule_validate_def split: if_splits)

lemma rule_valid_relay:
  "rule_validate r = None \<Longrightarrow> rule_mode r = ForwardRelay \<Longrightarrow>
     rule_egress r \<noteq> [] \<and> rule_ingress r \<noteq> rule_egress r \<and> rule_relay_port r \<noteq> 0
     \<and> (rule_enabled r \<longrightarrow> ValidTunnelAddress (rule_relay_host r))"
  by (auto simp: rule_validate_def split: if_splits)

lemma rule_valid_direct:
  "rule_validate r = None \<Longrightarrow> rule_mode r = ForwardDirect \<Longrightarrow>
     rule_egress r = [] \<and> rule_relay_host r = [] \<and> rule_relay_port r = 0"
  by (auto simp: rule_validate_def split: if_splits)

lemma rule_valid_ids:
  "rule_validate r = None \<Longrightarrow> rule_id r \<noteq> [] \<and> rule_name r \<noteq> [] \<and> rule_ingress r \<noteq> []"
  by (auto simp: rule_validate_def split: if_splits)

lemma rule_valid_ports:
  "rule_validate r = None \<Longrightarrow> rule_listen_port r \<noteq> 0 \<and> rule_target_port r \<noteq> 0
     \<and> rule_bandwidth_kbps r \<le> MaxBandwidthKbps"
  by (auto simp: rule_validate_def split: if_splits)

lemma rule_valid_cidrs:
  "rule_validate r = None \<Longrightarrow> \<forall>c \<in> set (rule_allow_cidrs r) \<union> set (rule_deny_cidrs r). parse_cidr c \<noteq> None"
  by (auto simp: rule_validate_def first_bad_cidr_None split: if_splits)

lemmas rule_validD = rule_valid_protocol rule_valid_mode rule_valid_relay rule_valid_direct
  rule_valid_ids rule_valid_ports rule_valid_cidrs

lemma ProtocolsOverlap_sym: "ProtocolsOverlap p q = ProtocolsOverlap q p"
  by (auto simp: ProtocolsOverlap_def)

lemma ProtocolsOverlap_transports:
  "valid_protocol p \<Longrightarrow> valid_protocol q \<Longrightarrow> ProtocolsOverlap p q \<longleftrightarrow> transports p \<inter> transports q \<noteq> {}"
  by (auto simp: ProtocolsOverlap_def transports_def valid_protocol_def)

end
