(* ===== verification/Prepare.thy ===== *)
theory Prepare
  imports Domain
begin

text \<open>
  The checks of \<open>internal/forward/tcp.go\<close> before anything is opened: \<open>prepareRules\<close> turns the rules an agent is given
  into the listeners it must run, and \<open>permits\<close> decides by the allow and deny lists who may connect.
\<close>

section \<open>Prepared rules\<close>

record prepared_rule =
  prep_rule :: forward_rule
  prep_listen :: string
  prep_target :: string
  prep_allow :: "ipnet list"
  prep_deny :: "ipnet list"

datatype prepare_error =
    InvalidRule string rule_error | DuplicateRule string | NotMyRelay string string
  | BothListen string string string string

text \<open>
  The rule as this node runs it: the ingress of a relay connects to the relay endpoint, the egress listens on it
  without the address lists and the bandwidth limit. A relay rule of other nodes is refused.
\<close>

definition effective_rule :: "string \<Rightarrow> forward_rule \<Rightarrow> forward_rule option" where
  "effective_rule nid r =
     (if rule_mode r = ForwardRelay
      then if nid = rule_ingress r
           then Some (r\<lparr>rule_target_host := rule_relay_host r, rule_target_port := rule_relay_port r\<rparr>)
           else if nid = rule_egress r
           then Some (r\<lparr>rule_listen_host := rule_relay_host r, rule_listen_port := rule_relay_port r,
                        rule_bandwidth_kbps := 0, rule_allow_cidrs := [], rule_deny_cidrs := []\<rparr>)
           else None
      else Some r)"

definition port_string :: "u16 \<Rightarrow> string" where
  "port_string p = nat_string (unat p)"

text \<open>The digits of a port computed on integers, for evaluation.\<close>

function int_digits :: "int \<Rightarrow> string" where
  "int_digits k = (if k < 10 then [digit_char (nat k)] else int_digits (k div 10) @ [digit_char (nat (k mod 10))])"
  by auto
termination by (relation "measure nat") auto

lemma int_digits_nat: "int_digits (int n) = nat_string n"
proof (induction n rule: nat_string.induct)
  case (1 n)
  show ?case
  proof (cases "n < 10")
    case True
    then show ?thesis by (subst int_digits.simps, subst nat_string.simps) simp
  next
    case False
    then have "int_digits (int n div 10) = nat_string (n div 10)" using 1 by (simp add: zdiv_int)
    moreover have "nat (int n mod 10) = n mod 10" by (simp add: nat_mod_distrib)
    ultimately show ?thesis using False by (subst int_digits.simps, subst nat_string.simps) simp
  qed
qed

lemma port_string_code [code]: "port_string p = int_digits (uint p)"
  unfolding port_string_def uint_nat by (rule int_digits_nat [symmetric])

definition listen_address :: "forward_rule \<Rightarrow> string" where
  "listen_address r =
     (let host = trim_space (rule_listen_host r)
      in join_host_port (if host = [] then ''0.0.0.0'' else host) (port_string (rule_listen_port r)))"

text \<open>\<open>Validate\<close> has parsed every block, so the blocks that do not parse, which are dropped here, do not occur.\<close>

definition prepare_rule :: "forward_rule \<Rightarrow> prepared_rule" where
  "prepare_rule r = \<lparr>prep_rule = r, prep_listen = listen_address r,
     prep_target = join_host_port (trim_space (rule_target_host r)) (port_string (rule_target_port r)),
     prep_allow = List.map_filter parse_cidr (rule_allow_cidrs r),
     prep_deny = List.map_filter parse_cidr (rule_deny_cidrs r)\<rparr>"

definition rule_networks :: "forward_rule \<Rightarrow> string list" where
  "rule_networks r =
     (if rule_protocol r = ProtocolTCP \<or> rule_protocol r = ProtocolTCPUDP then [''tcp''] else [])
     @ (if rule_protocol r = ProtocolUDP \<or> rule_protocol r = ProtocolTCPUDP then [''udp''] else [])"

fun claim_listeners :: "string \<Rightarrow> string \<Rightarrow> string list \<Rightarrow> (string, string) gomap
    \<Rightarrow> prepare_error + (string, string) gomap" where
  "claim_listeners rid addr [] listeners = Inr listeners"
| "claim_listeners rid addr (net # nets) listeners =
     (let key = net @ ''|'' @ addr
      in case map_of listeners key of
           Some other \<Rightarrow> Inl (BothListen other rid net addr)
         | None \<Rightarrow> claim_listeners rid addr nets (gput key rid listeners))"

fun prepare_loop :: "string \<Rightarrow> forward_rule list \<Rightarrow> (string, prepared_rule) gomap \<Rightarrow> (string, string) gomap
    \<Rightarrow> prepare_error + (string, prepared_rule) gomap" where
  "prepare_loop nid [] desired listeners = Inr desired"
| "prepare_loop nid (r # rs) desired listeners =
     (case rule_validate r of
        Some e \<Rightarrow> Inl (InvalidRule (rule_id r) e)
      | None \<Rightarrow>
          if \<not> rule_enabled r then prepare_loop nid rs desired listeners
          else if ghas desired (rule_id r) then Inl (DuplicateRule (rule_id r))
          else (case effective_rule nid r of
                  None \<Rightarrow> Inl (NotMyRelay (rule_id r) nid)
                | Some e \<Rightarrow>
                    (case claim_listeners (rule_id r) (listen_address e) (rule_networks e) listeners of
                       Inl err \<Rightarrow> Inl err
                     | Inr listeners' \<Rightarrow> prepare_loop nid rs (gput (rule_id r) (prepare_rule e) desired) listeners')))"

definition prepareRules :: "forward_rule list \<Rightarrow> string \<Rightarrow> prepare_error + (string, prepared_rule) gomap" where
  "prepareRules rs nid = prepare_loop nid rs [] []"

section \<open>Admission of clients\<close>

fun any_contains :: "ipnet list \<Rightarrow> ip \<Rightarrow> bool" where
  "any_contains [] a = False"
| "any_contains (n # ns) a = (if net_contains n a then True else any_contains ns a)"

definition permits :: "prepared_rule \<Rightarrow> string \<Rightarrow> bool" where
  "permits c address =
     (case split_host_port address of
        None \<Rightarrow> False
      | Some (host, port) \<Rightarrow>
          (case parse_ip host of
             None \<Rightarrow> False
           | Some a \<Rightarrow> if any_contains (prep_deny c) a then False
                       else if prep_allow c = [] then True
                       else any_contains (prep_allow c) a))"

section \<open>What preparing guarantees\<close>

text \<open>The listeners of a prepared rule set, one per rule and transport.\<close>

definition claims :: "prepared_rule \<Rightarrow> (string \<times> string) set" where
  "claims p = {(net, prep_listen p) |net. net \<in> set (rule_networks (prep_rule p))}"

lemma any_contains_iff: "any_contains ns a \<longleftrightarrow> (\<exists>n \<in> set ns. net_contains n a)"
  by (induction ns) auto

lemma rule_networks_transports: "valid_protocol (rule_protocol r) \<Longrightarrow> set (rule_networks r) = transports (rule_protocol r)"
  by (auto simp: rule_networks_def transports_def valid_protocol_def)

lemma rule_networks_distinct [simp]: "distinct (rule_networks r)"
  by (simp add: rule_networks_def)

lemma rule_networks_in: "set (rule_networks r) \<subseteq> {''tcp'', ''udp''}"
  by (auto simp: rule_networks_def)

definition listener_key :: "string \<times> string \<Rightarrow> string" where
  "listener_key c = fst c @ ''|'' @ snd c"

lemma listener_key_inj:
  "fst c \<in> {''tcp'', ''udp''} \<Longrightarrow> fst d \<in> {''tcp'', ''udp''} \<Longrightarrow> listener_key c = listener_key d \<Longrightarrow> c = d"
  by (cases c; cases d) (auto simp: listener_key_def)

lemma claim_listeners_Inr:
  "claim_listeners rid addr nets ls = Inr ls' \<Longrightarrow>
     fst ` set ls' = fst ` set ls \<union> (\<lambda>n. listener_key (n, addr)) ` set nets
     \<and> (\<forall>n \<in> set nets. listener_key (n, addr) \<notin> fst ` set ls)"
proof (induction nets arbitrary: ls)
  case Nil
  then show ?case by simp
next
  case (Cons n nets)
  have free: "map_of ls (n @ ''|'' @ addr) = None"
    and rest: "claim_listeners rid addr nets (gput (n @ ''|'' @ addr) rid ls) = Inr ls'"
    using Cons.prems by (auto simp: Let_def split: option.splits)
  then have "listener_key (n, addr) \<notin> fst ` set ls" by (simp add: listener_key_def map_of_eq_None_iff)
  with Cons.IH [OF rest] show ?case by (auto simp: listener_key_def)
qed

lemma claim_listeners_free:
  "distinct nets \<Longrightarrow> \<forall>n \<in> set nets. listener_key (n, addr) \<notin> fst ` set ls \<Longrightarrow>
     \<exists>ls'. claim_listeners rid addr nets ls = Inr ls'"
proof (induction nets arbitrary: ls)
  case Nil
  then show ?case by simp
next
  case (Cons n nets)
  have "map_of ls (n @ ''|'' @ addr) = None" using Cons.prems(2) by (simp add: listener_key_def map_of_eq_None_iff)
  moreover have "\<forall>k \<in> set nets. listener_key (k, addr) \<notin> fst ` set (gput (n @ ''|'' @ addr) rid ls)"
    using Cons.prems by (auto simp: listener_key_def)
  ultimately show ?case using Cons.IH Cons.prems(1) by (simp add: Let_def)
qed

text \<open>
  The specification: every rule is valid, the enabled ones belong to the node, and no two of them share an identifier
  or a listener; the result has one entry per enabled rule, in order.
\<close>

definition prepared_as :: "string \<Rightarrow> forward_rule \<Rightarrow> prepared_rule" where
  "prepared_as nid r = prepare_rule (the (effective_rule nid r))"

definition apart :: "string \<Rightarrow> forward_rule \<Rightarrow> forward_rule \<Rightarrow> bool" where
  "apart nid r s \<longleftrightarrow> rule_id r \<noteq> rule_id s \<and> claims (prepared_as nid r) \<inter> claims (prepared_as nid s) = {}"

definition preparable :: "string \<Rightarrow> forward_rule list \<Rightarrow> bool" where
  "preparable nid rs \<longleftrightarrow> (\<forall>r \<in> set rs. rule_validate r = None)
     \<and> (\<forall>r \<in> set (filter rule_enabled rs). effective_rule nid r \<noteq> None)
     \<and> sorted_wrt (apart nid) (filter rule_enabled rs)"

definition entries :: "string \<Rightarrow> forward_rule list \<Rightarrow> (string, prepared_rule) gomap" where
  "entries nid rs = map (\<lambda>r. (rule_id r, prepared_as nid r)) (filter rule_enabled rs)"

lemma effective_rule_same:
  "effective_rule nid r = Some e \<Longrightarrow> rule_id e = rule_id r \<and> rule_protocol e = rule_protocol r \<and> rule_mode e = rule_mode r"
  by (auto simp: effective_rule_def split: if_splits)

lemma prepare_rule_simps [simp]:
  "prep_rule (prepare_rule e) = e" "prep_listen (prepare_rule e) = listen_address e"
  by (simp_all add: prepare_rule_def)

lemma gput_fresh: "k \<notin> fst ` set m \<Longrightarrow> gput k v m = m @ [(k, v)]"
  by (induction m) (auto simp: gput_Cons)

lemma claims_keys:
  "(\<lambda>n. listener_key (n, listen_address e)) ` set (rule_networks e) = listener_key ` claims (prepare_rule e)"
  by (auto simp: claims_def)

lemma claims_networks: "c \<in> claims p \<Longrightarrow> fst c \<in> {''tcp'', ''udp''}"
  by (auto simp: claims_def dest!: subsetD [OF rule_networks_in])

lemma listener_key_mem:
  assumes "fst c \<in> {''tcp'', ''udp''}" "\<forall>d \<in> L. fst d \<in> {''tcp'', ''udp''}"
  shows "listener_key c \<in> listener_key ` L \<longleftrightarrow> c \<in> L"
proof
  assume "listener_key c \<in> listener_key ` L"
  then obtain d where "d \<in> L" "listener_key c = listener_key d" by blast
  with assms listener_key_inj show "c \<in> L" by blast
qed simp

lemma prepare_loop_iff:
  assumes "fst ` set ls = listener_key ` L" "\<forall>c \<in> L. fst c \<in> {''tcp'', ''udp''}"
  shows "prepare_loop nid rs desired ls = Inr D \<longleftrightarrow>
     preparable nid rs
     \<and> (\<forall>r \<in> set (filter rule_enabled rs). rule_id r \<notin> fst ` set desired \<and> claims (prepared_as nid r) \<inter> L = {})
     \<and> D = desired @ entries nid rs"
  using assms
proof (induction rs arbitrary: desired ls L)
  case Nil
  then show ?case by (auto simp: preparable_def entries_def)
next
  case (Cons r rs)
  show ?case
  proof (cases "rule_validate r = None \<and> rule_enabled r")
    case False
    then show ?thesis
      using Cons.IH [OF Cons.prems] by (auto simp: preparable_def entries_def split: option.splits)
  next
    case True
    show ?thesis
    proof (cases "ghas desired (rule_id r) \<or> effective_rule nid r = None")
      case True
      with \<open>rule_validate r = None \<and> rule_enabled r\<close> show ?thesis
        by (auto simp: ghas_iff preparable_def)
    next
      case False
      then obtain e where e: "effective_rule nid r = Some e" by auto
      have pre: "prepared_as nid r = prepare_rule e" by (simp add: prepared_as_def e)
      have fresh: "rule_id r \<notin> fst ` set desired" using False by (simp add: ghas_iff)
      have keys: "listener_key c \<notin> fst ` set ls \<longleftrightarrow> c \<notin> L" if "c \<in> claims (prepare_rule e)" for c
        unfolding Cons.prems(1) using listener_key_mem [OF claims_networks [OF that] Cons.prems(2)] by simp
      show ?thesis
      proof (cases "claims (prepare_rule e) \<inter> L = {}")
        case free: True
        have "\<forall>n \<in> set (rule_networks e). listener_key (n, listen_address e) \<notin> fst ` set ls"
        proof
          fix n assume "n \<in> set (rule_networks e)"
          then have "(n, listen_address e) \<in> claims (prepare_rule e)" by (simp add: claims_def)
          with keys free show "listener_key (n, listen_address e) \<notin> fst ` set ls" by blast
        qed
        then obtain ls' where ls': "claim_listeners (rule_id r) (listen_address e) (rule_networks e) ls = Inr ls'"
          using claim_listeners_free [OF rule_networks_distinct] by blast
        have new: "fst ` set ls' = listener_key ` (L \<union> claims (prepare_rule e))"
          using claim_listeners_Inr [OF ls'] Cons.prems(1) by (simp add: claims_keys image_Un)
        have nets: "\<forall>c \<in> L \<union> claims (prepare_rule e). fst c \<in> {''tcp'', ''udp''}"
          using Cons.prems(2) claims_networks by blast
        have "prepare_loop nid (r # rs) desired ls = Inr D \<longleftrightarrow>
            prepare_loop nid rs (desired @ [(rule_id r, prepare_rule e)]) ls' = Inr D"
          using True False e ls' by (simp add: gput_fresh [OF fresh])
        also have "\<dots> \<longleftrightarrow> preparable nid rs
            \<and> (\<forall>s \<in> set (filter rule_enabled rs). rule_id s \<notin> insert (rule_id r) (fst ` set desired)
                 \<and> claims (prepared_as nid s) \<inter> (L \<union> claims (prepare_rule e)) = {})
            \<and> D = desired @ (rule_id r, prepare_rule e) # entries nid rs"
          using Cons.IH [OF new nets] by simp
        also have "\<dots> \<longleftrightarrow> preparable nid (r # rs)
            \<and> (\<forall>s \<in> set (filter rule_enabled (r # rs)). rule_id s \<notin> fst ` set desired \<and> claims (prepared_as nid s) \<inter> L = {})
            \<and> D = desired @ entries nid (r # rs)"
          using True e fresh free unfolding preparable_def entries_def apart_def by (auto simp: pre)
        finally show ?thesis .
      next
        case taken: False
        have "\<exists>err. claim_listeners (rule_id r) (listen_address e) (rule_networks e) ls = Inl err"
        proof (rule ccontr)
          assume "\<not> ?thesis"
          then obtain ls' where "claim_listeners (rule_id r) (listen_address e) (rule_networks e) ls = Inr ls'"
            by (cases "claim_listeners (rule_id r) (listen_address e) (rule_networks e) ls") auto
          from conjunct2 [OF claim_listeners_Inr [OF this]]
          have "listener_key c \<notin> fst ` set ls" if "c \<in> claims (prepare_rule e)" for c
            using that by (auto simp: claims_def)
          with keys taken show False by blast
        qed
        with True False e taken show ?thesis by (auto simp: pre)
      qed
    qed
  qed
qed

lemma prepared_entries: "prepareRules rs nid = Inr D \<longleftrightarrow> preparable nid rs \<and> D = entries nid rs"
  using prepare_loop_iff [of "[]" "{}" nid rs "[]" D] by (auto simp: prepareRules_def)

text \<open>
  \<open>prepareRules\<close> accepts a rule set exactly when it can run. It succeeds if and only if every rule (enabled or not)
  is valid, every enabled rule belongs to this node, and no two enabled rules share an identifier or claim the same
  transport and listen address; and then the result holds exactly the enabled rules, each under its own identifier
  with the addresses and lists of this node's side of the rule.
\<close>

theorem prepareRules_iff:
  "prepareRules rs nid = Inr D \<longleftrightarrow> preparable nid rs \<and> D = entries nid rs"
  by (rule prepared_entries)

text \<open>
  Admission follows the lists: a client is admitted by a prepared rule if and only if its address parses as host
  and port with a literal IP host, no deny network contains the IP, and the allow list is empty or one of its networks
  contains the IP; the deny list wins over the allow list.
\<close>

theorem permits_iff:
  "permits c address \<longleftrightarrow> (\<exists>host port a. split_host_port address = Some (host, port) \<and> parse_ip host = Some a
     \<and> (\<nexists>n. n \<in> set (prep_deny c) \<and> net_contains n a)
     \<and> (prep_allow c = [] \<or> (\<exists>n. n \<in> set (prep_allow c) \<and> net_contains n a)))"
  by (auto simp: permits_def any_contains_iff split: option.splits)

section \<open>An example rule\<close>

definition web_rule :: "string \<Rightarrow> u16 \<Rightarrow> forward_rule" where
  "web_rule rid port = \<lparr>rule_id = rid, rule_name = ''web'', rule_protocol = ProtocolTCP, rule_mode = ForwardDirect,
     rule_ingress = ''B'', rule_egress = [], rule_listen_host = [], rule_listen_port = port,
     rule_target_host = ''192.168.1.5'', rule_target_port = 80, rule_relay_host = [], rule_relay_port = 0,
     rule_enabled = True, rule_bandwidth_kbps = 800, rule_max_connections = 10, rule_allow_cidrs = [],
     rule_deny_cidrs = [], rule_config_version = 0, rule_egress_config_version = 0, rule_active_conns = 0,
     rule_bytes_in = 0, rule_bytes_out = 0, rule_runtime_updated = 0\<rparr>"

end
