(* ===== verification/Bandwidth.thy ===== *)
theory Bandwidth
  imports Prelude
begin

text \<open>
  The bandwidth limiter of \<open>internal/forward/bandwidth.go\<close>, a token bucket shared by all connections of a rule, and
  the writer of \<open>tcp.go\<close> that asks it before every chunk. The \<open>float64\<close> quantities are exact rationals; the clock
  reading of each iteration is an argument. The channel \<open>notify\<close> only wakes a waiting call, which then looks at the
  limiter again, so it is not part of the state.
\<close>

section \<open>The limiter\<close>

abbreviation "minimumBandwidthBurst \<equiv> (4096 :: rat)"
abbreviation "maximumBandwidthBurst \<equiv> (262144 :: rat)"

record limiter =
  lim_kbps :: u64
  lim_rate :: rat
  lim_capacity :: rat
  lim_tokens :: rat
  lim_refill :: time
  lim_closed :: bool

definition refillLocked :: "time \<Rightarrow> limiter \<Rightarrow> limiter" where
  "refillLocked now l =
     (let l1 = (if 0 < lim_rate l \<and> lim_refill l < now
                then let tokens = lim_tokens l + of_int (now - lim_refill l) / of_int go_second * lim_rate l
                     in l\<lparr>lim_tokens := (if lim_capacity l < tokens then lim_capacity l else tokens)\<rparr>
                else l)
      in l1\<lparr>lim_refill := now\<rparr>)"

definition updateLocked :: "u64 \<Rightarrow> limiter \<Rightarrow> limiter" where
  "updateLocked kbps l =
     (let rate = of_nat (unat kbps) * 1000 / 8;
          c = rate / 4;
          c1 = (if c < minimumBandwidthBurst then minimumBandwidthBurst else c);
          c2 = (if maximumBandwidthBurst < c1 then maximumBandwidthBurst else c1)
      in l\<lparr>lim_kbps := kbps, lim_rate := rate, lim_capacity := c2\<rparr>)"

definition newBandwidthLimiter :: "time \<Rightarrow> u64 \<Rightarrow> limiter" where
  "newBandwidthLimiter now kbps =
     (let l = updateLocked kbps \<lparr>lim_kbps = 0, lim_rate = 0, lim_capacity = 0, lim_tokens = 0, lim_refill = now,
                lim_closed = False\<rparr>
      in l\<lparr>lim_tokens := lim_capacity l\<rparr>)"

definition UpdateLimiter :: "time \<Rightarrow> u64 \<Rightarrow> limiter \<Rightarrow> limiter" where
  "UpdateLimiter now kbps l =
     (if lim_closed l \<or> lim_kbps l = kbps then l
      else let l1 = updateLocked kbps (refillLocked now l)
           in l1\<lparr>lim_tokens := (if lim_capacity l1 < lim_tokens l1 then lim_capacity l1 else lim_tokens l1)\<rparr>)"

definition CloseLimiter :: "limiter \<Rightarrow> limiter" where
  "CloseLimiter l = l\<lparr>lim_closed := True\<rparr>"

definition maxChunkSize :: "limiter option \<Rightarrow> int \<Rightarrow> int" where
  "maxChunkSize lo n =
     (case lo of None \<Rightarrow> n
      | Some l \<Rightarrow> if n \<le> 0 then n
                  else if lim_rate l = 0 \<or> of_int n \<le> lim_capacity l then n else \<lfloor>lim_capacity l\<rfloor>)"

section \<open>Waiting\<close>

text \<open>One iteration of the loop of \<open>Wait\<close>: it returns, or sleeps for a duration with bytes remaining.\<close>

datatype wait_result = Granted | LimiterClosed | Waiting rat

datatype iteration = Return wait_result | Sleep duration rat

definition wait_step :: "time \<Rightarrow> rat \<Rightarrow> limiter \<Rightarrow> limiter \<times> iteration" where
  "wait_step now remaining l =
     (if lim_closed l then (l, Return LimiterClosed)
      else let l1 = refillLocked now l
           in if lim_rate l1 = 0 then (l1, Return Granted)
              else let take = (if remaining < lim_tokens l1 then remaining else lim_tokens l1);
                       l2 = (if 0 < lim_tokens l1 then l1\<lparr>lim_tokens := lim_tokens l1 - take\<rparr> else l1);
                       rest = (if 0 < lim_tokens l1 then remaining - take else remaining)
                   in if rest = 0 then (l2, Return Granted)
                      else let amount = (if lim_capacity l2 < rest then lim_capacity l2 else rest);
                               d = \<lfloor>amount / lim_rate l2 * of_int go_second\<rfloor>
                           in (l2, Sleep (if d < go_millisecond then go_millisecond else d) rest))"

text \<open>
  While a call sleeps, other goroutines may change the limiter; then it wakes by its timer or the notification, or
  because its forwarder is closed. An environment lists, per iteration, the clock reading, the changes made while
  sleeping, and what wakes the call; \<open>Waiting\<close> is the result when the list ends first.
\<close>

datatype limiter_op = SetRate time u64 | CloseIt

fun apply_op :: "limiter_op \<Rightarrow> limiter \<Rightarrow> limiter" where
  "apply_op (SetRate now kbps) l = UpdateLimiter now kbps l"
| "apply_op CloseIt l = CloseLimiter l"

datatype wake = Woken | DoneClosed

type_synonym wait_env = "(time \<times> limiter_op list \<times> wake) list"

fun wait_loop :: "wait_env \<Rightarrow> rat \<Rightarrow> limiter \<Rightarrow> limiter \<times> wait_result" where
  "wait_loop [] remaining l = (l, Waiting remaining)"
| "wait_loop ((now, ops, w) # env) remaining l =
     (case wait_step now remaining l of
        (l1, Return res) \<Rightarrow> (l1, res)
      | (l1, Sleep d rest) \<Rightarrow>
          let l2 = fold apply_op ops l1
          in if w = DoneClosed then (l2, LimiterClosed) else wait_loop env rest l2)"

definition WaitLimiter :: "wait_env \<Rightarrow> int \<Rightarrow> limiter \<Rightarrow> limiter \<times> wait_result" where
  "WaitLimiter env n l = (if n \<le> 0 then (l, Granted) else wait_loop env (of_int n) l)"

section \<open>The invariant\<close>

definition limiter_inv :: "limiter \<Rightarrow> bool" where
  "limiter_inv l \<longleftrightarrow> lim_rate l = of_nat (unat (lim_kbps l)) * 125
     \<and> minimumBandwidthBurst \<le> lim_capacity l \<and> lim_capacity l \<le> maximumBandwidthBurst
     \<and> 0 \<le> lim_tokens l \<and> lim_tokens l \<le> lim_capacity l"

lemma kbps_nonneg [simp]: "0 \<le> (unsigned (k :: u64) :: rat)"
  using of_nat_0_le_iff [of "unat k", where 'a = rat] by simp

lemma limiter_invD:
  assumes "limiter_inv l"
  shows "0 \<le> lim_rate l" "4096 \<le> lim_capacity l" "lim_capacity l \<le> 262144" "0 \<le> lim_tokens l"
    "lim_tokens l \<le> lim_capacity l" "lim_rate l = of_nat (unat (lim_kbps l)) * 125"
  using assms by (simp_all add: limiter_inv_def)

lemma refill_frame [simp]:
  "lim_kbps (refillLocked now l) = lim_kbps l" "lim_rate (refillLocked now l) = lim_rate l"
  "lim_capacity (refillLocked now l) = lim_capacity l" "lim_closed (refillLocked now l) = lim_closed l"
  "lim_refill (refillLocked now l) = now"
  by (simp_all add: refillLocked_def Let_def)

lemma refill_tokens:
  "lim_tokens (refillLocked now l) =
     (if 0 < lim_rate l \<and> lim_refill l < now
      then min (lim_capacity l) (lim_tokens l + of_int (now - lim_refill l) / of_int go_second * lim_rate l)
      else lim_tokens l)"
  by (simp add: refillLocked_def Let_def min_def)

lemma limiter_inv_refill [inv_intros]: "limiter_inv l \<Longrightarrow> limiter_inv (refillLocked now l)"
  unfolding limiter_inv_def by (auto simp: refill_tokens)

lemma updateLocked_simps:
  "lim_kbps (updateLocked kbps l) = kbps" "lim_rate (updateLocked kbps l) = of_nat (unat kbps) * 125"
  "4096 \<le> lim_capacity (updateLocked kbps l)" "lim_capacity (updateLocked kbps l) \<le> 262144"
  "lim_tokens (updateLocked kbps l) = lim_tokens l" "lim_refill (updateLocked kbps l) = lim_refill l"
  "lim_closed (updateLocked kbps l) = lim_closed l"
  by (simp_all add: updateLocked_def Let_def)

lemma limiter_inv_new: "limiter_inv (newBandwidthLimiter now kbps)"
  using updateLocked_simps by (simp add: newBandwidthLimiter_def limiter_inv_def Let_def order.trans [OF _ updateLocked_simps(3)])

lemma limiter_inv_Update [inv_intros]: "limiter_inv l \<Longrightarrow> limiter_inv (UpdateLimiter now kbps l)"
proof (cases "lim_closed l \<or> lim_kbps l = kbps")
  case False
  assume "limiter_inv l"
  then have "limiter_inv (refillLocked now l)" by (rule limiter_inv_refill)
  with False show ?thesis
    using updateLocked_simps [of kbps "refillLocked now l"]
    by (simp add: UpdateLimiter_def Let_def limiter_inv_def order.trans [OF _ updateLocked_simps(3)])
qed (simp add: UpdateLimiter_def)

lemma limiter_inv_op [inv_intros]: "limiter_inv l \<Longrightarrow> limiter_inv (apply_op op l)"
  by (cases op) (simp_all add: inv_intros CloseLimiter_def, simp add: limiter_inv_def)

lemma limiter_inv_ops: "limiter_inv l \<Longrightarrow> limiter_inv (fold apply_op ops l)"
  by (induction ops arbitrary: l) (simp_all add: limiter_inv_op)

lemma limiter_inv_step:
  assumes "limiter_inv l" "0 < r"
  shows "limiter_inv (fst (wait_step now r l))"
proof -
  have "limiter_inv (refillLocked now l)" by (rule limiter_inv_refill [OF assms(1)])
  with assms show ?thesis
    by (auto simp: wait_step_def Let_def limiter_inv_def)
qed

section \<open>The rate bound\<close>

text \<open>
  The bytes an iteration grants, and the bytes granted by a sequence of iterations and rate changes at the given clock
  readings. The calls of all connections and both directions of a rule are serialised by the queue mutex, so their
  iterations form one sequence.
\<close>

definition step_grant :: "time \<Rightarrow> rat \<Rightarrow> limiter \<Rightarrow> rat" where
  "step_grant now r l = (case snd (wait_step now r l) of Return Granted \<Rightarrow> r | Sleep d rest \<Rightarrow> r - rest | _ \<Rightarrow> 0)"

datatype limiter_event = Iterate time rat | Rate time u64

fun event_time :: "limiter_event \<Rightarrow> time" where
  "event_time (Iterate now r) = now"
| "event_time (Rate now kbps) = now"

fun run_events :: "limiter_event list \<Rightarrow> limiter \<Rightarrow> limiter \<times> rat" where
  "run_events [] l = (l, 0)"
| "run_events (Iterate now r # es) l =
     (let (l', g) = run_events es (fst (wait_step now r l)) in (l', step_grant now r l + g))"
| "run_events (Rate now kbps # es) l = run_events es (UpdateLimiter now kbps l)"

text \<open>The events of a limited rule: rates between 1 and \<open>peak\<close> kbit/s, and requests for a positive number of bytes.\<close>

fun limited_event :: "u64 \<Rightarrow> limiter_event \<Rightarrow> bool" where
  "limited_event peak (Iterate now r) = (0 < r)"
| "limited_event peak (Rate now kbps) = (0 < kbps \<and> kbps \<le> peak)"

definition limited :: "u64 \<Rightarrow> limiter \<Rightarrow> bool" where
  "limited peak l \<longleftrightarrow> limiter_inv l \<and> 0 < lim_kbps l \<and> lim_kbps l \<le> peak"

definition grown :: "u64 \<Rightarrow> limiter \<Rightarrow> time \<Rightarrow> rat" where
  "grown peak l now = lim_tokens l + of_int (now - lim_refill l) / of_int go_second * (of_nat (unat peak) * 125)"

lemma limited_rate:
  assumes "limited peak l"
  shows "0 < lim_rate l" "lim_rate l \<le> of_nat (unat peak) * 125"
proof -
  have r: "lim_rate l = of_nat (unat (lim_kbps l)) * 125" using assms limiter_invD(6) by (simp add: limited_def)
  have "0 < unat (lim_kbps l)" "unat (lim_kbps l) \<le> unat peak"
    using assms by (auto simp: limited_def word_le_nat_alt unat_gt_0)
  then have "(0 :: rat) < of_nat (unat (lim_kbps l))" "(of_nat (unat (lim_kbps l)) :: rat) \<le> of_nat (unat peak)"
    by (simp_all only: of_nat_0_less_iff of_nat_le_iff)
  then show "0 < lim_rate l" "lim_rate l \<le> of_nat (unat peak) * 125" unfolding r by linarith+
qed

lemma limited_refill:
  assumes "limited peak l" "lim_refill l \<le> now"
  shows "lim_tokens (refillLocked now l) \<le> grown peak l now" "limited peak (refillLocked now l)"
proof -
  define dt :: rat where "dt = of_int (now - lim_refill l) / of_int go_second"
  have "0 \<le> dt" using assms(2) by (simp add: dt_def)
  then have "dt * lim_rate l \<le> dt * (of_nat (unat peak) * 125)" "0 \<le> dt * lim_rate l"
    using limited_rate [OF assms(1)] by (simp_all add: mult_left_mono)
  then show "lim_tokens (refillLocked now l) \<le> grown peak l now"
    unfolding refill_tokens grown_def dt_def [symmetric] by (simp add: min_def)
  show "limited peak (refillLocked now l)"
    using assms(1) limiter_inv_refill by (simp add: limited_def)
qed

lemma limited_step:
  assumes "limited peak l" "lim_refill l \<le> now" "0 < r" "\<not> lim_closed l"
  shows "limited peak (fst (wait_step now r l))" "lim_refill (fst (wait_step now r l)) = now"
    "lim_closed (fst (wait_step now r l)) = False"
    "step_grant now r l + lim_tokens (fst (wait_step now r l)) \<le> grown peak l now"
    "step_grant now r l \<le> r"
proof -
  note R = limited_refill [OF assms(1,2)]
  have inv: "limiter_inv (refillLocked now l)" using R(2) by (simp add: limited_def)
  have "0 \<le> lim_tokens (refillLocked now l)" using limiter_invD(4) [OF inv] .
  moreover have "lim_rate l \<noteq> 0" using limited_rate(1) [OF assms(1)] by simp
  ultimately show "lim_refill (fst (wait_step now r l)) = now" "lim_closed (fst (wait_step now r l)) = False"
    "step_grant now r l + lim_tokens (fst (wait_step now r l)) \<le> grown peak l now" "step_grant now r l \<le> r"
    using assms(3,4) R(1) by (auto simp: wait_step_def step_grant_def Let_def)
  have "lim_kbps (fst (wait_step now r l)) = lim_kbps l"
    using assms(4) by (auto simp: wait_step_def Let_def)
  moreover have "limiter_inv l" using assms(1) by (simp add: limited_def)
  ultimately show "limited peak (fst (wait_step now r l))"
    using assms(1) limiter_inv_step [OF _ assms(3)] by (simp add: limited_def)
qed

lemma limited_update:
  assumes "limited peak l" "lim_refill l \<le> now" "0 < kbps" "kbps \<le> peak" "\<not> lim_closed l"
  shows "limited peak (UpdateLimiter now kbps l)" "lim_refill (UpdateLimiter now kbps l) \<le> now"
    "lim_closed (UpdateLimiter now kbps l) = False" "lim_refill l \<le> lim_refill (UpdateLimiter now kbps l)"
    "lim_tokens (UpdateLimiter now kbps l) \<le> grown peak l (lim_refill (UpdateLimiter now kbps l))"
proof -
  note R = limited_refill [OF assms(1,2)]
  have "limiter_inv (UpdateLimiter now kbps l)"
    using assms(1) limiter_inv_Update by (simp add: limited_def)
  then show "limited peak (UpdateLimiter now kbps l)"
    using assms(1,3,4) by (auto simp: limited_def UpdateLimiter_def Let_def updateLocked_simps)
  show "lim_refill (UpdateLimiter now kbps l) \<le> now" "lim_closed (UpdateLimiter now kbps l) = False"
    "lim_refill l \<le> lim_refill (UpdateLimiter now kbps l)"
    using assms(2,5) by (auto simp: UpdateLimiter_def Let_def updateLocked_simps)
  show "lim_tokens (UpdateLimiter now kbps l) \<le> grown peak l (lim_refill (UpdateLimiter now kbps l))"
    using R(1) by (auto simp: UpdateLimiter_def Let_def updateLocked_simps grown_def)
qed

lemma grown_shift:
  "lim_tokens l' \<le> grown peak l (lim_refill l') - g \<Longrightarrow> grown peak l' now + g \<le> grown peak l now"
  by (simp add: grown_def field_simps)

lemma grown_mono: "a \<le> b \<Longrightarrow> grown peak l a \<le> grown peak l b"
proof -
  assume "a \<le> b"
  then have "(of_int (a - lim_refill l) :: rat) / of_int go_second \<le> of_int (b - lim_refill l) / of_int go_second"
    by (intro divide_right_mono) simp_all
  then have "(of_int (a - lim_refill l) :: rat) / of_int go_second * (of_nat (unat peak) * 125)
      \<le> of_int (b - lim_refill l) / of_int go_second * (of_nat (unat peak) * 125)"
    by (rule mult_right_mono) simp
  then show ?thesis unfolding grown_def by linarith
qed

lemma run_events_bound:
  assumes "limited peak l" "\<not> lim_closed l" "list_all (limited_event peak) es"
    and "sorted (lim_refill l # map event_time es)"
  shows "snd (run_events es l) \<le> grown peak l (last (lim_refill l # map event_time es))"
  using assms
proof (induction es arbitrary: l)
  case Nil
  then show ?case using limiter_invD(4) by (simp add: grown_def limited_def)
next
  case (Cons e es)
  show ?case
  proof (cases e)
    case (Iterate now r)
    let ?l = "fst (wait_step now r l)"
    have now: "lim_refill l \<le> now" "0 < r" using Cons.prems Iterate by simp_all
    note S = limited_step [OF Cons.prems(1) now Cons.prems(2)]
    have srt: "sorted (lim_refill ?l # map event_time es)" using Cons.prems(4) Iterate S(2) by simp
    have "snd (run_events es ?l) \<le> grown peak ?l (last (lim_refill ?l # map event_time es))"
      using Cons.IH [OF S(1) _ _ srt] Cons.prems(3) S(3) by simp
    moreover have "grown peak ?l (last (lim_refill ?l # map event_time es)) + step_grant now r l
        \<le> grown peak l (last (lim_refill ?l # map event_time es))"
      using S(2,4) by (intro grown_shift) simp
    moreover have "snd (run_events (e # es) l) = step_grant now r l + snd (run_events es ?l)"
      using Iterate by (simp add: split_beta)
    ultimately have "snd (run_events (e # es) l) \<le> grown peak l (last (lim_refill ?l # map event_time es))"
      by linarith
    then show ?thesis using Iterate S(2) by simp
  next
    case (Rate now kbps)
    let ?l = "UpdateLimiter now kbps l"
    have now: "lim_refill l \<le> now" "0 < kbps" "kbps \<le> peak" using Cons.prems Rate by simp_all
    note U = limited_update [OF Cons.prems(1) now Cons.prems(2)]
    have srt: "sorted (lim_refill ?l # map event_time es)"
      using Cons.prems(4) Rate U(2) by (auto intro: order_trans)
    have "snd (run_events es ?l) \<le> grown peak ?l (last (lim_refill ?l # map event_time es))"
      using Cons.IH [OF U(1) _ _ srt] Cons.prems(3) U(3) by simp
    also have "\<dots> \<le> grown peak l (last (lim_refill ?l # map event_time es))"
      using grown_shift [of ?l peak l 0] U(5) by simp
    also have "\<dots> \<le> grown peak l (last (lim_refill l # map event_time (e # es)))"
      by (rule grown_mono) (use Rate U(2) in auto)
    finally show ?thesis using Rate by simp
  qed
qed

text \<open>
  C27: the limiter enforces its rate. For any sequence of iterations of \<open>Wait\<close> (of all connections and directions of a
  rule, in any interleaving) and of rate changes between 1 and \<open>peak\<close> kbit/s, at non-decreasing clock readings, the
  bytes granted from the last refill before the sequence up to its last event are at most one burst (256 KiB at most)
  plus 125 bytes per kbit/s of the peak rate for every second that passed. Changing the rate grants nothing extra.
\<close>

theorem limiter_rate_bound:
  assumes "limiter_inv l" "0 < lim_kbps l" "lim_kbps l \<le> peak" "\<not> lim_closed l" "list_all (limited_event peak) es"
    and "sorted (lim_refill l # map event_time es)"
  shows "snd (run_events es l) \<le> lim_capacity l
      + of_int (last (lim_refill l # map event_time es) - lim_refill l) / of_int go_second * (125 * of_nat (unat peak))
    \<and> lim_capacity l \<le> 262144"
proof -
  have "limited peak l" using assms(1-3) by (simp add: limited_def)
  from run_events_bound [OF this assms(4-6)] limiter_invD(3,5) [OF assms(1)] show ?thesis
    by (simp add: grown_def mult.commute)
qed

theorem limiter_rate_bound_witness:
  "snd (run_events [Iterate 0 100000, Iterate go_second 100000, Rate go_second 16, Iterate (2 * go_second) 50000]
     (newBandwidthLimiter 0 8)) \<le> 4096 + 2 * (125 * 16)"
proof -
  let ?es = "[Iterate 0 100000, Iterate go_second 100000, Rate go_second 16, Iterate (2 * go_second) 50000]"
  let ?l = "newBandwidthLimiter 0 8"
  have l: "lim_kbps ?l = 8" "lim_closed ?l = False" "lim_refill ?l = 0" "lim_capacity ?l = 4096"
    by (simp_all add: newBandwidthLimiter_def updateLocked_def Let_def)
  have "list_all (limited_event 16) ?es" by (simp add: word_less_nat_alt)
  from limiter_rate_bound [OF limiter_inv_new, of 0 8 16 ?es, OF _ _ _ this] l show ?thesis
    by (simp add: word_le_nat_alt)
qed

section \<open>Waiting ends\<close>

text \<open>
  An environment in which nobody changes the limiter and every sleep lasts at least as long as the call asked for (a
  timer never fires early).
\<close>

fun on_time :: "wait_env \<Rightarrow> rat \<Rightarrow> limiter \<Rightarrow> bool" where
  "on_time [] r l = True"
| "on_time ((now, ops, w) # env) r l =
     (ops = [] \<and> w = Woken \<and> lim_refill l \<le> now
      \<and> (case wait_step now r l of
           (l1, Return res) \<Rightarrow> True
         | (l1, Sleep d rest) \<Rightarrow>
             (case env of [] \<Rightarrow> True | (next, x) # env' \<Rightarrow> now + d \<le> next) \<and> on_time env rest l1))"

definition sleep_for :: "rat \<Rightarrow> limiter \<Rightarrow> duration" where
  "sleep_for r l = max go_millisecond \<lfloor>min (lim_capacity l) r / lim_rate l * of_int go_second\<rfloor>"

text \<open>A call that goes to sleep has taken every token.\<close>

lemma wait_step_Sleep:
  assumes "wait_step now r l = (l1, Sleep d rest)" "limiter_inv l" "0 < r"
  shows "lim_tokens l1 = 0" "lim_refill l1 = now" "0 < rest" "rest \<le> r" "d = sleep_for rest l1"
    "lim_rate l1 = lim_rate l" "lim_capacity l1 = lim_capacity l" "\<not> lim_closed l1" "limiter_inv l1" "0 < lim_rate l1"
    "rest = r - lim_tokens (refillLocked now l)"
proof -
  let ?l = "refillLocked now l"
  have inv: "limiter_inv ?l" using assms(2) by (rule limiter_inv_refill)
  have t: "0 \<le> lim_tokens ?l" using limiter_invD(4) [OF inv] .
  have open': "\<not> lim_closed l" "lim_rate l \<noteq> 0"
    using assms(1) by (auto simp: wait_step_def Let_def split: if_splits)
  have few: "lim_tokens ?l < r"
    using assms(1) open' assms(3) t by (auto simp: wait_step_def Let_def split: if_splits)
  have l1: "l1 = ?l\<lparr>lim_tokens := 0\<rparr>" "rest = r - lim_tokens ?l"
    using assms(1,3) open' few t by (auto simp: wait_step_def Let_def split: if_splits)
  show "lim_tokens l1 = 0" "lim_refill l1 = now" "0 < rest" "rest \<le> r" "lim_rate l1 = lim_rate l"
    "lim_capacity l1 = lim_capacity l" "\<not> lim_closed l1" "rest = r - lim_tokens ?l"
    using l1 few t open' by auto
  have "d = sleep_for rest (?l\<lparr>lim_tokens := lim_tokens ?l - lim_tokens ?l\<rparr>) \<or> d = sleep_for rest ?l"
    using assms(1,3) open' few t unfolding l1(2)
    by (auto simp: wait_step_def Let_def sleep_for_def min_def max_def split: if_splits)
  then show "d = sleep_for rest l1" by (auto simp: l1 sleep_for_def)
  show "limiter_inv l1" using limiter_inv_step [OF assms(2,3), of now] assms(1) by simp
  have "0 \<le> lim_rate l" using limiter_invD(1) [OF assms(2)] .
  with open' show "0 < lim_rate l1" by (simp add: l1)
qed

lemma wait_step_enough:
  assumes "limiter_inv l" "\<not> lim_closed l" "0 < r" "r \<le> lim_tokens (refillLocked now l)"
  shows "snd (wait_step now r l) = Return Granted"
  using assms by (auto simp: wait_step_def Let_def)

lemma slept_long_enough:
  assumes inv: "limiter_inv l" and rate: "0 < lim_rate l" and r: "0 < r" and tok: "lim_tokens l = 0"
    and now: "lim_refill l + sleep_for r l \<le> now"
  defines "g \<equiv> lim_tokens (refillLocked now l)"
  shows "min (lim_capacity l) r - lim_rate l / of_int go_second \<le> g" "min (lim_capacity l) (lim_rate l / 1000) \<le> g"
proof -
  define a where "a = min (lim_capacity l) r"
  define dt :: rat where "dt = of_int (now - lim_refill l) / of_int go_second"
  have "go_millisecond \<le> sleep_for r l" by (simp add: sleep_for_def)
  with now have pos: "lim_refill l < now" and ms: "go_millisecond \<le> now - lim_refill l" by linarith+
  have g: "g = min (lim_capacity l) (dt * lim_rate l)"
    using rate pos tok by (simp add: g_def refill_tokens dt_def)
  have cap: "0 \<le> lim_capacity l" using limiter_invD(2) [OF inv] by linarith
  have "(of_int go_millisecond :: rat) \<le> of_int (now - lim_refill l)" using ms by (simp only: of_int_le_iff)
  then have "1 / 1000 \<le> dt" unfolding dt_def by (simp add: field_simps)
  then have "1 / 1000 * lim_rate l \<le> dt * lim_rate l" using rate by (intro mult_right_mono) simp_all
  then show "min (lim_capacity l) (lim_rate l / 1000) \<le> g" unfolding g by (simp add: min_le_iff_disj)
  define x where "x = a / lim_rate l * of_int go_second"
  have "\<lfloor>x\<rfloor> \<le> now - lim_refill l" using now unfolding sleep_for_def a_def [symmetric] x_def [symmetric] by linarith
  then have "x - 1 < of_int (now - lim_refill l)" by linarith
  then have "(x - 1) / of_int go_second \<le> dt" unfolding dt_def by (intro divide_right_mono) simp_all
  then have "(x - 1) / of_int go_second * lim_rate l \<le> dt * lim_rate l" using rate by (intro mult_right_mono) simp_all
  moreover have "(x - 1) / of_int go_second * lim_rate l = a - lim_rate l / of_int go_second"
    using rate by (simp add: x_def field_simps)
  ultimately have "a - lim_rate l / of_int go_second \<le> dt * lim_rate l" by simp
  moreover have "a - lim_rate l / of_int go_second \<le> lim_capacity l" using rate by (simp add: a_def min_le_iff_disj)
  ultimately show "min (lim_capacity l) r - lim_rate l / of_int go_second \<le> g" unfolding g a_def by simp
qed

text \<open>From the sleeping state: two more iterations for at most a burst, one more for every further 2 KiB.\<close>

lemma wait_loop_Cons:
  assumes "on_time ((now, ops, w) # env) r l"
  shows "wait_loop ((now, ops, w) # env) r l =
    (case wait_step now r l of (l1, Return res) \<Rightarrow> (l1, res) | (l1, Sleep d rest) \<Rightarrow> wait_loop env rest l1)"
  using assms by (auto split: prod.splits iteration.splits)

definition awake :: "wait_env \<Rightarrow> rat \<Rightarrow> limiter \<Rightarrow> bool" where
  "awake env r l \<longleftrightarrow> limiter_inv l \<and> 0 < lim_rate l \<and> \<not> lim_closed l \<and> lim_tokens l = 0 \<and> 0 < r \<and> on_time env r l
     \<and> (case env of [] \<Rightarrow> True | (next, x) # env' \<Rightarrow> lim_refill l + sleep_for r l \<le> next)"

lemma awake_step:
  assumes "awake ((now, ops, w) # env) r l"
  obtains "snd (wait_loop ((now, ops, w) # env) r l) = Granted"
  | l1 rest where "wait_loop ((now, ops, w) # env) r l = wait_loop env rest l1" "awake env rest l1"
      "rest = r - lim_tokens (refillLocked now l)" "lim_rate l1 = lim_rate l" "lim_capacity l1 = lim_capacity l"
      "min (lim_capacity l) r - lim_rate l / of_int go_second \<le> lim_tokens (refillLocked now l)"
      "min (lim_capacity l) (lim_rate l / 1000) \<le> lim_tokens (refillLocked now l)"
      "lim_tokens (refillLocked now l) < r"
proof (cases "r \<le> lim_tokens (refillLocked now l)")
  case True
  with assms have "snd (wait_step now r l) = Return Granted" by (intro wait_step_enough) (auto simp: awake_def)
  with assms have "snd (wait_loop ((now, ops, w) # env) r l) = Granted"
    by (subst wait_loop_Cons) (auto simp: awake_def split: prod.split)
  then show thesis by (rule that(1))
next
  case False
  have a: "limiter_inv l" "0 < lim_rate l" "\<not> lim_closed l" "lim_tokens l = 0" "0 < r"
      "on_time ((now, ops, w) # env) r l" "lim_refill l + sleep_for r l \<le> now"
    using assms by (auto simp: awake_def)
  have "0 \<le> lim_tokens (refillLocked now l)"
    using limiter_invD(4) [OF limiter_inv_refill [OF a(1)]] .
  with False a have "\<exists>l1 d rest. wait_step now r l = (l1, Sleep d rest)"
    by (auto simp: wait_step_def Let_def)
  then obtain l1 d rest where s: "wait_step now r l = (l1, Sleep d rest)" by blast
  note S = wait_step_Sleep [OF s a(1,5)]
  have "wait_loop ((now, ops, w) # env) r l = wait_loop env rest l1"
    using a(6) s by (subst wait_loop_Cons) simp_all
  moreover have "awake env rest l1"
    using S a(6) s by (auto simp: awake_def split: list.splits)
  ultimately show thesis
    using that(2) [of rest l1] S slept_long_enough [OF a(1,2,5,4,7)] False by simp
qed

lemma awake_last:
  assumes "awake env r l" "r \<le> lim_capacity l" "r \<le> lim_rate l / of_int go_second" "env \<noteq> []"
  shows "snd (wait_loop env r l) = Granted"
proof -
  obtain now ops w env' where env: "env = (now, ops, w) # env'" using assms(4) by (metis list.exhaust prod_cases3)
  have "lim_rate l / of_int go_second \<le> lim_rate l / 1000"
    using assms(1) by (simp add: awake_def divide_left_mono)
  then have "r \<le> min (lim_capacity l) (lim_rate l / 1000)" using assms(2,3) by simp
  with assms(1) show ?thesis
    unfolding env by (cases rule: awake_step [of now ops w env' r l]) auto
qed

lemma awake_burst:
  assumes "awake env r l" "r \<le> lim_capacity l" "2 \<le> length env"
  shows "snd (wait_loop env r l) = Granted"
proof -
  obtain now ops w env' where env: "env = (now, ops, w) # env'" "env' \<noteq> []"
    using assms(3) by (cases env) (auto simp: Suc_le_eq)
  from assms(1) [unfolded env(1)] show ?thesis
  proof (cases rule: awake_step)
    case 1
    then show ?thesis by (simp only: env(1))
  next
    case (2 l1 rest)
    have "0 \<le> lim_tokens (refillLocked now l)"
      using assms(1) limiter_invD(4) [OF limiter_inv_refill] by (simp add: awake_def)
    then have "rest \<le> lim_capacity l1" "rest \<le> lim_rate l1 / of_int go_second"
      using 2(3-6) assms(2) by auto
    from awake_last [OF 2(2) this env(2)] show ?thesis unfolding env(1) 2(1) .
  qed
qed

lemma awake_all:
  "awake env r l \<Longrightarrow> r \<le> 2048 * of_nat k \<Longrightarrow> k + 2 \<le> length env \<Longrightarrow> snd (wait_loop env r l) = Granted"
proof (induction k arbitrary: env r l)
  case 0
  then show ?case by (simp add: awake_def)
next
  case (Suc k)
  show ?case
  proof (cases "r \<le> lim_capacity l")
    case True
    with Suc.prems show ?thesis by (intro awake_burst) simp_all
  next
    case False
    obtain now ops w env' where env: "env = (now, ops, w) # env'" "k + 2 \<le> length env'"
      using Suc.prems(3) by (cases env) auto
    from Suc.prems(1) [unfolded env(1)] show ?thesis
    proof (cases rule: awake_step)
      case 1
      then show ?thesis by (simp only: env(1))
    next
      case (2 l1 rest)
      have cap: "4096 \<le> lim_capacity l" using Suc.prems(1) limiter_invD(2) by (simp add: awake_def)
      have "2048 \<le> lim_tokens (refillLocked now l)"
      proof (cases "lim_rate l / of_int go_second \<le> 2048")
        case True
        with 2(6) cap False show ?thesis by simp
      next
        case False
        then have "2048 * of_int go_second / 1000 \<le> lim_rate l / 1000" by (simp add: field_simps)
        then have "2048 \<le> lim_rate l / 1000" by simp
        with 2(7) cap show ?thesis by simp
      qed
      with 2(3) Suc.prems(2) have "rest \<le> 2048 * of_nat k" by simp
      from Suc.IH [OF 2(2) this env(2)] show ?thesis unfolding env(1) 2(1) .
    qed
  qed
qed

text \<open>
  A call of \<open>Wait\<close> comes back. On an open limiter that nobody changes, whatever tokens it holds and whatever the
  rate (0 is unlimited), a request for \<open>n\<close> bytes is granted after at most \<open>n div 2048 + 4\<close> iterations, if no timer
  fires early; so no request starves, however large it is and however slow the rate.
\<close>

theorem Wait_returns:
  assumes "limiter_inv l" "\<not> lim_closed l" "on_time env (of_int n) l" "nat n div 2048 + 4 \<le> length env"
  shows "snd (WaitLimiter env n l) = Granted"
proof (cases "n \<le> 0")
  case True
  then show ?thesis by (simp add: WaitLimiter_def)
next
  case False
  obtain now ops w env' where env: "env = (now, ops, w) # env'" "nat n div 2048 + 1 + 2 \<le> length env'"
    using assms(4) by (cases env) auto
  note loop = wait_loop_Cons [OF assms(3) [unfolded env(1)]]
  obtain l1 i where s: "wait_step now (of_int n) l = (l1, i)" by fastforce
  show ?thesis
  proof (cases i)
    case (Return res)
    with s assms(2) have "res = Granted" by (auto simp: wait_step_def Let_def split: if_splits)
    with False loop s Return show ?thesis by (simp add: WaitLimiter_def env(1))
  next
    case (Sleep d rest)
    have n: "(0 :: rat) < of_int n" using False by simp
    note S = wait_step_Sleep [OF s [unfolded Sleep] assms(1) n]
    have "awake env' rest l1"
      using S assms(3) s Sleep by (auto simp: awake_def env(1) split: list.splits)
    moreover have "rest \<le> 2048 * of_nat (nat n div 2048 + 1)"
    proof -
      have "nat n \<le> 2048 * (nat n div 2048 + 1)"
        using dividend_less_times_div [of 2048 "nat n"] by simp
      then have "(of_nat (nat n) :: rat) \<le> of_nat (2048 * (nat n div 2048 + 1))" by (simp only: of_nat_le_iff)
      moreover have "(of_nat (nat n) :: rat) = of_int n" using False by simp
      moreover have "(of_nat (2048 * (nat n div 2048 + 1)) :: rat) = 2048 * of_nat (nat n div 2048 + 1)"
        by (simp only: of_nat_mult of_nat_numeral)
      ultimately show ?thesis using S(4) by linarith
    qed
    ultimately have "snd (wait_loop env' rest l1) = Granted" using env(2) by (rule awake_all)
    with False loop s Sleep show ?thesis by (simp add: WaitLimiter_def env(1))
  qed
qed

definition slow_env :: wait_env where
  "slow_env = map (\<lambda>t. (t * go_second, [], Woken)) [0, 5, 10, 15, 20, 25, 30, 35]"

theorem Wait_returns_witness:
  "snd (WaitLimiter slow_env 9000 (newBandwidthLimiter 0 8)) = Granted"
proof (rule Wait_returns)
  show "limiter_inv (newBandwidthLimiter 0 8)" by (rule limiter_inv_new)
  show "\<not> lim_closed (newBandwidthLimiter 0 8)" by (simp add: newBandwidthLimiter_def updateLocked_def Let_def)
  show "on_time slow_env (of_int 9000) (newBandwidthLimiter 0 8)" by code_simp
  show "nat 9000 div 2048 + 4 \<le> length slow_env" by (simp add: slow_env_def)
qed

end
