(* ===== verification/Manager.thy ===== *)
theory Manager
  imports Prepare Bandwidth
begin

text \<open>
  The forwarding manager of an agent (\<open>tcp.go\<close>, \<open>Manager.Apply\<close> and \<open>Manager.Close\<close>): it moves from the running
  forwarders to a new rule set, opening every new listener before it closes any old one.

  A forwarder is an object: \<open>fwd_id\<close> is its identity, which the code compares as a pointer. The sockets that are open
  are part of the state, each with the forwarder that owns it. The operating system is a parameter: given the transport
  and address pairs in use, it says whether a new listener may be opened. The iteration order of the map \<open>desired\<close>,
  which Go leaves open, is the order of the rules.
\<close>

section \<open>The state\<close>

record forwarder =
  fwd_id :: nat
  fwd_listen :: string
  fwd_config :: prepared_rule

type_synonym socket = "string \<times> string \<times> nat"

type_synonym os = "(string \<times> string) list \<Rightarrow> string \<Rightarrow> string \<Rightarrow> bool"

record manager =
  mgr_tcp :: "(string, forwarder) gomap"
  mgr_udp :: "(string, forwarder) gomap"
  mgr_limiters :: "(string, limiter) gomap"
  mgr_closed :: bool
  mgr_node :: string
  mgr_sockets :: "socket list"
  mgr_next :: nat

definition NewManager :: "string \<Rightarrow> manager" where
  "NewManager nid = \<lparr>mgr_tcp = [], mgr_udp = [], mgr_limiters = [], mgr_closed = False, mgr_node = nid,
     mgr_sockets = [], mgr_next = 0\<rparr>"

datatype apply_error = PrepareFailed prepare_error | ManagerClosed | StartFailed string string string

section \<open>Opening listeners\<close>

record opened =
  op_sockets :: "socket list"
  op_next :: nat
  op_started :: "(string, forwarder) gomap"

definition in_use :: "socket list \<Rightarrow> (string \<times> string) list" where
  "in_use = map (\<lambda>(net, addr, i). (net, addr))"

definition wants :: "string \<Rightarrow> prepared_rule \<Rightarrow> bool" where
  "wants net p \<longleftrightarrow> net \<in> set (rule_networks (prep_rule p))"

definition reusable :: "(string, forwarder) gomap \<Rightarrow> string \<Rightarrow> prepared_rule \<Rightarrow> bool" where
  "reusable current rid p = (case map_of current rid of Some f \<Rightarrow> fwd_listen f = prep_listen p | None \<Rightarrow> False)"

fun open_all :: "os \<Rightarrow> string \<Rightarrow> (string, forwarder) gomap \<Rightarrow> (string, prepared_rule) gomap \<Rightarrow> opened
    \<Rightarrow> opened \<times> apply_error option" where
  "open_all os net current [] st = (st, None)"
| "open_all os net current ((rid, p) # ps) st =
     (if \<not> wants net p \<or> reusable current rid p then open_all os net current ps st
      else if \<not> os (in_use (op_sockets st)) net (prep_listen p) then (st, Some (StartFailed net rid (prep_listen p)))
      else let f = \<lparr>fwd_id = op_next st, fwd_listen = prep_listen p, fwd_config = p\<rparr>
           in open_all os net current ps
                \<lparr>op_sockets = op_sockets st @ [(net, prep_listen p, op_next st)], op_next = op_next st + 1,
                 op_started = gput rid f (op_started st)\<rparr>)"

definition close_forwarder :: "forwarder \<Rightarrow> socket list \<Rightarrow> socket list" where
  "close_forwarder f = filter (\<lambda>(net, addr, i). i \<noteq> fwd_id f)"

definition close_all :: "forwarder list \<Rightarrow> socket list \<Rightarrow> socket list" where
  "close_all = fold close_forwarder"

section \<open>Applying a rule set\<close>

definition reconfigure_tcp :: "prepared_rule \<Rightarrow> forwarder \<Rightarrow> forwarder" where
  "reconfigure_tcp p f = (if prep_rule (fwd_config f) = prep_rule p then f else f\<lparr>fwd_config := p\<rparr>)"

definition reconfigure_udp :: "prepared_rule \<Rightarrow> forwarder \<Rightarrow> forwarder" where
  "reconfigure_udp p f = f\<lparr>fwd_config := p\<rparr>"

text \<open>
  The forwarders after the change: a started one, or the running one with the new configuration. A rule that was not
  started has a running forwarder, because \<open>open_all\<close> passed over it.
\<close>

definition next_for :: "string \<Rightarrow> (prepared_rule \<Rightarrow> forwarder \<Rightarrow> forwarder) \<Rightarrow> (string, forwarder) gomap
    \<Rightarrow> (string, forwarder) gomap \<Rightarrow> string \<Rightarrow> prepared_rule \<Rightarrow> forwarder option" where
  "next_for net reconf started current rid p =
     (if \<not> wants net p then None
      else (case map_of started rid of
              Some f \<Rightarrow> Some f
            | None \<Rightarrow> map_option (reconf p) (map_of current rid)))"

definition next_forwarders :: "string \<Rightarrow> (prepared_rule \<Rightarrow> forwarder \<Rightarrow> forwarder) \<Rightarrow> (string, forwarder) gomap
    \<Rightarrow> (string, forwarder) gomap \<Rightarrow> (string, prepared_rule) gomap \<Rightarrow> (string, forwarder) gomap" where
  "next_forwarders net reconf started current desired =
     List.map_filter (\<lambda>(rid, p). map_option (Pair rid) (next_for net reconf started current rid p)) desired"

text \<open>\<open>next[id] != forwarder\<close>: the running forwarder is not the one that stays.\<close>

definition retired :: "(string, forwarder) gomap \<Rightarrow> (string, forwarder) gomap \<Rightarrow> forwarder list" where
  "retired next current =
     map snd (filter (\<lambda>(rid, f). case map_of next rid of Some g \<Rightarrow> fwd_id g \<noteq> fwd_id f | None \<Rightarrow> True) current)"

definition next_limiters :: "time \<Rightarrow> (string, limiter) gomap \<Rightarrow> (string, prepared_rule) gomap \<Rightarrow> (string, limiter) gomap" where
  "next_limiters now limiters desired =
     map (\<lambda>(rid, p).
       (rid, UpdateLimiter now (rule_bandwidth_kbps (prep_rule p))
               (case map_of limiters rid of
                  Some l \<Rightarrow> l
                | None \<Rightarrow> newBandwidthLimiter now (rule_bandwidth_kbps (prep_rule p))))) desired"

definition Apply :: "os \<Rightarrow> time \<Rightarrow> forward_rule list \<Rightarrow> manager \<Rightarrow> manager \<times> (apply_error + unit)" where
  "Apply os now rules m =
     (case prepareRules rules (mgr_node m) of
        Inl e \<Rightarrow> (m, Inl (PrepareFailed e))
      | Inr desired \<Rightarrow>
          if mgr_closed m then (m, Inl ManagerClosed)
          else let (st1, err1) = open_all os ''tcp'' (mgr_tcp m) desired
                     \<lparr>op_sockets = mgr_sockets m, op_next = mgr_next m, op_started = []\<rparr>
               in case err1 of
                    Some e \<Rightarrow> (m\<lparr>mgr_sockets := close_all (map snd (op_started st1)) (op_sockets st1)\<rparr>, Inl e)
                  | None \<Rightarrow>
                      let (st2, err2) = open_all os ''udp'' (mgr_udp m) desired (st1\<lparr>op_started := []\<rparr>)
                      in case err2 of
                           Some e \<Rightarrow>
                             (m\<lparr>mgr_sockets := close_all (map snd (op_started st2))
                                  (close_all (map snd (op_started st1)) (op_sockets st2))\<rparr>, Inl e)
                         | None \<Rightarrow>
                             let tcp = next_forwarders ''tcp'' reconfigure_tcp (op_started st1) (mgr_tcp m) desired;
                                 udp = next_forwarders ''udp'' reconfigure_udp (op_started st2) (mgr_udp m) desired
                             in (m\<lparr>mgr_tcp := tcp, mgr_udp := udp,
                                   mgr_limiters := next_limiters now (mgr_limiters m) desired,
                                   mgr_sockets := close_all (retired udp (mgr_udp m))
                                     (close_all (retired tcp (mgr_tcp m)) (op_sockets st2)),
                                   mgr_next := op_next st2\<rparr>, Inr ()))"

definition CloseManager :: "manager \<Rightarrow> manager" where
  "CloseManager m =
     (if mgr_closed m then m
      else m\<lparr>mgr_tcp := [], mgr_udp := [], mgr_limiters := [], mgr_closed := True,
             mgr_sockets := close_all (map snd (mgr_udp m)) (close_all (map snd (mgr_tcp m)) (mgr_sockets m))\<rparr>)"

section \<open>Opening and closing sockets\<close>

definition sock :: "string \<Rightarrow> forwarder \<Rightarrow> socket" where
  "sock net f = (net, fwd_listen f, fwd_id f)"

lemma close_all_eq: "close_all fs ss = filter (\<lambda>s. snd (snd s) \<notin> fwd_id ` set fs) ss"
proof (induction fs arbitrary: ss)
  case Nil
  then show ?case by (simp add: close_all_def)
next
  case (Cons f fs)
  then show ?case
    by (auto simp: close_all_def close_forwarder_def case_prod_beta intro!: filter_cong)
qed

text \<open>What a run of \<open>open_all\<close> added: fresh forwarders with consecutive identities, one socket each.\<close>

definition added :: "string \<Rightarrow> opened \<Rightarrow> opened \<Rightarrow> (string, forwarder) gomap \<Rightarrow> bool" where
  "added net st st' new \<longleftrightarrow> op_sockets st' = op_sockets st @ map (\<lambda>p. sock net (snd p)) new
     \<and> op_started st' = op_started st @ new \<and> map (\<lambda>p. fwd_id (snd p)) new = [op_next st ..< op_next st']
     \<and> op_next st \<le> op_next st'"

definition to_open :: "string \<Rightarrow> (string, forwarder) gomap \<Rightarrow> (string, prepared_rule) gomap \<Rightarrow> string set" where
  "to_open net current ps = {rid |rid p. (rid, p) \<in> set ps \<and> wants net p \<and> \<not> reusable current rid p}"

definition fresh_for ::
  "string \<Rightarrow> (string, forwarder) gomap \<Rightarrow> (string, prepared_rule) gomap \<Rightarrow> (string, forwarder) gomap \<Rightarrow> bool" where
  "fresh_for net current ps new \<longleftrightarrow> (\<forall>(rid, f) \<in> set new. \<exists>p. (rid, p) \<in> set ps \<and> wants net p \<and> \<not> reusable current rid p
     \<and> fwd_listen f = prep_listen p \<and> fwd_config f = p)"

lemma open_all_added:
  assumes "gomap_ok ps" "fst ` set ps \<inter> fst ` set (op_started st) = {}" "open_all os net current ps st = (st', err)"
  shows "\<exists>new. added net st st' new \<and> fresh_for net current ps new
    \<and> (err = None \<longrightarrow> fst ` set new = to_open net current ps)"
  using assms
proof (induction ps arbitrary: st)
  case Nil
  then have "added net st st' [] \<and> fresh_for net current [] [] \<and> to_open net current [] = {}"
    by (simp add: added_def fresh_for_def to_open_def)
  then show ?case by (metis image_empty list.set(1))
next
  case (Cons q ps)
  obtain rid p where q: "q = (rid, p)" by fastforce
  have ps: "gomap_ok ps" "rid \<notin> fst ` set ps"
    using Cons.prems(1) q by (simp_all add: map_of_eq_None_iff)
  show ?case
  proof (cases "\<not> wants net p \<or> reusable current rid p")
    case True
    then have run: "open_all os net current ps st = (st', err)" using Cons.prems(3) q by simp
    have disj: "fst ` set ps \<inter> fst ` set (op_started st) = {}" using Cons.prems(2) by auto
    have needed: "to_open net current (q # ps) = to_open net current ps" using True q by (auto simp: to_open_def)
    have "fresh_for net current ps new \<Longrightarrow> fresh_for net current (q # ps) new" for new
      by (auto simp: fresh_for_def)
    with Cons.IH [OF ps(1) disj run] needed show ?thesis by metis
  next
    case need: False
    show ?thesis
    proof (cases "os (in_use (op_sockets st)) net (prep_listen p)")
      case False
      then have "st' = st" "err \<noteq> None" using need Cons.prems(3) q by auto
      then have "added net st st' [] \<and> fresh_for net current (q # ps) [] \<and> err \<noteq> None"
        by (simp add: added_def fresh_for_def)
      then show ?thesis by blast
    next
      case True
      let ?f = "\<lparr>fwd_id = op_next st, fwd_listen = prep_listen p, fwd_config = p\<rparr>"
      let ?st = "\<lparr>op_sockets = op_sockets st @ [(net, prep_listen p, op_next st)], op_next = op_next st + 1,
                 op_started = op_started st @ [(rid, ?f)]\<rparr>"
      have fresh: "rid \<notin> fst ` set (op_started st)" using Cons.prems(2) q by auto
      then have "gput rid ?f (op_started st) = op_started st @ [(rid, ?f)]"
        by (induction "op_started st") (auto simp: gput_Cons gput_fresh)
      then have run: "open_all os net current ps ?st = (st', err)"
        using Cons.prems(3) q need True by (simp add: Let_def)
      have "fst ` set ps \<inter> fst ` set (op_started ?st) = {}" using Cons.prems(2) ps(2) q by auto
      from Cons.IH [OF ps(1) this run] obtain new where new: "added net ?st st' new" "fresh_for net current ps new"
          "err = None \<longrightarrow> fst ` set new = to_open net current ps"
        by blast
      have "added net st st' ((rid, ?f) # new)"
        using new(1) by (auto simp: added_def sock_def upt_conv_Cons)
      moreover have "fresh_for net current (q # ps) ((rid, ?f) # new)"
        using new(2) need q by (fastforce simp: fresh_for_def)
      moreover have "to_open net current (q # ps) = insert rid (to_open net current ps)"
        using need q by (auto simp: to_open_def)
      ultimately show ?thesis using new(3) by (metis fst_conv image_insert list.simps(15))
    qed
  qed
qed

section \<open>Switching one transport\<close>

lemma map_of_map_filter:
  "gomap_ok m \<Longrightarrow> map_of (List.map_filter (\<lambda>(k, v). map_option (Pair k) (g k v)) m) k =
     (case map_of m k of Some v \<Rightarrow> g k v | None \<Rightarrow> None)"
proof (induction m)
  case Nil
  then show ?case by (simp add: List.map_filter_def)
next
  case (Cons q m)
  have skip: "map_of (List.map_filter (\<lambda>(k, v). map_option (Pair k) (g k v)) m) k = None" if "map_of m k = None"
    using Cons that by (simp split: option.splits)
  from Cons show ?case
    by (cases q) (auto simp: map_filter_simps skip split: option.splits)
qed

lemma gomap_ok_map_filter:
  "gomap_ok m \<Longrightarrow> gomap_ok (List.map_filter (\<lambda>(k, v). map_option (Pair k) (g k v)) m)"
proof (induction m)
  case Nil
  then show ?case by (simp add: List.map_filter_def)
next
  case (Cons q m)
  then show ?case
    using map_of_map_filter [of m g "fst q"] by (cases q) (auto simp: map_filter_simps split: option.splits)
qed

lemma map_of_next:
  "gomap_ok desired \<Longrightarrow> map_of (next_forwarders net reconf started current desired) rid =
     (case map_of desired rid of
        None \<Rightarrow> None
      | Some p \<Rightarrow> if \<not> wants net p then None
                  else (case map_of started rid of Some f \<Rightarrow> Some f | None \<Rightarrow> map_option (reconf p) (map_of current rid)))"
  unfolding next_forwarders_def next_for_def by (subst map_of_map_filter) (auto split: option.splits)

lemma gomap_ok_next: "gomap_ok desired \<Longrightarrow> gomap_ok (next_forwarders net reconf started current desired)"
  unfolding next_forwarders_def next_for_def by (rule gomap_ok_map_filter)

lemma retired_iff:
  "gomap_ok current \<Longrightarrow> f \<in> set (retired next current) \<longleftrightarrow>
     (\<exists>rid. map_of current rid = Some f \<and> (case map_of next rid of Some g \<Rightarrow> fwd_id g \<noteq> fwd_id f | None \<Rightarrow> True))"
  by (auto simp: retired_def in_set_map_of image_iff simp del: map_of_eq_Some_iff split: option.splits)

definition keeps_listener :: "(prepared_rule \<Rightarrow> forwarder \<Rightarrow> forwarder) \<Rightarrow> bool" where
  "keeps_listener reconf \<longleftrightarrow> (\<forall>p f. fwd_id (reconf p f) = fwd_id f \<and> fwd_listen (reconf p f) = fwd_listen f)"

lemma keeps_listener_reconfigure: "keeps_listener reconfigure_tcp" "keeps_listener reconfigure_udp"
  by (auto simp: keeps_listener_def reconfigure_tcp_def reconfigure_udp_def)

text \<open>
  A transport before the change: the running forwarders with identities below \<open>n\<close>, all different, and the new ones
  with identities from \<open>n\<close> on, for exactly the rules that cannot reuse a running one.
\<close>

definition switchable :: "string \<Rightarrow> (string, forwarder) gomap \<Rightarrow> (string, forwarder) gomap
    \<Rightarrow> (string, prepared_rule) gomap \<Rightarrow> nat \<Rightarrow> bool" where
  "switchable net new current desired n \<longleftrightarrow> gomap_ok new \<and> gomap_ok current \<and> gomap_ok desired
     \<and> (\<forall>rid f. map_of current rid = Some f \<longrightarrow> fwd_id f < n) \<and> (\<forall>rid f. map_of new rid = Some f \<longrightarrow> n \<le> fwd_id f)
     \<and> (\<forall>i j f g. map_of current i = Some f \<longrightarrow> map_of current j = Some g \<longrightarrow> fwd_id f = fwd_id g \<longrightarrow> i = j)
     \<and> fresh_for net current desired new \<and> fst ` set new = to_open net current desired"

lemma switchableD:
  assumes "switchable net new current desired n"
  shows "gomap_ok current" "gomap_ok desired" "gomap_ok new"
    "map_of current rid = Some f \<Longrightarrow> fwd_id f < n" "map_of new rid = Some f \<Longrightarrow> n \<le> fwd_id f"
    "map_of current i = Some f \<Longrightarrow> map_of current j = Some g \<Longrightarrow> fwd_id f = fwd_id g \<Longrightarrow> i = j"
proof -
  show "gomap_ok current" "gomap_ok desired" "gomap_ok new" using assms by (simp_all add: switchable_def)
  have "\<forall>rid f. map_of current rid = Some f \<longrightarrow> fwd_id f < n"
    using assms unfolding switchable_def by (elim conjE)
  then show "map_of current rid = Some f \<Longrightarrow> fwd_id f < n" by blast
  have "\<forall>rid f. map_of new rid = Some f \<longrightarrow> n \<le> fwd_id f"
    using assms unfolding switchable_def by (elim conjE)
  then show "map_of new rid = Some f \<Longrightarrow> n \<le> fwd_id f" by blast
  have "\<forall>i j f g. map_of current i = Some f \<longrightarrow> map_of current j = Some g \<longrightarrow> fwd_id f = fwd_id g \<longrightarrow> i = j"
    using assms unfolding switchable_def by (elim conjE)
  then show "map_of current i = Some f \<Longrightarrow> map_of current j = Some g \<Longrightarrow> fwd_id f = fwd_id g \<Longrightarrow> i = j" by blast
qed

lemma switchable_new:
  assumes "switchable net new current desired n" "map_of new rid = Some f"
  shows "\<exists>p. map_of desired rid = Some p \<and> wants net p \<and> \<not> reusable current rid p \<and> fwd_listen f = prep_listen p
     \<and> fwd_config f = p"
proof -
  have "(rid, f) \<in> set new" using assms(2) by (rule map_of_SomeD)
  then obtain p where p: "(rid, p) \<in> set desired" "wants net p" "\<not> reusable current rid p" "fwd_listen f = prep_listen p"
      "fwd_config f = p"
    using assms(1) unfolding switchable_def fresh_for_def by blast
  have "map_of desired rid = Some p"
    using p(1) assms(1) in_set_map_of unfolding switchable_def by metis
  with p show ?thesis by blast
qed

lemma switchable_kept:
  assumes "switchable net new current desired n" "map_of desired rid = Some p" "wants net p" "map_of new rid = None"
  shows "\<exists>f. map_of current rid = Some f \<and> fwd_listen f = prep_listen p"
proof -
  have "rid \<notin> to_open net current desired"
    using assms(1,4) unfolding switchable_def by (metis map_of_eq_None_iff)
  moreover have "(rid, p) \<in> set desired" using assms(2) by (rule map_of_SomeD)
  ultimately have "reusable current rid p" using assms(3) by (auto simp: to_open_def)
  then show ?thesis by (auto simp: reusable_def split: option.splits)
qed

text \<open>After the change the transport runs exactly the desired rules that use it, at their addresses.\<close>

lemma switched:
  assumes sw: "switchable net new current desired n" and keep: "keeps_listener reconf"
  defines "next \<equiv> next_forwarders net reconf new current desired"
  shows "map_of next rid = Some f \<Longrightarrow> \<exists>p. map_of desired rid = Some p \<and> wants net p \<and> fwd_listen f = prep_listen p"
    and "map_of desired rid = Some p \<Longrightarrow> wants net p \<Longrightarrow> \<exists>f. map_of next rid = Some f"
    and "map_of next rid = Some f \<Longrightarrow> map_of new rid = Some f
      \<or> (\<exists>g p. map_of new rid = None \<and> map_of current rid = Some g \<and> map_of desired rid = Some p \<and> f = reconf p g)"
proof -
  have desired: "gomap_ok desired" using sw by (simp add: switchable_def)
  note nxt = map_of_next [OF desired, of net reconf new current, folded next_def]
  show "\<exists>p. map_of desired rid = Some p \<and> wants net p \<and> fwd_listen f = prep_listen p" if f: "map_of next rid = Some f"
  proof -
    obtain p where p: "map_of desired rid = Some p" "wants net p"
      using f unfolding nxt by (auto split: option.splits if_splits)
    have "fwd_listen f = prep_listen p"
    proof (cases "map_of new rid")
      case None
      with switchable_kept [OF sw p None] f p keep show ?thesis unfolding nxt keeps_listener_def by auto
    next
      case (Some g)
      with switchable_new [OF sw Some] f p show ?thesis unfolding nxt by auto
    qed
    with p show ?thesis by blast
  qed
  show "\<exists>f. map_of next rid = Some f" if "map_of desired rid = Some p" "wants net p"
    using that switchable_kept [OF sw that] unfolding nxt by (cases "map_of new rid") auto
  show "map_of new rid = Some f
      \<or> (\<exists>g p. map_of new rid = None \<and> map_of current rid = Some g \<and> map_of desired rid = Some p \<and> f = reconf p g)"
    if "map_of next rid = Some f"
    using that unfolding nxt by (auto split: option.splits if_splits)
qed

lemma switched_sockets:
  assumes sw: "switchable net new current desired n" and keep: "keeps_listener reconf"
  defines "next \<equiv> next_forwarders net reconf new current desired"
  shows "{sock net f |rid f. map_of next rid = Some f} =
     {sock net f |rid f. map_of current rid = Some f \<and> fwd_id f \<notin> fwd_id ` set (retired next current)}
     \<union> {sock net f |rid f. map_of new rid = Some f}"
    (is "?next = ?kept \<union> ?new")
proof (intro equalityI subsetI)
  note parts = switchableD(1,4,5,6) [OF sw]
  have same: "sock net (reconf p g) = sock net g" "fwd_id (reconf p g) = fwd_id g" for p g
    using keep by (simp_all add: sock_def keeps_listener_def)
  fix s
  {
    assume "s \<in> ?next"
    then obtain rid f where f: "map_of next rid = Some f" "s = sock net f" by blast
    from switched(3) [OF sw keep f(1) [unfolded next_def]] show "s \<in> ?kept \<union> ?new"
    proof (elim disjE exE conjE)
      assume "map_of new rid = Some f"
      with f(2) show ?thesis by blast
    next
      fix g p assume g: "map_of current rid = Some g" "f = reconf p g"
      have "fwd_id g \<notin> fwd_id ` set (retired next current)"
      proof
        assume "fwd_id g \<in> fwd_id ` set (retired next current)"
        then obtain h where "h \<in> set (retired next current)" and id: "fwd_id h = fwd_id g" by force
        then obtain j where h: "map_of current j = Some h" "fwd_id h = fwd_id g"
            "case map_of next j of Some k \<Rightarrow> fwd_id k \<noteq> fwd_id h | None \<Rightarrow> True"
          unfolding retired_iff [OF parts(1)] by blast
        have "j = rid" using parts(4) [OF h(1) g(1) h(2)] .
        with h f(1) g(2) show False by (simp add: same)
      qed
      moreover have "s = sock net g" using g(2) f(2) same(1) by simp
      ultimately show ?thesis using g(1) by blast
    qed
  next
    assume "s \<in> ?kept \<union> ?new"
    then consider rid f where "map_of current rid = Some f" "fwd_id f \<notin> fwd_id ` set (retired next current)" "s = sock net f"
      | rid f where "map_of new rid = Some f" "s = sock net f" by blast
    then show "s \<in> ?next"
    proof cases
      case (1 rid f)
      then have "\<not> (case map_of next rid of Some g \<Rightarrow> fwd_id g \<noteq> fwd_id f | None \<Rightarrow> True)"
        using retired_iff [OF parts(1)] by blast
      then obtain g where g: "map_of next rid = Some g" "fwd_id g = fwd_id f" by (auto split: option.splits)
      from switched(3) [OF sw keep g(1) [unfolded next_def]] show ?thesis
      proof (elim disjE exE conjE)
        assume "map_of new rid = Some g"
        with parts(3) [OF this] parts(2) [OF 1(1)] g(2) show ?thesis by simp
      next
        fix h p assume "map_of current rid = Some h" "g = reconf p h"
        with 1(1,3) have "s = sock net g" using same(1) by simp
        with g(1) show ?thesis by blast
      qed
    next
      case (2 rid f)
      then obtain p where "map_of desired rid = Some p" "wants net p" using switchable_new [OF sw] by blast
      with 2 have "map_of next rid = Some f"
        using sw unfolding next_def switchable_def by (simp add: map_of_next)
      with 2 show ?thesis by blast
    qed
  }
qed

section \<open>The invariant of the manager\<close>

text \<open>
  Every forwarder has its own identity, and the open sockets are exactly those of the forwarders of both transports;
  each listens where its configuration says.
\<close>

definition sockets_of :: "string \<Rightarrow> (string, forwarder) gomap \<Rightarrow> socket set" where
  "sockets_of net fs = {sock net f |rid f. map_of fs rid = Some f}"

definition separate :: "(string, forwarder) gomap \<Rightarrow> bool" where
  "separate fs \<longleftrightarrow> gomap_ok fs \<and> (\<forall>i j f g. map_of fs i = Some f \<longrightarrow> map_of fs j = Some g \<longrightarrow> fwd_id f = fwd_id g \<longrightarrow> i = j)"

definition ids_of :: "(string, forwarder) gomap \<Rightarrow> nat set" where
  "ids_of fs = {fwd_id f |rid f. map_of fs rid = Some f}"

definition configured :: "(string, forwarder) gomap \<Rightarrow> bool" where
  "configured fs \<longleftrightarrow> (\<forall>rid f. map_of fs rid = Some f \<longrightarrow>
     fwd_config f = prepare_rule (prep_rule (fwd_config f)) \<and> fwd_listen f = prep_listen (fwd_config f))"

definition live_limiters :: "(string, limiter) gomap \<Rightarrow> bool" where
  "live_limiters ls \<longleftrightarrow> (\<forall>rid l. map_of ls rid = Some l \<longrightarrow> \<not> lim_closed l)"

definition mgr_inv :: "manager \<Rightarrow> bool" where
  "mgr_inv m \<longleftrightarrow> live_limiters (mgr_limiters m) \<and> configured (mgr_tcp m) \<and> configured (mgr_udp m) \<and> separate (mgr_tcp m) \<and> separate (mgr_udp m) \<and> ids_of (mgr_tcp m) \<inter> ids_of (mgr_udp m) = {}
     \<and> set (mgr_sockets m) = sockets_of ''tcp'' (mgr_tcp m) \<union> sockets_of ''udp'' (mgr_udp m)
     \<and> (\<forall>i \<in> ids_of (mgr_tcp m) \<union> ids_of (mgr_udp m). i < mgr_next m)"

lemma mgr_inv_NewManager: "mgr_inv (NewManager nid)"
  by (simp add: mgr_inv_def NewManager_def separate_def sockets_of_def ids_of_def configured_def live_limiters_def)

lemma mgr_invD:
  assumes "mgr_inv m"
  shows "separate (mgr_tcp m)" "separate (mgr_udp m)" "ids_of (mgr_tcp m) \<inter> ids_of (mgr_udp m) = {}"
    "set (mgr_sockets m) = sockets_of ''tcp'' (mgr_tcp m) \<union> sockets_of ''udp'' (mgr_udp m)"
    "i \<in> ids_of (mgr_tcp m) \<Longrightarrow> i < mgr_next m" "i \<in> ids_of (mgr_udp m) \<Longrightarrow> i < mgr_next m"
    "configured (mgr_tcp m)" "configured (mgr_udp m)" "live_limiters (mgr_limiters m)"
  using assms by (simp_all add: mgr_inv_def)

lemma socket_id: "s \<in> sockets_of net fs \<Longrightarrow> snd (snd s) \<in> ids_of fs"
  unfolding sockets_of_def ids_of_def sock_def by force

lemma sockets_below: "mgr_inv m \<Longrightarrow> s \<in> set (mgr_sockets m) \<Longrightarrow> snd (snd s) < mgr_next m"
  using mgr_invD(4,5,6) socket_id by blast

lemma entries_ok: "preparable nid rs \<Longrightarrow> gomap_ok (entries nid rs)"
proof -
  assume "preparable nid rs"
  then have "sorted_wrt (apart nid) (filter rule_enabled rs)" by (simp add: preparable_def)
  then have "distinct (map rule_id (filter rule_enabled rs))"
    by (induction "filter rule_enabled rs" arbitrary: rs) (auto simp: distinct_map apart_def sorted_wrt_iff_nth_less distinct_conv_nth nat_neq_iff, metis)
  then show ?thesis by (simp add: gomap_ok_def entries_def comp_def)
qed

section \<open>Failed changes change nothing\<close>

definition fresh_ids :: "nat \<Rightarrow> nat \<Rightarrow> (string, forwarder) gomap \<Rightarrow> bool" where
  "fresh_ids a b new \<longleftrightarrow> separate new \<and> (\<forall>p \<in> set new. a \<le> fwd_id (snd p) \<and> fwd_id (snd p) < b)"

lemma added_fresh_ids:
  assumes "added net st st' new" "gomap_ok new"
  shows "fresh_ids (op_next st) (op_next st') new"
proof -
  have eq: "map (\<lambda>p. fwd_id (snd p)) new = [op_next st ..< op_next st']" using assms(1) by (simp add: added_def)
  then have "distinct (map (\<lambda>p. fwd_id (snd p)) new)" by simp
  then have inj: "p = q" if "p \<in> set new" "q \<in> set new" "fwd_id (snd p) = fwd_id (snd q)" for p q
    using that by (auto simp: distinct_map inj_on_def)
  have "i = j" if "map_of new i = Some f" "map_of new j = Some g" "fwd_id f = fwd_id g" for i j f g
    using inj [OF map_of_SomeD [OF that(1)] map_of_SomeD [OF that(2)]] that(3) by simp
  then have "separate new" using assms(2) unfolding separate_def by blast
  moreover have "fwd_id (snd p) \<in> {op_next st ..< op_next st'}" if "p \<in> set new" for p
    using arg_cong [OF eq, of set] that by (metis image_eqI list.set_map set_upt)
  ultimately show ?thesis unfolding fresh_ids_def by fastforce
qed

lemma close_all_append: "close_all fs (a @ b) = close_all fs a @ close_all fs b"
  by (simp add: close_all_eq)

lemma close_new: "close_all (map snd new) (map (\<lambda>p. sock net (snd p)) new) = []"
  by (auto simp: close_all_eq filter_empty_conv sock_def)

lemma close_others:
  "\<forall>s \<in> set ss. snd (snd s) \<notin> fwd_id ` set fs \<Longrightarrow> close_all fs ss = ss"
  by (simp add: close_all_eq filter_id_conv)

lemma open_all_gomap:
  "open_all os net current ps st = (st', err) \<Longrightarrow> gomap_ok (op_started st) \<Longrightarrow> gomap_ok (op_started st')"
proof (induction ps arbitrary: st)
  case Nil
  then show ?case by simp
next
  case (Cons q ps)
  then show ?case by (cases q) (auto simp: Let_def split: if_splits)
qed

text \<open>One call of \<open>open_all\<close> by itself.\<close>

lemma open_all_run:
  assumes "gomap_ok desired" "op_started st = []" "open_all os net current desired st = (st', err)"
  obtains new where "added net st st' new" "op_started st' = new" "fresh_for net current desired new"
    "fresh_ids (op_next st) (op_next st') new" "err = None \<Longrightarrow> fst ` set new = to_open net current desired"
    "op_sockets st' = op_sockets st @ map (\<lambda>p. sock net (snd p)) new" "op_next st \<le> op_next st'"
proof -
  obtain new where new: "added net st st' new" "fresh_for net current desired new"
      "err = None \<longrightarrow> fst ` set new = to_open net current desired"
    using open_all_added [OF assms(1) _ assms(3)] assms(2) by auto
  have s: "op_started st' = new" "op_sockets st' = op_sockets st @ map (\<lambda>p. sock net (snd p)) new" "op_next st \<le> op_next st'"
    using new(1) assms(2) by (simp_all add: added_def)
  have "gomap_ok new" using open_all_gomap [OF assms(3)] assms(2) s(1) by simp
  with new s that added_fresh_ids [OF new(1)] show thesis by blast
qed

lemma fresh_ids_others:
  assumes "fresh_ids a b new1" "fresh_ids b c new2"
  shows "\<forall>s \<in> set (map (\<lambda>p. sock net (snd p)) new2). snd (snd s) \<notin> fwd_id ` set (map snd new1)"
proof (intro ballI notI)
  fix s assume "s \<in> set (map (\<lambda>p. sock net (snd p)) new2)" "snd (snd s) \<in> fwd_id ` set (map snd new1)"
  then obtain p q where "p \<in> set new1" "q \<in> set new2" "fwd_id (snd q) = fwd_id (snd p)"
    by (auto simp: sock_def)
  moreover have "fwd_id (snd p) < b" "b \<le> fwd_id (snd q)"
    using assms calculation(1,2) unfolding fresh_ids_def by blast+
  ultimately show False by simp
qed

text \<open>Whatever fails, the sockets opened on the way are closed again.\<close>

lemma Apply_error:
  assumes "mgr_inv m" "Apply os now rules m = (m', Inl e)"
  shows "m' = m"
proof (cases "prepareRules rules (mgr_node m)")
  case (Inl a)
  with assms(2) show ?thesis by (simp add: Apply_def)
next
  case (Inr D)
  show ?thesis
  proof (cases "mgr_closed m")
    case True
    with Inr assms(2) show ?thesis by (simp add: Apply_def)
  next
    case False
    have "gomap_ok D" using Inr entries_ok by (simp add: prepared_entries)
    let ?st = "\<lparr>op_sockets = mgr_sockets m, op_next = mgr_next m, op_started = []\<rparr>"
    obtain st1 err1 where o1: "open_all os ''tcp'' (mgr_tcp m) D ?st = (st1, err1)" by fastforce
    obtain new1 where n1: "op_started st1 = new1" "fresh_ids (mgr_next m) (op_next st1) new1"
        "op_sockets st1 = mgr_sockets m @ map (\<lambda>p. sock ''tcp'' (snd p)) new1" "mgr_next m \<le> op_next st1"
      using open_all_run [OF \<open>gomap_ok D\<close> _ o1] by (metis opened.select_convs)
    have old: "\<forall>s \<in> set (mgr_sockets m). snd (snd s) \<notin> fwd_id ` set (map snd new)" if "fresh_ids k n new" "mgr_next m \<le> k"
      for new k n
      using sockets_below [OF assms(1)] that by (fastforce simp: fresh_ids_def)
    have closed1: "close_all (map snd new1) (op_sockets st1) = mgr_sockets m"
      unfolding n1(3) close_all_append close_new using close_others [OF old [OF n1(2)]] by simp
    show ?thesis
    proof (cases err1)
      case (Some a)
      with Inr False o1 n1(1) closed1 assms(2) show ?thesis by (simp add: Apply_def)
    next
      case None
      obtain st2 err2 where o2: "open_all os ''udp'' (mgr_udp m) D (st1\<lparr>op_started := []\<rparr>) = (st2, err2)" by fastforce
      have "op_started (st1\<lparr>op_started := []\<rparr>) = []" by simp
      from open_all_run [OF \<open>gomap_ok D\<close> this o2]
      obtain new2 where "op_started st2 = new2" "fresh_ids (op_next (st1\<lparr>op_started := []\<rparr>)) (op_next st2) new2"
          "op_sockets st2 = op_sockets (st1\<lparr>op_started := []\<rparr>) @ map (\<lambda>p. sock ''udp'' (snd p)) new2"
        by blast
      then have n2: "op_started st2 = new2" "fresh_ids (op_next st1) (op_next st2) new2"
          "op_sockets st2 = op_sockets st1 @ map (\<lambda>p. sock ''udp'' (snd p)) new2"
        by simp_all
      have "\<forall>s \<in> set (map (\<lambda>p. sock ''udp'' (snd p)) new2). snd (snd s) \<notin> fwd_id ` set (map snd new1)"
        by (rule fresh_ids_others [OF n1(2) n2(2)])
      then have "close_all (map snd new2) (close_all (map snd new1) (op_sockets st2)) = mgr_sockets m"
        unfolding n2(3) close_all_append closed1 using close_others old [OF n2(2) n1(4)] by (simp add: close_all_append close_new)
      with Inr False o1 o2 None n1(1) n2(1) assms(2) show ?thesis
        by (auto simp: Apply_def Let_def split: option.splits)
    qed
  qed
qed

section \<open>Successful changes\<close>

text \<open>The transport runs exactly the prepared rules that use it, each with its own configuration and address.\<close>

definition runs :: "string \<Rightarrow> (string, prepared_rule) gomap \<Rightarrow> (string, forwarder) gomap \<Rightarrow> bool" where
  "runs net D fs \<longleftrightarrow> (\<forall>rid. map_option (\<lambda>f. (fwd_listen f, fwd_config f)) (map_of fs rid) =
     (case map_of D rid of Some p \<Rightarrow> if wants net p then Some (prep_listen p, p) else None | None \<Rightarrow> None))"

text \<open>The running forwarders whose rule keeps its listen address keep their identity.\<close>

definition survive :: "string \<Rightarrow> (string, prepared_rule) gomap \<Rightarrow> (string, forwarder) gomap \<Rightarrow> (string, forwarder) gomap \<Rightarrow> bool" where
  "survive net D fs fs' \<longleftrightarrow> (\<forall>rid f p. map_of fs rid = Some f \<longrightarrow> map_of D rid = Some p \<longrightarrow> wants net p
     \<longrightarrow> fwd_listen f = prep_listen p \<longrightarrow> (\<exists>g. map_of fs' rid = Some g \<and> fwd_id g = fwd_id f))"

lemma entries_prepared: "map_of (entries nid rs) rid = Some p \<Longrightarrow> p = prepare_rule (prep_rule p)"
  using map_of_SomeD [of "entries nid rs" rid p] by (auto simp: entries_def prepared_as_def)

text \<open>The outcome of \<open>reconfigure_tcp\<close> and \<open>reconfigure_udp\<close> on a configured forwarder.\<close>

lemma reconfigured:
  assumes "fwd_config f = prepare_rule (prep_rule (fwd_config f))" "p = prepare_rule (prep_rule p)"
  shows "fwd_config (reconfigure_tcp p f) = p" "fwd_config (reconfigure_udp p f) = p"
proof -
  show "fwd_config (reconfigure_tcp p f) = p"
  proof (cases "prep_rule (fwd_config f) = prep_rule p")
    case True
    then have "fwd_config f = p" by (subst assms(1), subst assms(2)) (simp only:)
    then show ?thesis by (simp add: reconfigure_tcp_def)
  next
    case False
    then show ?thesis by (simp add: reconfigure_tcp_def)
  qed
qed (simp add: reconfigure_udp_def)

definition good_reconf :: "(prepared_rule \<Rightarrow> forwarder \<Rightarrow> forwarder) \<Rightarrow> bool" where
  "good_reconf reconf \<longleftrightarrow> keeps_listener reconf \<and> (\<forall>p f. fwd_config f = prepare_rule (prep_rule (fwd_config f)) \<longrightarrow>
     p = prepare_rule (prep_rule p) \<longrightarrow> fwd_config (reconf p f) = p)"

lemma good_reconfs: "good_reconf reconfigure_tcp" "good_reconf reconfigure_udp"
  using keeps_listener_reconfigure reconfigured by (auto simp: good_reconf_def)

lemma switched_runs:
  assumes "switchable net new current (entries nid rs) n" "good_reconf reconf" "configured current"
  shows "runs net (entries nid rs) (next_forwarders net reconf new current (entries nid rs))" (is "runs net ?D ?next")
  unfolding runs_def
proof
  fix rid
  have D: "gomap_ok ?D" using switchableD(2) [OF assms(1)] .
  show "map_option (\<lambda>f. (fwd_listen f, fwd_config f)) (map_of ?next rid) =
     (case map_of ?D rid of Some p \<Rightarrow> if wants net p then Some (prep_listen p, p) else None | None \<Rightarrow> None)"
  proof (cases "\<exists>p. map_of ?D rid = Some p \<and> wants net p")
    case False
    then show ?thesis by (auto simp: map_of_next [OF D] split: option.splits)
  next
    case True
    then obtain p where p: "map_of ?D rid = Some p" "wants net p" by blast
    show ?thesis
    proof (cases "map_of new rid")
      case (Some f)
      with switchable_new [OF assms(1) Some] p show ?thesis by (auto simp: map_of_next [OF D])
    next
      case None
      obtain f where f: "map_of current rid = Some f" "fwd_listen f = prep_listen p"
        using switchable_kept [OF assms(1) p None] by blast
      have "fwd_config (reconf p f) = p"
        using assms(2,3) f(1) entries_prepared [OF p(1)] unfolding good_reconf_def configured_def by blast
      moreover have "fwd_listen (reconf p f) = prep_listen p"
        using assms(2) f(2) by (simp add: good_reconf_def keeps_listener_def)
      ultimately show ?thesis using p None f(1) by (simp add: map_of_next [OF D])
    qed
  qed
qed

lemma switched_survive:
  assumes "switchable net new current D n" "keeps_listener reconf"
  shows "survive net D current (next_forwarders net reconf new current D)"
  unfolding survive_def
proof (intro allI impI)
  fix rid f p
  assume f: "map_of current rid = Some f" and p: "map_of D rid = Some p" "wants net p" and same: "fwd_listen f = prep_listen p"
  have "map_of new rid = None"
  proof (cases "map_of new rid")
    case (Some g)
    with switchable_new [OF assms(1) Some] p f same show ?thesis by (auto simp: reusable_def)
  qed
  then show "\<exists>g. map_of (next_forwarders net reconf new current D) rid = Some g \<and> fwd_id g = fwd_id f"
    using p f assms(2) by (simp add: map_of_next [OF switchableD(2) [OF assms(1)]] keeps_listener_def)
qed

lemma runs_configured:
  assumes "runs net (entries nid rs) fs"
  shows "configured fs"
  unfolding configured_def
proof (intro allI impI)
  fix rid f assume "map_of fs rid = Some f"
  with assms obtain p where "map_of (entries nid rs) rid = Some p" "fwd_listen f = prep_listen p" "fwd_config f = p"
    unfolding runs_def by (auto dest!: spec [of _ rid] split: option.splits if_splits)
  with entries_prepared show "fwd_config f = prepare_rule (prep_rule (fwd_config f)) \<and> fwd_listen f = prep_listen (fwd_config f)"
    by simp
qed

text \<open>Where the identity of a forwarder after the change comes from.\<close>

lemma switched_id:
  assumes "switchable net new current D n" "keeps_listener reconf"
    "map_of (next_forwarders net reconf new current D) rid = Some f"
  shows "(\<exists>g. map_of new rid = Some g \<and> fwd_id g = fwd_id f \<and> n \<le> fwd_id f)
    \<or> (\<exists>g. map_of current rid = Some g \<and> fwd_id g = fwd_id f \<and> fwd_id f < n)"
  using switched(3) [OF assms]
proof (elim disjE exE conjE)
  assume new: "map_of new rid = Some f"
  with switchableD(5) [OF assms(1) new] show ?thesis by blast
next
  fix g p assume g: "map_of current rid = Some g" "f = reconf p g"
  then have "fwd_id f = fwd_id g" using assms(2) by (simp add: keeps_listener_def)
  with g(1) switchableD(4) [OF assms(1) g(1)] show ?thesis by auto
qed

lemma switched_id_new:
  assumes "switchable net new current D n" "keeps_listener reconf"
    "map_of (next_forwarders net reconf new current D) rid = Some f" "n \<le> fwd_id f"
  shows "\<exists>g. map_of new rid = Some g \<and> fwd_id g = fwd_id f"
  using switched_id [OF assms(1-3)] assms(4) by (elim disjE exE) simp_all

lemma switched_id_old:
  assumes "switchable net new current D n" "keeps_listener reconf"
    "map_of (next_forwarders net reconf new current D) rid = Some f" "fwd_id f < n"
  shows "\<exists>g. map_of current rid = Some g \<and> fwd_id g = fwd_id f"
  using switched_id [OF assms(1-3)] assms(4) by (elim disjE exE) simp_all

lemma switched_separate:
  assumes "switchable net new current D n" "keeps_listener reconf" "separate new"
  shows "separate (next_forwarders net reconf new current D)" (is "separate ?next")
  unfolding separate_def
proof (intro conjI allI impI)
  show "gomap_ok ?next" using gomap_ok_next switchableD(2) [OF assms(1)] .
  fix i j f g assume f: "map_of ?next i = Some f" and g: "map_of ?next j = Some g" and same: "fwd_id f = fwd_id g"
  show "i = j"
  proof (cases "n \<le> fwd_id f")
    case True
    obtain h where h: "map_of new i = Some h" "fwd_id h = fwd_id f"
      using switched_id_new [OF assms(1,2) f True] by blast
    have "n \<le> fwd_id g" using True same by simp
    then obtain k where k: "map_of new j = Some k" "fwd_id k = fwd_id g"
      using switched_id_new [OF assms(1,2) g] by blast
    have "fwd_id h = fwd_id k" using h(2) k(2) same by simp
    with h(1) k(1) assms(3) show ?thesis unfolding separate_def by blast
  next
    case False
    then have old: "fwd_id f < n" "fwd_id g < n" using same by simp_all
    obtain h where h: "map_of current i = Some h" "fwd_id h = fwd_id f"
      using switched_id_old [OF assms(1,2) f old(1)] by blast
    obtain k where k: "map_of current j = Some k" "fwd_id k = fwd_id g"
      using switched_id_old [OF assms(1,2) g old(2)] by blast
    have "fwd_id h = fwd_id k" using h(2) k(2) same by simp
    then show ?thesis using switchableD(6) [OF assms(1) h(1) k(1)] by blast
  qed
qed

lemma mem_ids_of: "map_of fs rid = Some f \<Longrightarrow> fwd_id f \<in> ids_of fs"
  by (auto simp: ids_of_def)

lemma switched_ids:
  assumes "switchable net new current D n" "keeps_listener reconf"
  shows "ids_of (next_forwarders net reconf new current D) \<subseteq> ids_of current \<union> ids_of new"
proof
  fix i assume "i \<in> ids_of (next_forwarders net reconf new current D)"
  then obtain rid f where f: "map_of (next_forwarders net reconf new current D) rid = Some f" "i = fwd_id f"
    by (auto simp: ids_of_def)
  from switched_id [OF assms f(1)] show "i \<in> ids_of current \<union> ids_of new"
  proof (elim disjE exE conjE)
    fix g assume "map_of new rid = Some g" "fwd_id g = fwd_id f"
    with f(2) mem_ids_of show ?thesis by fastforce
  next
    fix g assume "map_of current rid = Some g" "fwd_id g = fwd_id f"
    with f(2) mem_ids_of show ?thesis by fastforce
  qed
qed

lemma fresh_ids_of: "fresh_ids a b new \<Longrightarrow> i \<in> ids_of new \<Longrightarrow> a \<le> i \<and> i < b"
  unfolding fresh_ids_def ids_of_def by (force dest: map_of_SomeD)

lemma fresh_switchable:
  assumes "separate fs" "\<And>i. i \<in> ids_of fs \<Longrightarrow> i < n" "fresh_ids n k new" "fresh_for net fs desired new"
    "fst ` set new = to_open net fs desired" "gomap_ok desired"
  shows "switchable net new fs desired n"
proof -
  have "gomap_ok new" "gomap_ok fs" using assms(1,3) by (simp_all add: fresh_ids_def separate_def)
  moreover have "\<forall>rid f. map_of fs rid = Some f \<longrightarrow> fwd_id f < n" using assms(2) unfolding ids_of_def by blast
  moreover have "\<forall>rid f. map_of new rid = Some f \<longrightarrow> n \<le> fwd_id f"
    using fresh_ids_of [OF assms(3)] unfolding ids_of_def by blast
  ultimately show ?thesis using assms(1,4,5,6) unfolding switchable_def separate_def by blast
qed

text \<open>A successful change: what was started, and the state it leads to.\<close>

definition applied :: "time \<Rightarrow> manager \<Rightarrow> (string, prepared_rule) gomap \<Rightarrow> (string, forwarder) gomap \<Rightarrow> (string, forwarder) gomap
    \<Rightarrow> nat \<Rightarrow> nat \<Rightarrow> manager \<Rightarrow> bool" where
  "applied now m D new1 new2 k n m' \<longleftrightarrow>
     switchable ''tcp'' new1 (mgr_tcp m) D (mgr_next m) \<and> switchable ''udp'' new2 (mgr_udp m) D k
     \<and> fresh_ids (mgr_next m) k new1 \<and> fresh_ids k n new2 \<and> mgr_next m \<le> k \<and> k \<le> n
     \<and> m' = m\<lparr>mgr_tcp := next_forwarders ''tcp'' reconfigure_tcp new1 (mgr_tcp m) D,
               mgr_udp := next_forwarders ''udp'' reconfigure_udp new2 (mgr_udp m) D,
               mgr_limiters := next_limiters now (mgr_limiters m) D,
               mgr_sockets := close_all (retired (next_forwarders ''udp'' reconfigure_udp new2 (mgr_udp m) D) (mgr_udp m))
                 (close_all (retired (next_forwarders ''tcp'' reconfigure_tcp new1 (mgr_tcp m) D) (mgr_tcp m))
                   (mgr_sockets m @ map (\<lambda>p. sock ''tcp'' (snd p)) new1 @ map (\<lambda>p. sock ''udp'' (snd p)) new2)),
               mgr_next := n\<rparr>"

lemma Apply_ok:
  assumes "mgr_inv m" "Apply os now rules m = (m', Inr ())"
  obtains new1 new2 k n where "prepareRules rules (mgr_node m) = Inr (entries (mgr_node m) rules)" "\<not> mgr_closed m"
    "applied now m (entries (mgr_node m) rules) new1 new2 k n m'"
proof -
  obtain D where D: "prepareRules rules (mgr_node m) = Inr D"
    using assms(2) by (auto simp: Apply_def split: sum.splits)
  then have DE: "D = entries (mgr_node m) rules" "preparable (mgr_node m) rules" by (simp_all add: prepared_entries)
  then have ok: "gomap_ok D" using entries_ok by simp
  have open_mgr: "\<not> mgr_closed m" using assms(2) D by (auto simp: Apply_def)
  let ?st = "\<lparr>op_sockets = mgr_sockets m, op_next = mgr_next m, op_started = []\<rparr>"
  obtain st1 err1 where o1: "open_all os ''tcp'' (mgr_tcp m) D ?st = (st1, err1)" by fastforce
  have e1: "err1 = None" using assms(2) D open_mgr o1 by (cases err1) (simp_all add: Apply_def)
  obtain st2 err2 where o2: "open_all os ''udp'' (mgr_udp m) D (st1\<lparr>op_started := []\<rparr>) = (st2, err2)" by fastforce
  have e2: "err2 = None" using assms(2) D open_mgr o1 e1 o2 by (cases err2) (simp_all add: Apply_def)
  have "op_started ?st = []" by simp
  from open_all_run [OF ok this o1]
  obtain new1 where "op_started st1 = new1" "fresh_for ''tcp'' (mgr_tcp m) D new1"
      "fresh_ids (op_next ?st) (op_next st1) new1" "err1 = None \<Longrightarrow> fst ` set new1 = to_open ''tcp'' (mgr_tcp m) D"
      "op_sockets st1 = op_sockets ?st @ map (\<lambda>p. sock ''tcp'' (snd p)) new1" "op_next ?st \<le> op_next st1"
    by blast
  then have n1: "op_started st1 = new1" "fresh_for ''tcp'' (mgr_tcp m) D new1" "fresh_ids (mgr_next m) (op_next st1) new1"
      "fst ` set new1 = to_open ''tcp'' (mgr_tcp m) D" "op_sockets st1 = mgr_sockets m @ map (\<lambda>p. sock ''tcp'' (snd p)) new1"
      "mgr_next m \<le> op_next st1"
    using e1 by simp_all
  have "op_started (st1\<lparr>op_started := []\<rparr>) = []" by simp
  from open_all_run [OF ok this o2]
  obtain new2 where "op_started st2 = new2" "fresh_for ''udp'' (mgr_udp m) D new2"
      "fresh_ids (op_next (st1\<lparr>op_started := []\<rparr>)) (op_next st2) new2" "err2 = None \<Longrightarrow> fst ` set new2 = to_open ''udp'' (mgr_udp m) D"
      "op_sockets st2 = op_sockets (st1\<lparr>op_started := []\<rparr>) @ map (\<lambda>p. sock ''udp'' (snd p)) new2"
      "op_next (st1\<lparr>op_started := []\<rparr>) \<le> op_next st2"
    by blast
  then have n2: "op_started st2 = new2" "fresh_for ''udp'' (mgr_udp m) D new2" "fresh_ids (op_next st1) (op_next st2) new2"
      "fst ` set new2 = to_open ''udp'' (mgr_udp m) D" "op_sockets st2 = op_sockets st1 @ map (\<lambda>p. sock ''udp'' (snd p)) new2"
      "op_next st1 \<le> op_next st2"
    using e2 by simp_all
  have below: "i < op_next st1" if "i \<in> ids_of (mgr_udp m)" for i
    using mgr_invD(6) [OF assms(1) that] n1(6) by simp
  have "switchable ''tcp'' new1 (mgr_tcp m) D (mgr_next m)"
    by (rule fresh_switchable [OF mgr_invD(1) [OF assms(1)] mgr_invD(5) [OF assms(1)] n1(3) n1(2) n1(4) ok])
  moreover have "switchable ''udp'' new2 (mgr_udp m) D (op_next st1)"
    by (rule fresh_switchable [OF mgr_invD(2) [OF assms(1)] below n2(3) n2(2) n2(4) ok])
  moreover have "m' = m\<lparr>mgr_tcp := next_forwarders ''tcp'' reconfigure_tcp new1 (mgr_tcp m) D,
               mgr_udp := next_forwarders ''udp'' reconfigure_udp new2 (mgr_udp m) D,
               mgr_limiters := next_limiters now (mgr_limiters m) D,
               mgr_sockets := close_all (retired (next_forwarders ''udp'' reconfigure_udp new2 (mgr_udp m) D) (mgr_udp m))
                 (close_all (retired (next_forwarders ''tcp'' reconfigure_tcp new1 (mgr_tcp m) D) (mgr_tcp m)) (op_sockets st2)),
               mgr_next := op_next st2\<rparr>"
    using assms(2) D open_mgr o1 e1 o2 e2 n1(1) n2(1) by (simp add: Apply_def Let_def)
  ultimately have "applied now m D new1 new2 (op_next st1) (op_next st2) m'"
    using n1(3,6) n2(3,6) unfolding applied_def n2(5) n1(5) by simp
  with that D DE(1) open_mgr show thesis by blast
qed

lemma retired_ids:
  assumes "gomap_ok current" "i \<in> fwd_id ` set (retired next current)"
  shows "i \<in> ids_of current"
proof -
  obtain f where "f \<in> set (retired next current)" "i = fwd_id f" using assms(2) by blast
  then show ?thesis using mem_ids_of unfolding retired_iff [OF assms(1)] by blast
qed

lemma set_new_sockets:
  assumes "gomap_ok new"
  shows "set (map (\<lambda>p. sock net (snd p)) new) = sockets_of net new"
proof -
  have "set (map (\<lambda>p. sock net (snd p)) new) = sock net ` snd ` set new" by (simp add: image_image)
  also have "snd ` set new = {f. \<exists>rid. map_of new rid = Some f}" using values_iff [OF assms] by blast
  finally show ?thesis unfolding sockets_of_def by blast
qed

lemma kept_sockets:
  "{sock net f |rid f. map_of fs rid = Some f \<and> fwd_id f \<notin> R} = {s \<in> sockets_of net fs. snd (snd s) \<notin> R}"
proof -
  have id: "snd (snd (sock net f)) = fwd_id f" for f by (simp add: sock_def)
  have "{s \<in> sockets_of net fs. snd (snd s) \<notin> R} = {s. \<exists>rid f. s = sock net f \<and> map_of fs rid = Some f \<and> snd (snd s) \<notin> R}"
    unfolding sockets_of_def by blast
  also have "\<dots> = {s. \<exists>rid f. s = sock net f \<and> map_of fs rid = Some f \<and> fwd_id f \<notin> R}"
    by (intro Collect_cong ex_cong1) (metis id)
  finally show ?thesis by blast
qed

lemma appliedD:
  assumes "applied now m D new1 new2 k n m'"
  shows "switchable ''tcp'' new1 (mgr_tcp m) D (mgr_next m)" "switchable ''udp'' new2 (mgr_udp m) D k"
    "fresh_ids (mgr_next m) k new1" "fresh_ids k n new2" "mgr_next m \<le> k" "k \<le> n"
    "mgr_tcp m' = next_forwarders ''tcp'' reconfigure_tcp new1 (mgr_tcp m) D"
    "mgr_udp m' = next_forwarders ''udp'' reconfigure_udp new2 (mgr_udp m) D"
    "mgr_limiters m' = next_limiters now (mgr_limiters m) D" "mgr_next m' = n" "mgr_closed m' = mgr_closed m" "mgr_node m' = mgr_node m"
    "mgr_sockets m' = close_all (retired (mgr_udp m') (mgr_udp m)) (close_all (retired (mgr_tcp m') (mgr_tcp m))
       (mgr_sockets m @ map (\<lambda>p. sock ''tcp'' (snd p)) new1 @ map (\<lambda>p. sock ''udp'' (snd p)) new2))"
  using assms unfolding applied_def by simp_all

lemma applied_sockets:
  assumes "mgr_inv m" "applied now m D new1 new2 k n m'"
  shows "set (mgr_sockets m') = sockets_of ''tcp'' (mgr_tcp m') \<union> sockets_of ''udp'' (mgr_udp m')"
proof -
  note ap = appliedD [OF assms(2)]
  let ?R = "fwd_id ` set (retired (mgr_tcp m') (mgr_tcp m))" and ?S = "fwd_id ` set (retired (mgr_udp m') (mgr_udp m))"
  let ?T = "sockets_of ''tcp'' (mgr_tcp m)" and ?U = "sockets_of ''udp'' (mgr_udp m)"
  have ok: "gomap_ok (mgr_tcp m)" "gomap_ok (mgr_udp m)" "gomap_ok new1" "gomap_ok new2"
    using switchableD(1,3) [OF ap(1)] switchableD(1,3) [OF ap(2)] by simp_all
  have R: "i \<in> ids_of (mgr_tcp m)" if "i \<in> ?R" for i using retired_ids [OF ok(1) that] .
  have S: "i \<in> ids_of (mgr_udp m)" if "i \<in> ?S" for i using retired_ids [OF ok(2) that] .
  have t: "snd (snd s) \<notin> ?S" if "s \<in> ?T" for s
    using socket_id [OF that] S mgr_invD(3) [OF assms(1)] by blast
  have u: "snd (snd s) \<notin> ?R" if "s \<in> ?U" for s
    using socket_id [OF that] R mgr_invD(3) [OF assms(1)] by blast
  have new: "snd (snd s) \<notin> ?R \<and> snd (snd s) \<notin> ?S" if "s \<in> sockets_of ''tcp'' new1 \<union> sockets_of ''udp'' new2" for s
  proof -
    have "mgr_next m \<le> snd (snd s)" using that socket_id fresh_ids_of [OF ap(3)] fresh_ids_of [OF ap(4)] ap(5) by fastforce
    then show ?thesis using R S mgr_invD(5,6) [OF assms(1)] not_le by blast
  qed
  have nt: "sockets_of ''tcp'' (mgr_tcp m') = {s \<in> ?T. snd (snd s) \<notin> ?R} \<union> sockets_of ''tcp'' new1"
    using switched_sockets [OF ap(1) keeps_listener_reconfigure(1), folded ap(7)] unfolding kept_sockets
    unfolding sockets_of_def [symmetric] .
  have nu: "sockets_of ''udp'' (mgr_udp m') = {s \<in> ?U. snd (snd s) \<notin> ?S} \<union> sockets_of ''udp'' new2"
    using switched_sockets [OF ap(2) keeps_listener_reconfigure(2), folded ap(8)] unfolding kept_sockets
    unfolding sockets_of_def [symmetric] .
  have "set (mgr_sockets m') = {s \<in> ?T \<union> ?U \<union> (sockets_of ''tcp'' new1 \<union> sockets_of ''udp'' new2).
      snd (snd s) \<notin> ?R \<and> snd (snd s) \<notin> ?S}"
    unfolding ap(13) close_all_eq set_filter set_append set_new_sockets [OF ok(3)] set_new_sockets [OF ok(4)]
      mgr_invD(4) [OF assms(1)] by blast
  also have "\<dots> = {s \<in> ?T. snd (snd s) \<notin> ?R} \<union> {s \<in> ?U. snd (snd s) \<notin> ?S} \<union> (sockets_of ''tcp'' new1 \<union> sockets_of ''udp'' new2)"
    using t u new by blast
  finally show ?thesis unfolding nt nu by blast
qed

lemma map_of_next_limiters:
  "map_of (next_limiters now ls D) rid = map_option (\<lambda>p. UpdateLimiter now (rule_bandwidth_kbps (prep_rule p))
     (case map_of ls rid of Some l \<Rightarrow> l | None \<Rightarrow> newBandwidthLimiter now (rule_bandwidth_kbps (prep_rule p)))) (map_of D rid)"
proof (induction D)
  case Nil
  then show ?case by (simp add: next_limiters_def)
next
  case (Cons q D)
  then show ?case by (cases q; cases "fst q = rid") (simp_all add: next_limiters_def)
qed

lemma UpdateLimiter_live: "\<not> lim_closed l \<Longrightarrow> \<not> lim_closed (UpdateLimiter now k l) \<and> lim_kbps (UpdateLimiter now k l) = k"
  by (simp add: UpdateLimiter_def Let_def updateLocked_simps)

lemma new_limiter_live: "\<not> lim_closed (newBandwidthLimiter now k)"
  by (simp add: newBandwidthLimiter_def Let_def updateLocked_simps)

lemma next_limiters_live:
  assumes "live_limiters ls"
  shows "live_limiters (next_limiters now ls D)"
    "map_option lim_kbps (map_of (next_limiters now ls D) rid) = map_option (\<lambda>p. rule_bandwidth_kbps (prep_rule p)) (map_of D rid)"
proof -
  have live: "\<not> lim_closed (case map_of ls rid of Some l \<Rightarrow> l | None \<Rightarrow> newBandwidthLimiter now k)" for rid k
    using assms new_limiter_live by (simp add: live_limiters_def split: option.splits)
  show "live_limiters (next_limiters now ls D)"
    unfolding live_limiters_def map_of_next_limiters using UpdateLimiter_live [OF live] by (auto simp: map_option_case split: option.splits)
  show "map_option lim_kbps (map_of (next_limiters now ls D) rid) = map_option (\<lambda>p. rule_bandwidth_kbps (prep_rule p)) (map_of D rid)"
    unfolding map_of_next_limiters using UpdateLimiter_live [OF live] by (cases "map_of D rid") simp_all
qed

lemma applied_inv:
  assumes "mgr_inv m" "applied now m (entries nid rules) new1 new2 k n m'"
  shows "mgr_inv m'" "runs ''tcp'' (entries nid rules) (mgr_tcp m')" "runs ''udp'' (entries nid rules) (mgr_udp m')"
    "survive ''tcp'' (entries nid rules) (mgr_tcp m) (mgr_tcp m')" "survive ''udp'' (entries nid rules) (mgr_udp m) (mgr_udp m')"
proof -
  note ap = appliedD [OF assms(2)] and keep = keeps_listener_reconfigure
  show tcp: "runs ''tcp'' (entries nid rules) (mgr_tcp m')" unfolding ap(7)
    by (rule switched_runs [OF ap(1) good_reconfs(1) mgr_invD(7) [OF assms(1)]])
  show udp: "runs ''udp'' (entries nid rules) (mgr_udp m')" unfolding ap(8)
    by (rule switched_runs [OF ap(2) good_reconfs(2) mgr_invD(8) [OF assms(1)]])
  show "survive ''tcp'' (entries nid rules) (mgr_tcp m) (mgr_tcp m')" unfolding ap(7) by (rule switched_survive [OF ap(1) keep(1)])
  show "survive ''udp'' (entries nid rules) (mgr_udp m) (mgr_udp m')" unfolding ap(8) by (rule switched_survive [OF ap(2) keep(2)])
  have ids1: "ids_of (mgr_tcp m') \<subseteq> ids_of (mgr_tcp m) \<union> ids_of new1" unfolding ap(7) by (rule switched_ids [OF ap(1) keep(1)])
  have ids2: "ids_of (mgr_udp m') \<subseteq> ids_of (mgr_udp m) \<union> ids_of new2" unfolding ap(8) by (rule switched_ids [OF ap(2) keep(2)])
  have fresh: "i \<in> ids_of new1 \<Longrightarrow> mgr_next m \<le> i \<and> i < k" "i \<in> ids_of new2 \<Longrightarrow> k \<le> i \<and> i < n"
    "i \<in> ids_of (mgr_tcp m) \<Longrightarrow> i < mgr_next m" "i \<in> ids_of (mgr_udp m) \<Longrightarrow> i < mgr_next m" for i
    using fresh_ids_of [OF ap(3)] fresh_ids_of [OF ap(4)] mgr_invD(5,6) [OF assms(1)] by simp_all
  have "ids_of (mgr_tcp m') \<inter> ids_of (mgr_udp m') = {}"
  proof (rule equals0I)
    fix i assume i: "i \<in> ids_of (mgr_tcp m') \<inter> ids_of (mgr_udp m')"
    then have "i \<in> ids_of (mgr_tcp m) \<or> i \<in> ids_of new1" "i \<in> ids_of (mgr_udp m) \<or> i \<in> ids_of new2" using ids1 ids2 by blast+
    then show False using mgr_invD(3) [OF assms(1)] fresh [of i] ap(5,6) by (elim disjE) (blast, linarith+)
  qed
  moreover have "i < mgr_next m'" if "i \<in> ids_of (mgr_tcp m') \<union> ids_of (mgr_udp m')" for i
  proof -
    have "i \<in> ids_of (mgr_tcp m) \<or> i \<in> ids_of new1 \<or> i \<in> ids_of (mgr_udp m) \<or> i \<in> ids_of new2" using that ids1 ids2 by blast
    then show ?thesis unfolding ap(10) using fresh [of i] ap(5,6) by (elim disjE) linarith+
  qed
  moreover have "separate (mgr_tcp m')" unfolding ap(7)
    using switched_separate [OF ap(1) keep(1)] ap(3) by (simp add: fresh_ids_def)
  moreover have "separate (mgr_udp m')" unfolding ap(8)
    using switched_separate [OF ap(2) keep(2)] ap(4) by (simp add: fresh_ids_def)
  moreover have "live_limiters (mgr_limiters m')" unfolding ap(9) by (rule next_limiters_live [OF mgr_invD(9) [OF assms(1)]])
  ultimately show "mgr_inv m'"
    using runs_configured [OF tcp] runs_configured [OF udp] applied_sockets [OF assms] unfolding mgr_inv_def by blast
qed

section \<open>When a change goes through\<close>

text \<open>What the operating system does: an address in use is refused, a free one is granted.\<close>

definition refuses_used :: "os \<Rightarrow> bool" where
  "refuses_used os \<longleftrightarrow> (\<forall>used net addr. (net, addr) \<in> set used \<longrightarrow> \<not> os used net addr)"

definition grants_free :: "os \<Rightarrow> bool" where
  "grants_free os \<longleftrightarrow> (\<forall>used net addr. (net, addr) \<notin> set used \<longrightarrow> os used net addr)"

lemma in_use_append: "in_use (a @ b) = in_use a @ in_use b"
  by (simp add: in_use_def)

lemma in_use_new: "in_use (map (\<lambda>p. sock net (snd p)) new) = map (\<lambda>p. (net, fwd_listen (snd p))) new"
  by (simp add: in_use_def sock_def)

lemma open_all_refused:
  assumes "refuses_used os"
  shows "(rid, p) \<in> set ps \<Longrightarrow> wants net p \<Longrightarrow> \<not> reusable current rid p \<Longrightarrow>
    (net, prep_listen p) \<in> set (in_use (op_sockets st)) \<Longrightarrow> \<exists>e. snd (open_all os net current ps st) = Some e"
proof (induction ps arbitrary: st)
  case Nil
  then show ?case by simp
next
  case (Cons q ps)
  obtain i r where q: "q = (i, r)" by fastforce
  show ?case
  proof (cases "(\<not> wants net r \<or> reusable current i r) \<or> \<not> os (in_use (op_sockets st)) net (prep_listen r)")
    case True
    with Cons q show ?thesis by auto
  next
    case False
    then have "(rid, p) \<in> set ps" using Cons.prems assms q unfolding refuses_used_def by auto
    moreover have "(net, prep_listen p) \<in> set (in_use (op_sockets st @ [(net, prep_listen r, op_next st)]))"
      using Cons.prems(4) by (simp add: in_use_append)
    ultimately show ?thesis using False q Cons.prems(2,3) by (simp add: Let_def Cons.IH)
  qed
qed

lemma open_all_granted:
  assumes "grants_free os"
  shows "sorted_wrt (\<lambda>a b. claims (snd a) \<inter> claims (snd b) = {}) ps \<Longrightarrow>
    \<forall>(rid, p) \<in> set ps. wants net p \<longrightarrow> reusable current rid p \<or> (net, prep_listen p) \<notin> set (in_use (op_sockets st)) \<Longrightarrow>
    snd (open_all os net current ps st) = None"
proof (induction ps arbitrary: st)
  case Nil
  then show ?case by simp
next
  case (Cons q ps)
  obtain i r where q: "q = (i, r)" by fastforce
  show ?case
  proof (cases "\<not> wants net r \<or> reusable current i r")
    case True
    with Cons q show ?thesis by simp
  next
    case False
    then have "os (in_use (op_sockets st)) net (prep_listen r)"
      using assms Cons.prems(2) q unfolding grants_free_def by auto
    moreover have "\<forall>(rid, p) \<in> set ps. wants net p \<longrightarrow> reusable current rid p
        \<or> (net, prep_listen p) \<notin> set (in_use (op_sockets st @ [(net, prep_listen r, op_next st)]))"
    proof (intro ballI, clarify)
      fix rid p assume p: "(rid, p) \<in> set ps" "wants net p" "\<not> reusable current rid p"
        and used: "(net, prep_listen p) \<in> set (in_use (op_sockets st @ [(net, prep_listen r, op_next st)]))"
      have "\<forall>x \<in> set ps. claims r \<inter> claims (snd x) = {}" using Cons.prems(1) q by simp
      from bspec [OF this p(1)] have "claims r \<inter> claims p = {}" by simp
      then have "(net, prep_listen p) \<noteq> (net, prep_listen r)" using p(2) False unfolding claims_def wants_def by auto
      then have "(net, prep_listen p) \<in> set (in_use (op_sockets st))" using used by (simp add: in_use_def)
      with Cons.prems(2) p show False by auto
    qed
    ultimately show ?thesis using False q Cons.prems(1) by (simp add: Let_def Cons.IH)
  qed
qed

lemma sorted_wrt_imp: "sorted_wrt P xs \<Longrightarrow> (\<And>x y. P x y \<Longrightarrow> Q x y) \<Longrightarrow> sorted_wrt Q xs"
  by (rule sorted_wrt_mono_rel) simp_all

lemma entries_apart: "preparable nid rs \<Longrightarrow> sorted_wrt (\<lambda>a b. claims (snd a) \<inter> claims (snd b) = {}) (entries nid rs)"
  unfolding preparable_def entries_def sorted_wrt_map by (elim conjE) (erule sorted_wrt_imp, simp add: apart_def)

text \<open>The listeners a transport must open.\<close>

definition opens :: "string \<Rightarrow> (string, prepared_rule) gomap \<Rightarrow> (string, forwarder) gomap \<Rightarrow> (string \<times> string) set" where
  "opens net D fs = {(net, prep_listen p) |rid p. (rid, p) \<in> set D \<and> wants net p \<and> \<not> reusable fs rid p}"

definition new_listeners :: "manager \<Rightarrow> forward_rule list \<Rightarrow> (string \<times> string) set" where
  "new_listeners m rules = opens ''tcp'' (entries (mgr_node m) rules) (mgr_tcp m)
     \<union> opens ''udp'' (entries (mgr_node m) rules) (mgr_udp m)"

lemma opens_net: "c \<in> opens net D fs \<Longrightarrow> fst c = net"
  by (auto simp: opens_def)

text \<open>The two opening passes of \<open>Apply\<close>.\<close>

definition start_state :: "manager \<Rightarrow> opened" where
  "start_state m = \<lparr>op_sockets = mgr_sockets m, op_next = mgr_next m, op_started = []\<rparr>"

lemma Apply_passes:
  assumes "prepareRules rules (mgr_node m) = Inr D" "\<not> mgr_closed m"
    and "open_all os ''tcp'' (mgr_tcp m) D (start_state m) = (st1, err1)"
    and "open_all os ''udp'' (mgr_udp m) D (st1\<lparr>op_started := []\<rparr>) = (st2, err2)"
  shows "(\<exists>m'. Apply os now rules m = (m', Inr ())) \<longleftrightarrow> err1 = None \<and> err2 = None"
  using assms unfolding start_state_def
  by (cases err1; cases err2) (simp_all add: Apply_def Let_def)

lemma first_pass:
  assumes "gomap_ok D" "open_all os ''tcp'' fs D (start_state m) = (st1, err1)"
  shows "\<exists>new :: (string, forwarder) gomap. op_sockets st1 = mgr_sockets m @ map (\<lambda>p. sock ''tcp'' (snd p)) new"
proof -
  have start: "op_started (start_state m) = []" "op_sockets (start_state m) = mgr_sockets m" by (simp_all add: start_state_def)
  have "\<exists>new :: (string, forwarder) gomap. op_sockets st1 = op_sockets (start_state m) @ map (\<lambda>p. sock ''tcp'' (snd p)) new"
    by (rule open_all_run [OF assms(1) start(1) assms(2)]) (rule exI, assumption)
  then show ?thesis unfolding start(2) by blast
qed

lemma Apply_granted:
  assumes "grants_free os" "preparable (mgr_node m) rules" "\<not> mgr_closed m"
    "new_listeners m rules \<inter> set (in_use (mgr_sockets m)) = {}"
  shows "\<exists>m'. Apply os now rules m = (m', Inr ())"
proof -
  define D where "D = entries (mgr_node m) rules"
  have D: "prepareRules rules (mgr_node m) = Inr D" "gomap_ok D"
    using assms(2) entries_ok by (simp_all add: prepared_entries D_def)
  have apart: "sorted_wrt (\<lambda>a b. claims (snd a) \<inter> claims (snd b) = {}) D"
    unfolding D_def by (rule entries_apart [OF assms(2)])
  obtain st1 err1 where o1: "open_all os ''tcp'' (mgr_tcp m) D (start_state m) = (st1, err1)" by fastforce
  obtain st2 err2 where o2: "open_all os ''udp'' (mgr_udp m) D (st1\<lparr>op_started := []\<rparr>) = (st2, err2)" by fastforce
  have free: "c \<notin> set (in_use (mgr_sockets m))" if "c \<in> opens ''tcp'' D (mgr_tcp m) \<union> opens ''udp'' D (mgr_udp m)" for c
    using that assms(4) unfolding new_listeners_def D_def by blast
  have "\<forall>(rid, p) \<in> set D. wants ''tcp'' p \<longrightarrow> reusable (mgr_tcp m) rid p
      \<or> (''tcp'', prep_listen p) \<notin> set (in_use (op_sockets (start_state m)))"
  proof (intro ballI, clarify)
    fix rid p assume p: "(rid, p) \<in> set D" "wants ''tcp'' p" "\<not> reusable (mgr_tcp m) rid p"
      and used: "(''tcp'', prep_listen p) \<in> set (in_use (op_sockets (start_state m)))"
    have "(''tcp'', prep_listen p) \<in> opens ''tcp'' D (mgr_tcp m)" using p unfolding opens_def by blast
    with free used show False by (simp add: start_state_def)
  qed
  from open_all_granted [OF assms(1) apart this] have "err1 = None" using o1 by simp
  obtain new :: "(string, forwarder) gomap" where new: "op_sockets st1 = mgr_sockets m @ map (\<lambda>p. sock ''tcp'' (snd p)) new"
    using first_pass [OF D(2) o1] by blast
  have "\<forall>(rid, p) \<in> set D. wants ''udp'' p \<longrightarrow> reusable (mgr_udp m) rid p
      \<or> (''udp'', prep_listen p) \<notin> set (in_use (op_sockets (st1\<lparr>op_started := []\<rparr>)))"
  proof (intro ballI, clarify)
    fix rid p assume p: "(rid, p) \<in> set D" "wants ''udp'' p" "\<not> reusable (mgr_udp m) rid p"
      and used: "(''udp'', prep_listen p) \<in> set (in_use (op_sockets (st1\<lparr>op_started := []\<rparr>)))"
    have "(''udp'', prep_listen p) \<in> opens ''udp'' D (mgr_udp m)" using p unfolding opens_def by blast
    with free have "(''udp'', prep_listen p) \<notin> set (in_use (mgr_sockets m))" by blast
    with used show False by (auto simp: new in_use_append in_use_new)
  qed
  from open_all_granted [OF assms(1) apart this] have "err2 = None" using o2 by simp
  with \<open>err1 = None\<close> Apply_passes [OF D(1) assms(3) o1 o2] show ?thesis by blast
qed

lemma Apply_refused:
  assumes "refuses_used os" "c \<in> new_listeners m rules" "c \<in> set (in_use (mgr_sockets m))"
  shows "Apply os now rules m \<noteq> (m', Inr ())"
proof
  assume ok: "Apply os now rules m = (m', Inr ())"
  then obtain D where D: "prepareRules rules (mgr_node m) = Inr D" by (auto simp: Apply_def split: sum.splits)
  then have DE: "D = entries (mgr_node m) rules" "gomap_ok D" using entries_ok by (simp_all add: prepared_entries)
  have up: "\<not> mgr_closed m" using ok D by (auto simp: Apply_def)
  obtain st1 err1 where o1: "open_all os ''tcp'' (mgr_tcp m) D (start_state m) = (st1, err1)" by fastforce
  obtain st2 err2 where o2: "open_all os ''udp'' (mgr_udp m) D (st1\<lparr>op_started := []\<rparr>) = (st2, err2)" by fastforce
  have none: "err1 = None" "err2 = None" using Apply_passes [OF D up o1 o2] ok by blast+
  obtain new :: "(string, forwarder) gomap" where new: "op_sockets st1 = mgr_sockets m @ map (\<lambda>p. sock ''tcp'' (snd p)) new"
    using first_pass [OF DE(2) o1] by blast
  from assms(2) consider "c \<in> opens ''tcp'' D (mgr_tcp m)" | "c \<in> opens ''udp'' D (mgr_udp m)"
    unfolding new_listeners_def DE(1) by blast
  then show False
  proof cases
    case 1
    then obtain rid p where p: "(rid, p) \<in> set D" "wants ''tcp'' p" "\<not> reusable (mgr_tcp m) rid p" "c = (''tcp'', prep_listen p)"
      unfolding opens_def by blast
    have "(''tcp'', prep_listen p) \<in> set (in_use (op_sockets (start_state m)))"
      using assms(3) p(4) by (simp add: start_state_def)
    from open_all_refused [OF assms(1) p(1-3) this] show False using o1 none by simp
  next
    case 2
    then obtain rid p where p: "(rid, p) \<in> set D" "wants ''udp'' p" "\<not> reusable (mgr_udp m) rid p" "c = (''udp'', prep_listen p)"
      unfolding opens_def by blast
    have "(''udp'', prep_listen p) \<in> set (in_use (op_sockets (st1\<lparr>op_started := []\<rparr>)))"
      using assms(3) p(4) by (simp add: new in_use_append)
    from open_all_refused [OF assms(1) p(1-3) this] show False using o2 none by simp
  qed
qed

section \<open>Reachable managers\<close>

inductive mgr_reach :: "string \<Rightarrow> manager \<Rightarrow> bool" for nid where
  start: "mgr_reach nid (NewManager nid)"
| apply_step: "mgr_reach nid m \<Longrightarrow> mgr_reach nid (fst (Apply os now rules m))"
| close_step: "mgr_reach nid m \<Longrightarrow> mgr_reach nid (CloseManager m)"

lemma CloseManager_inv:
  assumes "mgr_inv m" "\<not> mgr_closed m"
  shows "CloseManager m = m\<lparr>mgr_tcp := [], mgr_udp := [], mgr_limiters := [], mgr_closed := True, mgr_sockets := []\<rparr>"
proof -
  have ok: "gomap_ok (mgr_tcp m)" "gomap_ok (mgr_udp m)" using mgr_invD(1,2) [OF assms(1)] by (simp_all add: separate_def)
  have "snd (snd s) \<in> fwd_id ` set (map snd (mgr_tcp m)) \<or> snd (snd s) \<in> fwd_id ` set (map snd (mgr_udp m))"
    if s: "s \<in> set (mgr_sockets m)" for s
  proof -
    have "snd (snd s) \<in> ids_of (mgr_tcp m) \<union> ids_of (mgr_udp m)"
      using s socket_id unfolding mgr_invD(4) [OF assms(1)] by blast
    then obtain rid f where "map_of (mgr_tcp m) rid = Some f \<or> map_of (mgr_udp m) rid = Some f" "snd (snd s) = fwd_id f"
      unfolding ids_of_def by blast
    then show ?thesis using map_of_SomeD by force
  qed
  then have "close_all (map snd (mgr_udp m)) (close_all (map snd (mgr_tcp m)) (mgr_sockets m)) = []"
    unfolding close_all_eq filter_filter filter_empty_conv by blast
  then show ?thesis using assms(2) by (simp add: CloseManager_def)
qed

lemma mgr_inv_empty:
  "mgr_inv (m\<lparr>mgr_tcp := [], mgr_udp := [], mgr_limiters := [], mgr_closed := True, mgr_sockets := []\<rparr>)"
  by (simp add: mgr_inv_def separate_def sockets_of_def ids_of_def configured_def live_limiters_def)

definition emptied :: "manager \<Rightarrow> bool" where
  "emptied m \<longleftrightarrow> mgr_tcp m = [] \<and> mgr_udp m = [] \<and> mgr_limiters m = [] \<and> mgr_sockets m = []"

lemma Apply_cases:
  assumes "mgr_inv m"
  obtains e where "Apply os now rules m = (m, Inl e)"
  | new1 new2 k n m' where "Apply os now rules m = (m', Inr ())" "\<not> mgr_closed m" "preparable (mgr_node m) rules"
      "applied now m (entries (mgr_node m) rules) new1 new2 k n m'"
proof -
  obtain m' r where run: "Apply os now rules m = (m', r)" by fastforce
  show thesis
  proof (cases r)
    case (Inl e)
    with run Apply_error [OF assms] that(1) show thesis by blast
  next
    case (Inr u)
    with run have ok: "Apply os now rules m = (m', Inr ())" by simp
    show thesis
    proof (rule Apply_ok [OF assms ok])
      fix new1 new2 k n
      assume "prepareRules rules (mgr_node m) = Inr (entries (mgr_node m) rules)" "\<not> mgr_closed m"
        and "applied now m (entries (mgr_node m) rules) new1 new2 k n m'"
      with ok that(2) show thesis unfolding prepared_entries by blast
    qed
  qed
qed

lemma mgr_reach_inv: "mgr_reach nid m \<Longrightarrow> mgr_inv m \<and> mgr_node m = nid \<and> (mgr_closed m \<longrightarrow> emptied m)"
proof (induction rule: mgr_reach.induct)
  case start
  then show ?case using mgr_inv_NewManager by (simp add: NewManager_def)
next
  case (apply_step m os now rules)
  then have inv: "mgr_inv m" by simp
  show ?case
  proof (rule Apply_cases [OF inv, of os now rules])
    fix e assume "Apply os now rules m = (m, Inl e)"
    with apply_step show ?thesis by simp
  next
    fix new1 new2 k n m' assume run: "Apply os now rules m = (m', Inr ())" "\<not> mgr_closed m"
      and ap: "applied now m (entries (mgr_node m) rules) new1 new2 k n m'"
    from applied_inv(1) [OF inv ap] appliedD(11,12) [OF ap] run apply_step show ?thesis by simp
  qed
next
  case (close_step m)
  then have m: "mgr_inv m" "mgr_node m = nid" "mgr_closed m \<longrightarrow> emptied m" by simp_all
  show ?case
  proof (cases "mgr_closed m")
    case True
    with m show ?thesis by (simp add: CloseManager_def)
  next
    case False
    show ?thesis unfolding CloseManager_inv [OF m(1) False] using m(2) mgr_inv_empty [of m] by (simp add: emptied_def)
  qed
qed

lemma in_use_iff: "(net, addr) \<in> set (in_use ss) \<longleftrightarrow> (\<exists>i. (net, addr, i) \<in> set ss)"
  by (force simp: in_use_def)

lemma runs_sockets:
  assumes "runs net D fs"
  shows "(\<exists>i. (n, addr, i) \<in> sockets_of net fs) \<longleftrightarrow>
    n = net \<and> (\<exists>rid p. map_of D rid = Some p \<and> wants net p \<and> prep_listen p = addr)"
proof -
  have "(\<exists>f. map_of fs rid = Some f \<and> fwd_listen f = addr) \<longleftrightarrow> (\<exists>p. map_of D rid = Some p \<and> wants net p \<and> prep_listen p = addr)"
    for rid
    using assms [unfolded runs_def, rule_format, of rid] by (cases "map_of fs rid"; cases "map_of D rid") (auto split: if_splits)
  then have "(\<exists>rid p. map_of D rid = Some p \<and> wants net p \<and> prep_listen p = addr) \<longleftrightarrow> (\<exists>rid f. map_of fs rid = Some f \<and> fwd_listen f = addr)"
    by simp
  moreover have "(\<exists>i. (n, addr, i) \<in> sockets_of net fs) \<longleftrightarrow> n = net \<and> (\<exists>rid f. map_of fs rid = Some f \<and> fwd_listen f = addr)"
    unfolding sockets_of_def sock_def by blast
  ultimately show ?thesis by simp
qed

lemma claims_iff: "(net, addr) \<in> claims p \<longleftrightarrow> wants net p \<and> addr = prep_listen p"
  by (auto simp: claims_def wants_def)

lemma wants_net: "wants net p \<Longrightarrow> net = ''tcp'' \<or> net = ''udp''"
  using rule_networks_in unfolding wants_def by blast

lemma applied_in_use:
  assumes "mgr_inv m" "applied now m (entries nid rules) new1 new2 k n m'"
  shows "c \<in> set (in_use (mgr_sockets m')) \<longleftrightarrow> (\<exists>rid p. map_of (entries nid rules) rid = Some p \<and> c \<in> claims p)"
proof (cases c)
  case (Pair net addr)
  note run = applied_inv(2,3) [OF assms]
  show ?thesis
    unfolding Pair in_use_iff applied_sockets [OF assms] Un_iff ex_disj_distrib runs_sockets [OF run(1)] runs_sockets [OF run(2)] claims_iff
    using wants_net by blast
qed

lemma Apply_success_parts:
  assumes "mgr_reach nid m" "Apply os now rules m = (m', Inr ())"
  defines "D \<equiv> entries nid rules"
  shows "\<not> mgr_closed m \<and> preparable nid rules"
    and "runs ''tcp'' D (mgr_tcp m') \<and> runs ''udp'' D (mgr_udp m')"
    and "c \<in> set (in_use (mgr_sockets m')) \<longleftrightarrow> (\<exists>rid p. map_of D rid = Some p \<and> c \<in> claims p)"
    and "map_option lim_kbps (map_of (mgr_limiters m') rid) = map_option (\<lambda>p. rule_bandwidth_kbps (prep_rule p)) (map_of D rid)"
    and "survive ''tcp'' D (mgr_tcp m) (mgr_tcp m') \<and> survive ''udp'' D (mgr_udp m) (mgr_udp m')"
proof -
  have m: "mgr_inv m" "mgr_node m = nid" using mgr_reach_inv [OF assms(1)] by simp_all
  obtain new1 new2 k n where "\<not> mgr_closed m" "prepareRules rules nid = Inr (entries nid rules)" and ap: "applied now m (entries nid rules) new1 new2 k n m'"
    by (rule Apply_ok [OF m(1) assms(2), unfolded m(2)])
  then show "\<not> mgr_closed m \<and> preparable nid rules" by (simp add: prepared_entries)
  show "runs ''tcp'' D (mgr_tcp m') \<and> runs ''udp'' D (mgr_udp m')" using applied_inv(2,3) [OF m(1) ap] by (simp add: D_def)
  show "c \<in> set (in_use (mgr_sockets m')) \<longleftrightarrow> (\<exists>rid p. map_of D rid = Some p \<and> c \<in> claims p)"
    unfolding D_def by (rule applied_in_use [OF m(1) ap])
  show "map_option lim_kbps (map_of (mgr_limiters m') rid) = map_option (\<lambda>p. rule_bandwidth_kbps (prep_rule p)) (map_of D rid)"
    unfolding D_def appliedD(9) [OF ap] by (rule next_limiters_live(2) [OF mgr_invD(9) [OF m(1)]])
  show "survive ''tcp'' D (mgr_tcp m) (mgr_tcp m') \<and> survive ''udp'' D (mgr_udp m) (mgr_udp m')"
    using applied_inv(4,5) [OF m(1) ap] by (simp add: D_def)
qed

section \<open>What the manager guarantees\<close>

text \<open>
  C25: nothing leaks. However a manager has been driven (any sequence of rule sets, of failures of the operating system
  and of closing), its open sockets are exactly those of the forwarders it runs, no two forwarders of either transport
  are the same object, and a closed manager has no forwarder, no limiter and no socket left.
\<close>

theorem manager_sockets_exact:
  assumes "mgr_reach nid m"
  shows "set (mgr_sockets m) = sockets_of ''tcp'' (mgr_tcp m) \<union> sockets_of ''udp'' (mgr_udp m)
    \<and> separate (mgr_tcp m) \<and> separate (mgr_udp m) \<and> ids_of (mgr_tcp m) \<inter> ids_of (mgr_udp m) = {}
    \<and> (if mgr_closed m then emptied m else live_limiters (mgr_limiters m))"
proof -
  have inv: "mgr_inv m" and closed: "mgr_closed m \<longrightarrow> emptied m" using mgr_reach_inv [OF assms] by simp_all
  from mgr_invD(1,2,3,4,9) [OF inv] closed show ?thesis by simp
qed

text \<open>
  \<open>Apply\<close> is all or nothing: when it returns an error, whichever listener failed, the manager is unchanged, with
  its forwarders, limiters, rates and open sockets; what it opened before the failure is closed again.
\<close>

theorem Apply_error_unchanged:
  assumes "mgr_reach nid m" "Apply os now rules m = (m', Inl e)"
  shows "m' = m"
  using Apply_error mgr_reach_inv [OF assms(1)] assms(2) by blast


text \<open>
  \<open>Apply\<close> goes through: when the operating system grants every free address, an open manager accepts every rule set
  that is acceptable and whose new listeners are at addresses the manager does not use yet.
\<close>

theorem Apply_goes_through:
  assumes "grants_free os" "preparable (mgr_node m) rules" "\<not> mgr_closed m"
    and "new_listeners m rules \<inter> set (in_use (mgr_sockets m)) = {}"
  shows "\<exists>m'. Apply os now rules m = (m', Inr ())"
  by (rule Apply_granted [OF assms])

text \<open>
  C26: an address cannot be handed over. New listeners are opened before old ones are closed, so, when the operating
  system refuses an address in use, a rule set that gives an address the manager listens on to another rule is refused,
  even where the rule that had the address is gone from the set; the manager is unchanged, so every retry of the same
  rule set is refused too.
\<close>

theorem Apply_handover_stuck:
  assumes "mgr_reach nid m" "refuses_used os" "c \<in> new_listeners m rules" "c \<in> set (in_use (mgr_sockets m))"
  shows "\<exists>e. Apply os now rules (fold (\<lambda>t m. fst (Apply os t rules m)) retries m) = (m, Inl e)"
proof -
  have inv: "mgr_inv m" using mgr_reach_inv [OF assms(1)] by simp
  have refused: "\<exists>e. Apply os t rules m = (m, Inl e)" for t
  proof (rule Apply_cases [OF inv, of os t rules])
    fix m' assume "Apply os t rules m = (m', Inr ())"
    then show ?thesis using Apply_refused [OF assms(2-4)] by (elim notE [rotated])
  qed (erule exI)
  then have "fst (Apply os t rules m) = m" for t
  proof -
    obtain e where "Apply os t rules m = (m, Inl e)" using refused [of t] by blast
    then show ?thesis by simp
  qed
  then have "fold (\<lambda>t m. fst (Apply os t rules m)) retries m = m" by (induction retries) simp_all
  with refused show ?thesis by simp
qed

section \<open>An example\<close>

definition example_os :: os where
  "example_os used net addr \<longleftrightarrow> (net, addr) \<notin> set used"

definition example_manager :: manager where
  "example_manager = fst (Apply example_os 5 [web_rule ''r1'' 8080] (NewManager ''B''))"

lemma example_manager_reach: "mgr_reach ''B'' example_manager"
  unfolding example_manager_def by (intro mgr_reach.intros)

lemma example_os_ok: "refuses_used example_os" "grants_free example_os"
  by (simp_all add: refuses_used_def grants_free_def example_os_def)

lemma web_rule_trimmed: "trim_space ''web'' = ''web''" "trim_space ''192.168.1.5'' = ''192.168.1.5''"
  "trim_space ''r1'' = ''r1''" "trim_space ''r2'' = ''r2''"
  by code_simp+

lemma web_rule_valid: "rule_validate (web_rule ''r1'' 8080) = None" "rule_validate (web_rule ''r2'' 8080) = None"
  by (simp_all add: rule_validate_def web_rule_def web_rule_trimmed MaxBandwidthKbps_def)

lemma digits_0_8: "digit_char 0 = CHR ''0''" "digit_char 8 = CHR ''8''"
  by code_simp+

lemma web_rule_listen: "listen_address (web_rule i 8080) = ''0.0.0.0:8080''"
  by (simp add: listen_address_def web_rule_def join_host_port_def port_string_def nat_string.simps digits_0_8 contains_char_def)

lemma web_rule_networks: "rule_networks (web_rule i p) = [''tcp'']"
  by (simp add: rule_networks_def web_rule_def)

lemma web_rule_prepared:
  "prepareRules [web_rule ''r1'' 8080] ''B'' = Inr [(''r1'', prepare_rule (web_rule ''r1'' 8080))]"
  "prepareRules [web_rule ''r2'' 8080] ''B'' = Inr [(''r2'', prepare_rule (web_rule ''r2'' 8080))]"
  by (simp_all add: prepareRules_def web_rule_valid effective_rule_def web_rule_networks ghas_iff) (simp_all add: web_rule_def)

lemma web_rule_wants: "wants net (prepare_rule (web_rule i p)) \<longleftrightarrow> net = ''tcp''"
  by (simp add: wants_def rule_networks_def web_rule_def)

lemma example_manager_values:
  "mgr_sockets example_manager = [(''tcp'', ''0.0.0.0:8080'', 0)]" "\<not> mgr_closed example_manager" "mgr_node example_manager = ''B''"
  "mgr_tcp example_manager = [(''r1'', \<lparr>fwd_id = 0, fwd_listen = ''0.0.0.0:8080'', fwd_config = prepare_rule (web_rule ''r1'' 8080)\<rparr>)]"
  "mgr_udp example_manager = []"
  by (simp_all add: example_manager_def Apply_def NewManager_def web_rule_prepared web_rule_wants web_rule_listen
    Let_def reusable_def example_os_def in_use_def next_forwarders_def next_for_def retired_def close_all_def)

lemma example_apply: "Apply example_os 5 [web_rule ''r1'' 8080] (NewManager ''B'') = (example_manager, Inr ())"
  unfolding example_manager_def
  by (simp add: Apply_def NewManager_def web_rule_prepared web_rule_wants web_rule_listen Let_def reusable_def example_os_def in_use_def)

theorem manager_sockets_exact_witness:
  "mgr_reach ''B'' example_manager \<and> mgr_sockets example_manager \<noteq> []
   \<and> set (mgr_sockets example_manager) = sockets_of ''tcp'' (mgr_tcp example_manager) \<union> sockets_of ''udp'' (mgr_udp example_manager)"
  using manager_sockets_exact [OF example_manager_reach] example_manager_reach by (simp add: example_manager_values)

lemma example_blocked:
  "(''tcp'', ''0.0.0.0:8080'') \<in> new_listeners example_manager [web_rule ''r2'' 8080]"
  "(''tcp'', ''0.0.0.0:8080'') \<in> set (in_use (mgr_sockets example_manager))"
proof -
  have "entries ''B'' [web_rule ''r2'' 8080] = [(''r2'', prepare_rule (web_rule ''r2'' 8080))]"
    using web_rule_prepared(2) by (simp add: prepared_entries)
  then show "(''tcp'', ''0.0.0.0:8080'') \<in> new_listeners example_manager [web_rule ''r2'' 8080]"
    by (simp add: new_listeners_def opens_def example_manager_values web_rule_wants web_rule_listen reusable_def)
qed (simp add: example_manager_values in_use_def)

theorem Apply_handover_stuck_witness:
  "\<exists>e. Apply example_os 9 [web_rule ''r2'' 8080]
     (fold (\<lambda>t m. fst (Apply example_os t [web_rule ''r2'' 8080] m)) [6, 7, 8] example_manager) = (example_manager, Inl e)"
  by (rule Apply_handover_stuck [OF example_manager_reach example_os_ok(1) example_blocked])

theorem Apply_error_unchanged_witness:
  "\<exists>m' e. Apply example_os 6 [web_rule ''r2'' 8080] example_manager = (m', Inl e) \<and> m' = example_manager"
proof -
  have "Apply example_os 6 [web_rule ''r2'' 8080] example_manager
      = (example_manager, Inl (StartFailed ''tcp'' ''r2'' ''0.0.0.0:8080''))"
    by (simp add: Apply_def example_manager_values web_rule_prepared web_rule_wants web_rule_listen Let_def reusable_def
      example_os_def in_use_def close_all_def)
  from Apply_error_unchanged [OF example_manager_reach this] this show ?thesis by blast
qed


theorem Apply_goes_through_witness:
  "\<exists>m'. Apply example_os 6 [web_rule ''r1'' 8080] (NewManager ''B'') = (m', Inr ())"
proof (rule Apply_goes_through)
  show "preparable (mgr_node (NewManager ''B'')) [web_rule ''r1'' 8080]"
    using web_rule_prepared(1) by (simp add: prepared_entries NewManager_def)
qed (simp_all add: example_os_ok NewManager_def in_use_def)

end
