(* ===== verification/LimitedWriter.thy ===== *)
theory LimitedWriter
  imports Bandwidth
begin

text \<open>
  The writer every copy of a TCP connection goes through (\<open>tcp.go\<close>, \<open>limitedWriter.Write\<close> and
  \<open>connectionRuntime.record\<close>): it cuts the buffer into chunks the limiter accepts, waits for each and counts what the
  destination took.
\<close>

section \<open>Counters of a connection\<close>

record connection_runtime =
  run_id :: string
  run_rule :: string
  run_protocol :: string
  run_source :: string
  run_target :: string
  run_started :: time
  run_activity :: time
  run_in :: u64
  run_out :: u64

definition record_bytes :: "time \<Rightarrow> bool \<Rightarrow> int \<Rightarrow> connection_runtime \<Rightarrow> connection_runtime" where
  "record_bytes now inward n c =
     (if n \<le> 0 then c
      else let c1 = (if inward then c\<lparr>run_in := run_in c + word_of_int n\<rparr>
                     else c\<lparr>run_out := run_out c + word_of_int n\<rparr>)
           in c1\<lparr>run_activity := now\<rparr>)"

section \<open>Writing\<close>

datatype write_error = WaitError | WriterError | ErrShortWrite

text \<open>
  What one iteration meets: the clock, the limiter \<open>maxChunkSize\<close> sees, whether \<open>Wait\<close> grants the chunk, and the count
  and failure the destination's \<open>Write\<close> returns. The destination is described by the bytes it has taken.
\<close>

record 'l write_step =
  ws_now :: time
  ws_limiter :: 'l
  ws_granted :: bool
  ws_count :: nat
  ws_failed :: bool

record 'b write_state =
  wr_sink :: "'b list"
  wr_written :: nat
  wr_session :: connection_runtime

fun write_loop :: "('l \<Rightarrow> int \<Rightarrow> int) \<Rightarrow> bool \<Rightarrow> 'l write_step list \<Rightarrow> 'b list \<Rightarrow> 'b write_state
    \<Rightarrow> ('b write_state \<times> write_error option) option" where
  "write_loop chunk inward env [] st = Some (st, None)"
| "write_loop chunk inward [] (b # buffer) st = None"
| "write_loop chunk inward (e # env) (b # buffer) st =
     (let size = chunk (ws_limiter e) (int (length (b # buffer)))
      in if \<not> ws_granted e then Some (st, Some WaitError)
         else let st1 = \<lparr>wr_sink = wr_sink st @ take (ws_count e) (b # buffer),
                         wr_written = wr_written st + ws_count e,
                         wr_session = record_bytes (ws_now e) inward (int (ws_count e)) (wr_session st)\<rparr>;
                  rest = drop (ws_count e) (b # buffer)
              in if ws_failed e then Some (st1, Some WriterError)
                 else if int (ws_count e) \<noteq> size then Some (st1, Some ErrShortWrite)
                 else write_loop chunk inward env rest st1)"

definition Write :: "bool \<Rightarrow> limiter option write_step list \<Rightarrow> 'b list \<Rightarrow> 'b write_state
    \<Rightarrow> ('b write_state \<times> write_error option) option" where
  "Write = write_loop maxChunkSize"

text \<open>The contract of \<open>io.Writer\<close>: it takes at most what it is given, and reports an error if it takes less.\<close>

definition writer_step_ok :: "('l \<Rightarrow> int \<Rightarrow> int) \<Rightarrow> nat \<Rightarrow> 'l write_step \<Rightarrow> bool" where
  "writer_step_ok chunk n e \<longleftrightarrow> int (ws_count e) \<le> chunk (ws_limiter e) (int n)
     \<and> (int (ws_count e) < chunk (ws_limiter e) (int n) \<longrightarrow> ws_failed e)"

fun writer_ok :: "('l \<Rightarrow> int \<Rightarrow> int) \<Rightarrow> nat \<Rightarrow> 'l write_step list \<Rightarrow> bool" where
  "writer_ok chunk n [] = True"
| "writer_ok chunk n (e # env) = (0 < n \<longrightarrow> writer_step_ok chunk n e \<and> writer_ok chunk (n - ws_count e) env)"

text \<open>Whatever happens, the destination has taken a prefix of the buffer, and everything is counted once.\<close>

definition wrote :: "bool \<Rightarrow> 'b list \<Rightarrow> 'b write_state \<Rightarrow> 'b write_state \<Rightarrow> nat \<Rightarrow> bool" where
  "wrote inward buffer st st' k \<longleftrightarrow> k \<le> length buffer \<and> wr_sink st' = wr_sink st @ take k buffer
     \<and> wr_written st' = wr_written st + k
     \<and> run_in (wr_session st') = run_in (wr_session st) + (if inward then of_nat k else 0)
     \<and> run_out (wr_session st') = run_out (wr_session st) + (if inward then 0 else of_nat k)"

lemma wrote_start: "wrote inward buffer st st 0"
  by (simp add: wrote_def)

lemma wrote_step:
  assumes "n \<le> length buffer" "wr_sink st1 = wr_sink st @ take n buffer" "wr_written st1 = wr_written st + n"
    and "wr_session st1 = record_bytes now inward (int n) (wr_session st)"
  shows "wrote inward buffer st st1 n"
  using assms by (simp add: wrote_def record_bytes_def Let_def)

lemma wrote_trans:
  assumes "wrote inward buffer st st1 n" "wrote inward (drop n buffer) st1 st2 k"
  shows "wrote inward buffer st st2 (n + k)"
  using assms by (auto simp: wrote_def take_add)

section \<open>The interface of a limiter\<close>

text \<open>All the writer needs of a limiter: a chunk of a non-empty buffer is not empty and not longer than the buffer.\<close>

locale chunker =
  fixes chunk :: "'l \<Rightarrow> int \<Rightarrow> int" and ok :: "'l \<Rightarrow> bool"
  assumes chunk_pos: "ok l \<Longrightarrow> 0 < n \<Longrightarrow> 0 < chunk l n"
    and chunk_le: "ok l \<Longrightarrow> 0 < n \<Longrightarrow> chunk l n \<le> n"
begin

lemma count_le:
  "ok (ws_limiter e) \<Longrightarrow> writer_step_ok chunk n e \<Longrightarrow> 0 < n \<Longrightarrow> ws_count e \<le> n"
  using chunk_le [of "ws_limiter e" "int n"] by (simp add: writer_step_ok_def)

lemma write_prefix:
  assumes "\<forall>e \<in> set env. ok (ws_limiter e)" "writer_ok chunk (length buffer) env"
    and "write_loop chunk inward env buffer st = Some (st', err)"
  shows "\<exists>k. wrote inward buffer st st' k \<and> (err = None \<longrightarrow> k = length buffer) \<and> err \<noteq> Some ErrShortWrite"
  using assms
proof (induction env arbitrary: buffer st)
  case Nil
  then have "buffer = []" "st' = st" "err = None" by (cases buffer; simp)+
  then show ?case using wrote_start [of inward buffer st] by auto
next
  case (Cons e env)
  show ?case
  proof (cases buffer)
    case empty: Nil
    with Cons.prems(3) have "st' = st" "err = None" by simp_all
    then show ?thesis using wrote_start [of inward buffer st] empty by auto
  next
    case (Cons b bs)
    let ?n = "ws_count e" and ?size = "chunk (ws_limiter e) (int (length buffer))"
    define st1 where "st1 = \<lparr>wr_sink = wr_sink st @ take ?n buffer, wr_written = wr_written st + ?n,
        wr_session = record_bytes (ws_now e) inward (int ?n) (wr_session st)\<rparr>"
    have step: "writer_step_ok chunk (length buffer) e" "writer_ok chunk (length buffer - ?n) env"
      using Cons.prems(2) Cons by simp_all
    have "?n \<le> length buffer" using Cons.prems(1) step Cons by (intro count_le) auto
    then have w1: "wrote inward buffer st st1 ?n" by (rule wrote_step) (simp_all add: st1_def)
    have loop: "write_loop chunk inward (e # env) buffer st =
        (if \<not> ws_granted e then Some (st, Some WaitError)
         else if ws_failed e then Some (st1, Some WriterError)
         else if int ?n \<noteq> ?size then Some (st1, Some ErrShortWrite)
         else write_loop chunk inward env (drop ?n buffer) st1)"
      unfolding Cons by (simp only: write_loop.simps Let_def st1_def Cons)
    consider "\<not> ws_granted e" | "ws_granted e" "ws_failed e" | "ws_granted e" "\<not> ws_failed e" "int ?n = ?size"
      using step(1) by (fastforce simp: writer_step_ok_def)
    then show ?thesis
    proof cases
      case 1
      with Cons.prems(3) loop have "st' = st" "err = Some WaitError" by simp_all
      then show ?thesis using wrote_start [of inward buffer st] by auto
    next
      case 2
      with Cons.prems(3) loop have "st' = st1" "err = Some WriterError" by simp_all
      then show ?thesis using w1 by auto
    next
      case 3
      with Cons.prems(3) loop have "write_loop chunk inward env (drop ?n buffer) st1 = Some (st', err)" by simp
      then obtain k where "wrote inward (drop ?n buffer) st1 st' k" "err = None \<longrightarrow> k = length (drop ?n buffer)"
          "err \<noteq> Some ErrShortWrite"
        using Cons.IH [of "drop ?n buffer" st1] Cons.prems(1) step(2) by auto
      with wrote_trans [OF w1] \<open>?n \<le> length buffer\<close> show ?thesis by (intro exI [of _ "?n + k"]) auto
    qed
  qed
qed

text \<open>If nothing fails, the whole buffer is written, in at most as many iterations as it has bytes.\<close>

lemma write_complete:
  assumes "\<forall>e \<in> set env. ok (ws_limiter e) \<and> ws_granted e \<and> \<not> ws_failed e" "writer_ok chunk (length buffer) env"
    and "length buffer \<le> length env"
  shows "\<exists>st'. write_loop chunk inward env buffer st = Some (st', None)"
  using assms
proof (induction env arbitrary: buffer st)
  case Nil
  then show ?case by simp
next
  case (Cons e env)
  show ?case
  proof (cases buffer)
    case empty: Nil
    then show ?thesis by simp
  next
    case (Cons b bs)
    have step: "writer_step_ok chunk (length buffer) e" "writer_ok chunk (length buffer - ws_count e) env"
      using Cons.prems(2) Cons by simp_all
    have size: "int (ws_count e) = chunk (ws_limiter e) (int (length buffer))"
      using step(1) Cons.prems(1) by (fastforce simp: writer_step_ok_def)
    have "0 < ws_count e" using chunk_pos [of "ws_limiter e" "int (length buffer)"] size Cons.prems(1) Cons by simp
    then have "length (drop (ws_count e) buffer) \<le> length env" using Cons.prems(3) Cons by simp
    with Cons.IH [of "drop (ws_count e) buffer"] Cons.prems(1) step(2)
    have "\<exists>st'. write_loop chunk inward env (drop (ws_count e) buffer) st1 = Some (st', None)" for st1 by simp
    with size Cons.prems(1) Cons show ?thesis by (simp add: Let_def)
  qed
qed

end

text \<open>The limiter of the code provides the interface.\<close>

definition chunk_ok :: "limiter option \<Rightarrow> bool" where
  "chunk_ok lo = (case lo of None \<Rightarrow> True | Some l \<Rightarrow> limiter_inv l)"

interpretation limiter: chunker maxChunkSize chunk_ok
proof
  fix lo :: "limiter option" and n :: int
  assume ok: "chunk_ok lo" and n: "0 < n"
  show "0 < maxChunkSize lo n"
    using ok n limiter_invD(2) by (fastforce simp: maxChunkSize_def chunk_ok_def split: option.split)
  show "maxChunkSize lo n \<le> n"
  proof (cases lo)
    case (Some l)
    then show ?thesis by (auto simp: maxChunkSize_def floor_le_iff not_le less_imp_le)
  qed (simp add: maxChunkSize_def)
qed

section \<open>The writer of the code\<close>

text \<open>
  C28: the limited writer loses, repeats and reorders nothing. For any buffer, any limiter changes while it runs and any
  destination that keeps the contract of \<open>io.Writer\<close>, the bytes the destination has taken when \<open>Write\<close> returns are a
  prefix of the buffer, the returned count and the counter of the connection in the copied direction grow by exactly
  its length, the other counter does not change, and \<open>Write\<close> returns no error only if the prefix is the whole buffer.
\<close>

theorem Write_prefix:
  assumes "\<forall>e \<in> set env. chunk_ok (ws_limiter e)" "writer_ok maxChunkSize (length buffer) env"
    and "Write inward env buffer st = Some (st', err)"
  shows "\<exists>k \<le> length buffer. wr_sink st' = wr_sink st @ take k buffer \<and> wr_written st' = wr_written st + k
      \<and> run_in (wr_session st') = run_in (wr_session st) + (if inward then of_nat k else 0)
      \<and> run_out (wr_session st') = run_out (wr_session st) + (if inward then 0 else of_nat k)
      \<and> (err = None \<longrightarrow> k = length buffer) \<and> err \<noteq> Some ErrShortWrite"
  using limiter.write_prefix [OF assms(1,2) assms(3) [unfolded Write_def]] by (auto simp: wrote_def)

text \<open>
  The limited writer gets through. If every wait is granted and the destination never fails, \<open>Write\<close> returns
  without an error, having written the whole buffer, after at most as many chunks as the buffer has bytes.
\<close>

theorem Write_completes:
  assumes "\<forall>e \<in> set env. chunk_ok (ws_limiter e) \<and> ws_granted e \<and> \<not> ws_failed e"
    and "writer_ok maxChunkSize (length buffer) env" "length buffer \<le> length env"
  shows "\<exists>st'. Write inward env buffer st = Some (st', None) \<and> wr_sink st' = wr_sink st @ buffer"
proof -
  obtain st' where st': "write_loop maxChunkSize inward env buffer st = Some (st', None)"
    using limiter.write_complete [OF assms, of inward st] by blast
  have "\<forall>e \<in> set env. chunk_ok (ws_limiter e)" using assms(1) by simp
  from limiter.write_prefix [OF this assms(2) st'] st' show ?thesis by (auto simp: Write_def wrote_def)
qed

definition example_runtime :: connection_runtime where
  "example_runtime = \<lparr>run_id = ''c'', run_rule = ''r'', run_protocol = ''tcp'', run_source = ''s'', run_target = ''t'',
     run_started = 0, run_activity = 0, run_in = 0, run_out = 0\<rparr>"

definition example_writer :: "nat \<Rightarrow> bool \<Rightarrow> limiter option write_step" where
  "example_writer n failed = \<lparr>ws_now = 1, ws_limiter = None, ws_granted = True, ws_count = n, ws_failed = failed\<rparr>"

definition example_write_state :: "nat write_state" where
  "example_write_state = \<lparr>wr_sink = [], wr_written = 0, wr_session = example_runtime\<rparr>"

theorem Write_prefix_witness:
  "\<exists>st' k. Write True [example_writer 2 True] [7, 8, 9] example_write_state = Some (st', Some WriterError)
     \<and> wr_sink st' = take k [7, 8, 9] \<and> wr_written st' = k"
proof -
  obtain st' where w: "Write True [example_writer 2 True] [7, 8, 9 :: nat] example_write_state = Some (st', Some WriterError)"
    by (simp add: Write_def example_writer_def maxChunkSize_def)
  have ok: "\<forall>e \<in> set [example_writer 2 True]. chunk_ok (ws_limiter e)" "writer_ok maxChunkSize (length [7, 8, 9 :: nat]) [example_writer 2 True]"
    by (simp_all add: chunk_ok_def example_writer_def writer_step_ok_def maxChunkSize_def)
  from Write_prefix [OF ok w] w show ?thesis by (auto simp: example_write_state_def)
qed

theorem Write_completes_witness:
  "\<exists>st'. Write True (replicate 3 (example_writer 3 False)) [7, 8, 9] example_write_state = Some (st', None)
     \<and> wr_sink st' = [7, 8, 9]"
proof -
  let ?env = "replicate 3 (example_writer 3 False)"
  have "\<forall>e \<in> set ?env. chunk_ok (ws_limiter e) \<and> ws_granted e \<and> \<not> ws_failed e"
    "writer_ok maxChunkSize (length [7, 8, 9 :: nat]) ?env" "length [7, 8, 9 :: nat] \<le> length ?env"
    by (simp_all add: chunk_ok_def example_writer_def writer_step_ok_def maxChunkSize_def eval_nat_numeral)
  from Write_completes [OF this, of True example_write_state] show ?thesis by (simp add: example_write_state_def)
qed

end
