(* ===== verification/Udp.thy ===== *)
theory Udp
  imports Prepare LimitedWriter
begin

text \<open>
  A UDP forwarder (\<open>internal/forward/udp.go\<close>) as a machine of concurrent goroutines: the read loop, one response loop
  per session, and its owner, the manager, which updates and closes it one call at a time. A step is one critical
  section or one blocking call; what the network, the limiter and the clock return is the step's choice, so every
  interleaving and every failure is a run. A session is an object, referred to by its index in \<open>uf_objs\<close>.
\<close>

section \<open>Connection identities\<close>

text \<open>\<open>fmt.Sprintf("%x")\<close> of an integer.\<close>

fun hex_nat :: "nat \<Rightarrow> string" where
  "hex_nat n = (if n < 16 then [''0123456789abcdef'' ! n] else hex_nat (n div 16) @ [''0123456789abcdef'' ! (n mod 16)])"

declare hex_nat.simps [simp del]

definition hex_int :: "int \<Rightarrow> string" where
  "hex_int k = (if k < 0 then ''-'' @ hex_nat (nat (- k)) else hex_nat (nat k))"

text \<open>The connection sequence is a process-wide counter; its next value is an argument.\<close>

definition newConnectionRuntime :: "time \<Rightarrow> u64 \<Rightarrow> string \<Rightarrow> string \<Rightarrow> string \<Rightarrow> string \<Rightarrow> connection_runtime" where
  "newConnectionRuntime now seq rid proto src tgt =
     \<lparr>run_id = proto @ ''-'' @ hex_int now @ ''-'' @ hex_nat (unat seq), run_rule = rid, run_protocol = proto,
      run_source = src, run_target = tgt, run_started = now, run_activity = now, run_in = 0, run_out = 0\<rparr>"

section \<open>The state\<close>

datatype once = OnceFresh | OnceRunning | OnceDone

datatype read_result = ReadOK | ReadTimeout | ReadFailed

datatype loop_pc = LRead | LLimit nat read_result | LWrite nat read_result | LClose | LExited

record udp_session =
  us_runtime :: connection_runtime
  us_key :: string
  us_open :: bool
  us_once :: once
  us_loop :: loop_pc

datatype reader_pc =
    RNotStarted | RRead | RDial string prepared_rule nat | RLimit nat nat | RWrite nat nat | RClose nat | RStopped

datatype owner_pc = OIdle | OClosePacket | OSnapshot | OClosing "nat list" | OWait | OClosed

record udp_forwarder =
  uf_config :: prepared_rule
  uf_closed :: bool
  uf_packet :: bool
  uf_sessions :: "(string, nat) gomap"
  uf_objs :: "nat \<Rightarrow> udp_session"
  uf_next :: nat
  uf_active :: u64
  uf_in :: u64
  uf_out :: u64
  uf_reader :: reader_pc
  uf_owner :: owner_pc

definition no_session :: udp_session where
  "no_session = \<lparr>us_runtime = newConnectionRuntime 0 0 [] [] [] [], us_key = [], us_open = False, us_once = OnceDone, us_loop = LExited\<rparr>"

definition newUDPForwarder :: "prepared_rule \<Rightarrow> udp_forwarder" where
  "newUDPForwarder c = \<lparr>uf_config = c, uf_closed = False, uf_packet = True, uf_sessions = [], uf_objs = (\<lambda>_. no_session),
     uf_next = 0, uf_active = 0, uf_in = 0, uf_out = 0, uf_reader = RNotStarted, uf_owner = OIdle\<rparr>"

section \<open>Operations\<close>

definition on_session :: "nat \<Rightarrow> (udp_session \<Rightarrow> udp_session) \<Rightarrow> udp_forwarder \<Rightarrow> udp_forwarder" where
  "on_session i f s = s\<lparr>uf_objs := (uf_objs s)(i := f (uf_objs s i))\<rparr>"

definition touch :: "time \<Rightarrow> udp_session \<Rightarrow> udp_session" where
  "touch now u = u\<lparr>us_runtime := (us_runtime u)\<lparr>run_activity := now\<rparr>\<rparr>"

definition count_bytes :: "time \<Rightarrow> bool \<Rightarrow> nat \<Rightarrow> udp_session \<Rightarrow> udp_session" where
  "count_bytes now inward k u = u\<lparr>us_runtime := record_bytes now inward (int k) (us_runtime u)\<rparr>"

definition sessions_full :: "prepared_rule \<Rightarrow> udp_forwarder \<Rightarrow> bool" where
  "sessions_full c s \<longleftrightarrow> rule_max_connections (prep_rule c) > 0
     \<and> unat (rule_max_connections (prep_rule c)) \<le> length (uf_sessions s)"

text \<open>The second critical section of \<open>sessionFor\<close>: the new session enters the table and its response loop starts.\<close>

definition insert_session :: "time \<Rightarrow> u64 \<Rightarrow> string \<Rightarrow> prepared_rule \<Rightarrow> udp_forwarder \<Rightarrow> udp_forwarder" where
  "insert_session now seq key c s =
     s\<lparr>uf_sessions := gput key (uf_next s) (uf_sessions s), uf_active := uf_active s + 1, uf_next := uf_next s + 1,
       uf_objs := (uf_objs s)(uf_next s :=
         \<lparr>us_runtime = newConnectionRuntime now seq (rule_id (prep_rule c)) ''udp'' key (prep_target c),
          us_key = key, us_open = True, us_once = OnceFresh, us_loop = LRead\<rparr>)\<rparr>"

text \<open>
  \<open>close\<close> of a session runs once: it closes the connection to the target and then, under the lock, leaves the table if
  the table still holds this session. Other callers wait until that is done.
\<close>

definition close_begin :: "nat \<Rightarrow> udp_forwarder \<Rightarrow> udp_forwarder" where
  "close_begin i = on_session i (\<lambda>u. u\<lparr>us_open := False, us_once := OnceRunning\<rparr>)"

definition close_end :: "nat \<Rightarrow> udp_forwarder \<Rightarrow> udp_forwarder" where
  "close_end i s =
     (let s1 = (if map_of (uf_sessions s) (us_key (uf_objs s i)) = Some i
                then s\<lparr>uf_sessions := gdel (us_key (uf_objs s i)) (uf_sessions s), uf_active := uf_active s - 1\<rparr>
                else s)
      in on_session i (\<lambda>u. u\<lparr>us_once := OnceDone\<rparr>) s1)"

definition udp_idle_timeout :: int where
  "udp_idle_timeout = 60 * go_second"

text \<open>Where a response loop goes after a read.\<close>

definition after_read :: "time \<Rightarrow> read_result \<Rightarrow> udp_session \<Rightarrow> loop_pc" where
  "after_read now r u =
     (case r of ReadOK \<Rightarrow> LRead
      | ReadTimeout \<Rightarrow> if now - run_activity (us_runtime u) < udp_idle_timeout then LRead else LClose
      | ReadFailed \<Rightarrow> LClose)"

definition set_loop :: "nat \<Rightarrow> loop_pc \<Rightarrow> udp_forwarder \<Rightarrow> udp_forwarder" where
  "set_loop i pc = on_session i (\<lambda>u. u\<lparr>us_loop := pc\<rparr>)"

section \<open>Steps\<close>

text \<open>The read loop, with \<open>sessionFor\<close>.\<close>

inductive reader_step :: "udp_forwarder \<Rightarrow> udp_forwarder \<Rightarrow> bool" where
  start: "uf_reader s = RNotStarted \<Longrightarrow> \<not> uf_closed s \<Longrightarrow> reader_step s (s\<lparr>uf_reader := RRead\<rparr>)"
| read_stop: "uf_reader s = RRead \<Longrightarrow> uf_closed s \<Longrightarrow> reader_step s (s\<lparr>uf_reader := RStopped\<rparr>)"
| read_retry: "uf_reader s = RRead \<Longrightarrow> \<not> uf_closed s \<Longrightarrow> reader_step s s"
| denied: "uf_reader s = RRead \<Longrightarrow> uf_packet s \<Longrightarrow> \<not> permits (uf_config s) key \<Longrightarrow> reader_step s s"
| known: "uf_reader s = RRead \<Longrightarrow> uf_packet s \<Longrightarrow> permits (uf_config s) key \<Longrightarrow> map_of (uf_sessions s) key = Some i \<Longrightarrow>
    reader_step s (on_session i (touch now) (s\<lparr>uf_reader := RLimit i n\<rparr>))"
| full: "uf_reader s = RRead \<Longrightarrow> uf_packet s \<Longrightarrow> permits (uf_config s) key \<Longrightarrow> map_of (uf_sessions s) key = None \<Longrightarrow>
    sessions_full (uf_config s) s \<Longrightarrow> reader_step s s"
| unknown: "uf_reader s = RRead \<Longrightarrow> uf_packet s \<Longrightarrow> permits (uf_config s) key \<Longrightarrow> map_of (uf_sessions s) key = None \<Longrightarrow>
    \<not> sessions_full (uf_config s) s \<Longrightarrow> reader_step s (s\<lparr>uf_reader := RDial key (uf_config s) n\<rparr>)"
| dial_failed: "uf_reader s = RDial key c n \<Longrightarrow> reader_step s (s\<lparr>uf_reader := RRead\<rparr>)"
| dialled_closed: "uf_reader s = RDial key c n \<Longrightarrow> uf_closed s \<Longrightarrow> reader_step s (s\<lparr>uf_reader := RRead\<rparr>)"
| dialled_existing: "uf_reader s = RDial key c n \<Longrightarrow> \<not> uf_closed s \<Longrightarrow> map_of (uf_sessions s) key = Some i \<Longrightarrow>
    reader_step s (on_session i (touch now) (s\<lparr>uf_reader := RLimit i n\<rparr>))"
| dialled_new: "uf_reader s = RDial key c n \<Longrightarrow> \<not> uf_closed s \<Longrightarrow> map_of (uf_sessions s) key = None \<Longrightarrow>
    reader_step s ((insert_session now seq key c s)\<lparr>uf_reader := RLimit (uf_next s) n\<rparr>)"
| limit_refused: "uf_reader s = RLimit i n \<Longrightarrow> reader_step s (s\<lparr>uf_reader := RStopped\<rparr>)"
| limit_granted: "uf_reader s = RLimit i n \<Longrightarrow> reader_step s (s\<lparr>uf_reader := RWrite i n\<rparr>)"
| written: "uf_reader s = RWrite i n \<Longrightarrow> k \<le> n \<Longrightarrow> us_open (uf_objs s i) \<or> failed \<and> k = 0 \<Longrightarrow>
    reader_step s (on_session i (count_bytes now True k)
      (s\<lparr>uf_in := uf_in s + of_nat k, uf_reader := (if failed then RClose i else RRead)\<rparr>))"
| reader_begins: "uf_reader s = RClose i \<Longrightarrow> us_once (uf_objs s i) = OnceFresh \<Longrightarrow> reader_step s (close_begin i s)"
| reader_closed: "uf_reader s = RClose i \<Longrightarrow> us_once (uf_objs s i) = OnceDone \<Longrightarrow> reader_step s (s\<lparr>uf_reader := RRead\<rparr>)"

text \<open>The response loop of a session, and the second part of a running \<open>close\<close>.\<close>

inductive session_step :: "nat \<Rightarrow> udp_forwarder \<Rightarrow> udp_forwarder \<Rightarrow> bool" for i where
  received: "us_loop (uf_objs s i) = LRead \<Longrightarrow> 0 < n \<Longrightarrow> session_step i s (set_loop i (LLimit n r) s)"
| nothing: "us_loop (uf_objs s i) = LRead \<Longrightarrow> session_step i s (set_loop i (after_read now r (uf_objs s i)) s)"
| response_refused: "us_loop (uf_objs s i) = LLimit n r \<Longrightarrow> session_step i s (set_loop i LClose s)"
| response_granted: "us_loop (uf_objs s i) = LLimit n r \<Longrightarrow> session_step i s (set_loop i (LWrite n r) s)"
| responded: "us_loop (uf_objs s i) = LWrite n r \<Longrightarrow> k \<le> n \<Longrightarrow> uf_packet s \<or> failed \<and> k = 0 \<Longrightarrow>
    u = count_bytes now False k (uf_objs s i) \<Longrightarrow>
    session_step i s (set_loop i (if failed then LClose else after_read now r u)
      (on_session i (\<lambda>_. u) (s\<lparr>uf_out := uf_out s + of_nat k\<rparr>)))"
| loop_begins: "us_loop (uf_objs s i) = LClose \<Longrightarrow> us_once (uf_objs s i) = OnceFresh \<Longrightarrow> session_step i s (close_begin i s)"
| loop_exits: "us_loop (uf_objs s i) = LClose \<Longrightarrow> us_once (uf_objs s i) = OnceDone \<Longrightarrow> session_step i s (set_loop i LExited s)"
| close_completes: "us_once (uf_objs s i) = OnceRunning \<Longrightarrow> session_step i s (close_end i s)"

text \<open>The calls of the manager: \<open>update\<close>, \<open>close\<close> and the \<open>closeSessions\<close> both use.\<close>

inductive owner_step :: "udp_forwarder \<Rightarrow> udp_forwarder \<Rightarrow> bool" where
  update: "uf_owner s = OIdle \<Longrightarrow> \<not> uf_closed s \<Longrightarrow>
    owner_step s (s\<lparr>uf_config := c, uf_owner := (if prep_target (uf_config s) \<noteq> prep_target c then OSnapshot else OIdle)\<rparr>)"
| close: "uf_owner s = OIdle \<Longrightarrow> \<not> uf_closed s \<Longrightarrow> owner_step s (s\<lparr>uf_closed := True, uf_owner := OClosePacket\<rparr>)"
| close_packet: "uf_owner s = OClosePacket \<Longrightarrow> owner_step s (s\<lparr>uf_packet := False, uf_owner := OSnapshot\<rparr>)"
| snapshot: "uf_owner s = OSnapshot \<Longrightarrow> owner_step s (s\<lparr>uf_owner := OClosing (map snd (uf_sessions s))\<rparr>)"
| closing_begins: "uf_owner s = OClosing (i # js) \<Longrightarrow> us_once (uf_objs s i) = OnceFresh \<Longrightarrow> owner_step s (close_begin i s)"
| closing_next: "uf_owner s = OClosing (i # js) \<Longrightarrow> us_once (uf_objs s i) = OnceDone \<Longrightarrow> owner_step s (s\<lparr>uf_owner := OClosing js\<rparr>)"
| closing_ends: "uf_owner s = OClosing [] \<Longrightarrow> owner_step s (s\<lparr>uf_owner := (if uf_closed s then OWait else OIdle)\<rparr>)"
| waited: "uf_owner s = OWait \<Longrightarrow> uf_reader s \<in> {RNotStarted, RStopped} \<Longrightarrow> \<forall>i < uf_next s. us_loop (uf_objs s i) = LExited \<Longrightarrow>
    owner_step s (s\<lparr>uf_owner := OClosed\<rparr>)"

inductive udp_step :: "udp_forwarder \<Rightarrow> udp_forwarder \<Rightarrow> bool" where
  reader: "reader_step s t \<Longrightarrow> udp_step s t"
| session: "i < uf_next s \<Longrightarrow> session_step i s t \<Longrightarrow> udp_step s t"
| owner: "owner_step s t \<Longrightarrow> udp_step s t"

inductive udp_reach :: "udp_forwarder \<Rightarrow> bool" where
  created: "udp_reach (newUDPForwarder c)"
| step: "udp_reach s \<Longrightarrow> udp_step s t \<Longrightarrow> udp_reach t"

section \<open>Invariants\<close>

named_theorems udp_defs

declare on_session_def [udp_defs] touch_def [udp_defs] count_bytes_def [udp_defs] insert_session_def [udp_defs]
  close_begin_def [udp_defs] set_loop_def [udp_defs]

text \<open>The table of sessions, its counter, and the references into it.\<close>

definition table_ok :: "udp_forwarder \<Rightarrow> bool" where
  "table_ok s \<longleftrightarrow> gomap_ok (uf_sessions s) \<and> uf_active s = of_nat (length (uf_sessions s))
     \<and> (\<forall>key i. map_of (uf_sessions s) key = Some i \<longrightarrow>
          i < uf_next s \<and> us_key (uf_objs s i) = key \<and> us_once (uf_objs s i) \<noteq> OnceDone)"

lemma length_gdel: "gomap_ok m \<Longrightarrow> map_of m k = Some v \<Longrightarrow> length m = Suc (length (gdel k m))"
proof (induction m)
  case Nil
  then show ?case by simp
next
  case (Cons q m)
  have "gdel k m = m" if "map_of m k = None"
    using that by (simp add: gdel_def map_of_eq_None_iff image_iff delete_id)
  with Cons show ?case by (auto simp: gdel_Cons split: if_splits)
qed

lemma length_gput: "map_of m k = None \<Longrightarrow> length (gput k v m) = Suc (length m)"
  by (simp add: gput_fresh map_of_eq_None_iff)

lemma table_ok_frame:
  assumes "table_ok s" "uf_sessions t = uf_sessions s" "uf_active t = uf_active s" "uf_next t = uf_next s"
    and "\<And>i. i < uf_next s \<Longrightarrow> us_key (uf_objs t i) = us_key (uf_objs s i)
      \<and> (us_once (uf_objs t i) = OnceDone \<longrightarrow> us_once (uf_objs s i) = OnceDone)"
  shows "table_ok t"
proof -
  have "i < uf_next s \<and> us_key (uf_objs t i) = key \<and> us_once (uf_objs t i) \<noteq> OnceDone" if "map_of (uf_sessions s) key = Some i" for key i
    using that assms(1) assms(5) [of i] unfolding table_ok_def by blast
  then show ?thesis using assms(1-4) by (simp add: table_ok_def)
qed

lemma table_okD: "table_ok s \<Longrightarrow> map_of (uf_sessions s) key = Some i \<Longrightarrow>
    i < uf_next s \<and> us_key (uf_objs s i) = key \<and> us_once (uf_objs s i) \<noteq> OnceDone"
  by (simp add: table_ok_def)

lemma table_ok_active: "table_ok s \<Longrightarrow> uf_active s = of_nat (length (uf_sessions s))" "table_ok s \<Longrightarrow> gomap_ok (uf_sessions s)"
  by (simp_all add: table_ok_def)

lemma close_end_table:
  assumes "table_ok s"
  shows "table_ok (close_end i s)"
proof (cases "map_of (uf_sessions s) (us_key (uf_objs s i)) = Some i")
  case True
  let ?key = "us_key (uf_objs s i)"
  have len: "length (uf_sessions s) = Suc (length (gdel ?key (uf_sessions s)))"
    using length_gdel [OF table_ok_active(2) [OF assms] True] .
  have other: "map_of (uf_sessions s) key = Some k \<and> k \<noteq> i" if "map_of (gdel ?key (uf_sessions s)) key = Some k" for key k
  proof -
    have "key \<noteq> ?key" "map_of (uf_sessions s) key = Some k" using that by (simp_all split: if_splits)
    with table_okD [OF assms, of key k] show ?thesis by auto
  qed
  have ce: "close_end i s = on_session i (\<lambda>u. u\<lparr>us_once := OnceDone\<rparr>)
      (s\<lparr>uf_sessions := gdel ?key (uf_sessions s), uf_active := uf_active s - 1\<rparr>)"
    using True by (simp add: close_end_def)
  show ?thesis
    unfolding table_ok_def ce
  proof (intro conjI allI impI)
    fix key k
    assume "map_of (uf_sessions (on_session i (\<lambda>u. u\<lparr>us_once := OnceDone\<rparr>)
      (s\<lparr>uf_sessions := gdel ?key (uf_sessions s), uf_active := uf_active s - 1\<rparr>))) key = Some k"
    then have "map_of (gdel ?key (uf_sessions s)) key = Some k" by (simp add: on_session_def)
    note k = conjunct2 [OF other [OF this]] table_okD [OF assms conjunct1 [OF other [OF this]]]
    from k show "k < uf_next (on_session i (\<lambda>u. u\<lparr>us_once := OnceDone\<rparr>)
        (s\<lparr>uf_sessions := gdel ?key (uf_sessions s), uf_active := uf_active s - 1\<rparr>))" by (simp add: on_session_def)
    from k show "us_key (uf_objs (on_session i (\<lambda>u. u\<lparr>us_once := OnceDone\<rparr>)
        (s\<lparr>uf_sessions := gdel ?key (uf_sessions s), uf_active := uf_active s - 1\<rparr>)) k) = key" by (simp add: on_session_def)
    from k show "us_once (uf_objs (on_session i (\<lambda>u. u\<lparr>us_once := OnceDone\<rparr>)
        (s\<lparr>uf_sessions := gdel ?key (uf_sessions s), uf_active := uf_active s - 1\<rparr>)) k) \<noteq> OnceDone" by (simp add: on_session_def)
  qed (use len table_ok_active [OF assms] in \<open>simp_all add: on_session_def\<close>)
next
  case False
  have "k \<noteq> i" if "map_of (uf_sessions s) key = Some k" for key k
    using that table_okD [OF assms that] False by auto
  moreover have "close_end i s = on_session i (\<lambda>u. u\<lparr>us_once := OnceDone\<rparr>) s" using False by (simp add: close_end_def)
  ultimately show ?thesis using assms by (simp add: on_session_def table_ok_def)
qed


lemma insert_session_table:
  assumes "table_ok s" "map_of (uf_sessions s) key = None"
  shows "table_ok (insert_session now seq key c s)"
proof -
  have "i < uf_next s" if "map_of (uf_sessions s) k = Some i" for k i using table_okD [OF assms(1) that] by blast
  then have "i \<noteq> uf_next s" if "map_of (uf_sessions s) k = Some i" for k i using that by blast
  with assms show ?thesis by (auto simp: table_ok_def insert_session_def length_gput less_Suc_eq)
qed

lemma reader_frame:
  assumes "reader_step s t" "table_ok s"
  shows "table_ok t"
  using assms
proof (cases rule: reader_step.cases)
  case (dialled_new key c n now seq)
  then show ?thesis using insert_session_table [OF assms(2), of key now seq c] by (simp add: table_ok_def)
qed (use assms(2) in \<open>auto intro!: table_ok_frame [OF assms(2)] simp: udp_defs split: if_splits\<close>)

lemma session_frame:
  assumes "session_step i s t" "table_ok s"
  shows "table_ok t"
  using assms
proof (cases rule: session_step.cases)
  case close_completes
  then show ?thesis using close_end_table [OF assms(2)] by simp
qed (auto intro!: table_ok_frame [OF assms(2)] simp: udp_defs split: if_splits)

lemma owner_frame:
  assumes "owner_step s t" "table_ok s"
  shows "table_ok t"
  using assms by (cases rule: owner_step.cases) (auto intro!: table_ok_frame [OF assms(2)] simp: udp_defs split: if_splits)

lemma table_reach: "udp_reach s \<Longrightarrow> table_ok s"
proof (induction rule: udp_reach.induct)
  case (created c)
  then show ?case by (simp add: newUDPForwarder_def table_ok_def)
next
  case (step s t)
  from step.hyps(2) step.IH show ?case
    by (cases rule: udp_step.cases) (blast intro: reader_frame session_frame owner_frame)+
qed

text \<open>While the read loop dials for a client, nobody else enters the table.\<close>

definition dial_ok :: "udp_forwarder \<Rightarrow> bool" where
  "dial_ok s \<longleftrightarrow> (\<forall>key c n. uf_reader s = RDial key c n \<longrightarrow> map_of (uf_sessions s) key = None \<and> \<not> sessions_full c s)"

lemma shrunk_full: "sessions_full c t \<Longrightarrow> length (uf_sessions t) \<le> length (uf_sessions s) \<Longrightarrow> sessions_full c s"
  by (auto simp: sessions_full_def)

lemma dial_ok_frame:
  assumes "dial_ok s" "uf_reader t = uf_reader s" "length (uf_sessions t) \<le> length (uf_sessions s)"
    and "\<And>key. map_of (uf_sessions s) key = None \<Longrightarrow> map_of (uf_sessions t) key = None"
  shows "dial_ok t"
  using assms(1,4) shrunk_full [OF _ assms(3)] unfolding dial_ok_def assms(2) by blast

lemma close_end_shrinks:
  assumes "table_ok s"
  shows "length (uf_sessions (close_end i s)) \<le> length (uf_sessions s)" "map_of (uf_sessions s) key = None \<Longrightarrow> map_of (uf_sessions (close_end i s)) key = None"
  using length_gdel [OF table_ok_active(2) [OF assms], of "us_key (uf_objs s i)" i]
  by (auto simp: close_end_def on_session_def Let_def)

lemma close_end_frame:
  "uf_reader (close_end i s) = uf_reader s" "uf_owner (close_end i s) = uf_owner s" "uf_closed (close_end i s) = uf_closed s"
  "uf_next (close_end i s) = uf_next s" "uf_objs (close_end i s) = (uf_objs s)(i := (uf_objs s i)\<lparr>us_once := OnceDone\<rparr>)"
  "uf_packet (close_end i s) = uf_packet s" "uf_config (close_end i s) = uf_config s"
  by (simp_all add: close_end_def on_session_def Let_def)

lemma dial_reader: "reader_step s t \<Longrightarrow> dial_ok s \<Longrightarrow> dial_ok t"
  by (cases rule: reader_step.cases, assumption) (auto simp: dial_ok_def udp_defs sessions_full_def split: if_splits)

lemma dial_session:
  assumes "session_step i s t" "table_ok s" "dial_ok s"
  shows "dial_ok t"
  using assms(1)
proof (cases rule: session_step.cases)
  case close_completes
  then show ?thesis using dial_ok_frame [OF assms(3)] close_end_shrinks [OF assms(2)] by (simp add: close_end_frame)
qed (auto intro!: dial_ok_frame [OF assms(3)] simp: udp_defs split: if_splits)

lemma dial_owner: "owner_step s t \<Longrightarrow> dial_ok s \<Longrightarrow> dial_ok t"
  by (cases rule: owner_step.cases, assumption) (auto simp: dial_ok_def udp_defs sessions_full_def split: if_splits)

lemma dial_reach: "udp_reach s \<Longrightarrow> dial_ok s"
proof (induction rule: udp_reach.induct)
  case (created c)
  then show ?case by (simp add: newUDPForwarder_def dial_ok_def)
next
  case (step s t)
  from step.hyps(2) step.IH table_reach [OF step.hyps(1)] show ?case
    by (cases rule: udp_step.cases) (blast intro: dial_reader dial_session dial_owner)+
qed

text \<open>The objects: a connection is open until its session is closed, and a response loop ends by closing its session.\<close>

definition objects_ok :: "udp_forwarder \<Rightarrow> bool" where
  "objects_ok s \<longleftrightarrow> (\<forall>i < uf_next s. (us_open (uf_objs s i) \<longleftrightarrow> us_once (uf_objs s i) = OnceFresh)
     \<and> (us_loop (uf_objs s i) = LExited \<longrightarrow> us_once (uf_objs s i) = OnceDone))"

lemma after_read_not_exited: "after_read now r u \<noteq> LExited"
  by (simp add: after_read_def split: read_result.splits)

lemma objects_reader: "reader_step s t \<Longrightarrow> objects_ok s \<Longrightarrow> objects_ok t"
  by (cases rule: reader_step.cases, assumption) (auto simp: objects_ok_def udp_defs less_Suc_eq split: if_splits)

lemma objects_session: "session_step i s t \<Longrightarrow> objects_ok s \<Longrightarrow> objects_ok t"
  by (cases rule: session_step.cases, assumption)
    (auto simp: objects_ok_def udp_defs close_end_frame after_read_not_exited split: if_splits)

lemma objects_owner: "owner_step s t \<Longrightarrow> objects_ok s \<Longrightarrow> objects_ok t"
  by (cases rule: owner_step.cases, assumption) (auto simp: objects_ok_def udp_defs split: if_splits)

lemma objects_reach: "udp_reach s \<Longrightarrow> objects_ok s"
proof (induction rule: udp_reach.induct)
  case (created c)
  then show ?case by (simp add: newUDPForwarder_def objects_ok_def)
next
  case (step s t)
  from step.hyps(2) step.IH show ?case
    by (cases rule: udp_step.cases) (blast intro: objects_reader objects_session objects_owner)+
qed

text \<open>
  Closing: a session still in the table when the owner has taken its snapshot of a closed forwarder is in the snapshot,
  and once the owner waits, the table is empty for good.
\<close>

definition closing_ok :: "udp_forwarder \<Rightarrow> bool" where
  "closing_ok s \<longleftrightarrow> (uf_closed s \<longrightarrow> uf_owner s \<noteq> OIdle)
     \<and> (uf_owner s \<in> {OClosePacket, OWait, OClosed} \<longrightarrow> uf_closed s)
     \<and> (\<forall>js. uf_owner s = OClosing js \<longrightarrow> uf_closed s \<longrightarrow> (\<forall>key i. map_of (uf_sessions s) key = Some i \<longrightarrow> i \<in> set js))
     \<and> (uf_owner s \<in> {OWait, OClosed} \<longrightarrow> uf_sessions s = [])
     \<and> (uf_owner s = OClosed \<longrightarrow> uf_reader s \<in> {RNotStarted, RStopped} \<and> (\<forall>i < uf_next s. us_loop (uf_objs s i) = LExited))"

lemma closing_okD:
  assumes "closing_ok s"
  shows "uf_closed s \<Longrightarrow> uf_owner s \<noteq> OIdle" "uf_owner s = OWait \<or> uf_owner s = OClosed \<Longrightarrow> uf_sessions s = []"
    "uf_owner s = OClosePacket \<or> uf_owner s = OWait \<or> uf_owner s = OClosed \<Longrightarrow> uf_closed s"
    "uf_owner s = OClosing js \<Longrightarrow> uf_closed s \<Longrightarrow> map_of (uf_sessions s) key = Some i \<Longrightarrow> i \<in> set js"
    "uf_owner s = OClosed \<Longrightarrow> uf_reader s = RNotStarted \<or> uf_reader s = RStopped"
    "uf_owner s = OClosed \<Longrightarrow> i < uf_next s \<Longrightarrow> us_loop (uf_objs s i) = LExited"
  using assms unfolding closing_ok_def by auto

lemma closing_reader: "reader_step s t \<Longrightarrow> closing_ok s \<Longrightarrow> closing_ok t"
  by (cases rule: reader_step.cases, assumption) (auto simp: closing_ok_def udp_defs split: if_splits)

lemma gdel_Some: "map_of (gdel k m) key = Some i \<Longrightarrow> map_of m key = Some i"
  by (simp split: if_splits)

lemma close_end_sub: "map_of (uf_sessions (close_end i s)) key = Some j \<Longrightarrow> map_of (uf_sessions s) key = Some j"
  by (auto simp: close_end_def on_session_def Let_def split: if_splits)

lemma close_end_empty: "uf_sessions s = [] \<Longrightarrow> uf_sessions (close_end i s) = []"
  by (simp add: close_end_def on_session_def)

lemma closing_session:
  assumes "session_step i s t" "i < uf_next s" "closing_ok s" "objects_ok s"
  shows "closing_ok t"
proof -
  have running: "uf_owner s \<noteq> OClosed"
  proof
    assume "uf_owner s = OClosed"
    then have "us_loop (uf_objs s i) = LExited" "us_once (uf_objs s i) = OnceDone"
      using closing_okD(6) [OF assms(3)] assms(2,4) by (auto simp: objects_ok_def)
    with assms(1) show False by (cases rule: session_step.cases) simp_all
  qed
  from assms(1) show ?thesis
  proof (cases rule: session_step.cases)
    case close_completes
    then have t: "t = close_end i s" by simp
    show ?thesis
      using assms(3) running unfolding closing_ok_def t close_end_frame
      by (auto simp: close_end_empty dest: close_end_sub)
  qed (use assms(3) running in \<open>auto simp: closing_ok_def udp_defs split: if_splits\<close>)
qed

lemma closing_owner:
  assumes "owner_step s t" "closing_ok s" "table_ok s"
  shows "closing_ok t"
  using assms(1)
proof (cases rule: owner_step.cases)
  case snapshot
  then show ?thesis
    using assms(2) map_of_in_values [of "uf_sessions s"] by (auto simp: closing_ok_def)
next
  case (closing_next i js)
  have "j \<in> set js" if "uf_closed s" "map_of (uf_sessions s) key = Some j" for key j
    using closing_okD(4) [OF assms(2) closing_next(2) that] table_okD [OF assms(3) that(2)] closing_next(3) by auto
  with closing_next assms(2) show ?thesis by (auto simp: closing_ok_def)
next
  case closing_ends
  have "uf_sessions s = []" if "uf_closed s"
  proof (rule ccontr)
    assume "uf_sessions s \<noteq> []"
    then obtain q m where "uf_sessions s = q # m" by (cases "uf_sessions s") auto
    then have "map_of (uf_sessions s) (fst q) = Some (snd q)" by simp
    with closing_okD(4) [OF assms(2) closing_ends(2) that] show False by simp
  qed
  with closing_ends assms(2) show ?thesis by (auto simp: closing_ok_def)
qed (use assms(2) in \<open>auto simp: closing_ok_def udp_defs split: if_splits\<close>)

lemma closing_reach: "udp_reach s \<Longrightarrow> closing_ok s"
proof (induction rule: udp_reach.induct)
  case (created c)
  then show ?case by (simp add: newUDPForwarder_def closing_ok_def)
next
  case (step s t)
  from step.hyps(2) step.IH table_reach [OF step.hyps(1)] objects_reach [OF step.hyps(1)] show ?case
    by (cases rule: udp_step.cases) (blast intro: closing_reader closing_session closing_owner)+
qed

text \<open>References held by the goroutines are to existing sessions.\<close>

definition refs_ok :: "udp_forwarder \<Rightarrow> bool" where
  "refs_ok s \<longleftrightarrow> (\<forall>i. (\<exists>n. uf_reader s = RLimit i n \<or> uf_reader s = RWrite i n) \<or> uf_reader s = RClose i \<longrightarrow> i < uf_next s)
     \<and> (\<forall>js. uf_owner s = OClosing js \<longrightarrow> (\<forall>i \<in> set js. i < uf_next s))"

lemma refs_reader: "reader_step s t \<Longrightarrow> refs_ok s \<Longrightarrow> table_ok s \<Longrightarrow> refs_ok t"
  by (cases rule: reader_step.cases, assumption)
    (auto simp: refs_ok_def udp_defs less_Suc_eq dest: table_okD split: if_splits)

lemma refs_session: "session_step i s t \<Longrightarrow> refs_ok s \<Longrightarrow> refs_ok t"
  by (cases rule: session_step.cases, assumption) (auto simp: refs_ok_def udp_defs close_end_frame split: if_splits)

lemma refs_owner:
  assumes "owner_step s t" "refs_ok s" "table_ok s"
  shows "refs_ok t"
  using assms(1)
proof (cases rule: owner_step.cases)
  case snapshot
  have "i < uf_next s" if "i \<in> snd ` set (uf_sessions s)" for i
    using that values_iff [OF table_ok_active(2) [OF assms(3)]] table_okD [OF assms(3)] by blast
  with snapshot assms(2) show ?thesis by (auto simp: refs_ok_def)
qed (use assms(2) in \<open>auto simp: refs_ok_def udp_defs split: if_splits\<close>)

lemma refs_reach: "udp_reach s \<Longrightarrow> refs_ok s"
proof (induction rule: udp_reach.induct)
  case (created c)
  then show ?case by (simp add: newUDPForwarder_def refs_ok_def)
next
  case (step s t)
  from step.hyps(2) step.IH table_reach [OF step.hyps(1)] show ?case
    by (cases rule: udp_step.cases) (blast intro: refs_reader refs_session refs_owner)+
qed

section \<open>What a UDP forwarder guarantees\<close>

text \<open>
  C29: in every interleaving the session table of a UDP forwarder is exact: the counter of active connections is the number
  of its entries, and every entry is a session of that client whose closing is not complete.
\<close>

theorem udp_table_exact:
  assumes "udp_reach s"
  shows "gomap_ok (uf_sessions s) \<and> uf_active s = of_nat (length (uf_sessions s))
    \<and> (\<forall>key i. map_of (uf_sessions s) key = Some i \<longrightarrow>
         i < uf_next s \<and> us_key (uf_objs s i) = key \<and> us_once (uf_objs s i) \<noteq> OnceDone)"
  using table_reach [OF assms] by (simp add: table_ok_def)

lemma udp_growth:
  assumes "udp_step s t" "length (uf_sessions s) < length (uf_sessions t)" "table_ok s" "dial_ok s"
  shows "\<exists>key c n. uf_reader s = RDial key c n \<and> \<not> uf_closed s \<and> map_of (uf_sessions s) key = None
    \<and> (0 < rule_max_connections (prep_rule c) \<longrightarrow> length (uf_sessions t) \<le> unat (rule_max_connections (prep_rule c)))"
  using assms(1)
proof (cases rule: udp_step.cases)
  case reader
  then show ?thesis
  proof (cases rule: reader_step.cases)
    case (dialled_new key c n now seq)
    then have "length (uf_sessions t) = Suc (length (uf_sessions s))" by (simp add: insert_session_def length_gput)
    with dialled_new assms(4) show ?thesis by (auto simp: dial_ok_def sessions_full_def)
  qed (use assms(2) in \<open>auto simp: udp_defs split: if_splits\<close>)
next
  case (session i)
  from session(2) show ?thesis
  proof (cases rule: session_step.cases)
    case close_completes
    with assms(2) close_end_shrinks(1) [OF assms(3), of i] show ?thesis by simp
  qed (use assms(2) in \<open>auto simp: udp_defs split: if_splits\<close>)
next
  case owner
  then show ?thesis
    by (cases rule: owner_step.cases) (use assms(2) in \<open>auto simp: udp_defs split: if_splits\<close>)
qed

text \<open>
  The session limit holds in every interleaving: the table only grows when the read loop, after a dial, enters a
  session for a client that has none into a forwarder that is not closed, and then its size does not exceed the limit
  of the configuration under which the client was admitted.
\<close>

theorem udp_sessions_limited:
  assumes "udp_reach s" "udp_step s t" "length (uf_sessions s) < length (uf_sessions t)"
  shows "\<exists>key c n. uf_reader s = RDial key c n \<and> \<not> uf_closed s \<and> map_of (uf_sessions s) key = None
    \<and> (0 < rule_max_connections (prep_rule c) \<longrightarrow> length (uf_sessions t) \<le> unat (rule_max_connections (prep_rule c)))"
  by (rule udp_growth [OF assms(2,3) table_reach [OF assms(1)] dial_reach [OF assms(1)]])

text \<open>
  Closing leaves nothing behind. When \<open>close\<close> of a UDP forwarder returns, whatever was in flight when it was called,
  the table is empty, the counter is zero, the read loop and every response loop have ended, and every connection to a
  target is closed.
\<close>

theorem udp_close_complete:
  assumes "udp_reach s" "uf_owner s = OClosed"
  shows "uf_sessions s = [] \<and> uf_active s = 0 \<and> uf_reader s \<in> {RNotStarted, RStopped}
    \<and> (\<forall>i < uf_next s. us_loop (uf_objs s i) = LExited \<and> us_once (uf_objs s i) = OnceDone \<and> \<not> us_open (uf_objs s i))"
proof -
  note closed = closing_okD [OF closing_reach [OF assms(1)]]
  have empty: "uf_sessions s = []" using closed(2) assms(2) by simp
  then have "uf_active s = 0" using table_ok_active(1) [OF table_reach [OF assms(1)]] by simp
  moreover have "us_loop (uf_objs s i) = LExited \<and> us_once (uf_objs s i) = OnceDone \<and> \<not> us_open (uf_objs s i)" if "i < uf_next s" for i
    using closed(6) [OF assms(2) that] objects_reach [OF assms(1)] that by (simp add: objects_ok_def)
  ultimately show ?thesis using empty closed(5) [OF assms(2)] by blast
qed

text \<open>A session whose closing has begun can complete it; one that waits for it can go on.\<close>

lemma closing_session_moves:
  assumes "i < uf_next s" "us_once (uf_objs s i) = OnceRunning"
  shows "\<exists>t. udp_step s t \<and> t \<noteq> s"
proof -
  have "us_once (uf_objs (close_end i s) i) \<noteq> us_once (uf_objs s i)" using assms(2) by (simp add: close_end_frame)
  then have "close_end i s \<noteq> s" by metis
  then show ?thesis using udp_step.session [OF assms(1) close_completes [OF assms(2)]] by blast
qed

lemma begin_moves: "us_once (uf_objs s i) = OnceFresh \<Longrightarrow> close_begin i s \<noteq> s"
proof
  assume "us_once (uf_objs s i) = OnceFresh" "close_begin i s = s"
  moreover have "us_once (uf_objs (close_begin i s) i) = OnceRunning" by (simp add: close_begin_def on_session_def)
  ultimately show False by simp
qed

lemma loop_moves: "pc \<noteq> us_loop (uf_objs s i) \<Longrightarrow> set_loop i pc s \<noteq> s"
proof
  assume "pc \<noteq> us_loop (uf_objs s i)" "set_loop i pc s = s"
  moreover have "us_loop (uf_objs (set_loop i pc s) i) = pc" by (simp add: set_loop_def on_session_def)
  ultimately show False by simp
qed

lemma reader_moves: "pc \<noteq> uf_reader s \<Longrightarrow> s\<lparr>uf_reader := pc\<rparr> \<noteq> s"
  by (metis udp_forwarder.select_convs(10) udp_forwarder.surjective udp_forwarder.update_convs(10))

lemma owner_moves: "pc \<noteq> uf_owner s \<Longrightarrow> s\<lparr>uf_owner := pc\<rparr> \<noteq> s"
  by (metis udp_forwarder.select_convs(11) udp_forwarder.surjective udp_forwarder.update_convs(11))

lemma once_cases:
  obtains "us_once u = OnceFresh" | "us_once u = OnceRunning" | "us_once u = OnceDone"
  by (cases "us_once u") auto

lemma loop_progress:
  assumes "i < uf_next s" "us_loop (uf_objs s i) \<noteq> LExited"
  shows "\<exists>t. udp_step s t \<and> t \<noteq> s"
proof (cases "us_loop (uf_objs s i)")
  case LRead
  have "session_step i s (set_loop i (after_read 0 ReadFailed (uf_objs s i)) s)" by (rule session_step.nothing, rule LRead)
  then have "session_step i s (set_loop i LClose s)" by (simp add: after_read_def)
  from udp_step.session [OF assms(1) this] loop_moves [of LClose s i] LRead show ?thesis by auto
next
  case (LLimit n r)
  from udp_step.session [OF assms(1) response_refused [OF LLimit]] loop_moves [of LClose s i] LLimit show ?thesis by auto
next
  case (LWrite n r)
  let ?u = "count_bytes 0 False 0 (uf_objs s i)"
  let ?t = "set_loop i LClose (on_session i (\<lambda>_. ?u) (s\<lparr>uf_out := uf_out s + of_nat 0\<rparr>))"
  have "session_step i s (set_loop i (if True then LClose else after_read 0 r ?u)
      (on_session i (\<lambda>_. ?u) (s\<lparr>uf_out := uf_out s + of_nat 0\<rparr>)))"
    by (rule session_step.responded) (use LWrite in simp_all)
  then have "session_step i s ?t" by simp
  then have "udp_step s ?t" by (rule udp_step.session [OF assms(1)])
  moreover have "us_loop (uf_objs ?t i) = LClose" by (simp add: set_loop_def on_session_def)
  ultimately show ?thesis using LWrite by (metis loop_pc.distinct(15) loop_pc.distinct(16))
next
  case LClose
  show ?thesis
  proof (cases rule: once_cases [of "uf_objs s i"])
    case 1
    then show ?thesis using udp_step.session [OF assms(1) loop_begins [OF LClose 1]] begin_moves by blast
  next
    case 2
    then show ?thesis by (rule closing_session_moves [OF assms(1)])
  next
    case 3
    then show ?thesis using udp_step.session [OF assms(1) loop_exits [OF LClose 3]] loop_moves [of LExited s i] LClose by auto
  qed
qed (use assms(2) in simp)

lemma reader_progress:
  assumes "uf_closed s" "uf_reader s \<notin> {RNotStarted, RStopped}" "refs_ok s"
  shows "\<exists>t. udp_step s t \<and> t \<noteq> s"
proof -
  have move: "\<exists>t. udp_step s t \<and> t \<noteq> s" if "reader_step s (s\<lparr>uf_reader := pc\<rparr>)" "pc \<noteq> uf_reader s" for pc
    using udp_step.reader [OF that(1)] reader_moves [OF that(2)] by blast
  show ?thesis
  proof (cases "uf_reader s")
    case RRead
    show ?thesis by (rule move [OF read_stop [OF RRead assms(1)]]) (simp add: RRead)
  next
    case (RDial key c n)
    show ?thesis by (rule move [OF dialled_closed [OF RDial assms(1)]]) (simp add: RDial)
  next
    case (RLimit i n)
    show ?thesis by (rule move [OF limit_refused [OF RLimit]]) (simp add: RLimit)
  next
    case (RWrite i n)
    have "reader_step s (on_session i (count_bytes 0 True 0) (s\<lparr>uf_in := uf_in s + of_nat 0, uf_reader := (if True then RClose i else RRead)\<rparr>))"
      by (rule written [OF RWrite]) simp_all
    moreover have "uf_reader (on_session i (count_bytes 0 True 0) (s\<lparr>uf_in := uf_in s + of_nat 0, uf_reader := (if True then RClose i else RRead)\<rparr>)) \<noteq> uf_reader s"
      by (simp add: on_session_def RWrite)
    ultimately show ?thesis using udp_step.reader by metis
  next
    case (RClose i)
    have i: "i < uf_next s" using assms(3) RClose by (simp add: refs_ok_def)
    show ?thesis
    proof (cases rule: once_cases [of "uf_objs s i"])
      case 1
      then show ?thesis using udp_step.reader [OF reader_begins [OF RClose 1]] begin_moves by blast
    next
      case 2
      then show ?thesis by (rule closing_session_moves [OF i])
    next
      case 3
      show ?thesis by (rule move [OF reader_closed [OF RClose 3]]) (simp add: RClose)
    qed
  qed (use assms(2) in simp_all)
qed

lemma owner_progress:
  assumes "uf_closed s" "uf_owner s \<noteq> OClosed" "closing_ok s" "refs_ok s"
  shows "\<exists>t. udp_step s t \<and> t \<noteq> s"
proof -
  have move: "\<exists>t. udp_step s t \<and> t \<noteq> s" if "owner_step s (s\<lparr>uf_owner := pc\<rparr>)" "pc \<noteq> uf_owner s" for pc
    using udp_step.owner [OF that(1)] owner_moves [OF that(2)] by blast
  show ?thesis
  proof (cases "uf_owner s")
    case OClosePacket
    have "uf_owner (s\<lparr>uf_packet := False, uf_owner := OSnapshot\<rparr>) \<noteq> uf_owner s" by (simp add: OClosePacket)
    then show ?thesis using udp_step.owner [OF close_packet [OF OClosePacket]] by metis
  next
    case OSnapshot
    show ?thesis by (rule move [OF snapshot [OF OSnapshot]]) (simp add: OSnapshot)
  next
    case (OClosing js)
    show ?thesis
    proof (cases js)
      case Nil
      then have "owner_step s (s\<lparr>uf_owner := (if uf_closed s then OWait else OIdle)\<rparr>)" using closing_ends OClosing by blast
      then have "owner_step s (s\<lparr>uf_owner := OWait\<rparr>)" using assms(1) by simp
      from move [OF this] OClosing show ?thesis by simp
    next
      case (Cons i is')
      have i: "i < uf_next s" using assms(4) OClosing Cons by (simp add: refs_ok_def)
      note oc = OClosing [unfolded Cons]
      show ?thesis
      proof (cases rule: once_cases [of "uf_objs s i"])
        case 1
        then show ?thesis using udp_step.owner [OF closing_begins [OF oc 1]] begin_moves by blast
      next
        case 2
        then show ?thesis by (rule closing_session_moves [OF i])
      next
        case 3
        show ?thesis by (rule move [OF closing_next [OF oc 3]]) (simp add: oc)
      qed
    qed
  next
    case OWait
    show ?thesis
    proof (cases "uf_reader s \<in> {RNotStarted, RStopped}")
      case False
      then show ?thesis by (rule reader_progress [OF assms(1) _ assms(4)])
    next
      case True
      show ?thesis
      proof (cases "\<forall>i < uf_next s. us_loop (uf_objs s i) = LExited")
        case True
        show ?thesis by (rule move [OF waited [OF OWait \<open>uf_reader s \<in> _\<close> True]]) (simp add: OWait)
      next
        case False
        then obtain i where "i < uf_next s" "us_loop (uf_objs s i) \<noteq> LExited" by blast
        then show ?thesis by (rule loop_progress)
      qed
    qed
  qed (use assms(1,2) closing_okD(1) [OF assms(3)] in simp_all)
qed


text \<open>Runs of several steps.\<close>

lemma udp_reader_reach: "udp_reach s \<Longrightarrow> reader_step s t \<Longrightarrow> udp_reach t"
  by (rule udp_reach.step [OF _ udp_step.reader])

lemma udp_owner_reach: "udp_reach s \<Longrightarrow> owner_step s t \<Longrightarrow> udp_reach t"
  by (rule udp_reach.step [OF _ udp_step.owner])

text \<open>The forwarder while it dials for the first client, and after an update to another target ran to its end meanwhile.\<close>

definition dialling :: "prepared_rule \<Rightarrow> string \<Rightarrow> nat \<Rightarrow> udp_forwarder" where
  "dialling c key n = (newUDPForwarder c)\<lparr>uf_reader := RDial key c n\<rparr>"

definition updated :: "prepared_rule \<Rightarrow> prepared_rule \<Rightarrow> string \<Rightarrow> nat \<Rightarrow> udp_forwarder" where
  "updated c c' key n = (dialling c key n)\<lparr>uf_config := c'\<rparr>"

lemma dialling_reach:
  assumes "permits c key"
  shows "udp_reach (dialling c key n)"
proof -
  let ?s = "(newUDPForwarder c)\<lparr>uf_reader := RRead\<rparr>"
  have "udp_reach ?s"
    by (rule udp_reader_reach [OF udp_reach.created]) (rule reader_step.start, simp_all add: newUDPForwarder_def)
  moreover have "reader_step ?s (?s\<lparr>uf_reader := RDial key (uf_config ?s) n\<rparr>)"
    by (rule reader_step.unknown) (use assms in \<open>auto simp: newUDPForwarder_def sessions_full_def word_less_nat_alt\<close>)
  ultimately have "udp_reach (?s\<lparr>uf_reader := RDial key (uf_config ?s) n\<rparr>)" by (rule udp_reader_reach)
  then show ?thesis by (simp add: dialling_def newUDPForwarder_def)
qed

lemma updated_reach:
  assumes "permits c key" "prep_target c \<noteq> prep_target c'"
  shows "udp_reach (updated c c' key n)"
proof -
  let ?s = "dialling c key n"
  have "owner_step ?s (?s\<lparr>uf_config := c', uf_owner := (if prep_target (uf_config ?s) \<noteq> prep_target c' then OSnapshot else OIdle)\<rparr>)"
    by (rule owner_step.update) (simp_all add: dialling_def newUDPForwarder_def)
  then have "owner_step ?s (?s\<lparr>uf_config := c', uf_owner := OSnapshot\<rparr>)"
    using assms(2) by (simp add: dialling_def newUDPForwarder_def)
  from udp_owner_reach [OF dialling_reach [OF assms(1)] this]
  have 1: "udp_reach (?s\<lparr>uf_config := c', uf_owner := OSnapshot\<rparr>)" .
  have "udp_reach (?s\<lparr>uf_config := c', uf_owner := OClosing []\<rparr>)"
    using udp_owner_reach [OF 1 owner_step.snapshot] by (simp add: dialling_def newUDPForwarder_def)
  from udp_owner_reach [OF this owner_step.closing_ends] show ?thesis
    by (simp add: updated_def dialling_def newUDPForwarder_def)
qed

lemma stale_reach:
  assumes "permits c key" "prep_target c \<noteq> prep_target c'"
  shows "udp_reach ((insert_session now seq key c (updated c c' key n))\<lparr>uf_in := of_nat n, uf_reader := RRead,
     uf_objs := (uf_objs (insert_session now seq key c (updated c c' key n)))
       (0 := count_bytes now True n (uf_objs (insert_session now seq key c (updated c c' key n)) 0))\<rparr>)"
proof -
  let ?s = "updated c c' key n"
  let ?t = "insert_session now seq key c ?s"
  have "reader_step ?s (?t\<lparr>uf_reader := RLimit (uf_next ?s) n\<rparr>)"
    by (rule reader_step.dialled_new) (simp_all add: updated_def dialling_def newUDPForwarder_def)
  then have "udp_reach (?t\<lparr>uf_reader := RLimit 0 n\<rparr>)"
    using udp_reader_reach [OF updated_reach [OF assms]] by (simp add: updated_def dialling_def newUDPForwarder_def)
  from udp_reader_reach [OF this reader_step.limit_granted [of _ 0 n]] have "udp_reach (?t\<lparr>uf_reader := RWrite 0 n\<rparr>)" by simp
  moreover have "reader_step (?t\<lparr>uf_reader := RWrite 0 n\<rparr>) (on_session 0 (count_bytes now True n)
      ((?t\<lparr>uf_reader := RWrite 0 n\<rparr>)\<lparr>uf_in := uf_in (?t\<lparr>uf_reader := RWrite 0 n\<rparr>) + of_nat n, uf_reader := (if False then RClose 0 else RRead)\<rparr>))"
    by (rule reader_step.written [where n = n and k = n]) (simp_all add: insert_session_def updated_def dialling_def newUDPForwarder_def)
  ultimately have "udp_reach (on_session 0 (count_bytes now True n)
      ((?t\<lparr>uf_reader := RWrite 0 n\<rparr>)\<lparr>uf_in := uf_in (?t\<lparr>uf_reader := RWrite 0 n\<rparr>) + of_nat n, uf_reader := (if False then RClose 0 else RRead)\<rparr>))"
    by (rule udp_reader_reach)
  then show ?thesis by (simp add: on_session_def insert_session_def updated_def dialling_def newUDPForwarder_def)
qed

text \<open>
  C31: an update does not always move the sessions. When the target of a rule changes while the read loop dials the old
  target for a new client, the update closes the sessions of the table, returns, and only then the read loop enters a
  session to the old target: the forwarder is idle with the new configuration, and the client's next packet, which the
  new configuration permits, is taken by the session to the old target.
\<close>

theorem udp_update_leaves_old_target:
  assumes "permits c key" "prep_target c \<noteq> prep_target c'" "permits c' key"
  shows "\<exists>s i. udp_reach s \<and> uf_owner s = OIdle \<and> uf_reader s = RRead \<and> uf_config s = c'
    \<and> map_of (uf_sessions s) key = Some i \<and> us_open (uf_objs s i)
    \<and> run_target (us_runtime (uf_objs s i)) = prep_target c \<and> prep_target c \<noteq> prep_target (uf_config s)
    \<and> (\<exists>t. reader_step s t \<and> uf_reader t = RLimit i 1)"
proof -
  define s where "s = (insert_session 0 1 key c (updated c c' key 1))\<lparr>uf_in := of_nat 1, uf_reader := RRead,
     uf_objs := (uf_objs (insert_session 0 1 key c (updated c c' key 1)))
       (0 := count_bytes 0 True 1 (uf_objs (insert_session 0 1 key c (updated c c' key 1)) 0))\<rparr>"
  have reach: "udp_reach s" unfolding s_def by (rule stale_reach [OF assms(1,2)])
  have vals: "uf_owner s = OIdle" "uf_reader s = RRead" "uf_config s = c'" "map_of (uf_sessions s) key = Some 0" "uf_packet s"
    "us_open (uf_objs s 0)" "run_target (us_runtime (uf_objs s 0)) = prep_target c"
    by (simp_all add: s_def insert_session_def updated_def dialling_def newUDPForwarder_def count_bytes_def record_bytes_def newConnectionRuntime_def)
  have "reader_step s (on_session 0 (touch 0) (s\<lparr>uf_reader := RLimit 0 1\<rparr>))"
    by (rule reader_step.known [OF vals(2,5) _ vals(4)]) (simp add: vals(3) assms(3))
  moreover have "uf_reader (on_session 0 (touch 0) (s\<lparr>uf_reader := RLimit 0 1\<rparr>)) = RLimit 0 1" by (simp add: on_session_def)
  ultimately show ?thesis using reach vals assms(2) by metis
qed

section \<open>Examples\<close>

definition dns_rule :: "string \<Rightarrow> prepared_rule" where
  "dns_rule host = prepare_rule ((web_rule ''r1'' 5353)\<lparr>rule_protocol := ProtocolUDP, rule_target_host := host, rule_max_connections := 1\<rparr>)"

lemma dns_permits: "permits (dns_rule host) ''192.0.2.7:4000''"
proof -
  have "split_host_port ''192.0.2.7:4000'' = Some (''192.0.2.7'', ''4000'')" "parse_ip ''192.0.2.7'' \<noteq> None" by code_simp+
  then show ?thesis by (auto simp: permits_def dns_rule_def prepare_rule_def web_rule_def List.map_filter_def)
qed

lemma dns_targets: "prep_target (dns_rule ''10.0.0.1'') \<noteq> prep_target (dns_rule ''10.0.0.2'')"
  by code_simp

lemma dns_reach: "udp_reach (dialling (dns_rule ''10.0.0.1'') ''192.0.2.7:4000'' 1)"
  by (rule dialling_reach [OF dns_permits])

text \<open>The forwarder that has just entered a session, and one that is closed before it is started.\<close>

definition dns_entered :: udp_forwarder where
  "dns_entered = (insert_session 0 1 ''192.0.2.7:4000'' (dns_rule ''10.0.0.1'') (dialling (dns_rule ''10.0.0.1'') ''192.0.2.7:4000'' 1))
     \<lparr>uf_reader := RLimit 0 1\<rparr>"

lemma dns_enters: "reader_step (dialling (dns_rule ''10.0.0.1'') ''192.0.2.7:4000'' 1) dns_entered"
proof -
  let ?s = "dialling (dns_rule ''10.0.0.1'') ''192.0.2.7:4000'' 1"
  have "reader_step ?s ((insert_session 0 1 ''192.0.2.7:4000'' (dns_rule ''10.0.0.1'') ?s)\<lparr>uf_reader := RLimit (uf_next ?s) 1\<rparr>)"
    by (rule reader_step.dialled_new) (simp_all add: dialling_def newUDPForwarder_def)
  then show ?thesis by (simp add: dns_entered_def dialling_def newUDPForwarder_def)
qed

lemma dns_entered_reach: "udp_reach dns_entered"
  by (rule udp_reader_reach [OF dns_reach dns_enters])

lemma dns_entered_values:
  "uf_sessions dns_entered = [(''192.0.2.7:4000'', 0)]" "uf_active dns_entered = 1" "uf_closed dns_entered = False" "uf_owner dns_entered = OIdle"
  by (simp_all add: dns_entered_def insert_session_def dialling_def newUDPForwarder_def)

theorem udp_table_exact_witness:
  "udp_reach dns_entered \<and> uf_active dns_entered = of_nat (length (uf_sessions dns_entered)) \<and> length (uf_sessions dns_entered) = 1"
  using udp_table_exact [OF dns_entered_reach] dns_entered_reach by (simp add: dns_entered_values)

theorem udp_sessions_limited_witness:
  "\<exists>key c n. uf_reader (dialling (dns_rule ''10.0.0.1'') ''192.0.2.7:4000'' 1) = RDial key c n
     \<and> rule_max_connections (prep_rule c) = 1 \<and> length (uf_sessions dns_entered) \<le> 1"
proof -
  have "length (uf_sessions (dialling (dns_rule ''10.0.0.1'') ''192.0.2.7:4000'' 1)) < length (uf_sessions dns_entered)"
    by (simp add: dns_entered_values dialling_def newUDPForwarder_def)
  from udp_sessions_limited [OF dns_reach udp_step.reader [OF dns_enters] this] show ?thesis
    by (auto simp: dialling_def newUDPForwarder_def dns_rule_def)
qed

theorem udp_update_leaves_old_target_witness:
  "\<exists>s i. udp_reach s \<and> uf_owner s = OIdle \<and> map_of (uf_sessions s) ''192.0.2.7:4000'' = Some i
     \<and> run_target (us_runtime (uf_objs s i)) = prep_target (dns_rule ''10.0.0.1'') \<and> uf_config s = dns_rule ''10.0.0.2''"
  using udp_update_leaves_old_target [OF dns_permits dns_targets dns_permits] by blast

lemma dns_closed_reach: "udp_reach (dns_entered\<lparr>uf_closed := True, uf_owner := OClosePacket\<rparr>)"
  by (rule udp_owner_reach [OF dns_entered_reach owner_step.close]) (simp_all add: dns_entered_values)


lemma new_closed_reach: "udp_reach ((newUDPForwarder c)\<lparr>uf_closed := True, uf_packet := False, uf_owner := OClosed\<rparr>)"
proof -
  let ?s = "newUDPForwarder c"
  have 1: "udp_reach (?s\<lparr>uf_closed := True, uf_owner := OClosePacket\<rparr>)"
    by (rule udp_owner_reach [OF udp_reach.created owner_step.close]) (simp_all add: newUDPForwarder_def)
  have 2: "udp_reach (?s\<lparr>uf_closed := True, uf_packet := False, uf_owner := OSnapshot\<rparr>)"
    using udp_owner_reach [OF 1 owner_step.close_packet] by (simp add: newUDPForwarder_def)
  have 3: "udp_reach (?s\<lparr>uf_closed := True, uf_packet := False, uf_owner := OClosing []\<rparr>)"
    using udp_owner_reach [OF 2 owner_step.snapshot] by (simp add: newUDPForwarder_def)
  have 4: "udp_reach (?s\<lparr>uf_closed := True, uf_packet := False, uf_owner := OWait\<rparr>)"
    using udp_owner_reach [OF 3 owner_step.closing_ends] by (simp add: newUDPForwarder_def)
  show ?thesis using udp_owner_reach [OF 4 owner_step.waited] by (simp add: newUDPForwarder_def)
qed

theorem udp_close_complete_witness:
  "udp_reach ((newUDPForwarder (dns_rule ''10.0.0.1''))\<lparr>uf_closed := True, uf_packet := False, uf_owner := OClosed\<rparr>)
   \<and> uf_active ((newUDPForwarder (dns_rule ''10.0.0.1''))\<lparr>uf_closed := True, uf_packet := False, uf_owner := OClosed\<rparr>) = 0"
  using udp_close_complete [OF new_closed_reach [of "dns_rule ''10.0.0.1''"]] new_closed_reach by simp

end
