(* ===== verification/Tcp.thy ===== *)
theory Tcp
  imports Udp
begin

text \<open>
  A TCP forwarder (\<open>internal/forward/tcp.go\<close>) as a machine of concurrent goroutines: the accept loop, one handler per
  connection with its two copies, and its owner, the manager. As in \<open>Udp\<close>, a step is one critical section or one
  blocking call with every outcome the network allows. Connections are objects, numbered as they are opened.
\<close>

section \<open>The state\<close>

datatype acceptor_pc =
    ANotStarted | AAccept | ABackoff | ACheck nat prepared_rule u64 | ATrack nat prepared_rule | AUndo | AStopped

datatype handler_pc =
    HDial | HTrack nat | HStart | HCopy | HDelSession | HCloseTarget | HUntrackTarget | HCloseClient | HUntrackClient
  | HRelease | HEnded

record tcp_handler =
  th_client :: nat
  th_source :: string
  th_config :: prepared_rule
  th_target :: nat
  th_runtime :: connection_runtime
  th_in_done :: bool
  th_out_done :: bool
  th_pc :: handler_pc

datatype tcp_owner_pc = TIdle | TCloseListener | TSweep | TWait | TClosed

record tcp_forwarder =
  tf_config :: prepared_rule
  tf_closed :: bool
  tf_listener :: bool
  tf_connections :: "nat set"
  tf_open :: "nat set"
  tf_conns :: nat
  tf_sessions :: "(string, nat) gomap"
  tf_active :: u64
  tf_in :: u64
  tf_out :: u64
  tf_acceptor :: acceptor_pc
  tf_source :: string
  tf_delay :: duration
  tf_handlers :: "nat \<Rightarrow> tcp_handler"
  tf_next :: nat
  tf_owner :: tcp_owner_pc

definition no_handler :: "prepared_rule \<Rightarrow> tcp_handler" where
  "no_handler c = \<lparr>th_client = 0, th_source = [], th_config = c, th_target = 0,
     th_runtime = newConnectionRuntime 0 0 [] [] [] [], th_in_done = False,
     th_out_done = False, th_pc = HEnded\<rparr>"

definition newTCPForwarder :: "prepared_rule \<Rightarrow> tcp_forwarder" where
  "newTCPForwarder c = \<lparr>tf_config = c, tf_closed = False, tf_listener = True, tf_connections = {}, tf_open = {}, tf_conns = 0,
     tf_sessions = [], tf_active = 0, tf_in = 0, tf_out = 0, tf_acceptor = ANotStarted, tf_source = [], tf_delay = 0,
     tf_handlers = (\<lambda>_. no_handler c), tf_next = 0, tf_owner = TIdle\<rparr>"

section \<open>Operations\<close>

text \<open>The pause after a failed \<open>Accept\<close>.\<close>

definition next_delay :: "duration \<Rightarrow> duration" where
  "next_delay d = (if d = 0 then 5 * go_millisecond else if d * 2 > go_second then go_second else d * 2)"

definition over_limit :: "prepared_rule \<Rightarrow> u64 \<Rightarrow> bool" where
  "over_limit c a \<longleftrightarrow> rule_max_connections (prep_rule c) > 0 \<and> a > ucast (rule_max_connections (prep_rule c))"

text \<open>A new connection from \<open>Accept\<close> or \<open>dial\<close>; \<open>Close\<close> of one; \<open>track\<close> of one in a forwarder that is not closed.\<close>

definition open_conn :: "tcp_forwarder \<Rightarrow> tcp_forwarder" where
  "open_conn s = s\<lparr>tf_open := insert (tf_conns s) (tf_open s), tf_conns := tf_conns s + 1\<rparr>"

definition close_conn :: "nat \<Rightarrow> tcp_forwarder \<Rightarrow> tcp_forwarder" where
  "close_conn c s = s\<lparr>tf_open := tf_open s - {c}\<rparr>"

definition track :: "nat \<Rightarrow> tcp_forwarder \<Rightarrow> tcp_forwarder" where
  "track c s = s\<lparr>tf_connections := insert c (tf_connections s)\<rparr>"

definition untrack :: "nat \<Rightarrow> tcp_forwarder \<Rightarrow> tcp_forwarder" where
  "untrack c s = s\<lparr>tf_connections := tf_connections s - {c}\<rparr>"

definition on_handler :: "nat \<Rightarrow> (tcp_handler \<Rightarrow> tcp_handler) \<Rightarrow> tcp_forwarder \<Rightarrow> tcp_forwarder" where
  "on_handler i f s = s\<lparr>tf_handlers := (tf_handlers s)(i := f (tf_handlers s i))\<rparr>"

definition goto :: "nat \<Rightarrow> handler_pc \<Rightarrow> tcp_forwarder \<Rightarrow> tcp_forwarder" where
  "goto i pc = on_handler i (\<lambda>h. h\<lparr>th_pc := pc\<rparr>)"

definition spawn_handler :: "nat \<Rightarrow> prepared_rule \<Rightarrow> tcp_forwarder \<Rightarrow> tcp_forwarder" where
  "spawn_handler c cfg s =
     s\<lparr>tf_handlers := (tf_handlers s)(tf_next s := (no_handler cfg)\<lparr>th_client := c, th_source := tf_source s, th_pc := HDial\<rparr>),
       tf_next := tf_next s + 1\<rparr>"

definition enter_session :: "time \<Rightarrow> u64 \<Rightarrow> nat \<Rightarrow> tcp_forwarder \<Rightarrow> tcp_forwarder" where
  "enter_session now seq i s =
     (let h = tf_handlers s i;
          r = newConnectionRuntime now seq (rule_id (prep_rule (th_config h))) ''tcp'' (th_source h) (prep_target (th_config h))
      in on_handler i (\<lambda>h. h\<lparr>th_runtime := r, th_pc := HCopy\<rparr>) (s\<lparr>tf_sessions := gput (run_id r) i (tf_sessions s)\<rparr>))"

text \<open>
  A copy moves bytes through \<open>limitedWriter\<close>, which records them in the session, and reports the number it has written
  when it ends: the number recorded.
\<close>

definition transfer :: "time \<Rightarrow> bool \<Rightarrow> nat \<Rightarrow> nat \<Rightarrow> tcp_forwarder \<Rightarrow> tcp_forwarder" where
  "transfer now inward n i = on_handler i (\<lambda>h. h\<lparr>th_runtime := record_bytes now inward (int n) (th_runtime h)\<rparr>)"

definition copy_done :: "bool \<Rightarrow> nat \<Rightarrow> tcp_forwarder \<Rightarrow> tcp_forwarder" where
  "copy_done inward i s =
     (if inward then on_handler i (\<lambda>h. h\<lparr>th_in_done := True\<rparr>) (s\<lparr>tf_in := tf_in s + run_in (th_runtime (tf_handlers s i))\<rparr>)
      else on_handler i (\<lambda>h. h\<lparr>th_out_done := True\<rparr>) (s\<lparr>tf_out := tf_out s + run_out (th_runtime (tf_handlers s i))\<rparr>))"

section \<open>Steps\<close>

inductive accept_step :: "tcp_forwarder \<Rightarrow> tcp_forwarder \<Rightarrow> bool" where
  start: "tf_acceptor s = ANotStarted \<Longrightarrow> \<not> tf_closed s \<Longrightarrow> accept_step s (s\<lparr>tf_acceptor := AAccept\<rparr>)"
| accept_stop: "tf_acceptor s = AAccept \<Longrightarrow> tf_closed s \<Longrightarrow> accept_step s (s\<lparr>tf_acceptor := AStopped\<rparr>)"
| accept_failed: "tf_acceptor s = AAccept \<Longrightarrow> \<not> tf_closed s \<Longrightarrow>
    accept_step s (s\<lparr>tf_acceptor := ABackoff, tf_delay := next_delay (tf_delay s)\<rparr>)"
| backoff_over: "tf_acceptor s = ABackoff \<Longrightarrow> accept_step s (s\<lparr>tf_acceptor := AAccept\<rparr>)"
| backoff_stop: "tf_acceptor s = ABackoff \<Longrightarrow> tf_closed s \<Longrightarrow> accept_step s (s\<lparr>tf_acceptor := AStopped\<rparr>)"
| denied: "tf_acceptor s = AAccept \<Longrightarrow> tf_listener s \<Longrightarrow> \<not> permits (tf_config s) addr \<Longrightarrow>
    accept_step s (close_conn (tf_conns s) (open_conn s)\<lparr>tf_delay := 0\<rparr>)"
| accepted: "tf_acceptor s = AAccept \<Longrightarrow> tf_listener s \<Longrightarrow> permits (tf_config s) addr \<Longrightarrow>
    accept_step s (open_conn s\<lparr>tf_delay := 0, tf_source := addr, tf_active := tf_active s + 1,
      tf_acceptor := ACheck (tf_conns s) (tf_config s) (tf_active s + 1)\<rparr>)"
| rejected: "tf_acceptor s = ACheck c cfg a \<Longrightarrow> over_limit cfg a \<Longrightarrow>
    accept_step s (close_conn c s\<lparr>tf_active := tf_active s - 1, tf_acceptor := AAccept\<rparr>)"
| admitted: "tf_acceptor s = ACheck c cfg a \<Longrightarrow> \<not> over_limit cfg a \<Longrightarrow> accept_step s (s\<lparr>tf_acceptor := ATrack c cfg\<rparr>)"
| tracked: "tf_acceptor s = ATrack c cfg \<Longrightarrow> \<not> tf_closed s \<Longrightarrow>
    accept_step s (spawn_handler c cfg (track c s)\<lparr>tf_acceptor := AAccept\<rparr>)"
| track_closed: "tf_acceptor s = ATrack c cfg \<Longrightarrow> tf_closed s \<Longrightarrow> accept_step s (close_conn c s\<lparr>tf_acceptor := AUndo\<rparr>)"
| undo: "tf_acceptor s = AUndo \<Longrightarrow> accept_step s (s\<lparr>tf_active := tf_active s - 1, tf_acceptor := AAccept\<rparr>)"

text \<open>A handler: the dial, the session, the two copies in any order, and the deferred clean-up in the order of its defers.\<close>

inductive handler_step :: "nat \<Rightarrow> tcp_forwarder \<Rightarrow> tcp_forwarder \<Rightarrow> bool" for i where
  dial_failed: "th_pc (tf_handlers s i) = HDial \<Longrightarrow> handler_step i s (goto i HCloseClient s)"
| dialled: "th_pc (tf_handlers s i) = HDial \<Longrightarrow> handler_step i s (goto i (HTrack (tf_conns s)) (open_conn s))"
| target_tracked: "th_pc (tf_handlers s i) = HTrack c \<Longrightarrow> \<not> tf_closed s \<Longrightarrow>
    handler_step i s (on_handler i (\<lambda>h. h\<lparr>th_target := c, th_pc := HStart\<rparr>) (track c s))"
| target_closed: "th_pc (tf_handlers s i) = HTrack c \<Longrightarrow> tf_closed s \<Longrightarrow>
    handler_step i s (goto i HCloseClient (close_conn c s))"
| session: "th_pc (tf_handlers s i) = HStart \<Longrightarrow> handler_step i s (enter_session now seq i s)"
| transferred: "th_pc (tf_handlers s i) = HCopy \<Longrightarrow>
    \<not> (if inward then th_in_done (tf_handlers s i) else th_out_done (tf_handlers s i)) \<Longrightarrow>
    handler_step i s (transfer now inward n i s)"
| copied: "th_pc (tf_handlers s i) = HCopy \<Longrightarrow>
    \<not> (if inward then th_in_done (tf_handlers s i) else th_out_done (tf_handlers s i)) \<Longrightarrow>
    handler_step i s (copy_done inward i s)"
| both_copied: "th_pc (tf_handlers s i) = HCopy \<Longrightarrow> th_in_done (tf_handlers s i) \<Longrightarrow> th_out_done (tf_handlers s i) \<Longrightarrow>
    handler_step i s (goto i HDelSession s)"
| del_session: "th_pc (tf_handlers s i) = HDelSession \<Longrightarrow>
    handler_step i s (goto i HCloseTarget (s\<lparr>tf_sessions := gdel (run_id (th_runtime (tf_handlers s i))) (tf_sessions s)\<rparr>))"
| close_target: "th_pc (tf_handlers s i) = HCloseTarget \<Longrightarrow>
    handler_step i s (goto i HUntrackTarget (close_conn (th_target (tf_handlers s i)) s))"
| untrack_target: "th_pc (tf_handlers s i) = HUntrackTarget \<Longrightarrow>
    handler_step i s (goto i HCloseClient (untrack (th_target (tf_handlers s i)) s))"
| close_client: "th_pc (tf_handlers s i) = HCloseClient \<Longrightarrow>
    handler_step i s (goto i HUntrackClient (close_conn (th_client (tf_handlers s i)) s))"
| untrack_client: "th_pc (tf_handlers s i) = HUntrackClient \<Longrightarrow>
    handler_step i s (goto i HRelease (untrack (th_client (tf_handlers s i)) s))"
| release: "th_pc (tf_handlers s i) = HRelease \<Longrightarrow> handler_step i s (goto i HEnded (s\<lparr>tf_active := tf_active s - 1\<rparr>))"

inductive tcp_owner_step :: "tcp_forwarder \<Rightarrow> tcp_forwarder \<Rightarrow> bool" where
  update: "tf_owner s = TIdle \<Longrightarrow> \<not> tf_closed s \<Longrightarrow> tcp_owner_step s (s\<lparr>tf_config := c\<rparr>)"
| close: "tf_owner s = TIdle \<Longrightarrow> \<not> tf_closed s \<Longrightarrow> tcp_owner_step s (s\<lparr>tf_closed := True, tf_owner := TCloseListener\<rparr>)"
| close_listener: "tf_owner s = TCloseListener \<Longrightarrow> tcp_owner_step s (s\<lparr>tf_listener := False, tf_owner := TSweep\<rparr>)"
| sweep: "tf_owner s = TSweep \<Longrightarrow> tcp_owner_step s (s\<lparr>tf_open := tf_open s - tf_connections s, tf_owner := TWait\<rparr>)"
| waited: "tf_owner s = TWait \<Longrightarrow> tf_acceptor s \<in> {ANotStarted, AStopped} \<Longrightarrow> \<forall>i < tf_next s. th_pc (tf_handlers s i) = HEnded \<Longrightarrow>
    tcp_owner_step s (s\<lparr>tf_owner := TClosed\<rparr>)"

inductive tcp_step :: "tcp_forwarder \<Rightarrow> tcp_forwarder \<Rightarrow> bool" where
  acceptor: "accept_step s t \<Longrightarrow> tcp_step s t"
| handler: "i < tf_next s \<Longrightarrow> handler_step i s t \<Longrightarrow> tcp_step s t"
| owner: "tcp_owner_step s t \<Longrightarrow> tcp_step s t"

inductive tcp_reach :: "tcp_forwarder \<Rightarrow> bool" where
  created: "tcp_reach (newTCPForwarder c)"
| step: "tcp_reach s \<Longrightarrow> tcp_step s t \<Longrightarrow> tcp_reach t"

section \<open>The counter of active connections\<close>

definition live_handlers :: "tcp_forwarder \<Rightarrow> nat set" where
  "live_handlers s = {i. i < tf_next s \<and> th_pc (tf_handlers s i) \<noteq> HEnded}"

definition pending :: "tcp_forwarder \<Rightarrow> nat" where
  "pending s = (case tf_acceptor s of ACheck c cfg a \<Rightarrow> 1 | ATrack c cfg \<Rightarrow> 1 | AUndo \<Rightarrow> 1 | _ \<Rightarrow> 0)"

definition live :: "tcp_forwarder \<Rightarrow> nat" where
  "live s = card (live_handlers s) + pending s"

named_theorems tcp_defs

declare open_conn_def [tcp_defs] close_conn_def [tcp_defs] track_def [tcp_defs] untrack_def [tcp_defs] on_handler_def [tcp_defs]
  goto_def [tcp_defs] spawn_handler_def [tcp_defs] transfer_def [tcp_defs] copy_done_def [tcp_defs] no_handler_def [tcp_defs]

lemma enter_session_frame:
  "tf_config (enter_session now seq i s) = tf_config s" "tf_closed (enter_session now seq i s) = tf_closed s"
  "tf_connections (enter_session now seq i s) = tf_connections s" "tf_open (enter_session now seq i s) = tf_open s"
  "tf_conns (enter_session now seq i s) = tf_conns s" "tf_active (enter_session now seq i s) = tf_active s"
  "tf_acceptor (enter_session now seq i s) = tf_acceptor s" "tf_next (enter_session now seq i s) = tf_next s"
  "tf_owner (enter_session now seq i s) = tf_owner s" "tf_in (enter_session now seq i s) = tf_in s" "tf_out (enter_session now seq i s) = tf_out s"
  "tf_delay (enter_session now seq i s) = tf_delay s"
  "th_pc (tf_handlers (enter_session now seq i s) j) = (if j = i then HCopy else th_pc (tf_handlers s j))"
  "th_client (tf_handlers (enter_session now seq i s) j) = th_client (tf_handlers s j)"
  "th_target (tf_handlers (enter_session now seq i s) j) = th_target (tf_handlers s j)"
  "th_in_done (tf_handlers (enter_session now seq i s) j) = th_in_done (tf_handlers s j)"
  "th_out_done (tf_handlers (enter_session now seq i s) j) = th_out_done (tf_handlers s j)"
  by (simp_all add: enter_session_def on_handler_def Let_def)

lemma finite_live [simp]: "finite (live_handlers s)"
  by (simp add: live_handlers_def)

lemma live_handlers_same:
  "tf_next t = tf_next s \<Longrightarrow> (\<And>i. (th_pc (tf_handlers t i) = HEnded) = (th_pc (tf_handlers s i) = HEnded)) \<Longrightarrow>
     live_handlers t = live_handlers s"
  by (simp add: live_handlers_def)

lemma live_spawn: "card (live_handlers (spawn_handler c cfg s)) = Suc (card (live_handlers s))"
proof -
  have "live_handlers (spawn_handler c cfg s) = insert (tf_next s) (live_handlers s)"
    by (auto simp: live_handlers_def spawn_handler_def no_handler_def less_Suc_eq)
  moreover have "tf_next s \<notin> live_handlers s" by (simp add: live_handlers_def)
  ultimately show ?thesis by simp
qed

definition active_ok :: "tcp_forwarder \<Rightarrow> bool" where
  "active_ok s \<longleftrightarrow> tf_active s = of_nat (live s)"

lemma active_accept:
  assumes "accept_step s t" "active_ok s"
  shows "active_ok t"
  using assms(1)
proof (cases rule: accept_step.cases)
  case (tracked c cfg)
  have "live_handlers (track c s) = live_handlers s" by (simp add: live_handlers_def track_def)
  then have "card (live_handlers t) = Suc (card (live_handlers s))"
    using live_spawn [of c cfg "track c s"] tracked(1) by (simp add: live_handlers_def)
  with tracked assms(2) show ?thesis by (simp add: active_ok_def live_def pending_def spawn_handler_def track_def)
qed (use assms(2) in \<open>auto simp: active_ok_def live_def pending_def live_handlers_def tcp_defs\<close>)

lemma active_handler:
  assumes "handler_step i s t" "i < tf_next s" "active_ok s"
  shows "active_ok t"
proof (cases "th_pc (tf_handlers s i) = HRelease")
  case False
  have "live_handlers t = live_handlers s"
    using assms(1) False by (cases rule: handler_step.cases) (auto simp: live_handlers_def tcp_defs enter_session_frame split: if_splits)
  moreover have "tf_active t = tf_active s \<and> tf_acceptor t = tf_acceptor s"
    using assms(1) False by (cases rule: handler_step.cases) (auto simp: tcp_defs enter_session_frame)
  ultimately show ?thesis using assms(3) by (simp add: active_ok_def live_def pending_def)
next
  case True
  have t: "t = goto i HEnded (s\<lparr>tf_active := tf_active s - 1\<rparr>)"
    using assms(1) True by (cases rule: handler_step.cases) auto
  have "live_handlers t = live_handlers s - {i}" by (auto simp: t live_handlers_def tcp_defs)
  moreover have "i \<in> live_handlers s" using True assms(2) by (simp add: live_handlers_def)
  ultimately have "Suc (card (live_handlers t)) = card (live_handlers s)"
    by (metis card_Suc_Diff1 finite_live)
  then have "live s = Suc (live t)" by (simp add: live_def pending_def t tcp_defs)
  moreover have "tf_active t = tf_active s - 1" by (simp add: t tcp_defs)
  ultimately show ?thesis using assms(3) by (simp add: active_ok_def)
qed

lemma active_owner: "tcp_owner_step s t \<Longrightarrow> active_ok s \<Longrightarrow> active_ok t"
  by (cases rule: tcp_owner_step.cases, assumption) (auto simp: active_ok_def live_def pending_def live_handlers_def)

lemma active_reach: "tcp_reach s \<Longrightarrow> active_ok s"
proof (induction rule: tcp_reach.induct)
  case (created c)
  then show ?case by (simp add: newTCPForwarder_def active_ok_def live_def pending_def live_handlers_def)
next
  case (step s t)
  from step.hyps(2) step.IH show ?case
    by (cases rule: tcp_step.cases) (blast intro: active_accept active_handler active_owner)+
qed

section \<open>Who holds a connection\<close>

definition acceptor_owns :: "acceptor_pc \<Rightarrow> nat \<Rightarrow> bool" where
  "acceptor_owns pc c \<longleftrightarrow> (case pc of ACheck c' cfg a \<Rightarrow> c' = c | ATrack c' cfg \<Rightarrow> c' = c | _ \<Rightarrow> False)"

definition holds_client :: "handler_pc \<Rightarrow> bool" where
  "holds_client pc \<longleftrightarrow> pc \<notin> {HUntrackClient, HRelease, HEnded}"

definition holds_target :: "handler_pc \<Rightarrow> bool" where
  "holds_target pc \<longleftrightarrow> pc \<in> {HStart, HCopy, HDelSession, HCloseTarget}"

definition handler_owns :: "tcp_handler \<Rightarrow> nat \<Rightarrow> bool" where
  "handler_owns h c \<longleftrightarrow> c = th_client h \<and> holds_client (th_pc h) \<or> c = th_target h \<and> holds_target (th_pc h) \<or> th_pc h = HTrack c"

definition owned :: "tcp_forwarder \<Rightarrow> nat \<Rightarrow> bool" where
  "owned s c \<longleftrightarrow> acceptor_owns (tf_acceptor s) c \<or> (\<exists>i < tf_next s. handler_owns (tf_handlers s i) c)"

definition own_ok :: "tcp_forwarder \<Rightarrow> bool" where
  "own_ok s \<longleftrightarrow> (\<forall>c \<in> tf_open s. owned s c) \<and> (\<forall>c. owned s c \<longrightarrow> c < tf_conns s) \<and> (\<forall>c \<in> tf_connections s. c < tf_conns s)"

lemma own_okD:
  assumes "own_ok s"
  shows "c \<in> tf_open s \<Longrightarrow> owned s c" "owned s c \<Longrightarrow> c < tf_conns s" "c \<in> tf_connections s \<Longrightarrow> c < tf_conns s"
  using assms unfolding own_ok_def by blast+

lemma own_ok_frame:
  assumes "own_ok s" "\<And>c. owned t c \<Longrightarrow> owned s c \<or> c = tf_conns s \<and> tf_conns t = tf_conns s + 1"
    "\<And>c. c \<in> tf_open t \<Longrightarrow> c \<in> tf_open s \<and> (owned s c \<longrightarrow> owned t c) \<or> owned t c"
    "\<And>c. c \<in> tf_connections t \<Longrightarrow> c \<in> tf_connections s \<or> owned s c" "tf_conns s \<le> tf_conns t"
  shows "own_ok t"
proof -
  have "owned t c" if "c \<in> tf_open t" for c using assms(3) [OF that] own_okD(1) [OF assms(1)] by blast
  moreover have "c < tf_conns t" if "owned t c" for c using assms(2) [OF that] own_okD(2) [OF assms(1)] assms(5) by fastforce
  moreover have "c < tf_conns t" if "c \<in> tf_connections t" for c
    using assms(4) [OF that] own_okD(2,3) [OF assms(1)] assms(5) by fastforce
  ultimately show ?thesis unfolding own_ok_def by blast
qed

lemma owned_same:
  "tf_acceptor t = tf_acceptor s \<Longrightarrow> tf_next t = tf_next s \<Longrightarrow> tf_handlers t = tf_handlers s \<Longrightarrow> owned t c = owned s c"
  by (simp add: owned_def)

lemma owned_handlers: "tf_next t = tf_next s \<Longrightarrow> tf_handlers t = tf_handlers s \<Longrightarrow>
    owned t c \<longleftrightarrow> acceptor_owns (tf_acceptor t) c \<or> (\<exists>i < tf_next s. handler_owns (tf_handlers s i) c)"
  by (simp add: owned_def)

lemma acceptor_owns_simps [simp]:
  "\<not> acceptor_owns ANotStarted c" "\<not> acceptor_owns AAccept c" "\<not> acceptor_owns ABackoff c" "\<not> acceptor_owns AUndo c"
  "\<not> acceptor_owns AStopped c" "acceptor_owns (ACheck d cfg a) c = (d = c)" "acceptor_owns (ATrack d cfg) c = (d = c)"
  by (simp_all add: acceptor_owns_def)

lemma ex_less_upd: "(\<exists>i < Suc n. P ((f(n := x)) i)) \<longleftrightarrow> P x \<or> (\<exists>i < n. P (f i))"
proof -
  have "(\<exists>i < n. P ((f(n := x)) i)) = (\<exists>i < n. P (f i))" by (intro ex_cong1 conj_cong) auto
  then show ?thesis by (simp add: Ex_less_Suc del: fun_upd_apply) simp
qed

lemma owned_spawn: "owned (spawn_handler d cfg s\<lparr>tf_acceptor := AAccept\<rparr>) c \<longleftrightarrow> c = d \<or> (\<exists>i < tf_next s. handler_owns (tf_handlers s i) c)"
proof -
  let ?h = "(no_handler cfg)\<lparr>th_client := d, th_source := tf_source s, th_pc := HDial\<rparr>"
  have "owned (spawn_handler d cfg s\<lparr>tf_acceptor := AAccept\<rparr>) c \<longleftrightarrow>
      (\<exists>i < Suc (tf_next s). handler_owns (((tf_handlers s)(tf_next s := ?h)) i) c)"
    by (simp add: owned_def spawn_handler_def del: fun_upd_apply)
  also have "\<dots> \<longleftrightarrow> handler_owns ?h c \<or> (\<exists>i < tf_next s. handler_owns (tf_handlers s i) c)" by (rule ex_less_upd)
  also have "handler_owns ?h c = (c = d)" by (simp add: handler_owns_def holds_client_def holds_target_def)
  finally show ?thesis .
qed

lemma own_accept:
  assumes "accept_step s t" "own_ok s"
  shows "own_ok t"
  using assms(1)
proof (cases rule: accept_step.cases)
  case (tracked c cfg)
  have "owned t d \<longleftrightarrow> owned s d" for d
    using tracked owned_spawn [of c cfg "track c s" d] by (auto simp: owned_def track_def)
  moreover have "tf_open t = tf_open s" "tf_conns t = tf_conns s" "tf_connections t = insert c (tf_connections s)"
    using tracked(1) by (simp_all add: tcp_defs)
  moreover have "owned s c" using tracked(2) by (simp add: owned_def)
  ultimately show ?thesis using assms(2) unfolding own_ok_def by auto
qed (auto intro!: own_ok_frame [OF assms(2)] simp: owned_def tcp_defs)

text \<open>A handler's step only changes what this handler owns.\<close>

lemma owned_other:
  assumes "i < tf_next s" "tf_next t = tf_next s" "tf_acceptor t = tf_acceptor s" "\<forall>j. j \<noteq> i \<longrightarrow> tf_handlers t j = tf_handlers s j"
  shows "owned t c \<longleftrightarrow> acceptor_owns (tf_acceptor s) c \<or> (\<exists>j < tf_next s. j \<noteq> i \<and> handler_owns (tf_handlers s j) c)
    \<or> handler_owns (tf_handlers t i) c"
  using assms unfolding owned_def by metis

lemma owned_mine: "i < tf_next s \<Longrightarrow> owned s c \<longleftrightarrow> acceptor_owns (tf_acceptor s) c
    \<or> (\<exists>j < tf_next s. j \<noteq> i \<and> handler_owns (tf_handlers s j) c) \<or> handler_owns (tf_handlers s i) c"
  unfolding owned_def by metis

lemma own_handler_frame:
  assumes "own_ok s" "i < tf_next s" "tf_next t = tf_next s" "tf_acceptor t = tf_acceptor s"
    and "\<forall>j. j \<noteq> i \<longrightarrow> tf_handlers t j = tf_handlers s j" "tf_conns t = tf_conns s"
    and lose: "\<And>c. handler_owns (tf_handlers t i) c \<Longrightarrow> handler_owns (tf_handlers s i) c"
    and closed: "\<And>c. c \<in> tf_open t \<Longrightarrow> c \<in> tf_open s"
      "\<And>c. c \<in> tf_open t \<Longrightarrow> handler_owns (tf_handlers s i) c \<Longrightarrow> handler_owns (tf_handlers t i) c"
    and tracked: "\<And>c. c \<in> tf_connections t \<Longrightarrow> c \<in> tf_connections s \<or> handler_owns (tf_handlers s i) c"
  shows "own_ok t"
proof -
  note mine = owned_mine [OF assms(2)] and other = owned_other [OF assms(2-5)]
  show ?thesis
  proof (rule own_ok_frame [OF assms(1)])
    fix c assume "owned t c"
    then show "owned s c \<or> c = tf_conns s \<and> tf_conns t = tf_conns s + 1" using lose [of c] unfolding mine other by blast
  next
    fix c assume "c \<in> tf_open t"
    then show "c \<in> tf_open s \<and> (owned s c \<longrightarrow> owned t c) \<or> owned t c" using closed [of c] unfolding mine other by blast
  next
    fix c assume "c \<in> tf_connections t"
    then show "c \<in> tf_connections s \<or> owned s c" using tracked [of c] unfolding mine by blast
  qed (simp add: assms(6))
qed

lemma own_handler:
  assumes "handler_step i s t" "i < tf_next s" "own_ok s"
  shows "own_ok t"
proof -
  have same: "tf_next t = tf_next s" "tf_acceptor t = tf_acceptor s" "\<forall>j. j \<noteq> i \<longrightarrow> tf_handlers t j = tf_handlers s j"
    using assms(1) by (cases rule: handler_step.cases; auto simp: tcp_defs enter_session_def Let_def)+
  note defs = handler_owns_def holds_client_def holds_target_def
  from assms(1) show ?thesis
  proof (cases rule: handler_step.cases)
    case dialled
    note other = owned_other [OF assms(2) same(1,2,3)] and mine = owned_mine [OF assms(2)]
    have "handler_owns (tf_handlers t i) c \<longleftrightarrow> handler_owns (tf_handlers s i) c \<or> c = tf_conns s" for c
      using dialled by (auto simp: tcp_defs defs)
    then have "owned t c \<longleftrightarrow> owned s c \<or> c = tf_conns s" for c unfolding mine other by blast
    moreover have "tf_open t = insert (tf_conns s) (tf_open s)" "tf_conns t = tf_conns s + 1" "tf_connections t = tf_connections s"
      using dialled(1) by (simp_all add: tcp_defs)
    ultimately show ?thesis using assms(3) by (auto simp: own_ok_def less_Suc_eq)
  next
    case (session now seq)
    show ?thesis
      by (rule own_handler_frame [OF assms(3,2) same]) (use session in \<open>auto simp: enter_session_frame defs\<close>)
  qed (rule own_handler_frame [OF assms(3,2) same]; auto simp: tcp_defs defs split: if_splits)+
qed

lemma own_owner:
  assumes "tcp_owner_step s t" "own_ok s"
  shows "own_ok t"
  using assms(1) by (cases rule: tcp_owner_step.cases) (use assms(2) in \<open>auto simp: own_ok_def owned_def\<close>)

lemma own_reach: "tcp_reach s \<Longrightarrow> own_ok s"
proof (induction rule: tcp_reach.induct)
  case (created c)
  then show ?case by (simp add: newTCPForwarder_def own_ok_def owned_def)
next
  case (step s t)
  from step.hyps(2) step.IH show ?case
    by (cases rule: tcp_step.cases) (blast intro: own_accept own_handler own_owner)+
qed

section \<open>Sessions\<close>

text \<open>Every entry of the session table is the running session of a handler that is copying.\<close>

definition sessions_ok :: "tcp_forwarder \<Rightarrow> bool" where
  "sessions_ok s \<longleftrightarrow> (\<forall>key i. map_of (tf_sessions s) key = Some i \<longrightarrow> i < tf_next s
     \<and> th_pc (tf_handlers s i) \<in> {HCopy, HDelSession} \<and> run_id (th_runtime (tf_handlers s i)) = key)"

lemma record_bytes_id [simp]: "run_id (record_bytes now inward n r) = run_id r"
  by (simp add: record_bytes_def Let_def)

lemma sessions_okI:
  "(\<And>key j. map_of (tf_sessions t) key = Some j \<Longrightarrow> j < tf_next t \<and> th_pc (tf_handlers t j) \<in> {HCopy, HDelSession}
     \<and> run_id (th_runtime (tf_handlers t j)) = key) \<Longrightarrow> sessions_ok t"
  by (simp add: sessions_ok_def)

lemma sessions_okD:
  "sessions_ok s \<Longrightarrow> map_of (tf_sessions s) key = Some j \<Longrightarrow> j < tf_next s
     \<and> (th_pc (tf_handlers s j) = HCopy \<or> th_pc (tf_handlers s j) = HDelSession) \<and> run_id (th_runtime (tf_handlers s j)) = key"
  by (simp add: sessions_ok_def)

lemma sessions_handler:
  assumes "handler_step i s t" "i < tf_next s" "sessions_ok s"
  shows "sessions_ok t"
  using assms(1)
proof (cases rule: handler_step.cases)
  case (session now seq)
  show ?thesis
  proof (rule sessions_okI)
    fix key j assume "map_of (tf_sessions t) key = Some j"
    then have "j = i \<and> key = run_id (th_runtime (tf_handlers t i)) \<or> map_of (tf_sessions s) key = Some j"
      using session by (auto simp: enter_session_def on_handler_def Let_def split: if_splits)
    then show "j < tf_next t \<and> th_pc (tf_handlers t j) \<in> {HCopy, HDelSession} \<and> run_id (th_runtime (tf_handlers t j)) = key"
    proof (elim disjE)
      assume "map_of (tf_sessions s) key = Some j"
      with sessions_okD [OF assms(3) this] session show ?thesis by (auto simp: enter_session_def on_handler_def Let_def)
    qed (use session assms(2) in \<open>simp add: enter_session_frame\<close>)
  qed
qed (rule sessions_okI; auto simp: tcp_defs dest: sessions_okD [OF assms(3)] split: if_splits)+

lemma sessions_accept:
  assumes "accept_step s t" "sessions_ok s"
  shows "sessions_ok t"
  using assms(1)
  by (cases rule: accept_step.cases) (rule sessions_okI; auto simp: tcp_defs dest: sessions_okD [OF assms(2)])+

lemma sessions_owner:
  assumes "tcp_owner_step s t" "sessions_ok s"
  shows "sessions_ok t"
  using assms(1)
  by (cases rule: tcp_owner_step.cases) (rule sessions_okI; auto dest: sessions_okD [OF assms(2)])+

lemma sessions_reach: "tcp_reach s \<Longrightarrow> sessions_ok s"
proof (induction rule: tcp_reach.induct)
  case (created c)
  then show ?case by (simp add: newTCPForwarder_def sessions_ok_def)
next
  case (step s t)
  from step.hyps(2) step.IH show ?case
    by (cases rule: tcp_step.cases) (blast intro: sessions_accept sessions_handler sessions_owner)+
qed

section \<open>Closing\<close>

definition tcp_closing_ok :: "tcp_forwarder \<Rightarrow> bool" where
  "tcp_closing_ok s \<longleftrightarrow> (tf_closed s \<longleftrightarrow> tf_owner s \<noteq> TIdle)
     \<and> (tf_owner s \<in> {TWait, TClosed} \<longrightarrow> tf_connections s \<inter> tf_open s = {})
     \<and> (tf_owner s = TClosed \<longrightarrow> tf_acceptor s \<in> {ANotStarted, AStopped} \<and> (\<forall>i < tf_next s. th_pc (tf_handlers s i) = HEnded))"

lemma tcp_closing_accept:
  assumes "accept_step s t" "tcp_closing_ok s" "own_ok s"
  shows "tcp_closing_ok t"
proof -
  have fresh: "tf_conns s \<notin> tf_connections s" using own_okD(3) [OF assms(3)] by blast
  from assms(1) show ?thesis
    by (cases rule: accept_step.cases) (use assms(2) fresh in \<open>auto simp: tcp_closing_ok_def tcp_defs\<close>)
qed

lemma tcp_closing_handler:
  assumes "handler_step i s t" "i < tf_next s" "tcp_closing_ok s" "own_ok s"
  shows "tcp_closing_ok t"
proof -
  have fresh: "tf_conns s \<notin> tf_connections s" using own_okD(3) [OF assms(4)] by blast
  have running: "th_pc (tf_handlers s i) \<noteq> HEnded" using assms(1) by (cases rule: handler_step.cases) simp_all
  then have "tf_owner s \<noteq> TClosed" using assms(2,3) by (auto simp: tcp_closing_ok_def)
  with assms(1) show ?thesis
    by (cases rule: handler_step.cases) (use assms(3) fresh in \<open>auto simp: tcp_closing_ok_def tcp_defs enter_session_frame\<close>)
qed

lemma tcp_closing_owner: "tcp_owner_step s t \<Longrightarrow> tcp_closing_ok s \<Longrightarrow> tcp_closing_ok t"
  by (cases rule: tcp_owner_step.cases, assumption) (auto simp: tcp_closing_ok_def)

lemma tcp_closing_reach: "tcp_reach s \<Longrightarrow> tcp_closing_ok s"
proof (induction rule: tcp_reach.induct)
  case (created c)
  then show ?case by (simp add: newTCPForwarder_def tcp_closing_ok_def)
next
  case (step s t)
  from step.hyps(2) step.IH own_reach [OF step.hyps(1)] show ?case
    by (cases rule: tcp_step.cases) (blast intro: tcp_closing_accept tcp_closing_handler tcp_closing_owner)+
qed

section \<open>The connection limit\<close>

text \<open>The counter does not wrap around as long as fewer than \<open>2 ^ 64\<close> connections have been accepted.\<close>

definition countable :: "tcp_forwarder \<Rightarrow> bool" where
  "countable s \<longleftrightarrow> tf_next s + 2 < 2 ^ 64"

definition limit_ok :: "tcp_forwarder \<Rightarrow> bool" where
  "limit_ok s \<longleftrightarrow> countable s \<longrightarrow>
     (\<forall>c cfg a. tf_acceptor s = ACheck c cfg a \<longrightarrow> live s \<le> unat a)
     \<and> (\<forall>c cfg. tf_acceptor s = ATrack c cfg \<longrightarrow> 0 < rule_max_connections (prep_rule cfg) \<longrightarrow>
          live s \<le> unat (rule_max_connections (prep_rule cfg)))"

lemma live_bound: "live s \<le> tf_next s + 1"
proof -
  have "live_handlers s \<subseteq> {..< tf_next s}" by (auto simp: live_handlers_def)
  then have "card (live_handlers s) \<le> tf_next s" using card_mono [of "{..< tf_next s}"] by fastforce
  then show ?thesis by (simp add: live_def pending_def split: acceptor_pc.splits)
qed

lemma unat_ucast_u32: "unat (ucast (x :: u32) :: u64) = unat x"
proof -
  have "unat x < 2 ^ 32" using unsigned_less [of x] by simp
  then show ?thesis by (simp add: unsigned_ucast_eq take_bit_nat_eq_self)
qed

lemma over_limit_iff: "over_limit c a \<longleftrightarrow> 0 < rule_max_connections (prep_rule c) \<and> unat (rule_max_connections (prep_rule c)) < unat a"
  by (simp add: over_limit_def word_less_nat_alt unat_ucast_u32)

lemma limit_accept:
  assumes "accept_step s t" "limit_ok s" "active_ok s"
  shows "limit_ok t"
  using assms(1)
proof (cases rule: accept_step.cases)
  case (accepted addr)
  have "live t = live s + 1" using accepted(1,2) by (simp add: live_def pending_def live_handlers_def open_conn_def)
  moreover have "unat (tf_active s + 1) = live s + 1" if "countable t"
  proof -
    have "tf_active s + 1 = of_nat (live s + 1)" using assms(3) by (simp add: active_ok_def)
    moreover have "live s + 1 < 2 ^ 64" using that live_bound [of s] accepted(1) by (simp add: countable_def open_conn_def)
    ultimately show ?thesis by (simp only: unsigned_of_nat) (simp add: take_bit_nat_eq_self)
  qed
  ultimately show ?thesis using accepted(1) by (simp add: limit_ok_def)
next
  case (admitted c cfg a)
  have "live t = live s" "countable t = countable s"
    using admitted by (simp_all add: live_def pending_def live_handlers_def countable_def)
  with admitted assms(2) show ?thesis by (auto simp: limit_ok_def over_limit_iff)
qed (auto simp: limit_ok_def tcp_defs)

lemma live_handler:
  assumes "handler_step i s t" "i < tf_next s"
  shows "live t \<le> live s" "tf_acceptor t = tf_acceptor s" "tf_next t = tf_next s"
proof -
  show same: "tf_acceptor t = tf_acceptor s" "tf_next t = tf_next s"
    using assms(1) by (cases rule: handler_step.cases; simp add: tcp_defs enter_session_frame)+
  have "live_handlers t \<subseteq> live_handlers s"
    using assms by (cases rule: handler_step.cases) (auto simp: live_handlers_def tcp_defs enter_session_frame split: if_splits)
  then have "card (live_handlers t) \<le> card (live_handlers s)" by (simp add: card_mono)
  then show "live t \<le> live s" by (simp add: live_def pending_def same)
qed

lemma limit_handler: "handler_step i s t \<Longrightarrow> i < tf_next s \<Longrightarrow> limit_ok s \<Longrightarrow> limit_ok t"
  using live_handler [of i s t] unfolding limit_ok_def countable_def by (metis le_trans)

lemma limit_owner: "tcp_owner_step s t \<Longrightarrow> limit_ok s \<Longrightarrow> limit_ok t"
  by (cases rule: tcp_owner_step.cases, assumption) (auto simp: limit_ok_def countable_def live_def pending_def live_handlers_def)

lemma limit_reach: "tcp_reach s \<Longrightarrow> limit_ok s"
proof (induction rule: tcp_reach.induct)
  case (created c)
  then show ?case by (simp add: newTCPForwarder_def limit_ok_def)
next
  case (step s t)
  from step.hyps(2) step.IH active_reach [OF step.hyps(1)] show ?case
    by (cases rule: tcp_step.cases) (blast intro: limit_accept limit_handler limit_owner)+
qed

section \<open>Bytes\<close>

text \<open>The counters of the forwarder: what the finished copies have moved.\<close>

definition moved_in :: "tcp_forwarder \<Rightarrow> u64" where
  "moved_in s = (\<Sum>i<tf_next s. if th_in_done (tf_handlers s i) then run_in (th_runtime (tf_handlers s i)) else 0)"

definition moved_out :: "tcp_forwarder \<Rightarrow> u64" where
  "moved_out s = (\<Sum>i<tf_next s. if th_out_done (tf_handlers s i) then run_out (th_runtime (tf_handlers s i)) else 0)"

definition before_copy :: "handler_pc \<Rightarrow> bool" where
  "before_copy pc \<longleftrightarrow> pc = HDial \<or> (\<exists>c. pc = HTrack c) \<or> pc = HStart"

definition bytes_ok :: "tcp_forwarder \<Rightarrow> bool" where
  "bytes_ok s \<longleftrightarrow> tf_in s = moved_in s \<and> tf_out s = moved_out s
     \<and> (\<forall>i < tf_next s. before_copy (th_pc (tf_handlers s i)) \<longrightarrow> \<not> th_in_done (tf_handlers s i) \<and> \<not> th_out_done (tf_handlers s i))"

lemma sum_upd_at:
  fixes f :: "nat \<Rightarrow> u64"
  assumes "i < n" "\<And>j. j < n \<Longrightarrow> j \<noteq> i \<Longrightarrow> g j = f j"
  shows "(\<Sum>j<n. g j) = (\<Sum>j<n. f j) - f i + g i"
proof -
  have "(\<Sum>j<n. g j) = g i + (\<Sum>j \<in> {..<n} - {i}. g j)" "(\<Sum>j<n. f j) = f i + (\<Sum>j \<in> {..<n} - {i}. f j)"
    using assms(1) by (simp_all add: sum.remove)
  moreover have "(\<Sum>j \<in> {..<n} - {i}. g j) = (\<Sum>j \<in> {..<n} - {i}. f j)" by (rule sum.cong) (use assms(2) in auto)
  ultimately show ?thesis by simp
qed

definition in_of :: "tcp_handler \<Rightarrow> u64" where
  "in_of h = (if th_in_done h then run_in (th_runtime h) else 0)"

definition out_of :: "tcp_handler \<Rightarrow> u64" where
  "out_of h = (if th_out_done h then run_out (th_runtime h) else 0)"

lemma moved_sums: "moved_in s = (\<Sum>i<tf_next s. in_of (tf_handlers s i))" "moved_out s = (\<Sum>i<tf_next s. out_of (tf_handlers s i))"
  by (simp_all add: moved_in_def moved_out_def in_of_def out_of_def)

lemma record_other: "run_in (record_bytes now False n r) = run_in r" "run_out (record_bytes now True n r) = run_out r"
  by (simp_all add: record_bytes_def Let_def)

lemma bytes_handler:
  assumes "handler_step i s t" "i < tf_next s" "bytes_ok s"
  shows "bytes_ok t"
proof -
  have same: "tf_next t = tf_next s" "\<And>j. j \<noteq> i \<Longrightarrow> tf_handlers t j = tf_handlers s j"
    using assms(1) by (cases rule: handler_step.cases; auto simp: tcp_defs enter_session_def Let_def)+
  have ins: "moved_in t = moved_in s - in_of (tf_handlers s i) + in_of (tf_handlers t i)"
    and outs: "moved_out t = moved_out s - out_of (tf_handlers s i) + out_of (tf_handlers t i)"
    unfolding moved_sums same(1) by (rule sum_upd_at [OF assms(2)], simp add: same(2))+
  have fresh: "before_copy (th_pc (tf_handlers s i)) \<Longrightarrow> \<not> th_in_done (tf_handlers s i) \<and> \<not> th_out_done (tf_handlers s i)"
    using assms(2,3) by (simp add: bytes_ok_def)
  have "tf_in t - tf_in s = in_of (tf_handlers t i) - in_of (tf_handlers s i) \<and> tf_out t - tf_out s = out_of (tf_handlers t i) - out_of (tf_handlers s i)"
    using assms(1)
    by (cases rule: handler_step.cases)
      (use fresh in \<open>auto simp: tcp_defs in_of_def out_of_def enter_session_frame before_copy_def record_other split: if_splits\<close>)
  then have "tf_in t = moved_in t" "tf_out t = moved_out t" using assms(3) unfolding ins outs bytes_ok_def by (simp_all add: algebra_simps)
  moreover have "before_copy (th_pc (tf_handlers t i)) \<longrightarrow> \<not> th_in_done (tf_handlers t i) \<and> \<not> th_out_done (tf_handlers t i)"
    using assms(1) by (cases rule: handler_step.cases) (use fresh in \<open>auto simp: tcp_defs before_copy_def enter_session_frame split: if_splits\<close>)
  ultimately show ?thesis using assms(3) same unfolding bytes_ok_def by metis
qed

lemma sum_spawn:
  fixes F :: "'h \<Rightarrow> u64"
  shows "(\<Sum>i<Suc n. F ((f(n := x)) i)) = (\<Sum>i<n. F (f i)) + F x"
proof -
  have "(\<Sum>i<n. F ((f(n := x)) i)) = (\<Sum>i<n. F (f i))" by (rule sum.cong) auto
  then show ?thesis by (simp add: sum.lessThan_Suc)
qed

lemma bytes_accept:
  assumes "accept_step s t" "bytes_ok s"
  shows "bytes_ok t"
  using assms(1)
proof (cases rule: accept_step.cases)
  case (tracked c cfg)
  let ?h = "(no_handler cfg)\<lparr>th_client := c, th_source := tf_source s, th_pc := HDial\<rparr>"
  have t: "tf_handlers t = (tf_handlers s)(tf_next s := ?h)" "tf_next t = Suc (tf_next s)" "tf_in t = tf_in s" "tf_out t = tf_out s"
    using tracked(1) by (simp_all add: spawn_handler_def track_def)
  have "moved_in t = moved_in s + in_of ?h" "moved_out t = moved_out s + out_of ?h" unfolding moved_sums t(1,2) by (rule sum_spawn)+
  moreover have "in_of ?h = 0" "out_of ?h = 0" by (simp_all add: in_of_def out_of_def no_handler_def)
  moreover have "\<not> th_in_done ?h \<and> \<not> th_out_done ?h" by (simp add: no_handler_def)
  ultimately show ?thesis using assms(2) unfolding bytes_ok_def t by (simp add: less_Suc_eq)
qed (use assms(2) in \<open>auto simp: bytes_ok_def moved_sums tcp_defs\<close>)

lemma bytes_owner: "tcp_owner_step s t \<Longrightarrow> bytes_ok s \<Longrightarrow> bytes_ok t"
  by (cases rule: tcp_owner_step.cases, assumption) (simp_all add: bytes_ok_def moved_sums)

lemma bytes_reach: "tcp_reach s \<Longrightarrow> bytes_ok s"
proof (induction rule: tcp_reach.induct)
  case (created c)
  then show ?case by (simp add: newTCPForwarder_def bytes_ok_def moved_in_def moved_out_def)
next
  case (step s t)
  from step.hyps(2) step.IH show ?case
    by (cases rule: tcp_step.cases) (blast intro: bytes_accept bytes_handler bytes_owner)+
qed

section \<open>Progress\<close>

lemma handler_progress:
  assumes "i < tf_next s" "th_pc (tf_handlers s i) \<noteq> HEnded"
  shows "\<exists>t. tcp_step s t \<and> t \<noteq> s"
proof -
  have moves: "goto i pc u \<noteq> s" if "pc \<noteq> th_pc (tf_handlers s i)" for pc u
  proof
    assume "goto i pc u = s"
    moreover have "th_pc (tf_handlers (goto i pc u) i) = pc" by (simp add: goto_def on_handler_def)
    ultimately show False using that by simp
  qed
  have go: "\<exists>t. tcp_step s t \<and> t \<noteq> s" if "handler_step i s (goto i pc u)" "pc \<noteq> th_pc (tf_handlers s i)" for pc u
    using tcp_step.handler [OF assms(1) that(1)] moves [OF that(2)] by blast
  have differ: "\<exists>t. tcp_step s t \<and> t \<noteq> s" if "handler_step i s t" "tf_handlers t i \<noteq> tf_handlers s i" for t
    using tcp_step.handler [OF assms(1) that(1)] that(2) by metis
  show ?thesis
  proof (cases "th_pc (tf_handlers s i)")
    case HDial
    show ?thesis by (rule go [OF handler_step.dial_failed [OF HDial]]) (simp add: HDial)
  next
    case (HTrack c)
    show ?thesis
    proof (cases "tf_closed s")
      case True
      show ?thesis by (rule go [OF handler_step.target_closed [OF HTrack True]]) (simp add: HTrack)
    next
      case False
      show ?thesis by (rule differ [OF handler_step.target_tracked [OF HTrack False]]) (use HTrack in \<open>auto simp: on_handler_def track_def dest: arg_cong [of _ _ th_pc]\<close>)
    qed
  next
    case HStart
    have "th_pc (tf_handlers (enter_session 0 0 i s) i) \<noteq> th_pc (tf_handlers s i)" by (simp add: enter_session_frame HStart)
    then have "tf_handlers (enter_session 0 0 i s) i \<noteq> tf_handlers s i" by metis
    then show ?thesis by (rule differ [OF handler_step.session [OF HStart]])
  next
    case HCopy
    consider "th_in_done (tf_handlers s i)" "th_out_done (tf_handlers s i)" | "\<not> th_in_done (tf_handlers s i)" | "\<not> th_out_done (tf_handlers s i)"
      by blast
    then show ?thesis
    proof cases
      case 1
      show ?thesis by (rule go [OF handler_step.both_copied [OF HCopy 1]]) (simp add: HCopy)
    next
      case 2
      have step: "handler_step i s (copy_done True i s)" by (rule handler_step.copied [OF HCopy]) (simp add: 2)
      show ?thesis by (rule differ [OF step]) (use 2 in \<open>auto simp: copy_done_def on_handler_def dest: arg_cong [of _ _ th_in_done]\<close>)
    next
      case 3
      have step: "handler_step i s (copy_done False i s)" by (rule handler_step.copied [OF HCopy]) (simp add: 3)
      show ?thesis by (rule differ [OF step]) (use 3 in \<open>auto simp: copy_done_def on_handler_def dest: arg_cong [of _ _ th_out_done]\<close>)
    qed
  next
    case HDelSession
    show ?thesis by (rule go [OF handler_step.del_session [OF HDelSession]]) (simp add: HDelSession)
  next
    case HCloseTarget
    show ?thesis by (rule go [OF handler_step.close_target [OF HCloseTarget]]) (simp add: HCloseTarget)
  next
    case HUntrackTarget
    show ?thesis by (rule go [OF handler_step.untrack_target [OF HUntrackTarget]]) (simp add: HUntrackTarget)
  next
    case HCloseClient
    show ?thesis by (rule go [OF handler_step.close_client [OF HCloseClient]]) (simp add: HCloseClient)
  next
    case HUntrackClient
    show ?thesis by (rule go [OF handler_step.untrack_client [OF HUntrackClient]]) (simp add: HUntrackClient)
  next
    case HRelease
    show ?thesis by (rule go [OF handler_step.release [OF HRelease]]) (simp add: HRelease)
  qed (use assms(2) in simp)
qed

lemma acceptor_progress:
  assumes "tf_closed s" "tf_acceptor s \<notin> {ANotStarted, AStopped}"
  shows "\<exists>t. accept_step s t \<and> tf_acceptor t \<noteq> tf_acceptor s"
proof (cases "tf_acceptor s")
  case AAccept
  then show ?thesis using accept_step.accept_stop [OF AAccept assms(1)] by fastforce
next
  case ABackoff
  then show ?thesis using accept_step.backoff_stop [OF ABackoff assms(1)] by fastforce
next
  case (ACheck c cfg a)
  then show ?thesis
    using accept_step.rejected [OF ACheck] accept_step.admitted [OF ACheck] by (cases "over_limit cfg a") fastforce+
next
  case (ATrack c cfg)
  then show ?thesis using accept_step.track_closed [OF ATrack assms(1)] by fastforce
next
  case AUndo
  then show ?thesis using accept_step.undo [OF AUndo] by fastforce
qed (use assms(2) in simp_all)

lemma tcp_owner_progress:
  assumes "tf_closed s" "tf_owner s \<noteq> TClosed" "tcp_closing_ok s"
  shows "\<exists>t. tcp_step s t \<and> t \<noteq> s"
proof -
  have move: "\<exists>t. tcp_step s t \<and> t \<noteq> s" if "tcp_owner_step s t" "tf_owner t \<noteq> tf_owner s" for t
    using tcp_step.owner [OF that(1)] that(2) by metis
  show ?thesis
  proof (cases "tf_owner s")
    case TIdle
    with assms(1,3) show ?thesis by (simp add: tcp_closing_ok_def)
  next
    case TCloseListener
    show ?thesis by (rule move [OF tcp_owner_step.close_listener [OF TCloseListener]]) (simp add: TCloseListener)
  next
    case TSweep
    show ?thesis by (rule move [OF tcp_owner_step.sweep [OF TSweep]]) (simp add: TSweep)
  next
    case TWait
    consider "tf_acceptor s \<notin> {ANotStarted, AStopped}" | i where "i < tf_next s" "th_pc (tf_handlers s i) \<noteq> HEnded"
      | "tf_acceptor s \<in> {ANotStarted, AStopped}" "\<forall>i < tf_next s. th_pc (tf_handlers s i) = HEnded" by blast
    then show ?thesis
    proof cases
      case 1
      then show ?thesis using acceptor_progress [OF assms(1)] tcp_step.acceptor by metis
    next
      case (2 i)
      then show ?thesis by (rule handler_progress)
    next
      case 3
      show ?thesis by (rule move [OF tcp_owner_step.waited [OF TWait 3]]) (simp add: TWait)
    qed
  qed (use assms(2) in simp)
qed

section \<open>What a TCP forwarder guarantees\<close>

text \<open>
  The counter of active connections of a TCP forwarder is exact in every interleaving: it is the number of handlers
  that have not released their connection, plus one while the accept loop holds a connection it has counted.
\<close>

theorem tcp_active_exact:
  assumes "tcp_reach s"
  shows "tf_active s = of_nat (card (live_handlers s) + pending s)"
  using active_reach [OF assms] by (simp add: active_ok_def live_def)

lemma spawned_within_limit:
  assumes "accept_step s t" "tf_next t \<noteq> tf_next s" "limit_ok s" "countable s"
  shows "\<exists>c cfg. tf_acceptor s = ATrack c cfg \<and> \<not> tf_closed s \<and> c \<in> tf_connections t
    \<and> (0 < rule_max_connections (prep_rule cfg) \<longrightarrow> card (live_handlers t) \<le> unat (rule_max_connections (prep_rule cfg)))"
  using assms(1)
proof (cases rule: accept_step.cases)
  case (tracked c cfg)
  have "live_handlers t = live_handlers (spawn_handler c cfg (track c s))" using tracked(1) by (simp add: live_handlers_def)
  then have "card (live_handlers t) = Suc (card (live_handlers (track c s)))" by (simp add: live_spawn)
  then have "card (live_handlers t) = live s" using tracked(2) by (simp add: live_def pending_def live_handlers_def track_def)
  with tracked assms(3,4) show ?thesis by (auto simp: limit_ok_def spawn_handler_def track_def)
qed (use assms(2) in \<open>simp_all add: tcp_defs\<close>)

text \<open>
  The connection limit holds in every interleaving: a handler is only started for a connection the accept loop has
  admitted and tracked in a forwarder that is not closed, and then the handlers at work, the new one included, do not
  exceed the limit of the configuration the connection was admitted under. (The 64-bit counter cannot have wrapped
  around: fewer than \<open>2 ^ 64 - 2\<close> connections have been accepted.)
\<close>

theorem tcp_connections_limited:
  assumes "tcp_reach s" "accept_step s t" "tf_next t \<noteq> tf_next s" "tf_next s + 2 < 2 ^ 64"
  shows "\<exists>c cfg. tf_acceptor s = ATrack c cfg \<and> \<not> tf_closed s \<and> c \<in> tf_connections t
    \<and> (0 < rule_max_connections (prep_rule cfg) \<longrightarrow> card (live_handlers t) \<le> unat (rule_max_connections (prep_rule cfg)))"
  by (rule spawned_within_limit [OF assms(2,3) limit_reach [OF assms(1)]]) (use assms(4) in \<open>simp add: countable_def\<close>)

text \<open>
  C32: no connection is forgotten: in every reachable state each open connection, of a client or of a target, is held by
  the accept loop or by a handler that will close it; and once the owner has swept a closed forwarder, no tracked
  connection is open.
\<close>

theorem tcp_no_connection_lost:
  assumes "tcp_reach s"
  shows "(\<nexists>c. c \<in> tf_open s \<and> \<not> owned s c)
    \<and> (if tf_owner s \<in> {TWait, TClosed} then tf_connections s \<inter> tf_open s = {} else True)"
  using own_reach [OF assms] tcp_closing_reach [OF assms] unfolding own_ok_def tcp_closing_ok_def by auto

text \<open>
  Closing leaves nothing behind. When \<open>close\<close> of a TCP forwarder returns, every connection is closed, the session
  table is empty, the counter is zero, and the accept loop and every handler have ended.
\<close>

theorem tcp_close_complete:
  assumes "tcp_reach s" "tf_owner s = TClosed"
  shows "tf_open s = {} \<and> tf_sessions s = [] \<and> tf_active s = 0 \<and> tf_acceptor s \<in> {ANotStarted, AStopped}
    \<and> (\<forall>i < tf_next s. th_pc (tf_handlers s i) = HEnded)"
proof -
  have ended: "tf_acceptor s \<in> {ANotStarted, AStopped}" "\<forall>i < tf_next s. th_pc (tf_handlers s i) = HEnded"
    using tcp_closing_reach [OF assms(1)] assms(2) by (simp_all add: tcp_closing_ok_def)
  have "\<not> handler_owns (tf_handlers s i) c" if "i < tf_next s" for i c
    using ended(2) that by (simp add: handler_owns_def holds_client_def holds_target_def)
  then have "\<not> owned s c" for c using ended(1) unfolding owned_def by auto
  then have "tf_open s = {}" using own_okD(1) [OF own_reach [OF assms(1)]] by blast
  moreover have "tf_sessions s = []"
  proof (rule ccontr)
    assume "tf_sessions s \<noteq> []"
    then obtain q m where "tf_sessions s = q # m" by (cases "tf_sessions s") auto
    then have "map_of (tf_sessions s) (fst q) = Some (snd q)" by simp
    from sessions_okD [OF sessions_reach [OF assms(1)] this] ended(2) show False by auto
  qed
  moreover have "live s = 0" using ended by (auto simp: live_def pending_def live_handlers_def)
  then have "tf_active s = 0" using active_reach [OF assms(1)] by (simp add: active_ok_def)
  ultimately show ?thesis using ended by blast
qed


text \<open>
  Closing cannot get stuck: from every reachable state in which \<open>close\<close> of a TCP forwarder has been called and has
  not returned, some goroutine can take a step that changes the state.
\<close>

theorem tcp_close_progress:
  assumes "tcp_reach s" "tf_closed s" "tf_owner s \<noteq> TClosed"
  shows "\<exists>t. tcp_step s t \<and> t \<noteq> s"
  by (rule tcp_owner_progress [OF assms(2,3) tcp_closing_reach [OF assms(1)]])

text \<open>The pause after a failed \<open>Accept\<close> stays between five milliseconds and a second.\<close>

lemma next_delay_range:
  "d = 0 \<or> 5 * go_millisecond \<le> d \<and> d \<le> go_second \<Longrightarrow> 5 * go_millisecond \<le> next_delay d \<and> next_delay d \<le> go_second"
  by (auto simp: next_delay_def)

section \<open>Examples\<close>

definition web_prepared :: prepared_rule where
  "web_prepared = prepare_rule ((web_rule ''r1'' 8080)\<lparr>rule_max_connections := 1\<rparr>)"

lemma web_permits: "permits web_prepared ''192.0.2.7:4000''"
proof -
  have "split_host_port ''192.0.2.7:4000'' = Some (''192.0.2.7'', ''4000'')" "parse_ip ''192.0.2.7'' \<noteq> None" by code_simp+
  then show ?thesis by (auto simp: permits_def web_prepared_def prepare_rule_def web_rule_def List.map_filter_def)
qed

definition web_checked :: tcp_forwarder where
  "web_checked = (newTCPForwarder web_prepared)\<lparr>tf_open := {0}, tf_conns := 1, tf_source := ''192.0.2.7:4000'', tf_active := 1,
     tf_acceptor := ATrack 0 web_prepared\<rparr>"

definition web_running :: tcp_forwarder where
  "web_running = spawn_handler 0 web_prepared (track 0 web_checked)\<lparr>tf_acceptor := AAccept\<rparr>"

lemma tcp_accept_reach: "tcp_reach s \<Longrightarrow> accept_step s t \<Longrightarrow> tcp_reach t"
  by (rule tcp_reach.step [OF _ tcp_step.acceptor])

lemma tcp_owner_reach: "tcp_reach s \<Longrightarrow> tcp_owner_step s t \<Longrightarrow> tcp_reach t"
  by (rule tcp_reach.step [OF _ tcp_step.owner])

lemma web_checked_reach: "tcp_reach web_checked"
proof -
  let ?s = "newTCPForwarder web_prepared"
  have 1: "tcp_reach (?s\<lparr>tf_acceptor := AAccept\<rparr>)"
    by (rule tcp_accept_reach [OF tcp_reach.created accept_step.start]) (simp_all add: newTCPForwarder_def)
  have "accept_step (?s\<lparr>tf_acceptor := AAccept\<rparr>)
      (open_conn (?s\<lparr>tf_acceptor := AAccept\<rparr>)\<lparr>tf_delay := 0, tf_source := ''192.0.2.7:4000'', tf_active := tf_active (?s\<lparr>tf_acceptor := AAccept\<rparr>) + 1,
        tf_acceptor := ACheck (tf_conns (?s\<lparr>tf_acceptor := AAccept\<rparr>)) (tf_config (?s\<lparr>tf_acceptor := AAccept\<rparr>)) (tf_active (?s\<lparr>tf_acceptor := AAccept\<rparr>) + 1)\<rparr>)"
    by (rule accept_step.accepted) (use web_permits in \<open>simp_all add: newTCPForwarder_def\<close>)
  from tcp_accept_reach [OF 1 this]
  have 2: "tcp_reach (?s\<lparr>tf_open := {0}, tf_conns := 1, tf_source := ''192.0.2.7:4000'', tf_active := 1, tf_acceptor := ACheck 0 web_prepared 1\<rparr>)"
    by (simp add: newTCPForwarder_def open_conn_def)
  have "\<not> over_limit web_prepared 1" by (simp add: over_limit_def web_prepared_def)
  from tcp_accept_reach [OF 2 accept_step.admitted [OF _ this]] show ?thesis by (simp add: web_checked_def newTCPForwarder_def)
qed

lemma web_running_step: "accept_step web_checked web_running"
  unfolding web_running_def by (rule accept_step.tracked) (simp_all add: web_checked_def newTCPForwarder_def)

lemma web_running_reach: "tcp_reach web_running"
  by (rule tcp_accept_reach [OF web_checked_reach web_running_step])

lemma web_running_values: "tf_next web_running = 1" "tf_active web_running = 1" "tf_open web_running = {0}" "tf_owner web_running = TIdle"
  "tf_closed web_running = False" "tf_next web_checked = 0"
  by (simp_all add: web_running_def web_checked_def newTCPForwarder_def spawn_handler_def track_def)

theorem tcp_active_exact_witness:
  "tcp_reach web_running \<and> tf_active web_running = of_nat (card (live_handlers web_running) + pending web_running)"
  using tcp_active_exact [OF web_running_reach] web_running_reach by simp

theorem tcp_connections_limited_witness:
  "card (live_handlers web_running) \<le> 1 \<and> tf_next web_running = 1"
proof -
  have "\<exists>c cfg. tf_acceptor web_checked = ATrack c cfg \<and> \<not> tf_closed web_checked \<and> c \<in> tf_connections web_running
    \<and> (0 < rule_max_connections (prep_rule cfg) \<longrightarrow> card (live_handlers web_running) \<le> unat (rule_max_connections (prep_rule cfg)))"
    by (rule tcp_connections_limited [OF web_checked_reach web_running_step]) (simp_all add: web_running_values)
  then show ?thesis by (auto simp: web_running_values web_checked_def web_prepared_def)
qed

theorem tcp_no_connection_lost_witness: "owned web_running 0 \<and> 0 \<in> tf_open web_running"
  using tcp_no_connection_lost [OF web_running_reach] by (auto simp: web_running_values)


lemma web_closed_reach: "tcp_reach (web_running\<lparr>tf_closed := True, tf_owner := TCloseListener\<rparr>)"
  by (rule tcp_owner_reach [OF web_running_reach tcp_owner_step.close]) (simp_all add: web_running_values)

theorem tcp_close_progress_witness:
  "\<exists>t. tcp_step (web_running\<lparr>tf_closed := True, tf_owner := TCloseListener\<rparr>) t \<and> t \<noteq> web_running\<lparr>tf_closed := True, tf_owner := TCloseListener\<rparr>"
  by (rule tcp_close_progress [OF web_closed_reach]) simp_all

lemma new_tcp_closed_reach: "tcp_reach ((newTCPForwarder c)\<lparr>tf_closed := True, tf_listener := False, tf_owner := TClosed\<rparr>)"
proof -
  let ?s = "newTCPForwarder c"
  have 1: "tcp_reach (?s\<lparr>tf_closed := True, tf_owner := TCloseListener\<rparr>)"
    by (rule tcp_owner_reach [OF tcp_reach.created tcp_owner_step.close]) (simp_all add: newTCPForwarder_def)
  have 2: "tcp_reach (?s\<lparr>tf_closed := True, tf_listener := False, tf_owner := TSweep\<rparr>)"
    using tcp_owner_reach [OF 1 tcp_owner_step.close_listener] by (simp add: newTCPForwarder_def)
  have 3: "tcp_reach (?s\<lparr>tf_closed := True, tf_listener := False, tf_owner := TWait\<rparr>)"
    using tcp_owner_reach [OF 2 tcp_owner_step.sweep] by (simp add: newTCPForwarder_def)
  show ?thesis using tcp_owner_reach [OF 3 tcp_owner_step.waited] by (simp add: newTCPForwarder_def)
qed

theorem tcp_close_complete_witness:
  "tcp_reach ((newTCPForwarder web_prepared)\<lparr>tf_closed := True, tf_listener := False, tf_owner := TClosed\<rparr>)
   \<and> tf_open ((newTCPForwarder web_prepared)\<lparr>tf_closed := True, tf_listener := False, tf_owner := TClosed\<rparr>) = {}"
  using tcp_close_complete [OF new_tcp_closed_reach [of web_prepared]] new_tcp_closed_reach by simp

end
