(* ===== verification/ForwardStats.thy ===== *)
theory ForwardStats
  imports Tcp
begin

text \<open>
  The statistics an agent reports (\<open>tcp.go\<close>, \<open>Manager.Stats\<close> and both \<open>connectionStats\<close>): totals and counters per
  rule over the TCP and UDP forwarders, and a bounded snapshot of their connections. The iteration order of the maps,
  which Go leaves open, is that of the lists.
\<close>

section \<open>Snapshots\<close>

record connection_stats =
  cs_id :: string
  cs_rule :: string
  cs_protocol :: string
  cs_source :: string
  cs_target :: string
  cs_started :: time
  cs_activity :: time
  cs_in :: u64
  cs_out :: u64

definition session_stats :: "connection_runtime \<Rightarrow> connection_stats" where
  "session_stats r = \<lparr>cs_id = run_id r, cs_rule = run_rule r, cs_protocol = run_protocol r, cs_source = run_source r,
     cs_target = run_target r, cs_started = run_started r, cs_activity = run_activity r, cs_in = run_in r, cs_out = run_out r\<rparr>"

text \<open>The loop over a session table stops when the limit is reached; a negative limit counts as zero.\<close>

fun take_sessions :: "int \<Rightarrow> 'a list \<Rightarrow> 'a list \<Rightarrow> 'a list" where
  "take_sessions limit [] acc = acc"
| "take_sessions limit (x # xs) acc = (if int (length acc) = limit then acc else take_sessions limit xs (acc @ [x]))"

definition tcp_connection_stats :: "tcp_forwarder \<Rightarrow> int \<Rightarrow> connection_stats list \<times> int" where
  "tcp_connection_stats f limit =
     (let l = (if limit < 0 then 0 else limit)
      in (map (\<lambda>(k, i). session_stats (th_runtime (tf_handlers f i))) (take_sessions l (tf_sessions f) []),
          int (length (tf_sessions f))))"

definition udp_connection_stats :: "udp_forwarder \<Rightarrow> int \<Rightarrow> connection_stats list \<times> int" where
  "udp_connection_stats f limit =
     (let l = (if limit < 0 then 0 else limit)
      in (map (\<lambda>(k, i). session_stats (us_runtime (uf_objs f i))) (take_sessions l (uf_sessions f) []),
          int (length (uf_sessions f))))"

section \<open>Totals\<close>

record rule_counters =
  rc_rule :: string
  rc_active :: u64
  rc_in :: u64
  rc_out :: u64

record stats =
  st_active :: u64
  st_in :: u64
  st_out :: u64
  st_rules :: "rule_counters list"
  st_connections :: "connection_stats list"
  st_complete :: bool

definition max_connection_snapshots :: int where
  "max_connection_snapshots = 2000"

definition add_snapshot :: "connection_stats list \<times> int \<Rightarrow> stats \<Rightarrow> stats" where
  "add_snapshot ct r =
     (let r1 = r\<lparr>st_connections := st_connections r @ fst ct\<rparr>
      in if snd ct > int (length (fst ct)) then r1\<lparr>st_complete := False\<rparr> else r1)"

definition snapshot_room :: "stats \<Rightarrow> int" where
  "snapshot_room r = max_connection_snapshots - int (length (st_connections r))"

fun tcp_stats :: "(string, tcp_forwarder) gomap \<Rightarrow> (string, rule_counters) gomap \<times> stats \<Rightarrow> (string, rule_counters) gomap \<times> stats" where
  "tcp_stats [] acc = acc"
| "tcp_stats ((rid, f) # fs) (by_rule, r) =
     tcp_stats fs (gput rid \<lparr>rc_rule = rid, rc_active = tf_active f, rc_in = tf_in f, rc_out = tf_out f\<rparr> by_rule,
       add_snapshot (tcp_connection_stats f (snapshot_room r)) r)"

fun udp_stats :: "(string, udp_forwarder) gomap \<Rightarrow> (string, rule_counters) gomap \<times> stats \<Rightarrow> (string, rule_counters) gomap \<times> stats" where
  "udp_stats [] acc = acc"
| "udp_stats ((rid, f) # fs) (by_rule, r) =
     (let c = (case map_of by_rule rid of Some c \<Rightarrow> c | None \<Rightarrow> \<lparr>rc_rule = [], rc_active = 0, rc_in = 0, rc_out = 0\<rparr>)
      in udp_stats fs (gput rid \<lparr>rc_rule = rid, rc_active = rc_active c + uf_active f, rc_in = rc_in c + uf_in f,
           rc_out = rc_out c + uf_out f\<rparr> by_rule,
         add_snapshot (udp_connection_stats f (snapshot_room r)) r))"

definition latest_first :: "connection_stats \<Rightarrow> connection_stats \<Rightarrow> bool" where
  "latest_first a b = (if cs_activity a = cs_activity b then cs_id a < cs_id b else cs_activity b < cs_activity a)"

definition add_rule :: "rule_counters \<Rightarrow> stats \<Rightarrow> stats" where
  "add_rule c r = r\<lparr>st_active := st_active r + rc_active c, st_in := st_in r + rc_in c, st_out := st_out r + rc_out c,
     st_rules := st_rules r @ [c]\<rparr>"

definition Stats :: "(string, tcp_forwarder) gomap \<Rightarrow> (string, udp_forwarder) gomap \<Rightarrow> stats" where
  "Stats tcp udp =
     (let (by_rule, r) = udp_stats udp (tcp_stats tcp
            ([], \<lparr>st_active = 0, st_in = 0, st_out = 0, st_rules = [], st_connections = [], st_complete = True\<rparr>));
          ids = sort_slice (<) (map fst by_rule);
          r1 = fold (\<lambda>rid. add_rule (the (map_of by_rule rid))) ids r
      in r1\<lparr>st_connections := sort_slice latest_first (st_connections r1)\<rparr>)"

section \<open>The snapshot\<close>

lemma take_sessions_eq: "int (length acc) \<le> l \<Longrightarrow> take_sessions l xs acc = acc @ take (nat l - length acc) xs"
proof (induction xs arbitrary: acc)
  case Nil
  then show ?case by simp
next
  case (Cons x xs)
  show ?case
  proof (cases "int (length acc) = l")
    case True
    then show ?thesis by simp
  next
    case False
    then have "nat l - length acc = Suc (nat l - Suc (length acc))" using Cons.prems by linarith
    then show ?thesis using False Cons by simp
  qed
qed

lemma take_sessions_take: "0 \<le> l \<Longrightarrow> take_sessions l xs [] = take (nat l) xs"
  using take_sessions_eq [of "[]" l xs] by simp

definition tcp_sessions :: "tcp_forwarder \<Rightarrow> connection_stats list" where
  "tcp_sessions f = map (\<lambda>(k, i). session_stats (th_runtime (tf_handlers f i))) (tf_sessions f)"

definition udp_sessions :: "udp_forwarder \<Rightarrow> connection_stats list" where
  "udp_sessions f = map (\<lambda>(k, i). session_stats (us_runtime (uf_objs f i))) (uf_sessions f)"

lemma connection_stats_take:
  assumes "0 \<le> l"
  shows "tcp_connection_stats f l = (take (nat l) (tcp_sessions f), int (length (tcp_sessions f)))"
    "udp_connection_stats g l = (take (nat l) (udp_sessions g), int (length (udp_sessions g)))"
  using assms by (simp_all add: tcp_connection_stats_def udp_connection_stats_def tcp_sessions_def udp_sessions_def take_sessions_take take_map)

text \<open>The snapshot so far is the beginning of all sessions seen so far.\<close>

definition snapshot_of :: "connection_stats list \<Rightarrow> stats \<Rightarrow> bool" where
  "snapshot_of xs r \<longleftrightarrow> st_connections r = take 2000 xs \<and> (st_complete r \<longleftrightarrow> length xs \<le> 2000)"

lemma room_nonneg: "snapshot_of xs r \<Longrightarrow> 0 \<le> snapshot_room r"
  by (simp add: snapshot_of_def snapshot_room_def max_connection_snapshots_def)

lemma add_snapshot_of:
  assumes "snapshot_of xs r"
  shows "snapshot_of (xs @ ys) (add_snapshot (take (nat (snapshot_room r)) ys, int (length ys)) r)"
proof -
  have room: "nat (snapshot_room r) = 2000 - length xs"
    using assms by (simp add: snapshot_of_def snapshot_room_def max_connection_snapshots_def)
  show ?thesis using assms unfolding room by (auto simp: snapshot_of_def add_snapshot_def Let_def)
qed

lemma tcp_stats_snapshot:
  "snapshot_of xs r \<Longrightarrow> snapshot_of (xs @ concat (map (tcp_sessions \<circ> snd) fs)) (snd (tcp_stats fs (b, r)))"
proof (induction fs arbitrary: xs b r)
  case Nil
  then show ?case by simp
next
  case (Cons q fs)
  show ?case
    using Cons.IH [OF add_snapshot_of [OF Cons.prems, of "tcp_sessions (snd q)"]]
    by (cases q) (simp add: connection_stats_take [OF room_nonneg [OF Cons.prems]])
qed

lemma udp_stats_snapshot:
  "snapshot_of xs r \<Longrightarrow> snapshot_of (xs @ concat (map (udp_sessions \<circ> snd) fs)) (snd (udp_stats fs (b, r)))"
proof (induction fs arbitrary: xs b r)
  case Nil
  then show ?case by simp
next
  case (Cons q fs)
  show ?case
    using Cons.IH [OF add_snapshot_of [OF Cons.prems, of "udp_sessions (snd q)"]]
    by (cases q) (simp add: connection_stats_take [OF room_nonneg [OF Cons.prems]] Let_def)
qed

section \<open>The counters\<close>

lemma sum_gput:
  fixes F :: "'v \<Rightarrow> u64"
  shows "gomap_ok m \<Longrightarrow> sum_list (map (F \<circ> snd) (gput k v m))
     = sum_list (map (F \<circ> snd) m) - (case map_of m k of Some w \<Rightarrow> F w | None \<Rightarrow> 0) + F v"
proof (induction m)
  case Nil
  then show ?case by simp
next
  case (Cons q m)
  then show ?case by (auto simp: gput_Cons algebra_simps split: option.splits)
qed

definition totals :: "(rule_counters \<Rightarrow> u64) \<Rightarrow> (string, rule_counters) gomap \<Rightarrow> u64" where
  "totals F m = sum_list (map (F \<circ> snd) m)"

lemma tcp_stats_totals:
  assumes "gomap_ok b" "gomap_ok fs" "fst ` set fs \<inter> fst ` set b = {}"
    and "\<And>rid f. F \<lparr>rc_rule = rid, rc_active = tf_active f, rc_in = tf_in f, rc_out = tf_out f\<rparr> = G f"
  shows "gomap_ok (fst (tcp_stats fs (b, r))) \<and> totals F (fst (tcp_stats fs (b, r))) = totals F b + sum_list (map (G \<circ> snd) fs)
     \<and> fst ` set (fst (tcp_stats fs (b, r))) = fst ` set b \<union> fst ` set fs"
  using assms(1-3)
proof (induction fs arbitrary: b r)
  case Nil
  then show ?case by simp
next
  case (Cons q fs)
  obtain rid f where q: "q = (rid, f)" by fastforce
  let ?b = "gput rid \<lparr>rc_rule = rid, rc_active = tf_active f, rc_in = tf_in f, rc_out = tf_out f\<rparr> b"
  have new: "map_of b rid = None" using Cons.prems(3) q by (simp add: map_of_eq_None_iff)
  have "totals F ?b = totals F b + G f" using sum_gput [OF Cons.prems(1), of F rid] new by (simp add: totals_def assms(4))
  moreover have "gomap_ok ?b" "gomap_ok fs" "fst ` set fs \<inter> fst ` set ?b = {}"
    using Cons.prems q by (auto simp: map_of_eq_None_iff)
  ultimately show ?case using Cons.IH [of ?b "add_snapshot (tcp_connection_stats f (snapshot_room r)) r"] q by (simp add: algebra_simps)
qed

lemma udp_stats_totals:
  assumes "gomap_ok b"
    and "\<And>rid c f. F \<lparr>rc_rule = rid, rc_active = rc_active c + uf_active f, rc_in = rc_in c + uf_in f, rc_out = rc_out c + uf_out f\<rparr> = F c + G f"
    and "F \<lparr>rc_rule = [], rc_active = 0, rc_in = 0, rc_out = 0\<rparr> = 0"
  shows "gomap_ok (fst (udp_stats fs (b, r))) \<and> totals F (fst (udp_stats fs (b, r))) = totals F b + sum_list (map (G \<circ> snd) fs)
     \<and> fst ` set (fst (udp_stats fs (b, r))) = fst ` set b \<union> fst ` set fs"
  using assms(1)
proof (induction fs arbitrary: b r)
  case Nil
  then show ?case by simp
next
  case (Cons q fs)
  obtain rid f where q: "q = (rid, f)" by fastforce
  let ?c = "case map_of b rid of Some c \<Rightarrow> c | None \<Rightarrow> \<lparr>rc_rule = [], rc_active = 0, rc_in = 0, rc_out = 0\<rparr>"
  let ?b = "gput rid \<lparr>rc_rule = rid, rc_active = rc_active ?c + uf_active f, rc_in = rc_in ?c + uf_in f, rc_out = rc_out ?c + uf_out f\<rparr> b"
  have "(case map_of b rid of Some w \<Rightarrow> F w | None \<Rightarrow> 0) = F ?c" by (simp add: assms(3) split: option.split)
  then have "totals F ?b = totals F b + G f" using sum_gput [OF Cons.prems, of F rid] by (simp add: totals_def assms(2))
  moreover have "gomap_ok ?b" using Cons.prems by simp
  ultimately show ?case
    using Cons.IH [of ?b "add_snapshot (udp_connection_stats f (snapshot_room r)) r"] q by (simp add: algebra_simps Let_def)
qed

lemma fold_add_rule:
  "st_in (fold (\<lambda>rid. add_rule (g rid)) ids r) = st_in r + sum_list (map (rc_in \<circ> g) ids)"
  "st_out (fold (\<lambda>rid. add_rule (g rid)) ids r) = st_out r + sum_list (map (rc_out \<circ> g) ids)"
  "st_active (fold (\<lambda>rid. add_rule (g rid)) ids r) = st_active r + sum_list (map (rc_active \<circ> g) ids)"
  "st_rules (fold (\<lambda>rid. add_rule (g rid)) ids r) = st_rules r @ map g ids"
  "st_connections (fold (\<lambda>rid. add_rule (g rid)) ids r) = st_connections r"
  "st_complete (fold (\<lambda>rid. add_rule (g rid)) ids r) = st_complete r"
  by (induction ids arbitrary: r) (simp_all add: add_rule_def algebra_simps)

lemma sum_over_ids:
  assumes "gomap_ok b"
  shows "sum_list (map (F \<circ> (\<lambda>rid. the (map_of b rid))) (sort_slice (<) (map fst b))) = totals F b"
proof -
  have "the (map_of b (fst q)) = snd q" if "q \<in> set b" for q
    using that assms by (metis gomap_ok_def map_of_is_SomeI option.sel prod.collapse)
  then have vals: "map (\<lambda>rid. the (map_of b rid)) (map fst b) = map snd b" by simp
  have eq1: "map F (map snd b) = map (F \<circ> (\<lambda>rid. the (map_of b rid))) (map fst b)"
    unfolding vals [symmetric] map_map comp_assoc ..
  have eq2: "sum_list (map (F \<circ> (\<lambda>rid. the (map_of b rid))) (sort_slice (<) (map fst b)))
      = sum_list (map (F \<circ> (\<lambda>rid. the (map_of b rid))) (map fst b))"
  proof -
    have "mset (map G (sort_slice (<) (map fst b))) = mset (map G (map fst b))" for G :: "string \<Rightarrow> u64"
      by (simp del: map_map)
    then have "sum_mset (mset (map G (sort_slice (<) (map fst b)))) = sum_mset (mset (map G (map fst b)))" for G :: "string \<Rightarrow> u64"
      by (rule arg_cong)
    then show ?thesis unfolding sum_mset_sum_list .
  qed
  have "sum_list (map (F \<circ> (\<lambda>rid. the (map_of b rid))) (sort_slice (<) (map fst b))) = sum_list (map F (map snd b))"
    unfolding eq1 by (rule eq2)
  then show ?thesis unfolding totals_def map_map .
qed

text \<open>The counters of a rule: what its TCP and its UDP forwarder count, if it has them.\<close>

definition counts :: "(tcp_forwarder \<Rightarrow> u64) \<Rightarrow> (udp_forwarder \<Rightarrow> u64) \<Rightarrow> (string, tcp_forwarder) gomap \<Rightarrow> (string, udp_forwarder) gomap \<Rightarrow> u64" where
  "counts G H tcp udp = sum_list (map (G \<circ> snd) tcp) + sum_list (map (H \<circ> snd) udp)"

definition empty_stats :: stats where
  "empty_stats = \<lparr>st_active = 0, st_in = 0, st_out = 0, st_rules = [], st_connections = [], st_complete = True\<rparr>"

definition all_sessions :: "(string, tcp_forwarder) gomap \<Rightarrow> (string, udp_forwarder) gomap \<Rightarrow> connection_stats list" where
  "all_sessions tcp udp = concat (map (tcp_sessions \<circ> snd) tcp) @ concat (map (udp_sessions \<circ> snd) udp)"

lemma snapshot_frames:
  "st_active (add_snapshot ct r) = st_active r" "st_in (add_snapshot ct r) = st_in r" "st_out (add_snapshot ct r) = st_out r"
  "st_rules (add_snapshot ct r) = st_rules r"
  by (simp_all add: add_snapshot_def Let_def)

lemma stats_frames:
  "st_active (snd (tcp_stats fs (b, r))) = st_active r \<and> st_in (snd (tcp_stats fs (b, r))) = st_in r
     \<and> st_out (snd (tcp_stats fs (b, r))) = st_out r \<and> st_rules (snd (tcp_stats fs (b, r))) = st_rules r"
  "st_active (snd (udp_stats gs (b, r))) = st_active r \<and> st_in (snd (udp_stats gs (b, r))) = st_in r
     \<and> st_out (snd (udp_stats gs (b, r))) = st_out r \<and> st_rules (snd (udp_stats gs (b, r))) = st_rules r"
proof (induction fs arbitrary: b r)
  case Nil
  {
    case 1
    then show ?case by simp
  next
    case 2
    show ?case by (induction gs arbitrary: b r) (auto simp: snapshot_frames Let_def)
  }
next
  case (Cons q fs)
  {
    case 1
    then show ?case by (cases q) (simp add: Cons.IH(1) snapshot_frames)
  next
    case 2
    then show ?case by (rule Cons.IH(2))
  }
qed

text \<open>
  The connection snapshot of \<open>Stats\<close> is bounded and says whether it is complete. It holds the first 2000 of all
  sessions of all forwarders, in some order with the latest activity first, and \<open>ConnectionsComplete\<close> is reported
  exactly when there are no more, that is when every session is in it.
\<close>

theorem Stats_snapshot:
  "mset (st_connections (Stats tcp udp)) = mset (take 2000 (all_sessions tcp udp))
   \<and> length (st_connections (Stats tcp udp)) \<le> 2000
   \<and> (st_complete (Stats tcp udp) \<longleftrightarrow> length (all_sessions tcp udp) \<le> 2000)"
proof -
  define u where "u = udp_stats udp (tcp_stats tcp ([], empty_stats))"
  have "snapshot_of [] empty_stats" by (simp add: snapshot_of_def empty_stats_def)
  from tcp_stats_snapshot [OF this, of tcp "[]"]
  have "snapshot_of (concat (map (tcp_sessions \<circ> snd) tcp)) (snd (tcp_stats tcp ([], empty_stats)))" by simp
  from udp_stats_snapshot [OF this, of udp "fst (tcp_stats tcp ([], empty_stats))"]
  have "snapshot_of (all_sessions tcp udp) (snd u)" by (simp add: all_sessions_def u_def)
  moreover have "Stats tcp udp = (let r1 = fold (\<lambda>rid. add_rule (the (map_of (fst u) rid))) (sort_slice (<) (map fst (fst u))) (snd u)
      in r1\<lparr>st_connections := sort_slice latest_first (st_connections r1)\<rparr>)"
    by (simp add: Stats_def u_def empty_stats_def Let_def case_prod_beta)
  ultimately show ?thesis by (simp add: Let_def fold_add_rule snapshot_of_def)
qed

text \<open>
  The totals of \<open>Stats\<close> add up: the active connections and the bytes in and out are the sums over all TCP and UDP
  forwarders, and also the sums of the counters per rule, of which there is exactly one for every rule with a forwarder.
\<close>

theorem Stats_totals:
  assumes "gomap_ok tcp"
  shows "st_active (Stats tcp udp) = counts tf_active uf_active tcp udp
    \<and> st_in (Stats tcp udp) = counts tf_in uf_in tcp udp \<and> st_out (Stats tcp udp) = counts tf_out uf_out tcp udp
    \<and> st_in (Stats tcp udp) = sum_list (map rc_in (st_rules (Stats tcp udp)))
    \<and> length (st_rules (Stats tcp udp)) = card (fst ` set tcp \<union> fst ` set udp)"
proof -
  define b where "b = fst (tcp_stats tcp ([], empty_stats))"
  define r where "r = snd (tcp_stats tcp ([], empty_stats))"
  define c where "c = fst (udp_stats udp (b, r))"
  have u: "udp_stats udp (tcp_stats tcp ([], empty_stats)) = udp_stats udp (b, r)" by (simp add: b_def r_def)
  have tcp: "gomap_ok b \<and> totals F b = sum_list (map (G \<circ> snd) tcp) \<and> fst ` set b = fst ` set tcp"
    if "\<And>rid f. F \<lparr>rc_rule = rid, rc_active = tf_active f, rc_in = tf_in f, rc_out = tf_out f\<rparr> = G f" for F G
    using tcp_stats_totals [of "[]" tcp F G empty_stats, OF _ assms _ that] by (simp add: b_def totals_def)
  have b: "gomap_ok b" "fst ` set b = fst ` set tcp" using tcp [of rc_in tf_in] by simp_all
  have tot: "totals rc_active c = counts tf_active uf_active tcp udp" "totals rc_in c = counts tf_in uf_in tcp udp"
    "totals rc_out c = counts tf_out uf_out tcp udp"
    using tcp [of rc_active tf_active] tcp [of rc_in tf_in] tcp [of rc_out tf_out]
      udp_stats_totals [OF b(1), of rc_active uf_active udp r] udp_stats_totals [OF b(1), of rc_in uf_in udp r]
      udp_stats_totals [OF b(1), of rc_out uf_out udp r]
    by (simp_all add: c_def counts_def)
  have c: "gomap_ok c" "fst ` set c = fst ` set tcp \<union> fst ` set udp"
    using udp_stats_totals [OF b(1), of rc_in uf_in udp r] b(2) by (simp_all add: c_def)
  let ?ids = "sort_slice (<) (map fst c)"
  have st: "Stats tcp udp = (let r1 = fold (\<lambda>rid. add_rule (the (map_of c rid))) ?ids (snd (udp_stats udp (b, r)))
      in r1\<lparr>st_connections := sort_slice latest_first (st_connections r1)\<rparr>)"
    unfolding c_def u [symmetric] by (simp add: Stats_def empty_stats_def Let_def case_prod_beta)
  have zero: "st_active (snd (udp_stats udp (b, r))) = 0" "st_in (snd (udp_stats udp (b, r))) = 0"
    "st_out (snd (udp_stats udp (b, r))) = 0" "st_rules (snd (udp_stats udp (b, r))) = []"
    using stats_frames(2) [of udp b r] stats_frames(1) [of tcp "[]" empty_stats] by (simp_all add: r_def empty_stats_def)
  have "length c = card (fst ` set c)" using c(1) by (metis distinct_card gomap_ok_def length_map list.set_map)
  then show ?thesis
    unfolding st Let_def by (simp add: fold_add_rule zero sum_over_ids [OF c(1)] tot c(2) comp_assoc)
qed

theorem Stats_totals_witness:
  "st_active (Stats [(''r1'', web_running)] [(''r1'', dns_entered)]) = 2
   \<and> length (st_rules (Stats [(''r1'', web_running)] [(''r1'', dns_entered)])) = 1"
  using Stats_totals [of "[(''r1'', web_running)]" "[(''r1'', dns_entered)]"]
  by (simp add: counts_def web_running_values dns_entered_values)

end
