(* ===== verification/AgentConfig.thy ===== *)
theory AgentConfig
  imports Prepare
begin

text \<open>
  \<open>internal/agent/config.go\<close>: the local configuration of an agent, its validation, and the file it is kept in. A disk
  is a Go map from paths to contents. \<open>Save\<close> returns every disk it passes through, so that the statements cover a
  process that stops in the middle; the outcomes of the system calls are its argument. The JSON encoder and decoder of
  the standard library are the arguments \<open>encode\<close> and \<open>decode\<close>; \<open>None\<close> is their error.
\<close>

section \<open>The configuration\<close>

record agent_cfg =
  cfg_version :: u64
  cfg_control_url :: string
  cfg_node :: string
  cfg_credential :: string
  cfg_tunnel :: string
  cfg_rules :: "forward_rule list"

datatype config_error =
    ConfigVersionZero | IdentityIncomplete | TunnelNotPrivate | ConfigRule nat rule_error | ForeignRule string
  | NeedsTunnel string | RelayHostMismatch string | RepeatedRule string

definition identity_fields :: "agent_cfg \<Rightarrow> nat" where
  "identity_fields c = length (filter (\<lambda>v. v \<noteq> []) [cfg_control_url c, cfg_node c, cfg_credential c])"

definition belongs_to_node :: "string \<Rightarrow> forward_rule \<Rightarrow> bool" where
  "belongs_to_node nid r \<longleftrightarrow> rule_ingress r = nid \<or> rule_mode r = ForwardRelay \<and> rule_egress r = nid"

text \<open>The loop over the rules: \<open>i\<close> is the index, \<open>ids\<close> the identifiers seen.\<close>

fun validate_rules :: "agent_cfg \<Rightarrow> nat \<Rightarrow> string set \<Rightarrow> forward_rule list \<Rightarrow> config_error option" where
  "validate_rules c i ids [] = None"
| "validate_rules c i ids (r # rs) =
     (case rule_validate r of
        Some e \<Rightarrow> Some (ConfigRule i e)
      | None \<Rightarrow>
          if cfg_node c \<noteq> [] \<and> \<not> belongs_to_node (cfg_node c) r then Some (ForeignRule (rule_id r))
          else if rule_mode r = ForwardRelay \<and> rule_enabled r \<and> \<not> ValidTunnelAddress (cfg_tunnel c)
            then Some (NeedsTunnel (rule_id r))
          else if rule_mode r = ForwardRelay \<and> rule_enabled r \<and> cfg_node c = rule_egress r \<and> cfg_tunnel c \<noteq> rule_relay_host r
            then Some (RelayHostMismatch (rule_id r))
          else if rule_id r \<in> ids then Some (RepeatedRule (rule_id r))
          else validate_rules c (Suc i) (insert (rule_id r) ids) rs)"

definition config_validate :: "agent_cfg \<Rightarrow> config_error option" where
  "config_validate c =
     (if cfg_version c = 0 then Some ConfigVersionZero
      else if identity_fields c \<noteq> 0 \<and> identity_fields c \<noteq> 3 then Some IdentityIncomplete
      else if cfg_tunnel c \<noteq> [] \<and> \<not> ValidTunnelAddress (cfg_tunnel c) then Some TunnelNotPrivate
      else validate_rules c 0 {} (cfg_rules c))"

section \<open>The file\<close>

type_synonym disk = "(string, string) gomap"

datatype load_error = LoadMissing | LoadUnreadable | LoadDecode | LoadInvalid config_error

definition Load :: "(string \<Rightarrow> agent_cfg option) \<Rightarrow> bool \<Rightarrow> string \<Rightarrow> disk \<Rightarrow> load_error + agent_cfg" where
  "Load decode readable path d =
     (case map_of d path of
        None \<Rightarrow> Inl LoadMissing
      | Some contents \<Rightarrow>
          if \<not> readable then Inl LoadUnreadable
          else (case decode contents of
                  None \<Rightarrow> Inl LoadDecode
                | Some c \<Rightarrow> (case config_validate c of Some e \<Rightarrow> Inl (LoadInvalid e) | None \<Rightarrow> Inr c)))"

text \<open>
  The outcomes of the calls of \<open>Save\<close>. A failing write has written \<open>so_written\<close> bytes; \<open>so_remove\<close> is the removal of
  the temporary file, whose failure the code ignores.
\<close>

record save_outcome =
  so_mkdir :: bool
  so_open :: bool
  so_chmod :: bool
  so_write :: bool
  so_written :: nat
  so_sync :: bool
  so_close :: bool
  so_rename :: bool
  so_remove :: bool

datatype save_error = SaveInvalid config_error | SaveEncode | SaveDirectory | SaveOpen | SaveWrite | SaveCommit

definition temporary_path :: "string \<Rightarrow> string" where
  "temporary_path path = path @ ''.tmp''"

definition Save :: "(agent_cfg \<Rightarrow> string option) \<Rightarrow> save_outcome \<Rightarrow> string \<Rightarrow> agent_cfg \<Rightarrow> disk
    \<Rightarrow> disk list \<times> (save_error + unit)" where
  "Save encode so path c d =
     (case config_validate c of
        Some e \<Rightarrow> ([], Inl (SaveInvalid e))
      | None \<Rightarrow>
          (case encode c of
             None \<Rightarrow> ([], Inl SaveEncode)
           | Some contents \<Rightarrow>
               if \<not> so_mkdir so then ([], Inl SaveDirectory)
               else if \<not> so_open so then ([], Inl SaveOpen)
               else let tmp = temporary_path path;
                        full = contents @ [CHR 0x0A];
                        d1 = gput tmp [] d;
                        d2 = (if \<not> so_chmod so then d1
                              else gput tmp (if so_write so then full else take (so_written so) full) d1);
                        ok = (so_chmod so \<and> so_write so \<and> so_sync so \<and> so_close so);
                        removed = (if so_remove so then gdel tmp d2 else d2)
                    in if \<not> ok then ([d1, d2, removed], Inl SaveWrite)
                       else if \<not> so_rename so then ([d1, d2, removed], Inl SaveCommit)
                       else ([d1, d2, gput path full (gdel tmp d2)], Inr ())))"

text \<open>The disk a caller finds when \<open>Save\<close> returns.\<close>

definition saved_disk :: "disk \<Rightarrow> disk list \<Rightarrow> disk" where
  "saved_disk d trace = (if trace = [] then d else last trace)"

section \<open>What validation accepts\<close>

definition rule_fits :: "agent_cfg \<Rightarrow> forward_rule \<Rightarrow> bool" where
  "rule_fits c r \<longleftrightarrow> rule_validate r = None
     \<and> (cfg_node c \<noteq> [] \<longrightarrow> belongs_to_node (cfg_node c) r)
     \<and> (rule_mode r = ForwardRelay \<and> rule_enabled r \<longrightarrow> ValidTunnelAddress (cfg_tunnel c)
          \<and> (cfg_node c = rule_egress r \<longrightarrow> cfg_tunnel c = rule_relay_host r))"

lemma validate_rules_None:
  "validate_rules c i ids rs = None \<longleftrightarrow>
     (\<forall>r \<in> set rs. rule_fits c r) \<and> distinct (map rule_id rs) \<and> set (map rule_id rs) \<inter> ids = {}"
proof (induction rs arbitrary: i ids)
  case Nil
  then show ?case by simp
next
  case (Cons r rs)
  show ?case
  proof (cases "rule_fits c r")
    case True
    then have "validate_rules c i ids (r # rs) =
        (if rule_id r \<in> ids then Some (RepeatedRule (rule_id r)) else validate_rules c (Suc i) (insert (rule_id r) ids) rs)"
      by (auto simp: rule_fits_def)
    with Cons.IH [of "Suc i" "insert (rule_id r) ids"] True show ?thesis by auto
  next
    case False
    then have "validate_rules c i ids (r # rs) \<noteq> None" by (auto simp: rule_fits_def split: option.splits)
    with False show ?thesis by simp
  qed
qed

lemma identity_fields_iff:
  "identity_fields c = 0 \<or> identity_fields c = 3 \<longleftrightarrow>
     (cfg_control_url c = [] \<longleftrightarrow> cfg_node c = []) \<and> (cfg_credential c = [] \<longleftrightarrow> cfg_node c = [])"
  by (auto simp: identity_fields_def)

lemma config_validate_None:
  "config_validate c = None \<longleftrightarrow> cfg_version c \<noteq> 0
     \<and> (cfg_control_url c = [] \<longleftrightarrow> cfg_node c = []) \<and> (cfg_credential c = [] \<longleftrightarrow> cfg_node c = [])
     \<and> (cfg_tunnel c \<noteq> [] \<longrightarrow> ValidTunnelAddress (cfg_tunnel c))
     \<and> (\<forall>r \<in> set (cfg_rules c). rule_fits c r) \<and> distinct (map rule_id (cfg_rules c))"
  using validate_rules_None [of c 0 "{}" "cfg_rules c"] identity_fields_iff [of c]
  by (auto simp: config_validate_def)

lemma Save_unchanged_elsewhere:
  assumes "Save encode so path c d = (trace, res)" "e \<in> set trace" "p \<noteq> temporary_path path" "p \<noteq> path"
  shows "map_of e p = map_of d p"
  using assms by (auto simp: Save_def Let_def split: option.splits if_splits)

lemma tmp_not_path [simp]: "temporary_path path \<noteq> path" "path \<noteq> temporary_path path"
  by (simp_all add: temporary_path_def)

lemma Save_path:
  assumes "Save encode so path c d = (trace, res)" "e \<in> set trace"
  shows "map_of e path = map_of d path \<or> res = Inr () \<and> config_validate c = None
    \<and> (\<exists>contents. encode c = Some contents \<and> map_of e path = Some (contents @ [CHR 0x0A]))"
  using assms by (auto simp: Save_def Let_def split: option.splits if_splits)

lemma Save_ok:
  assumes "Save encode so path c d = (trace, Inr ())"
  shows "config_validate c = None
    \<and> (\<exists>contents. encode c = Some contents \<and> map_of (saved_disk d trace) path = Some (contents @ [CHR 0x0A]))"
  using assms by (auto simp: Save_def Let_def saved_disk_def split: option.splits if_splits)

lemma Save_error:
  assumes "Save encode so path c d = (trace, Inl e)"
  shows "map_of (saved_disk d trace) path = map_of d path"
  using assms by (auto simp: Save_def Let_def saved_disk_def split: option.splits if_splits)

lemma prepare_loop_errors:
  "distinct (map rule_id rs) \<Longrightarrow> \<forall>r \<in> set rs. rule_id r \<notin> fst ` set desired \<and> effective_rule nid r \<noteq> None \<Longrightarrow>
     prepare_loop nid rs desired ls = Inl e \<Longrightarrow> (\<exists>rid err. e = InvalidRule rid err) \<or> (\<exists>a b net addr. e = BothListen a b net addr)"
proof (induction rs arbitrary: desired ls)
  case Nil
  then show ?case by simp
next
  case (Cons r rs)
  have fresh: "\<not> ghas desired (rule_id r)" using Cons.prems(2) by (simp add: ghas_iff)
  obtain ef where ef: "effective_rule nid r = Some ef" using Cons.prems(2) by auto
  have other: "rule_id s \<noteq> rule_id r" if "s \<in> set rs" for s using Cons.prems(1) that by (metis distinct.simps(2) image_eqI list.set_map list.simps(9))
  have rest: "distinct (map rule_id rs)" "\<forall>s \<in> set rs. rule_id s \<notin> fst ` set desired \<and> effective_rule nid s \<noteq> None"
    "\<forall>s \<in> set rs. rule_id s \<notin> fst ` set (gput (rule_id r) (prepare_rule ef) desired) \<and> effective_rule nid s \<noteq> None"
    using Cons.prems(1,2) other by auto
  have claims: "\<exists>a b n addr. err = BothListen a b n addr" if "claim_listeners i a ns l = Inl err" for i a ns l err
    using that by (induction ns arbitrary: l) (auto simp: Let_def split: option.splits)
  show ?case
  proof (cases "rule_validate r")
    case (Some err)
    then show ?thesis using Cons.prems(3) by auto
  next
    case None
    show ?thesis
    proof (cases "rule_enabled r")
      case False
      then have "prepare_loop nid rs desired ls = Inl e" using Cons.prems(3) None by simp
      then show ?thesis by (rule Cons.IH [OF rest(1,2)])
    next
      case True
      show ?thesis
      proof (cases "claim_listeners (rule_id r) (listen_address ef) (rule_networks ef) ls")
        case (Inl err)
        then have "e = err" using Cons.prems(3) None True fresh ef by simp
        with claims [OF Inl] show ?thesis by blast
      next
        case (Inr ls')
        then have "prepare_loop nid rs (gput (rule_id r) (prepare_rule ef) desired) ls' = Inl e"
          using Cons.prems(3) None True fresh ef by simp
        then show ?thesis by (rule Cons.IH [OF rest(1,3)])
      qed
    qed
  qed
qed

lemma claim_listeners_not_invalid: "claim_listeners i a ns l \<noteq> Inl (InvalidRule rid err)"
  by (induction ns arbitrary: l) (auto simp: Let_def split: option.splits)

lemma prepare_loop_valid:
  "\<forall>r \<in> set rs. rule_validate r = None \<Longrightarrow> prepare_loop nid rs desired ls \<noteq> Inl (InvalidRule rid err)"
proof (induction rs arbitrary: desired ls)
  case (Cons r rs)
  then show ?case
    using claim_listeners_not_invalid by (auto split: option.splits sum.splits)
qed simp

section \<open>Guarantees\<close>

text \<open>
  A validated configuration runs, but for its listeners. When a configuration of an enrolled agent passes \<open>Validate\<close>,
  the forwarding manager prepares exactly its enabled rules, in order, unless two of them claim the same listener; no
  other check of the manager can fail on it.
\<close>

theorem validated_config_prepares:
  assumes "config_validate c = None" "cfg_node c \<noteq> []"
  shows "case prepareRules (cfg_rules c) (cfg_node c) of
      Inl e \<Rightarrow> \<exists>a b net addr. e = BothListen a b net addr
    | Inr D \<Rightarrow> map fst D = map rule_id (filter rule_enabled (cfg_rules c))"
proof -
  have fits: "\<forall>r \<in> set (cfg_rules c). rule_fits c r" and dist: "distinct (map rule_id (cfg_rules c))"
    using assms(1) by (simp_all add: config_validate_None)
  have valid: "\<forall>r \<in> set (cfg_rules c). rule_validate r = None" using fits by (simp add: rule_fits_def)
  have mine: "effective_rule (cfg_node c) r \<noteq> None" if "r \<in> set (cfg_rules c)" for r
    using fits that assms(2) by (auto simp: rule_fits_def belongs_to_node_def effective_rule_def)
  show ?thesis
  proof (cases "prepareRules (cfg_rules c) (cfg_node c)")
    case (Inl e)
    with prepare_loop_errors [of "cfg_rules c" "[]" "cfg_node c" "[]" e] dist mine
    have "(\<exists>rid err. e = InvalidRule rid err) \<or> (\<exists>a b net addr. e = BothListen a b net addr)"
      by (simp add: prepareRules_def)
    moreover have "e \<noteq> InvalidRule rid err" for rid err
      using prepare_loop_valid [OF valid, of "cfg_node c" "[]" "[]"] Inl by (simp add: prepareRules_def)
    ultimately show ?thesis using Inl by auto
  next
    case (Inr D)
    then have "D = entries (cfg_node c) (cfg_rules c)" by (simp add: prepared_entries)
    then show ?thesis using Inr by (simp add: entries_def comp_def)
  qed
qed

text \<open>
  A saved configuration is never torn. Whatever calls fail and wherever the process stops, the configuration file
  holds what it held before or the complete new encoding, and no file but its temporary copy changes; when \<open>Save\<close>
  returns an error the file is the old one, and when it succeeds \<open>Load\<close> returns the configuration that was saved, if the
  decoder reads what the encoder wrote.
\<close>

theorem Save_atomic:
  assumes "Save encode so path c d = (trace, res)"
    and "\<forall>contents. encode c = Some contents \<longrightarrow> decode (contents @ [CHR 0x0A]) = Some c"
  shows "(\<forall>e \<in> set trace. (\<forall>p. p \<noteq> path \<and> p \<noteq> temporary_path path \<longrightarrow> map_of e p = map_of d p)
        \<and> (map_of e path = map_of d path \<or> (\<exists>contents. encode c = Some contents \<and> map_of e path = Some (contents @ [CHR 0x0A]))))
    \<and> (case res of Inl err \<Rightarrow> map_of (saved_disk d trace) path = map_of d path
        | Inr _ \<Rightarrow> Load decode True path (saved_disk d trace) = Inr c)"
proof -
  have "case res of Inl err \<Rightarrow> map_of (saved_disk d trace) path = map_of d path
      | Inr _ \<Rightarrow> Load decode True path (saved_disk d trace) = Inr c"
  proof (cases res)
    case (Inl err)
    then show ?thesis using Save_error assms(1) by simp
  next
    case (Inr u)
    then obtain contents where "config_validate c = None" "encode c = Some contents"
        "map_of (saved_disk d trace) path = Some (contents @ [CHR 0x0A])"
      using Save_ok assms(1) by (metis (full_types) old.unit.exhaust)
    with Inr assms(2) show ?thesis by (simp add: Load_def)
  qed
  moreover have "(\<forall>p. p \<noteq> path \<and> p \<noteq> temporary_path path \<longrightarrow> map_of e p = map_of d p)
      \<and> (map_of e path = map_of d path \<or> (\<exists>contents. encode c = Some contents \<and> map_of e path = Some (contents @ [CHR 0x0A])))"
    if "e \<in> set trace" for e
    using Save_unchanged_elsewhere [OF assms(1) that] Save_path [OF assms(1) that] by blast
  ultimately show ?thesis by blast
qed

text \<open>
  A tunnel address cannot be changed under relay rules: the new configuration is refused because the relay host its
  rules carry is the old address.
\<close>

lemma tunnel_change_refused:
  assumes "config_validate c = None" "r \<in> set (cfg_rules c)" "rule_mode r = ForwardRelay" "rule_enabled r"
    and "rule_egress r = cfg_node c" "address \<noteq> cfg_tunnel c"
  shows "config_validate (c\<lparr>cfg_tunnel := address\<rparr>) \<noteq> None"
proof
  assume "config_validate (c\<lparr>cfg_tunnel := address\<rparr>) = None"
  then have "rule_fits (c\<lparr>cfg_tunnel := address\<rparr>) r" using assms(2) by (simp add: config_validate_None)
  moreover have "rule_fits c r" using assms(1,2) by (simp add: config_validate_None)
  ultimately show False using assms(3-6) by (auto simp: rule_fits_def)
qed

end
