(* ===== verification/LogBuffer.thy ===== *)
theory LogBuffer
  imports GoStrings
begin

text \<open>
  \<open>internal/agent/log_buffer.go\<close>: the bounded queue of log lines an agent carries in its heartbeats. A log call draws
  its identifier with an atomic increment, outside the mutex, and appends the entry under it, so the two are separate
  steps of the machine below and the calls of different goroutines interleave between them. The heartbeat loop takes a
  batch (\<open>Pending\<close>), sends it, and acknowledges it only when the control plane has answered. Formatting a message is
  \<open>fmt.Sprintf\<close>; a log call takes the formatted message. \<open>ul\<close> is \<open>strings.ToLower\<close> on non-ASCII text.
\<close>

section \<open>The buffer\<close>

record log_entry =
  le_id :: string
  le_level :: string
  le_component :: string
  le_message :: string
  le_occurred_at :: time

record log_buffer =
  lb_capacity :: int
  lb_prefix :: string
  lb_sequence :: u64
  lb_entries :: "log_entry list"

text \<open>
  \<open>random\<close> is what \<open>rand.Read\<close> filled in, \<open>None\<close> when it failed; \<open>hex_now\<close> the clock in hexadecimal, which
  \<open>fmt.Sprintf("%x")\<close> prints for the fallback.
\<close>

definition NewLogBuffer :: "int \<Rightarrow> string option \<Rightarrow> string \<Rightarrow> log_buffer" where
  "NewLogBuffer capacity random hex_now =
     \<lparr>lb_capacity = (if capacity < 1 then 1000 else capacity),
      lb_prefix = (case random of None \<Rightarrow> hex_now | Some bytes \<Rightarrow> hex_encode bytes),
      lb_sequence = 0, lb_entries = []\<rparr>"

definition inferLogLevel :: "(string \<Rightarrow> string) \<Rightarrow> string \<Rightarrow> string" where
  "inferLogLevel ul message =
     (let lower = to_lower ul message in
      if contains_sub lower ''failed'' \<or> contains_sub lower ''failure'' \<or> contains_sub lower ''error''
         \<or> contains_sub lower ''rejected'' then ''error''
      else if contains_sub lower ''warning'' \<or> contains_sub lower ''retry'' \<or> contains_sub lower ''dropped''
        then ''warning''
      else ''info'')"

definition logger_component :: "string \<Rightarrow> string" where
  "logger_component component = (if trim_space component = [] then ''agent'' else trim_space component)"

definition log_id :: "string \<Rightarrow> u64 \<Rightarrow> string" where
  "log_id prefix n = prefix @ ''-'' @ nat_string (unat n)"

text \<open>The part of a log call before it locks: the counter is raised and the entry built.\<close>

definition logger_draw ::
  "(string \<Rightarrow> string) \<Rightarrow> string \<Rightarrow> string \<Rightarrow> time \<Rightarrow> log_buffer \<Rightarrow> log_entry \<times> log_buffer" where
  "logger_draw ul component formatted now b =
     (let message = (if 2000 < length formatted then take 2000 formatted else formatted);
          n = lb_sequence b + 1
      in (\<lparr>le_id = log_id (lb_prefix b) n, le_level = inferLogLevel ul message, le_component = logger_component component,
           le_message = message, le_occurred_at = now\<rparr>, b\<lparr>lb_sequence := n\<rparr>))"

definition log_append :: "log_entry \<Rightarrow> log_buffer \<Rightarrow> log_buffer" where
  "log_append e b =
     (if int (length (lb_entries b)) = lb_capacity b then b\<lparr>lb_entries := drop 1 (lb_entries b) @ [e]\<rparr>
      else b\<lparr>lb_entries := lb_entries b @ [e]\<rparr>)"

text \<open>A nil buffer is \<open>None\<close>: it keeps nothing and returns nothing.\<close>

definition Pending :: "int \<Rightarrow> log_buffer option \<Rightarrow> log_entry list" where
  "Pending limit buf =
     (case buf of None \<Rightarrow> []
      | Some b \<Rightarrow> if limit < 1 then [] else take (nat (min limit (int (length (lb_entries b))))) (lb_entries b))"

definition Acknowledge :: "log_entry list \<Rightarrow> log_buffer option \<Rightarrow> log_buffer option" where
  "Acknowledge es buf =
     (case buf of None \<Rightarrow> None
      | Some b \<Rightarrow> if es = [] then Some b
                  else Some (b\<lparr>lb_entries := filter (\<lambda>e. le_id e \<notin> le_id ` set es) (lb_entries b)\<rparr>))"

definition Logger ::
  "(string \<Rightarrow> string) \<Rightarrow> string \<Rightarrow> string \<Rightarrow> time \<Rightarrow> log_buffer option \<Rightarrow> log_buffer option" where
  "Logger ul component formatted now buf =
     (case buf of None \<Rightarrow> None
      | Some b \<Rightarrow> (let (e, b') = logger_draw ul component formatted now b in Some (log_append e b')))"

section \<open>The machine\<close>

text \<open>
  The state of the queue with its users: the entries drawn but not yet appended, the batch the heartbeat loop holds, and
  for the statements the entries ever appended, the identifiers ever acknowledged and the number of draws.
\<close>

record log_state =
  ls_buffer :: log_buffer
  ls_flying :: "log_entry list"
  ls_batch :: "log_entry list"
  ls_appended :: "log_entry list"
  ls_acked :: "string set"
  ls_drawn :: nat

definition log_init :: "log_buffer \<Rightarrow> log_state" where
  "log_init b = \<lparr>ls_buffer = b, ls_flying = [], ls_batch = [], ls_appended = [], ls_acked = {}, ls_drawn = 0\<rparr>"

inductive log_step :: "(string \<Rightarrow> string) \<Rightarrow> log_state \<Rightarrow> log_state \<Rightarrow> bool" for ul where
  Draw: "logger_draw ul component formatted now (ls_buffer s) = (e, b) \<Longrightarrow>
    log_step ul s (s\<lparr>ls_buffer := b, ls_flying := e # ls_flying s, ls_drawn := Suc (ls_drawn s)\<rparr>)"
| Append: "e \<in> set (ls_flying s) \<Longrightarrow>
    log_step ul s (s\<lparr>ls_buffer := log_append e (ls_buffer s), ls_flying := remove1 e (ls_flying s),
      ls_appended := ls_appended s @ [e]\<rparr>)"
| Take: "log_step ul s (s\<lparr>ls_batch := Pending limit (Some (ls_buffer s))\<rparr>)"
| Ack: "Acknowledge (ls_batch s) (Some (ls_buffer s)) = Some b \<Longrightarrow>
    log_step ul s (s\<lparr>ls_buffer := b, ls_acked := ls_acked s \<union> le_id ` set (ls_batch s)\<rparr>)"

inductive log_run :: "(string \<Rightarrow> string) \<Rightarrow> log_buffer \<Rightarrow> log_state \<Rightarrow> bool" for ul b where
  Start: "log_run ul b (log_init b)"
| Step: "log_run ul b s \<Longrightarrow> log_step ul s s' \<Longrightarrow> log_run ul b s'"

inductive_cases log_stepE: "log_step ul s s'"

section \<open>Identifiers\<close>

lemma log_id_inject: "log_id p m = log_id p n \<longleftrightarrow> m = n"
  by (simp add: log_id_def word_unat_eq_iff)

text \<open>Every entry carries an identifier drawn earlier, and no identifier is carried twice.\<close>

definition ids_fresh :: "string \<Rightarrow> log_state \<Rightarrow> bool" where
  "ids_fresh p s \<longleftrightarrow> lb_prefix (ls_buffer s) = p \<and> unat (lb_sequence (ls_buffer s)) = ls_drawn s
     \<and> distinct (map le_id (ls_appended s @ ls_flying s))
     \<and> (\<forall>e \<in> set (ls_appended s @ ls_flying s). \<exists>n. le_id e = log_id p n \<and> unat n \<le> ls_drawn s)
     \<and> set (lb_entries (ls_buffer s)) \<subseteq> set (ls_appended s) \<and> set (ls_batch s) \<subseteq> set (ls_appended s)
     \<and> ls_acked s \<subseteq> le_id ` set (ls_appended s)"

lemma log_append_fields [simp]:
  "lb_prefix (log_append e b) = lb_prefix b" "lb_sequence (log_append e b) = lb_sequence b"
  "lb_capacity (log_append e b) = lb_capacity b"
  by (simp_all add: log_append_def)

lemma set_log_append: "set (lb_entries (log_append e b)) \<subseteq> insert e (set (lb_entries b))"
  by (auto simp: log_append_def dest: in_set_dropD)

lemma Acknowledge_Some:
  "Acknowledge es (Some b) = Some (b\<lparr>lb_entries := filter (\<lambda>e. le_id e \<notin> le_id ` set es) (lb_entries b)\<rparr>)"
  by (simp add: Acknowledge_def)

lemma set_Pending: "set (Pending limit (Some b)) \<subseteq> set (lb_entries b)"
  by (auto simp: Pending_def dest: in_set_takeD)

lemma drawn_mono: "log_step ul s s' \<Longrightarrow> ls_drawn s \<le> ls_drawn s'"
  by (cases rule: log_step.cases) auto

lemma distinct_map_move:
  "e \<in> set ys \<Longrightarrow> distinct (map f (xs @ ys)) \<Longrightarrow> distinct (map f ((xs @ [e]) @ remove1 e ys))"
proof -
  assume e: "e \<in> set ys" and d: "distinct (map f (xs @ ys))"
  have "mset ((xs @ [e]) @ remove1 e ys) = mset (xs @ ys)" using e by simp
  then have "mset (map f ((xs @ [e]) @ remove1 e ys)) = mset (map f (xs @ ys))" by (metis mset_map)
  with d show ?thesis by (metis mset_eq_imp_distinct_iff)
qed

lemma ids_fresh_step:
  assumes "log_step ul s s'" "ids_fresh p s" "ls_drawn s' < 2 ^ 64"
  shows "ids_fresh p s'"
  using assms(1)
proof (cases rule: log_step.cases)
  case (Draw component formatted now e b)
  let ?n = "lb_sequence (ls_buffer s) + 1"
  have n: "unat ?n = Suc (ls_drawn s)"
    using assms(2,3) Draw by (simp add: ids_fresh_def unat_word_ariths)
  have e: "le_id e = log_id p ?n" "lb_prefix b = p" "lb_sequence b = ?n" "lb_entries b = lb_entries (ls_buffer s)"
    using Draw(2) assms(2) by (auto simp: logger_draw_def Let_def ids_fresh_def)
  have "le_id e \<noteq> le_id x" if "x \<in> set (ls_appended s @ ls_flying s)" for x
  proof -
    obtain k where "le_id x = log_id p k" "unat k \<le> ls_drawn s" using assms(2) \<open>x \<in> _\<close> unfolding ids_fresh_def by blast
    with n e(1) show ?thesis by (auto simp: log_id_inject)
  qed
  then have "le_id e \<notin> le_id ` set (ls_appended s @ ls_flying s)" by blast
  with assms(2) have "distinct (map le_id (ls_appended s @ e # ls_flying s))"
    by (auto simp: ids_fresh_def)
  moreover have "\<forall>x \<in> set (ls_appended s @ e # ls_flying s). \<exists>k. le_id x = log_id p k \<and> unat k \<le> Suc (ls_drawn s)"
  proof
    fix x assume x: "x \<in> set (ls_appended s @ e # ls_flying s)"
    show "\<exists>k. le_id x = log_id p k \<and> unat k \<le> Suc (ls_drawn s)"
    proof (cases "x = e")
      case True
      have "le_id x = log_id p ?n \<and> unat ?n \<le> Suc (ls_drawn s)" using e(1) n True by simp
      then show ?thesis by (rule exI)
    next
      case False
      then have "x \<in> set (ls_appended s @ ls_flying s)" using x by auto
      then obtain k where "le_id x = log_id p k" "unat k \<le> ls_drawn s"
        using assms(2) unfolding ids_fresh_def by blast
      then have "le_id x = log_id p k \<and> unat k \<le> Suc (ls_drawn s)" by simp
      then show ?thesis by (rule exI)
    qed
  qed
  moreover have "set (lb_entries b) \<subseteq> set (ls_appended s)" "set (ls_batch s) \<subseteq> set (ls_appended s)"
    "ls_acked s \<subseteq> le_id ` set (ls_appended s)"
    using assms(2) e(4) by (simp_all add: ids_fresh_def)
  ultimately show ?thesis using e(2,3) n unfolding ids_fresh_def Draw(1) by simp
next
  case (Append e)
  have "set (ls_appended s @ ls_flying s) = set ((ls_appended s @ [e]) @ remove1 e (ls_flying s))"
    by (rule mset_eq_setD) (use Append(2) in simp)
  then show ?thesis
    using assms(2) distinct_map_move [OF Append(2), of le_id "ls_appended s"] set_log_append [of e "ls_buffer s"] Append(1)
    unfolding ids_fresh_def by auto
next
  case (Take limit)
  with assms(2) set_Pending [of limit "ls_buffer s"] show ?thesis unfolding ids_fresh_def by auto
next
  case (Ack b)
  with assms(2) show ?thesis unfolding ids_fresh_def Acknowledge_Some by auto
qed

section \<open>What the queue keeps\<close>

text \<open>
  The first \<open>k\<close> entries appended are out of the queue: acknowledged, or pushed out by \<open>cap\<close> later ones. Of the others
  the queue holds exactly those not acknowledged, in the order in which they were appended.
\<close>

definition keeps_from :: "nat \<Rightarrow> nat \<Rightarrow> log_state \<Rightarrow> bool" where
  "keeps_from cap k s \<longleftrightarrow> k \<le> length (ls_appended s)
     \<and> lb_entries (ls_buffer s) = filter (\<lambda>e. le_id e \<notin> ls_acked s) (drop k (ls_appended s))
     \<and> (\<forall>i < k. le_id (ls_appended s ! i) \<in> ls_acked s \<or> i + cap < length (ls_appended s))"

lemma filter_drop_Cons:
  assumes "filter P (drop k xs) = y # ys"
  obtains j where "k \<le> j" "j < length xs" "xs ! j = y" "filter P (drop (Suc j) xs) = ys" "\<forall>i. k \<le> i \<longrightarrow> i < j \<longrightarrow> \<not> P (xs ! i)"
  using assms
proof (induction "length xs - k" arbitrary: k thesis)
  case 0
  then show ?case by simp
next
  case (Suc n)
  then have k: "k < length xs" by simp
  then have d: "drop k xs = xs ! k # drop (Suc k) xs" by (rule Cons_nth_drop_Suc [symmetric])
  show ?case
  proof (cases "P (xs ! k)")
    case True
    show ?thesis by (rule Suc.prems(1) [of k]) (use Suc.prems(2) True d k in auto)
  next
    case False
    then have "filter P (drop (Suc k) xs) = y # ys" using Suc.prems(2) d by simp
    moreover have "n = length xs - Suc k" using Suc.hyps(2) by simp
    ultimately obtain j where j: "Suc k \<le> j" "j < length xs" "xs ! j = y" "filter P (drop (Suc j) xs) = ys"
        "\<forall>i. Suc k \<le> i \<longrightarrow> i < j \<longrightarrow> \<not> P (xs ! i)"
      using Suc.hyps(1) by blast
    show ?thesis
    proof (rule Suc.prems(1) [of j])
      show "\<forall>i. k \<le> i \<longrightarrow> i < j \<longrightarrow> \<not> P (xs ! i)"
      proof (intro allI impI)
        fix i assume "k \<le> i" "i < j"
        then show "\<not> P (xs ! i)" using j(5) False by (cases "i = k") auto
      qed
    qed (use j in auto)
  qed
qed

lemma keeps_append:
  assumes k: "keeps_from cap k s" and cap: "lb_capacity (ls_buffer s) = int cap" "0 < cap"
    and fresh: "le_id e \<notin> ls_acked s"
  shows "\<exists>k'. keeps_from cap k' (s\<lparr>ls_buffer := log_append e (ls_buffer s), ls_flying := fl, ls_appended := ls_appended s @ [e]\<rparr>)"
proof (cases "length (lb_entries (ls_buffer s)) = cap")
  case False
  then have "keeps_from cap k (s\<lparr>ls_buffer := log_append e (ls_buffer s), ls_flying := fl, ls_appended := ls_appended s @ [e]\<rparr>)"
    using k cap fresh unfolding keeps_from_def
    by (auto simp: log_append_def nth_append)
  then show ?thesis by blast
next
  case True
  let ?A = "ls_appended s"
  let ?P = "\<lambda>e. le_id e \<notin> ls_acked s"
  obtain y ys where E: "lb_entries (ls_buffer s) = y # ys" using True cap(2) by (cases "lb_entries (ls_buffer s)") auto
  then have "filter ?P (drop k ?A) = y # ys" using k unfolding keeps_from_def by simp
  then obtain j where j: "k \<le> j" "j < length ?A" "?A ! j = y" "filter ?P (drop (Suc j) ?A) = ys"
      "\<forall>i. k \<le> i \<longrightarrow> i < j \<longrightarrow> \<not> ?P (?A ! i)"
    by (rule filter_drop_Cons)
  have "length ys \<le> length (drop (Suc j) ?A)" unfolding j(4) [symmetric] by (rule length_filter_le)
  moreover have "length ys = cap - 1" using E True by simp
  ultimately have far: "j + cap < length (?A @ [e])" using j(2) cap(2) by simp
  have "le_id ((?A @ [e]) ! i) \<in> ls_acked s \<or> i + cap < length (?A @ [e])" if "i < Suc j" for i
  proof (cases "i < k")
    case True
    then show ?thesis using k unfolding keeps_from_def by (fastforce simp: nth_append)
  next
    case False
    then show ?thesis using j far that by (cases "i = j") (auto simp: nth_append)
  qed
  then have "keeps_from cap (Suc j) (s\<lparr>ls_buffer := log_append e (ls_buffer s), ls_flying := fl, ls_appended := ?A @ [e]\<rparr>)"
    using j E True cap fresh unfolding keeps_from_def by (auto simp: log_append_def)
  then show ?thesis by blast
qed

definition log_inv :: "nat \<Rightarrow> string \<Rightarrow> log_state \<Rightarrow> bool" where
  "log_inv cap p s \<longleftrightarrow> ids_fresh p s \<and> lb_capacity (ls_buffer s) = int cap \<and> 0 < cap
     \<and> length (lb_entries (ls_buffer s)) \<le> cap \<and> (\<exists>k. keeps_from cap k s)"

lemma log_inv_step:
  assumes "log_step ul s s'" "log_inv cap p s" "ls_drawn s' < 2 ^ 64"
  shows "log_inv cap p s'"
proof -
  have fresh: "ids_fresh p s'" using ids_fresh_step assms unfolding log_inv_def by blast
  from assms(2) obtain k where k: "keeps_from cap k s" unfolding log_inv_def by blast
  have inv: "lb_capacity (ls_buffer s) = int cap" "0 < cap" "length (lb_entries (ls_buffer s)) \<le> cap"
    using assms(2) by (simp_all add: log_inv_def)
  show ?thesis
    using assms(1)
  proof (cases rule: log_step.cases)
    case (Draw component formatted now e b)
    then have b: "lb_entries b = lb_entries (ls_buffer s)" "lb_capacity b = lb_capacity (ls_buffer s)"
      by (auto simp: logger_draw_def Let_def)
    then have "keeps_from cap k s'" using k Draw(1) unfolding keeps_from_def by simp
    with fresh inv b Draw(1) show ?thesis unfolding log_inv_def by auto
  next
    case (Append e)
    have "le_id e \<notin> le_id ` set (ls_appended s)"
      using assms(2) Append(2) unfolding log_inv_def ids_fresh_def by force
    then have "le_id e \<notin> ls_acked s" using assms(2) unfolding log_inv_def ids_fresh_def by blast
    from keeps_append [OF k inv(1,2) this] Append(1) have "\<exists>k'. keeps_from cap k' s'" by blast
    moreover have "length (lb_entries (ls_buffer s')) \<le> cap" using inv Append(1) by (auto simp: log_append_def)
    ultimately show ?thesis using fresh inv Append(1) unfolding log_inv_def by simp
  next
    case (Take limit)
    then have "keeps_from cap k s'" using k unfolding keeps_from_def by simp
    with fresh inv Take show ?thesis unfolding log_inv_def by auto
  next
    case (Ack b)
    then have b: "b = (ls_buffer s)\<lparr>lb_entries := filter (\<lambda>e. le_id e \<notin> le_id ` set (ls_batch s)) (lb_entries (ls_buffer s))\<rparr>"
      unfolding Acknowledge_Some by simp
    have "keeps_from cap k s'"
      using k Ack(1) unfolding b keeps_from_def by (auto intro: filter_cong)
    moreover have "length (lb_entries (ls_buffer s')) \<le> cap"
      using inv(3) Ack(1) unfolding b by (simp add: le_trans [OF length_filter_le])
    ultimately show ?thesis using fresh inv Ack(1) unfolding log_inv_def b by auto
  qed
qed

lemma log_run_inv:
  assumes "log_run ul (NewLogBuffer capacity random hex_now) s" "ls_drawn s < 2 ^ 64"
  shows "log_inv (if capacity < 1 then 1000 else nat capacity) (lb_prefix (NewLogBuffer capacity random hex_now)) s"
  using assms
proof (induction rule: log_run.induct)
  case Start
  show ?case by (auto simp: log_inv_def ids_fresh_def keeps_from_def log_init_def NewLogBuffer_def)
next
  case (Step s s')
  then have "ls_drawn s < 2 ^ 64" using drawn_mono by (metis le_less_trans)
  with Step log_inv_step show ?case by blast
qed

text \<open>A log call that is not interleaved is a draw and an append.\<close>

lemma Logger_run:
  assumes "log_run ul b0 s" "Logger ul component formatted now (Some (ls_buffer s)) = Some b"
    "logger_draw ul component formatted now (ls_buffer s) = (e, b')"
  shows "log_run ul b0 (s\<lparr>ls_buffer := b, ls_appended := ls_appended s @ [e], ls_drawn := Suc (ls_drawn s)\<rparr>)"
proof -
  let ?s1 = "s\<lparr>ls_buffer := b', ls_flying := e # ls_flying s, ls_drawn := Suc (ls_drawn s)\<rparr>"
  let ?s2 = "?s1\<lparr>ls_buffer := log_append e (ls_buffer ?s1), ls_flying := remove1 e (ls_flying ?s1), ls_appended := ls_appended ?s1 @ [e]\<rparr>"
  have "log_run ul b0 ?s1" by (rule log_run.Step [OF assms(1) log_step.Draw [OF assms(3)]])
  moreover have "log_step ul ?s1 ?s2" by (rule log_step.Append) simp
  ultimately have "log_run ul b0 ?s2" by (rule log_run.Step)
  moreover have "b = log_append e b'" using assms(2,3) by (simp add: Logger_def)
  then have "?s2 = s\<lparr>ls_buffer := b, ls_appended := ls_appended s @ [e], ls_drawn := Suc (ls_drawn s)\<rparr>"
    by (cases s) simp
  ultimately show ?thesis by (simp only:)
qed

text \<open>
  C39: the log queue of an agent loses a line only when it has to. In every interleaving of log calls, batches and
  acknowledgements the queue never exceeds its capacity, holds its lines in the order they were appended, and an
  appended line is missing from it only if the control plane has acknowledged it or if at least as many lines as the
  capacity were appended after it. No two lines ever carry the same identifier (below 2^64 lines).
\<close>

theorem log_queue_keeps:
  assumes "log_run ul (NewLogBuffer capacity random hex_now) s" "ls_drawn s < 2 ^ 64"
    and "cap = (if capacity < 1 then 1000 else nat capacity)"
  shows "length (lb_entries (ls_buffer s)) \<le> cap \<and> distinct (map le_id (ls_appended s))
    \<and> (\<exists>k. lb_entries (ls_buffer s) = filter (\<lambda>e. le_id e \<notin> ls_acked s) (drop k (ls_appended s))
           \<and> (\<forall>i < k. le_id (ls_appended s ! i) \<in> ls_acked s \<or> i + cap < length (ls_appended s)))"
proof -
  have inv: "log_inv cap (lb_prefix (NewLogBuffer capacity random hex_now)) s"
    using log_run_inv [OF assms(1,2)] unfolding assms(3) .
  then show ?thesis unfolding log_inv_def ids_fresh_def keeps_from_def by auto
qed

definition example_log :: log_state where
  "example_log =
     (let b0 = NewLogBuffer 1 (Some [CHR 0x0A, CHR 0xFF]) [];
          (e1, b1) = logger_draw id '' forward '' ''one'' 5 b0;
          (e2, b2) = logger_draw id ''agent'' ''two'' 6 (log_append e1 b1)
      in \<lparr>ls_buffer = log_append e2 b2, ls_flying = [], ls_batch = [], ls_appended = [e1, e2], ls_acked = {}, ls_drawn = 2\<rparr>)"

lemma example_log_run: "log_run id (NewLogBuffer 1 (Some [CHR 0x0A, CHR 0xFF]) []) example_log"
proof -
  let ?b0 = "NewLogBuffer 1 (Some [CHR 0x0A, CHR 0xFF]) []"
  obtain e1 b1 where d1: "logger_draw id '' forward '' ''one'' 5 ?b0 = (e1, b1)" by fastforce
  obtain e2 b2 where d2: "logger_draw id ''agent'' ''two'' 6 (log_append e1 b1) = (e2, b2)" by fastforce
  have "Logger id '' forward '' ''one'' 5 (Some (ls_buffer (log_init ?b0))) = Some (log_append e1 b1)"
    "logger_draw id '' forward '' ''one'' 5 (ls_buffer (log_init ?b0)) = (e1, b1)"
    using d1 by (simp_all add: log_init_def Logger_def)
  from Logger_run [OF log_run.Start this] have "log_run id ?b0 \<lparr>ls_buffer = log_append e1 b1, ls_flying = [], ls_batch = [], ls_appended = [e1], ls_acked = {}, ls_drawn = 1\<rparr>"
    by (simp add: log_init_def)
  from Logger_run [OF this, of "''agent''" "''two''" 6 "log_append e2 b2" e2 b2] d2 have "log_run id ?b0 \<lparr>ls_buffer = log_append e2 b2, ls_flying = [], ls_batch = [], ls_appended = [e1, e2], ls_acked = {}, ls_drawn = 2\<rparr>"
    by (simp add: Logger_def numeral_2_eq_2)
  then show ?thesis using d1 d2 by (simp add: example_log_def)
qed

theorem log_queue_keeps_witness:
  "length (lb_entries (ls_buffer example_log)) \<le> 1
    \<and> (\<exists>k. lb_entries (ls_buffer example_log) = filter (\<lambda>e. le_id e \<notin> ls_acked example_log) (drop k (ls_appended example_log)))
    \<and> length (ls_appended example_log) = 2"
proof -
  have "ls_drawn example_log = 2" "length (ls_appended example_log) = 2" by (simp_all add: example_log_def split: prod.split)
  with log_queue_keeps [OF example_log_run, of 1] show ?thesis by auto
qed

end
