(* ===== verification/ControlClient.thy ===== *)
theory ControlClient
  imports AgentConfig LogBuffer
begin

text \<open>
  The agent's side of the control protocol: \<open>internal/agent/control.go\<close>, \<open>enroll.go\<close> and \<open>enrollment_token.go\<close>. The
  network is the reply of a request (\<open>None\<close> when the server was not reached); \<open>url.Parse\<close> and the JSON decoders of the
  standard library are arguments, \<open>None\<close> being their error.
\<close>

section \<open>Control URLs\<close>

record url =
  url_scheme :: string
  url_hostname :: string
  url_user :: bool
  url_query :: string
  url_fragment :: string
  url_string :: string

datatype url_error = ControlURLInvalid | ControlURLInsecure

definition isLoopback :: "string \<Rightarrow> bool" where
  "isLoopback host =
     (if equal_fold host ''localhost'' then True
      else case parse_ip host of None \<Rightarrow> False | Some address \<Rightarrow> is_loopback address)"

definition validateControlURL :: "(string \<Rightarrow> url option) \<Rightarrow> string \<Rightarrow> url_error + url" where
  "validateControlURL parse_url value =
     (case parse_url (trim_space value) of
        None \<Rightarrow> Inl ControlURLInvalid
      | Some parsed \<Rightarrow>
          if url_hostname parsed = [] \<or> url_user parsed \<or> url_query parsed \<noteq> [] \<or> url_fragment parsed \<noteq> []
            then Inl ControlURLInvalid
          else if url_scheme parsed = ''https'' then Inr parsed
          else if url_scheme parsed = ''http'' \<and> isLoopback (url_hostname parsed) then Inr parsed
          else Inl ControlURLInsecure)"

text \<open>\<open>strings.TrimRight(s, "/")\<close>.\<close>

definition trim_slashes :: "string \<Rightarrow> string" where
  "trim_slashes s = rev (dropWhile (\<lambda>c. c = CHR ''/'') (rev s))"

section \<open>Requests\<close>

record http_request =
  req_method :: string
  req_url :: string
  req_headers :: "(string \<times> string) list"

record http_reply =
  reply_code :: int
  reply_status :: string
  reply_body :: string

record control_client =
  cc_base :: string
  cc_node :: string
  cc_credential :: string

datatype client_error =
    ClientURL url_error | NodeIdentityIncomplete | MarshalFailed | RequestMalformed | Unreachable | Rejected string
  | ReplyUndecodable | RemoteVersionZero | RemoteRuleInvalid nat rule_error | EnrollmentIncomplete

definition NewControlClient ::
  "(string \<Rightarrow> url option) \<Rightarrow> string \<Rightarrow> string \<Rightarrow> string \<Rightarrow> client_error + control_client" where
  "NewControlClient parse_url base nid credential =
     (case validateControlURL parse_url base of
        Inl e \<Rightarrow> Inl (ClientURL e)
      | Inr parsed \<Rightarrow>
          if trim_space nid = [] \<or> trim_space credential = [] then Inl NodeIdentityIncomplete
          else Inr \<lparr>cc_base = trim_slashes (url_string parsed), cc_node = nid, cc_credential = credential\<rparr>)"

text \<open>The request that is sent; \<open>has_input\<close> tells whether it has a body.\<close>

definition control_request :: "control_client \<Rightarrow> string \<Rightarrow> string \<Rightarrow> bool \<Rightarrow> http_request" where
  "control_request client method path has_input =
     \<lparr>req_method = method, req_url = cc_base client @ path,
      req_headers = (if has_input then [(''Content-Type'', ''application/json'')] else [])
        @ [(''Accept'', ''application/json''), (''Authorization'', ''Bearer '' @ cc_credential client),
           (''X-PortFlow-Node-ID'', cc_node client), (''User-Agent'', ''PortFlow-Agent'')]\<rparr>"

text \<open>
  What a reply means. The body is read up to two megabytes. \<open>message\<close> is the message of an error body, empty where
  the body does not decode to one; \<open>zero\<close> is the zero value of the output, which a reply without content leaves.
  \<open>marshals\<close> and \<open>wellformed\<close> are the outcomes of encoding the input and of building the request.
\<close>

definition body_limit :: nat where
  "body_limit = 2 * 1024 * 1024"

definition request ::
  "(string \<Rightarrow> 'a option) \<Rightarrow> (string \<Rightarrow> string) \<Rightarrow> 'a \<Rightarrow> bool \<Rightarrow> bool \<Rightarrow> http_reply option \<Rightarrow> client_error + 'a" where
  "request decode message zero marshals wellformed reply =
     (if \<not> marshals then Inl MarshalFailed
      else if \<not> wellformed then Inl RequestMalformed
      else case reply of
        None \<Rightarrow> Inl Unreachable
      | Some r \<Rightarrow>
          let limited = take body_limit (reply_body r)
          in if reply_code r < 200 \<or> 300 \<le> reply_code r
             then Inl (Rejected (if message limited = [] then reply_status r else message limited))
             else if reply_code r = 204 then Inr zero
             else case decode limited of None \<Rightarrow> Inl ReplyUndecodable | Some x \<Rightarrow> Inr x)"

record heartbeat_response =
  hr_server_time :: time
  hr_config_version :: u64
  hr_config_changed :: bool
  hr_interval_seconds :: int

definition zero_heartbeat_response :: heartbeat_response where
  "zero_heartbeat_response =
     \<lparr>hr_server_time = 0, hr_config_version = 0, hr_config_changed = False, hr_interval_seconds = 0\<rparr>"

record remote_config =
  rem_version :: u64
  rem_rules :: "forward_rule list"

definition zero_remote_config :: remote_config where
  "zero_remote_config = \<lparr>rem_version = 0, rem_rules = []\<rparr>"

definition SendHeartbeat ::
  "(string \<Rightarrow> heartbeat_response option) \<Rightarrow> (string \<Rightarrow> string) \<Rightarrow> bool \<Rightarrow> bool \<Rightarrow> http_reply option
     \<Rightarrow> client_error + heartbeat_response" where
  "SendHeartbeat decode message marshals wellformed reply =
     request decode message zero_heartbeat_response marshals wellformed reply"

fun first_bad_rule :: "nat \<Rightarrow> forward_rule list \<Rightarrow> (nat \<times> rule_error) option" where
  "first_bad_rule i [] = None"
| "first_bad_rule i (r # rs) = (case rule_validate r of Some e \<Rightarrow> Some (i, e) | None \<Rightarrow> first_bad_rule (Suc i) rs)"

definition FetchConfig ::
  "(string \<Rightarrow> remote_config option) \<Rightarrow> (string \<Rightarrow> string) \<Rightarrow> bool \<Rightarrow> http_reply option \<Rightarrow> client_error + remote_config" where
  "FetchConfig decode message wellformed reply =
     (case request decode message zero_remote_config True wellformed reply of
        Inl e \<Rightarrow> Inl e
      | Inr c \<Rightarrow>
          if rem_version c = 0 then Inl RemoteVersionZero
          else (case first_bad_rule 0 (rem_rules c) of
                  Some (i, e) \<Rightarrow> Inl (RemoteRuleInvalid i e)
                | None \<Rightarrow> Inr c))"

section \<open>Enrollment\<close>

record enrollment_response =
  en_node :: string
  en_credential :: string

text \<open>Of the node in the response only the identifier is used.\<close>

definition enroll_request :: "url \<Rightarrow> string \<Rightarrow> http_request" where
  "enroll_request base version =
     \<lparr>req_method = ''POST'', req_url = trim_slashes (url_string base) @ ''/api/v1/agent/enroll'',
      req_headers = [(''Content-Type'', ''application/json''), (''User-Agent'', ''PortFlow-Agent/'' @ version)]\<rparr>"

definition Enroll ::
  "(string \<Rightarrow> url option) \<Rightarrow> (string \<Rightarrow> enrollment_response option) \<Rightarrow> (string \<Rightarrow> string) \<Rightarrow> string \<Rightarrow> bool \<Rightarrow> bool
     \<Rightarrow> http_reply option \<Rightarrow> client_error + enrollment_response" where
  "Enroll parse_url decode message control_url marshals wellformed reply =
     (case validateControlURL parse_url control_url of
        Inl e \<Rightarrow> Inl (ClientURL e)
      | Inr base \<Rightarrow>
          if \<not> marshals then Inl MarshalFailed
          else if \<not> wellformed then Inl RequestMalformed
          else case reply of
            None \<Rightarrow> Inl Unreachable
          | Some r \<Rightarrow>
              let limited = take (1024 * 1024) (reply_body r)
              in if reply_code r \<noteq> 201
                 then Inl (Rejected (if message limited = [] then reply_status r else message limited))
                 else case decode limited of
                   None \<Rightarrow> Inl ReplyUndecodable
                 | Some en \<Rightarrow> if en_node en = [] \<or> en_credential en = [] then Inl EnrollmentIncomplete else Inr en)"

subsection \<open>The token file\<close>

datatype token_error = TokenStat | TokenNotRegular | TokenPermissions u32 | TokenOpen | TokenRead | TokenTooLarge | TokenEmpty

definition maxEnrollmentTokenFileSize :: nat where
  "maxEnrollmentTokenFileSize = 4096"

text \<open>A file as the calls see it: what \<open>Stat\<close> tells, and the contents where they can be opened and read.\<close>

record token_file =
  tok_regular :: bool
  tok_perm :: u32
  tok_opens :: bool
  tok_contents :: "string option"

definition ReadEnrollmentToken :: "token_file option \<Rightarrow> token_error + string" where
  "ReadEnrollmentToken f =
     (case f of
        None \<Rightarrow> Inl TokenStat
      | Some info \<Rightarrow>
          if \<not> tok_regular info then Inl TokenNotRegular
          else if tok_perm info AND 511 AND 63 \<noteq> 0 then Inl (TokenPermissions (tok_perm info AND 511))
          else if \<not> tok_opens info then Inl TokenOpen
          else (case tok_contents info of
                  None \<Rightarrow> Inl TokenRead
                | Some contents \<Rightarrow>
                    let limited = take (maxEnrollmentTokenFileSize + 1) contents
                    in if maxEnrollmentTokenFileSize < length limited then Inl TokenTooLarge
                       else let token = trim_space limited
                            in if token = [] then Inl TokenEmpty else Inr token))"

section \<open>Guarantees\<close>

lemma first_bad_rule_None: "first_bad_rule i rs = None \<longleftrightarrow> (\<forall>r \<in> set rs. rule_validate r = None)"
  by (induction rs arbitrary: i) (auto split: option.splits)

lemma FetchConfig_valid:
  "FetchConfig decode message wellformed reply = Inr c \<Longrightarrow>
     rem_version c \<noteq> 0 \<and> (\<forall>r \<in> set (rem_rules c). rule_validate r = None)"
  by (auto simp: FetchConfig_def first_bad_rule_None split: sum.splits if_splits option.splits)

text \<open>
  A node credential never leaves over plain HTTP. A client is built only for a URL with no user, query or fragment
  whose scheme is HTTPS, or HTTP to a loopback host; every request it makes goes to a path under that URL and carries
  the credential in its Authorization header.
\<close>

theorem credential_only_over_tls:
  assumes "NewControlClient parse_url base nid credential = Inr client"
  shows "\<exists>u. parse_url (trim_space base) = Some u \<and> \<not> url_user u
    \<and> (url_scheme u = ''https'' \<or> url_scheme u = ''http'' \<and> isLoopback (url_hostname u))
    \<and> req_url (control_request client method path b) = trim_slashes (url_string u) @ path
    \<and> (''Authorization'', ''Bearer '' @ credential) \<in> set (req_headers (control_request client method path b))"
  using assms
  by (auto simp: NewControlClient_def validateControlURL_def control_request_def split: sum.splits option.splits if_splits)

text \<open>
  An enrollment token is read only from a private regular file, and is not empty, not longer than the limit, and
  part of the file.
\<close>

theorem token_file_private:
  assumes "ReadEnrollmentToken f = Inr token"
  shows "\<exists>info contents. f = Some info \<and> tok_regular info \<and> tok_perm info AND 63 = 0 \<and> tok_contents info = Some contents
    \<and> token \<noteq> [] \<and> length contents \<le> 4096 \<and> token = trim_space contents"
proof -
  have "(511 :: u32) AND 63 = 63" by simp
  then have perm: "x AND 511 AND 63 = x AND (63 :: u32)" for x by (simp add: and.assoc)
  from assms show ?thesis
    by (auto simp: ReadEnrollmentToken_def maxEnrollmentTokenFileSize_def perm Let_def split: option.splits if_splits)
qed

theorem token_file_private_witness:
  "ReadEnrollmentToken (Some \<lparr>tok_regular = True, tok_perm = 384, tok_opens = True, tok_contents = Some '' t ''\<rparr>) = Inr ''t''
     \<and> length '' t '' \<le> 4096"
proof -
  have trim: "trim_space '' t '' = ''t''" by code_simp
  have "ReadEnrollmentToken (Some \<lparr>tok_regular = True, tok_perm = 384, tok_opens = True, tok_contents = Some '' t ''\<rparr>) = Inr ''t''"
    by (simp add: ReadEnrollmentToken_def maxEnrollmentTokenFileSize_def trim)
  with token_file_private [OF this] show ?thesis by auto
qed

theorem credential_only_over_tls_witness:
  "\<exists>client. NewControlClient (\<lambda>s. Some \<lparr>url_scheme = ''https'', url_hostname = ''c'', url_user = False, url_query = [],
        url_fragment = [], url_string = ''https://c/''\<rparr>) ''https://c/'' ''n'' ''k'' = Inr client
     \<and> (''Authorization'', ''Bearer k'') \<in> set (req_headers (control_request client ''GET'' ''/'' False))"
proof -
  let ?parse = "\<lambda>s :: string. Some \<lparr>url_scheme = ''https'', url_hostname = ''c'', url_user = False, url_query = [],
        url_fragment = [], url_string = ''https://c/''\<rparr>"
  have "trim_space ''n'' \<noteq> []" "trim_space ''k'' \<noteq> []" by code_simp+
  then have "\<exists>client. NewControlClient ?parse ''https://c/'' ''n'' ''k'' = Inr client"
    by (simp add: NewControlClient_def validateControlURL_def)
  then obtain client where c: "NewControlClient ?parse ''https://c/'' ''n'' ''k'' = Inr client" by blast
  from credential_only_over_tls [OF c, of "''GET''" "''/''" False] c show ?thesis by auto
qed

end
