(* ===== verification/Metrics.thy ===== *)
theory Metrics
  imports GoStrings
begin

text \<open>
  \<open>internal/agent/metrics.go\<close>: what an agent measures of its host. The files of \<open>/proc\<close> are arguments, \<open>None\<close> when they
  cannot be read; \<open>parse_float\<close> is \<open>strconv.ParseFloat\<close>, which returns a value with its error. Percentages and rates
  are floating point in the code and exact rationals here; unsigned sums wrap.
\<close>

section \<open>Splitting text\<close>

text \<open>\<open>strings.SplitN(s, c, 2)\<close>: \<open>None\<close> where \<open>c\<close> does not occur.\<close>

fun split_first :: "char \<Rightarrow> string \<Rightarrow> (string \<times> string) option" where
  "split_first c [] = None"
| "split_first c (x # s) = (if x = c then Some ([], s) else map_option (\<lambda>(a, b). (x # a, b)) (split_first c s))"

text \<open>\<open>strings.Fields\<close>: the maximal parts without white space; \<open>cur\<close> is the part read so far, in reverse.\<close>

function fields_from :: "string \<Rightarrow> string \<Rightarrow> string list" where
  "fields_from cur s =
     (case s of [] \<Rightarrow> if cur = [] then [] else [rev cur]
      | x # t \<Rightarrow>
          if lead_of space_seqs s = 0 then fields_from (x # cur) t
          else (if cur = [] then [] else [rev cur]) @ fields_from [] (drop (lead_of space_seqs s) s))"
  by pat_completeness auto
termination
  by (relation "measure (\<lambda>(cur, s). length s)") auto

declare fields_from.simps [simp del]

definition string_fields :: "string \<Rightarrow> string list" where
  "string_fields s = fields_from [] s"

text \<open>\<open>strconv.ParseUint(s, 10, 64)\<close>: digits only, and the value fits.\<close>

definition parse_uint64 :: "string \<Rightarrow> u64 option" where
  "parse_uint64 s =
     (if s \<noteq> [] \<and> list_all is_digit s \<and> string_nat s < 2 ^ 64 then Some (word_of_nat (string_nat s)) else None)"

definition trim_colon :: "string \<Rightarrow> string" where
  "trim_colon s = (if s \<noteq> [] \<and> last s = CHR '':'' then butlast s else s)"

section \<open>The collector\<close>

record net_counters =
  nc_receive :: u64
  nc_transmit :: u64

record collector =
  col_total :: u64
  col_idle :: u64
  col_network :: "(string, net_counters) gomap"
  col_network_at :: time

definition new_collector :: collector where
  "new_collector = \<lparr>col_total = 0, col_idle = 0, col_network = [], col_network_at = 0\<rparr>"

record system_metrics =
  sm_cpu :: float64
  sm_memory :: float64
  sm_load :: float64
  sm_disk :: float64
  sm_rx :: u64
  sm_tx :: u64

definition ratio_percent :: "u64 \<Rightarrow> u64 \<Rightarrow> float64" where
  "ratio_percent part whole = Fin (of_nat (unat part) / of_nat (unat whole) * 100)"

section \<open>Processor and memory\<close>

text \<open>The values before the first field that is no number, and their sum.\<close>

fun leading_values :: "string list \<Rightarrow> u64 list" where
  "leading_values [] = []"
| "leading_values (f # fs) = (case parse_uint64 f of None \<Rightarrow> [] | Some v \<Rightarrow> v # leading_values fs)"

definition idle_of :: "u64 list \<Rightarrow> u64" where
  "idle_of values = (if 4 < length values then values ! 3 + values ! 4 else values ! 3)"

definition sample_cpu_line :: "string \<Rightarrow> collector \<Rightarrow> float64 \<times> collector" where
  "sample_cpu_line line c =
     (let fs = string_fields line in
      if \<not> (5 \<le> length fs \<and> hd fs = ''cpu'') then (Fin 0, c)
      else let values = leading_values (tl fs);
               total = sum_list values
           in if 4 \<le> length values \<and> 0 < col_total c \<and> col_total c < total
              then let delta_total = total - col_total c;
                       delta_idle = idle_of values - col_idle c
                   in (if delta_idle \<le> delta_total then ratio_percent (delta_total - delta_idle) delta_total else Fin 0,
                       c\<lparr>col_idle := idle_of values, col_total := total\<rparr>)
              else if 4 \<le> length values then (Fin 0, c\<lparr>col_idle := idle_of values, col_total := total\<rparr>)
              else (Fin 0, c\<lparr>col_total := total\<rparr>))"

definition first_line :: "string \<Rightarrow> string" where
  "first_line s = (case split_first (CHR 0x0A) s of None \<Rightarrow> s | Some (a, b) \<Rightarrow> a)"

text \<open>The lines of \<open>/proc/meminfo\<close> as a map; a later line of a name replaces an earlier one.\<close>

definition meminfo_line :: "string \<Rightarrow> (string, u64) gomap \<Rightarrow> (string, u64) gomap" where
  "meminfo_line line values =
     (let fs = string_fields line in
      if 2 \<le> length fs
      then (case parse_uint64 (fs ! 1) of None \<Rightarrow> values | Some v \<Rightarrow> gput (trim_colon (hd fs)) v values)
      else values)"

definition value_at :: "(string, u64) gomap \<Rightarrow> string \<Rightarrow> u64" where
  "value_at values name = (case map_of values name of None \<Rightarrow> 0 | Some v \<Rightarrow> v)"

definition memory_percent :: "string \<Rightarrow> float64" where
  "memory_percent contents =
     (let values = fold meminfo_line (split_on (CHR 0x0A) contents) [];
          total = value_at values ''MemTotal'';
          available = value_at values ''MemAvailable''
      in if 0 < total \<and> available \<le> total then ratio_percent (total - available) total else Fin 0)"

definition diskUsagePercent :: "u64 \<Rightarrow> u64 \<Rightarrow> float64" where
  "diskUsagePercent blocks free = (if blocks = 0 \<or> blocks < free then Fin 0 else ratio_percent (blocks - free) blocks)"

section \<open>Network\<close>

definition network_line :: "string \<Rightarrow> (string, net_counters) gomap \<Rightarrow> (string, net_counters) gomap" where
  "network_line line result =
     (case split_first (CHR '':'') line of
        None \<Rightarrow> result
      | Some (left, right) \<Rightarrow>
          let name = trim_space left; fs = string_fields right
          in if name = [] \<or> name = ''lo'' \<or> length fs < 9 then result
             else (case (parse_uint64 (fs ! 0), parse_uint64 (fs ! 8)) of
                     (Some receive, Some transmit) \<Rightarrow> gput name \<lparr>nc_receive = receive, nc_transmit = transmit\<rparr> result
                   | _ \<Rightarrow> result))"

definition parseNetworkCounters :: "string \<Rightarrow> (string, net_counters) gomap" where
  "parseNetworkCounters contents = fold network_line (split_on (CHR 0x0A) contents) []"

definition add_delta :: "(string, net_counters) gomap \<Rightarrow> string \<times> net_counters \<Rightarrow> u64 \<times> u64 \<Rightarrow> u64 \<times> u64" where
  "add_delta previous entry acc =
     (case map_of previous (fst entry) of
        None \<Rightarrow> acc
      | Some prior \<Rightarrow>
          (if nc_receive prior \<le> nc_receive (snd entry) then fst acc + (nc_receive (snd entry) - nc_receive prior) else fst acc,
           if nc_transmit prior \<le> nc_transmit (snd entry) then snd acc + (nc_transmit (snd entry) - nc_transmit prior) else snd acc))"

text \<open>Bytes per second of an elapsed time in nanoseconds, truncated to an unsigned integer.\<close>

definition per_second :: "u64 \<Rightarrow> duration \<Rightarrow> u64" where
  "per_second bytes elapsed = word_of_int (uint bytes * go_second div elapsed)"

definition networkRates ::
  "(string, net_counters) gomap \<Rightarrow> (string, net_counters) gomap \<Rightarrow> duration \<Rightarrow> u64 \<times> u64" where
  "networkRates previous current elapsed =
     (if elapsed \<le> 0 then (0, 0)
      else let (receive, transmit) = fold (add_delta previous) current (0, 0)
           in (per_second receive elapsed, per_second transmit elapsed))"

section \<open>Sampling\<close>

record proc_files =
  pf_stat :: "string option"
  pf_meminfo :: "string option"
  pf_loadavg :: "string option"
  pf_blocks :: "(u64 \<times> u64) option"
  pf_netdev :: "string option"

definition Sample :: "(string \<Rightarrow> float64) \<Rightarrow> proc_files \<Rightarrow> time \<Rightarrow> collector \<Rightarrow> system_metrics \<times> collector" where
  "Sample parse_float files now c =
     (let (cpu, c1) = (case pf_stat files of None \<Rightarrow> (Fin 0, c) | Some s \<Rightarrow> sample_cpu_line (first_line s) c);
          memory = (case pf_meminfo files of None \<Rightarrow> Fin 0 | Some s \<Rightarrow> memory_percent s);
          load = (case pf_loadavg files of None \<Rightarrow> Fin 0
                  | Some s \<Rightarrow> if 0 < length (string_fields s) then parse_float (hd (string_fields s)) else Fin 0);
          disk = (case pf_blocks files of None \<Rightarrow> Fin 0 | Some (blocks, free) \<Rightarrow> diskUsagePercent blocks free);
          (rates, c2) = (case pf_netdev files of
              None \<Rightarrow> ((0, 0), c1)
            | Some s \<Rightarrow>
                let current = parseNetworkCounters s
                in (if 0 < length (col_network c1) \<and> \<not> time_is_zero (col_network_at c1)
                    then networkRates (col_network c1) current (time_sub now (col_network_at c1)) else (0, 0),
                    c1\<lparr>col_network := current, col_network_at := now\<rparr>))
      in (\<lparr>sm_cpu = cpu, sm_memory = memory, sm_load = load, sm_disk = disk, sm_rx = fst rates, sm_tx = snd rates\<rparr>, c2))"

section \<open>Guarantees\<close>

definition is_percent :: "float64 \<Rightarrow> bool" where
  "is_percent x \<longleftrightarrow> (\<exists>q. x = Fin q \<and> 0 \<le> q \<and> q \<le> 100)"

lemma is_percent_zero [simp]: "is_percent (Fin 0)"
  by (simp add: is_percent_def)

lemma percent_of: "(a :: rat) \<le> b \<Longrightarrow> 0 < b \<Longrightarrow> a / b * 100 \<le> 100"
  by (simp add: field_simps)

lemma ratio_percent_ok: "part \<le> whole \<Longrightarrow> 0 < whole \<Longrightarrow> is_percent (ratio_percent part whole)"
proof -
  assume a: "part \<le> whole" "0 < whole"
  then have "unat part \<le> unat whole" "0 < unat whole" by (simp_all add: word_le_nat_alt word_less_nat_alt)
  then have "(of_nat (unat part) :: rat) \<le> of_nat (unat whole)" "(0 :: rat) < of_nat (unat whole)"
    by (simp_all only: of_nat_le_iff of_nat_0_less_iff)
  then have "0 \<le> of_nat (unat part) / of_nat (unat whole) * (100 :: rat)"
    "of_nat (unat part) / of_nat (unat whole) * (100 :: rat) \<le> 100"
    by (rule_tac [2] percent_of, rule_tac mult_nonneg_nonneg) (simp_all only: divide_nonneg_pos of_nat_0_le_iff zero_le_numeral)
  then show ?thesis unfolding is_percent_def ratio_percent_def by blast
qed

lemma diff_le: "b \<le> a \<Longrightarrow> (a :: u64) - b \<le> a"
  by (simp add: word_le_nat_alt unat_sub)

lemma sample_cpu_percent: "is_percent (fst (sample_cpu_line line c))"
proof -
  have "0 < (a :: u64) - b" if "b < a" for a b
    using that by (simp add: word_less_nat_alt unat_sub_if')
  then show ?thesis
    by (auto simp: sample_cpu_line_def Let_def intro!: ratio_percent_ok diff_le)
qed

lemma memory_percent_ok: "is_percent (memory_percent contents)"
  by (auto simp: memory_percent_def Let_def intro!: ratio_percent_ok diff_le)

lemma disk_percent_ok: "is_percent (diskUsagePercent blocks free)"
proof (cases "blocks = 0 \<or> blocks < free")
  case False
  then have "0 < blocks" "free \<le> blocks" by (simp_all add: word_gt_0 not_less)
  then show ?thesis using False by (simp add: diskUsagePercent_def ratio_percent_ok diff_le)
qed (auto simp: diskUsagePercent_def)

text \<open>
  Whatever the files of \<open>/proc\<close> hold (counters that wrap, go backwards or are missing included), the processor,
  memory and disk figures of a sample are percentages between 0 and 100.
\<close>

theorem Sample_percentages:
  "is_percent (sm_cpu (fst (Sample parse_float files now c))) \<and> is_percent (sm_memory (fst (Sample parse_float files now c)))
    \<and> is_percent (sm_disk (fst (Sample parse_float files now c)))"
  using sample_cpu_percent memory_percent_ok disk_percent_ok
  by (auto simp: Sample_def Let_def split_beta split: option.splits)

lemma add_delta_commute: "add_delta previous a \<circ> add_delta previous b = add_delta previous b \<circ> add_delta previous a"
  by (auto simp: add_delta_def fun_eq_iff algebra_simps split: option.splits)

text \<open>The rates do not depend on the order in which Go walks the map of interfaces.\<close>

lemma networkRates_order:
  assumes "mset current = mset current'"
  shows "networkRates previous current elapsed = networkRates previous current' elapsed"
proof -
  have "fold (add_delta previous) current = fold (add_delta previous) current'"
    by (rule fold_multiset_equiv) (use assms add_delta_commute in auto)
  then show ?thesis by (simp add: networkRates_def)
qed

end
