(* ===== verification/AgentRuntime.thy ===== *)
theory AgentRuntime
  imports Manager ForwardStats ControlClient Metrics
begin

text \<open>
  \<open>internal/agent/runtime.go\<close>: the loop of an agent, which reports to the control plane, fetches a new configuration,
  moves the forwarding manager to it, saves it, and rolls back when it cannot. One synchronisation is a function of what
  its environment answers (\<open>sync_env\<close>); the loop runs over a list of environments, one per iteration, and is as long as
  the process lives. The forwarders' statistics, which \<open>ForwardStats\<close> computes, are part of the environment, as are the
  log lines other goroutines append while the heartbeat is on its way.
\<close>

section \<open>Data\<close>

record rule_report =
  rr_rule :: string
  rr_active :: u64
  rr_in :: u64
  rr_out :: u64

record heartbeat_message =
  hm_agent_version :: string
  hm_tunnel :: string
  hm_config_version :: u64
  hm_attempted :: u64
  hm_error :: string
  hm_metrics :: system_metrics
  hm_active :: u64
  hm_in :: u64
  hm_out :: u64
  hm_rules :: "rule_report list"
  hm_connections :: "connection_stats list"
  hm_complete :: bool
  hm_logs :: "log_entry list"

record runtime =
  rt_disk :: disk
  rt_path :: string
  rt_manager :: manager
  rt_collector :: collector
  rt_version :: string
  rt_logs :: "log_buffer option"
  rt_attempted :: u64
  rt_last_error :: string

definition NewRuntime :: "disk \<Rightarrow> string \<Rightarrow> manager \<Rightarrow> string \<Rightarrow> log_buffer option \<Rightarrow> runtime" where
  "NewRuntime d path mgr version logs =
     \<lparr>rt_disk = d, rt_path = path, rt_manager = mgr, rt_collector = new_collector, rt_version = version,
      rt_logs = logs, rt_attempted = 0, rt_last_error = []\<rparr>"

datatype sync_error =
    HeartbeatFailed client_error | FetchFailed client_error | VersionRegressed u64 u64 | CandidateInvalid config_error
  | ApplyFailed apply_error | SaveFailed save_error | SaveRollbackFailed save_error apply_error

text \<open>
  The functions of the standard library the loop depends on: number parsing, JSON in both directions, lower case, and the
  texts of errors (\<open>lib_text\<close> the text recorded for the control plane, \<open>lib_retry\<close> the line logged on a failure).
\<close>

record library =
  lib_float :: "string \<Rightarrow> float64"
  lib_response :: "string \<Rightarrow> heartbeat_response option"
  lib_config :: "string \<Rightarrow> remote_config option"
  lib_message :: "string \<Rightarrow> string"
  lib_encode :: "agent_cfg \<Rightarrow> string option"
  lib_lower :: "string \<Rightarrow> string"
  lib_text :: "sync_error \<Rightarrow> string"
  lib_retry :: "duration \<Rightarrow> sync_error \<Rightarrow> string"

record sync_env =
  se_files :: proc_files
  se_sampled_at :: time
  se_stats :: stats
  se_logged :: "(string \<times> string \<times> time) list"
  se_marshals :: bool
  se_wellformed :: bool
  se_reply :: "http_reply option"
  se_config_wellformed :: bool
  se_config_reply :: "http_reply option"
  se_os :: os
  se_applied_at :: time
  se_rollback_os :: os
  se_rolled_back_at :: time
  se_save :: save_outcome
  se_log_at :: time

section \<open>One synchronisation\<close>

definition report_rules :: "stats \<Rightarrow> rule_report list" where
  "report_rules st = map (\<lambda>c. \<lparr>rr_rule = rc_rule c, rr_active = rc_active c, rr_in = rc_in c, rr_out = rc_out c\<rparr>) (st_rules st)"

definition heartbeat_for :: "system_metrics \<Rightarrow> stats \<Rightarrow> log_entry list \<Rightarrow> agent_cfg \<Rightarrow> runtime \<Rightarrow> heartbeat_message" where
  "heartbeat_for metrics st batch current rt =
     \<lparr>hm_agent_version = rt_version rt, hm_tunnel = cfg_tunnel current, hm_config_version = cfg_version current,
      hm_attempted = (if rt_attempted rt = 0 then cfg_version current else rt_attempted rt),
      hm_error = rt_last_error rt, hm_metrics = metrics, hm_active = st_active st, hm_in = st_in st, hm_out = st_out st,
      hm_rules = report_rules st, hm_connections = st_connections st, hm_complete = st_complete st, hm_logs = batch\<rparr>"

text \<open>\<open>time.Duration(n) * time.Second\<close> on 64-bit integers, and the interval the loop accepts.\<close>

definition seconds_duration :: "int \<Rightarrow> duration" where
  "seconds_duration n = sint (word_of_int n * word_of_int go_second :: 64 word)"

definition heartbeat_interval :: "int \<Rightarrow> duration" where
  "heartbeat_interval n =
     (let interval = seconds_duration n
      in if interval < 5 * go_second \<or> 5 * go_minute < interval then 15 * go_second else interval)"

definition recordConfigFailure :: "library \<Rightarrow> u64 \<Rightarrow> sync_error \<Rightarrow> runtime \<Rightarrow> runtime" where
  "recordConfigFailure lib version e rt =
     (let message = lib_text lib e
      in rt\<lparr>rt_attempted := version, rt_last_error := (if 2000 < length message then take 2000 message else message)\<rparr>)"

definition clearConfigFailure :: "u64 \<Rightarrow> runtime \<Rightarrow> runtime" where
  "clearConfigFailure version rt = rt\<lparr>rt_attempted := version, rt_last_error := []\<rparr>"

definition log_lines :: "library \<Rightarrow> (string \<times> string \<times> time) list \<Rightarrow> log_buffer option \<Rightarrow> log_buffer option" where
  "log_lines lib lines buf = fold (\<lambda>(component, message, now). Logger (lib_lower lib) component message now) lines buf"

definition applied_line :: "agent_cfg \<Rightarrow> string" where
  "applied_line c =
     ''applied configuration version='' @ nat_string (unat (cfg_version c)) @ '' rules='' @ nat_string (length (cfg_rules c))"

text \<open>The new configuration is moved to, saved, and made the current one; the previous rules are restored where it cannot be saved.\<close>

definition adopt :: "library \<Rightarrow> sync_env \<Rightarrow> agent_cfg \<Rightarrow> agent_cfg \<Rightarrow> duration \<Rightarrow> runtime
    \<Rightarrow> (sync_error + duration) \<times> agent_cfg \<times> runtime" where
  "adopt lib env candidate current interval rt =
     (case config_validate candidate of
        Some e \<Rightarrow> (Inl (CandidateInvalid e), current, recordConfigFailure lib (cfg_version candidate) (CandidateInvalid e) rt)
      | None \<Rightarrow>
          (case Apply (se_os env) (se_applied_at env) (cfg_rules candidate) (rt_manager rt) of
             (mgr, Inl e) \<Rightarrow>
               (Inl (ApplyFailed e), current,
                recordConfigFailure lib (cfg_version candidate) (ApplyFailed e) (rt\<lparr>rt_manager := mgr\<rparr>))
           | (mgr, Inr _) \<Rightarrow>
               let (trace, saved) = Save (lib_encode lib) (se_save env) (rt_path rt) candidate (rt_disk rt);
                   rt1 = rt\<lparr>rt_manager := mgr, rt_disk := saved_disk (rt_disk rt) trace\<rparr>
               in case saved of
                    Inr _ \<Rightarrow>
                      (Inr interval, candidate,
                       (clearConfigFailure (cfg_version candidate) rt1)
                         \<lparr>rt_logs := log_lines lib [(''agent'', applied_line candidate, se_log_at env)] (rt_logs rt1)\<rparr>)
                  | Inl e \<Rightarrow>
                      (case Apply (se_rollback_os env) (se_rolled_back_at env) (cfg_rules current) mgr of
                         (mgr2, Inl e2) \<Rightarrow>
                           (Inl (SaveRollbackFailed e e2), current,
                            recordConfigFailure lib (cfg_version candidate) (SaveRollbackFailed e e2) (rt1\<lparr>rt_manager := mgr2\<rparr>))
                       | (mgr2, Inr _) \<Rightarrow>
                           (Inl (SaveFailed e), current,
                            recordConfigFailure lib (cfg_version candidate) (SaveFailed e) (rt1\<lparr>rt_manager := mgr2\<rparr>)))))"

text \<open>The part after the heartbeat has been answered.\<close>

definition follow :: "library \<Rightarrow> sync_env \<Rightarrow> heartbeat_response \<Rightarrow> agent_cfg \<Rightarrow> runtime
    \<Rightarrow> (sync_error + duration) \<times> agent_cfg \<times> runtime" where
  "follow lib env heartbeat current rt =
     (let interval = heartbeat_interval (hr_interval_seconds heartbeat)
      in if \<not> hr_config_changed heartbeat \<and> hr_config_version heartbeat = cfg_version current
         then (Inr interval, current, clearConfigFailure (cfg_version current) rt)
         else case FetchConfig (lib_config lib) (lib_message lib) (se_config_wellformed env) (se_config_reply env) of
           Inl e \<Rightarrow> (Inl (FetchFailed e), current, recordConfigFailure lib (hr_config_version heartbeat) (FetchFailed e) rt)
         | Inr remote \<Rightarrow>
             if rem_version remote < cfg_version current
             then (let e = VersionRegressed (cfg_version current) (rem_version remote)
                   in (Inl e, current, recordConfigFailure lib (rem_version remote) e rt))
             else if rem_version remote = cfg_version current
             then (Inr interval, current, clearConfigFailure (cfg_version current) rt)
             else adopt lib env (current\<lparr>cfg_version := rem_version remote, cfg_rules := rem_rules remote\<rparr>) current interval rt)"

definition synchronize :: "library \<Rightarrow> sync_env \<Rightarrow> agent_cfg \<Rightarrow> runtime
    \<Rightarrow> (sync_error + duration) \<times> agent_cfg \<times> runtime" where
  "synchronize lib env current rt =
     (let (metrics, col) = Sample (lib_float lib) (se_files env) (se_sampled_at env) (rt_collector rt);
          batch = Pending 100 (rt_logs rt);
          rt1 = rt\<lparr>rt_collector := col, rt_logs := log_lines lib (se_logged env) (rt_logs rt)\<rparr>
      in case SendHeartbeat (lib_response lib) (lib_message lib) (se_marshals env) (se_wellformed env) (se_reply env) of
           Inl e \<Rightarrow> (Inl (HeartbeatFailed e), current, rt1)
         | Inr heartbeat \<Rightarrow> follow lib env heartbeat current (rt1\<lparr>rt_logs := Acknowledge batch (rt_logs rt1)\<rparr>))"

text \<open>The message that synchronisation sends.\<close>

definition sent_heartbeat :: "library \<Rightarrow> sync_env \<Rightarrow> agent_cfg \<Rightarrow> runtime \<Rightarrow> heartbeat_message" where
  "sent_heartbeat lib env current rt =
     heartbeat_for (fst (Sample (lib_float lib) (se_files env) (se_sampled_at env) (rt_collector rt))) (se_stats env)
       (Pending 100 (rt_logs rt)) current rt"

section \<open>The loop\<close>

function retry_loop :: "int \<Rightarrow> int \<Rightarrow> duration \<Rightarrow> duration" where
  "retry_loop attempt failures delay =
     (if attempt < failures \<and> delay < 2 * go_minute then retry_loop (attempt + 1) failures (delay * 2) else delay)"
  by pat_completeness auto
termination
  by (relation "measure (\<lambda>(attempt, failures, delay). nat (failures - attempt))") auto

declare retry_loop.simps [simp del]

definition retryDelay :: "int \<Rightarrow> duration" where
  "retryDelay failures =
     (if failures < 1 then 15 * go_second
      else let delay = retry_loop 1 failures (15 * go_second)
           in if 2 * go_minute < delay then 2 * go_minute else delay)"

record run_state =
  rs_config :: agent_cfg
  rs_runtime :: runtime
  rs_failures :: int
  rs_delay :: duration

datatype run_error = RunInvalid config_error | RunApply apply_error

definition run_start :: "os \<Rightarrow> time \<Rightarrow> agent_cfg \<Rightarrow> runtime \<Rightarrow> run_error + run_state" where
  "run_start os now config rt =
     (case config_validate config of
        Some e \<Rightarrow> Inl (RunInvalid e)
      | None \<Rightarrow>
          (case Apply os now (cfg_rules config) (rt_manager rt) of
             (mgr, Inl e) \<Rightarrow> Inl (RunApply e)
           | (mgr, Inr _) \<Rightarrow> Inr \<lparr>rs_config = config, rs_runtime = rt\<lparr>rt_manager := mgr\<rparr>, rs_failures = 0, rs_delay = 0\<rparr>))"

definition run_tick :: "library \<Rightarrow> sync_env \<Rightarrow> run_state \<Rightarrow> run_state" where
  "run_tick lib env s =
     (case synchronize lib env (rs_config s) (rs_runtime s) of
        (Inl e, config, rt) \<Rightarrow>
          let failures = rs_failures s + 1; delay = retryDelay failures
          in \<lparr>rs_config = config,
              rs_runtime = rt\<lparr>rt_logs := log_lines lib [(''agent'', lib_retry lib delay e, se_log_at env)] (rt_logs rt)\<rparr>,
              rs_failures = failures, rs_delay = delay\<rparr>
      | (Inr interval, config, rt) \<Rightarrow> \<lparr>rs_config = config, rs_runtime = rt, rs_failures = 0, rs_delay = interval\<rparr>)"

text \<open>The iterations of a process, and its end: the deferred \<open>Close\<close> of the manager.\<close>

definition run_ticks :: "library \<Rightarrow> sync_env list \<Rightarrow> run_state \<Rightarrow> run_state" where
  "run_ticks lib envs s = fold (run_tick lib) envs s"

definition run_stop :: "run_state \<Rightarrow> run_state" where
  "run_stop s = s\<lparr>rs_runtime := (rs_runtime s)\<lparr>rt_manager := CloseManager (rt_manager (rs_runtime s))\<rparr>\<rparr>"

section \<open>Delays\<close>

lemma retry_loop_min:
  "0 < delay \<Longrightarrow> min (2 * go_minute) (retry_loop attempt failures delay) = min (2 * go_minute) (delay * 2 ^ nat (failures - attempt))"
proof (induction attempt failures delay rule: retry_loop.induct)
  case (1 attempt failures delay)
  show ?case
  proof (cases "attempt < failures \<and> delay < 2 * go_minute")
    case True
    then have "nat (failures - attempt) = Suc (nat (failures - (attempt + 1)))" by linarith
    then have "delay * 2 ^ nat (failures - attempt) = delay * 2 * 2 ^ nat (failures - (attempt + 1))" by simp
    with "1.IH" [OF True] "1.prems" True show ?thesis by (subst retry_loop.simps) simp
  next
    case False
    show ?thesis
    proof (cases "attempt < failures")
      case True
      with False have big: "2 * go_minute \<le> delay" by simp
      have "delay * 1 \<le> delay * 2 ^ nat (failures - attempt)"
        by (rule mult_left_mono) (use "1.prems" in simp_all)
      then have "2 * go_minute \<le> delay * 2 ^ nat (failures - attempt)" using big by linarith
      then have "min (2 * go_minute) (delay * 2 ^ nat (failures - attempt)) = min (2 * go_minute) delay"
        using big by (simp only: min_absorb1)
      with False show ?thesis by (subst retry_loop.simps) (simp only: if_False)
    next
      case small: False
      then show ?thesis by (subst retry_loop.simps) simp
    qed
  qed
qed

lemma retryDelay_eq: "retryDelay failures = min (2 * go_minute) (15 * go_second * 2 ^ nat (failures - 1))"
proof (cases "failures < 1")
  case False
  have "retryDelay failures = min (2 * go_minute) (retry_loop 1 failures (15 * go_second))"
    using False by (simp add: retryDelay_def Let_def min_def)
  also have "\<dots> = min (2 * go_minute) (15 * go_second * 2 ^ nat (failures - 1))"
    by (rule retry_loop_min) simp
  finally show ?thesis .
qed (simp add: retryDelay_def)

lemma retryDelay_bounds: "15 * go_second \<le> retryDelay failures" "retryDelay failures \<le> 2 * go_minute"
proof -
  have "(1 :: int) \<le> 2 ^ nat (failures - 1)" by simp
  then have "15 * go_second * 1 \<le> 15 * go_second * 2 ^ nat (failures - 1)" by (rule mult_left_mono) simp
  then show "15 * go_second \<le> retryDelay failures" unfolding retryDelay_eq by simp
qed (simp add: retryDelay_eq)

lemma heartbeat_interval_bounds: "5 * go_second \<le> heartbeat_interval n" "heartbeat_interval n \<le> 5 * go_minute"
  by (simp_all add: heartbeat_interval_def Let_def)

section \<open>One synchronisation\<close>

definition runs_rules :: "string \<Rightarrow> forward_rule list \<Rightarrow> manager \<Rightarrow> bool" where
  "runs_rules nid rules m \<longleftrightarrow> runs ''tcp'' (entries nid rules) (mgr_tcp m) \<and> runs ''udp'' (entries nid rules) (mgr_udp m)"

lemma Apply_runs:
  assumes "mgr_reach nid m" "Apply os now rules m = (m', Inr ())"
  shows "mgr_reach nid m'" "runs_rules nid rules m'"
proof -
  show "mgr_reach nid m'" using mgr_reach.apply_step [OF assms(1), of os now rules] assms(2) by simp
  show "runs_rules nid rules m'" using Apply_success_parts [OF assms] by (simp add: runs_rules_def)
qed

lemma Apply_refuses:
  assumes "mgr_reach nid m" "Apply os now rules m = (m', Inl e)"
  shows "m' = m"
  using Apply_error mgr_reach_inv [OF assms(1)] assms(2) by blast

lemma failure_fields [simp]:
  "rt_manager (recordConfigFailure lib v e rt) = rt_manager rt" "rt_disk (recordConfigFailure lib v e rt) = rt_disk rt"
  "rt_path (recordConfigFailure lib v e rt) = rt_path rt" "rt_manager (clearConfigFailure v rt) = rt_manager rt"
  "rt_disk (clearConfigFailure v rt) = rt_disk rt" "rt_path (clearConfigFailure v rt) = rt_path rt"
  by (simp_all add: recordConfigFailure_def clearConfigFailure_def Let_def)

text \<open>The four ways a synchronisation ends.\<close>

definition kept :: "(sync_error + duration) \<Rightarrow> agent_cfg \<Rightarrow> runtime \<Rightarrow> agent_cfg \<Rightarrow> runtime \<Rightarrow> bool" where
  "kept res current rt current' rt' \<longleftrightarrow> current' = current \<and> rt_manager rt' = rt_manager rt \<and> rt_disk rt' = rt_disk rt
     \<and> (\<forall>e. res \<noteq> Inl (SaveFailed e)) \<and> (\<forall>e f. res \<noteq> Inl (SaveRollbackFailed e f))"

definition adopted :: "library \<Rightarrow> sync_env \<Rightarrow> (sync_error + duration) \<Rightarrow> agent_cfg \<Rightarrow> runtime \<Rightarrow> agent_cfg \<Rightarrow> runtime \<Rightarrow> bool" where
  "adopted lib env res current rt current' rt' \<longleftrightarrow>
     (\<exists>interval trace. res = Inr interval \<and> cfg_version current < cfg_version current'
        \<and> current' = current\<lparr>cfg_version := cfg_version current', cfg_rules := cfg_rules current'\<rparr>
        \<and> Apply (se_os env) (se_applied_at env) (cfg_rules current') (rt_manager rt) = (rt_manager rt', Inr ())
        \<and> Save (lib_encode lib) (se_save env) (rt_path rt) current' (rt_disk rt) = (trace, Inr ())
        \<and> rt_disk rt' = saved_disk (rt_disk rt) trace)"

definition undone :: "library \<Rightarrow> sync_env \<Rightarrow> (sync_error + duration) \<Rightarrow> agent_cfg \<Rightarrow> runtime \<Rightarrow> agent_cfg \<Rightarrow> runtime \<Rightarrow> bool" where
  "undone lib env res current rt current' rt' \<longleftrightarrow>
     (\<exists>candidate trace mgr e r. Apply (se_os env) (se_applied_at env) (cfg_rules candidate) (rt_manager rt) = (mgr, Inr ())
        \<and> Save (lib_encode lib) (se_save env) (rt_path rt) candidate (rt_disk rt) = (trace, Inl e)
        \<and> rt_disk rt' = saved_disk (rt_disk rt) trace \<and> current' = current
        \<and> Apply (se_rollback_os env) (se_rolled_back_at env) (cfg_rules current) mgr = (rt_manager rt', r)
        \<and> res = Inl (case r of Inr _ \<Rightarrow> SaveFailed e | Inl f \<Rightarrow> SaveRollbackFailed e f))"

lemma adopt_cases:
  assumes "adopt lib env candidate current interval rt = (res, current', rt')" "mgr_reach nid (rt_manager rt)"
    and "candidate = current\<lparr>cfg_version := v, cfg_rules := rs\<rparr>" "cfg_version current < v"
  shows "(kept res current rt current' rt' \<or> adopted lib env res current rt current' rt'
    \<or> undone lib env res current rt current' rt') \<and> rt_path rt' = rt_path rt"
proof (cases "config_validate candidate")
  case (Some e)
  with assms(1) show ?thesis by (auto simp: adopt_def kept_def)
next
  case None
  obtain mgr r where ap: "Apply (se_os env) (se_applied_at env) (cfg_rules candidate) (rt_manager rt) = (mgr, r)" by fastforce
  show ?thesis
  proof (cases r)
    case (Inl e)
    with ap have "mgr = rt_manager rt" using Apply_refuses [OF assms(2)] by blast
    with assms(1) None ap Inl show ?thesis by (auto simp: adopt_def kept_def)
  next
    case (Inr u)
    obtain trace saved where sv: "Save (lib_encode lib) (se_save env) (rt_path rt) candidate (rt_disk rt) = (trace, saved)" by fastforce
    show ?thesis
    proof (cases saved)
      case (Inl e)
      obtain mgr2 r2 where again: "Apply (se_rollback_os env) (se_rolled_back_at env) (cfg_rules current) mgr = (mgr2, r2)" by fastforce
      have out: "res = Inl (case r2 of Inr _ \<Rightarrow> SaveFailed e | Inl f \<Rightarrow> SaveRollbackFailed e f)" "current' = current"
        "rt_manager rt' = mgr2" "rt_disk rt' = saved_disk (rt_disk rt) trace" "rt_path rt' = rt_path rt"
        using assms(1) None ap Inr sv Inl again by (cases r2; auto simp: adopt_def Let_def)+
      have "undone lib env res current rt current' rt'"
        unfolding undone_def out using ap sv again Inr Inl
        by (intro exI [of _ candidate], intro exI [of _ trace], intro exI [of _ mgr], intro exI [of _ e], intro exI [of _ r2]) simp
      with out(5) show ?thesis by blast
    next
      case ok: (Inr w)
      have "adopted lib env res current rt current' rt' \<and> rt_path rt' = rt_path rt"
        using assms(1,3,4) None ap Inr sv ok unfolding adopted_def
        by (auto simp: adopt_def Let_def)
      then show ?thesis by blast
    qed
  qed
qed

lemma synchronize_cases:
  assumes "synchronize lib env current rt = (res, current', rt')" "mgr_reach nid (rt_manager rt)"
  shows "(kept res current rt current' rt' \<or> adopted lib env res current rt current' rt'
    \<or> undone lib env res current rt current' rt') \<and> rt_path rt' = rt_path rt"
proof -
  obtain metrics col where sm: "Sample (lib_float lib) (se_files env) (se_sampled_at env) (rt_collector rt) = (metrics, col)"
    by fastforce
  define rt0 where "rt0 = rt\<lparr>rt_collector := col, rt_logs := log_lines lib (se_logged env) (rt_logs rt)\<rparr>"
  define rt1 where "rt1 = rt0\<lparr>rt_logs := Acknowledge (Pending 100 (rt_logs rt)) (rt_logs rt0)\<rparr>"
  have same: "rt_manager rt1 = rt_manager rt" "rt_disk rt1 = rt_disk rt" "rt_path rt1 = rt_path rt"
    "rt_manager rt0 = rt_manager rt" "rt_disk rt0 = rt_disk rt" "rt_path rt0 = rt_path rt"
    by (simp_all add: rt1_def rt0_def)
  show ?thesis
  proof (cases "SendHeartbeat (lib_response lib) (lib_message lib) (se_marshals env) (se_wellformed env) (se_reply env)")
    case (Inl e)
    then have "res = Inl (HeartbeatFailed e) \<and> current' = current \<and> rt' = rt0"
      using assms(1) sm by (auto simp: synchronize_def rt0_def)
    then show ?thesis using same by (simp add: kept_def)
  next
    case (Inr heartbeat)
    then have f: "follow lib env heartbeat current rt1 = (res, current', rt')"
      using assms(1) sm by (simp add: synchronize_def rt0_def rt1_def)
    have transfer: "(kept res current rt1 current' rt' \<or> adopted lib env res current rt1 current' rt'
        \<or> undone lib env res current rt1 current' rt') \<and> rt_path rt' = rt_path rt1 \<Longrightarrow> ?thesis"
      unfolding kept_def adopted_def undone_def same by simp
    show ?thesis
    proof (cases "\<exists>remote. FetchConfig (lib_config lib) (lib_message lib) (se_config_wellformed env) (se_config_reply env) = Inr remote
        \<and> cfg_version current < rem_version remote \<and> (hr_config_changed heartbeat \<or> hr_config_version heartbeat \<noteq> cfg_version current)")
      case True
      then obtain remote where r: "FetchConfig (lib_config lib) (lib_message lib) (se_config_wellformed env) (se_config_reply env) = Inr remote"
          "cfg_version current < rem_version remote" "hr_config_changed heartbeat \<or> hr_config_version heartbeat \<noteq> cfg_version current"
        by blast
      have "\<not> rem_version remote < cfg_version current" "rem_version remote \<noteq> cfg_version current"
        using r(2) by auto
      with r(1,3) have "adopt lib env (current\<lparr>cfg_version := rem_version remote, cfg_rules := rem_rules remote\<rparr>) current
          (heartbeat_interval (hr_interval_seconds heartbeat)) rt1 = (res, current', rt')"
        using f by (auto simp: follow_def Let_def)
      from adopt_cases [OF this _ refl r(2)] assms(2) same(1) show ?thesis by (intro transfer) simp
    next
      case False
      have "kept res current rt1 current' rt' \<and> rt_path rt' = rt_path rt1"
      proof (cases "hr_config_changed heartbeat \<or> hr_config_version heartbeat \<noteq> cfg_version current")
        case False
        then show ?thesis using f by (auto simp: follow_def Let_def kept_def)
      next
        case asked: True
        show ?thesis
        proof (cases "FetchConfig (lib_config lib) (lib_message lib) (se_config_wellformed env) (se_config_reply env)")
          case (Inl e)
          then show ?thesis using f asked by (auto simp: follow_def Let_def kept_def)
        next
          case (Inr remote)
          then have "\<not> cfg_version current < rem_version remote" using False asked by blast
          then have "rem_version remote < cfg_version current \<or> rem_version remote = cfg_version current" by auto
          then show ?thesis
            using f asked Inr by (elim disjE) (auto simp: follow_def Let_def kept_def split: if_splits)
        qed
      qed
      then show ?thesis by (intro transfer) simp
    qed
  qed
qed

section \<open>Runs\<close>

text \<open>
  What every iteration keeps: a valid configuration of the node whose identity does not change, a manager that belongs to
  the node, and a configuration file that holds the current configuration.
\<close>

definition faithful :: "library \<Rightarrow> (string \<Rightarrow> agent_cfg option) \<Rightarrow> bool" where
  "faithful lib decode \<longleftrightarrow> (\<forall>c contents. lib_encode lib c = Some contents \<longrightarrow> decode (contents @ [CHR 0x0A]) = Some c)"

definition agent_inv :: "(string \<Rightarrow> agent_cfg option) \<Rightarrow> agent_cfg \<Rightarrow> agent_cfg \<Rightarrow> runtime \<Rightarrow> bool" where
  "agent_inv decode c0 current rt \<longleftrightarrow> config_validate current = None
     \<and> current = c0\<lparr>cfg_version := cfg_version current, cfg_rules := cfg_rules current\<rparr>
     \<and> cfg_version c0 \<le> cfg_version current
     \<and> mgr_reach (cfg_node c0) (rt_manager rt)
     \<and> Load decode True (rt_path rt) (rt_disk rt) = Inr current"

lemma Load_path_only: "map_of d p = map_of e p \<Longrightarrow> Load decode b p d = Load decode b p e"
  by (simp add: Load_def)

lemma Load_valid: "Load decode b p d = Inr c \<Longrightarrow> config_validate c = None"
  by (auto simp: Load_def split: option.splits if_splits)

lemma saved_loads:
  assumes "Save (lib_encode lib) so path c d = (trace, Inr ())" "faithful lib decode"
  shows "Load decode True path (saved_disk d trace) = Inr c"
  using Save_ok [OF assms(1)] assms(2) by (auto simp: Load_def faithful_def)

lemma synchronize_inv:
  assumes "synchronize lib env current rt = (res, current', rt')" "agent_inv decode c0 current rt" "faithful lib decode"
  shows "agent_inv decode c0 current' rt'"
proof -
  have reach: "mgr_reach (cfg_node c0) (rt_manager rt)" and load: "Load decode True (rt_path rt) (rt_disk rt) = Inr current"
    using assms(2) by (simp_all add: agent_inv_def)
  from synchronize_cases [OF assms(1) reach] have path: "rt_path rt' = rt_path rt"
    and out: "kept res current rt current' rt' \<or> adopted lib env res current rt current' rt' \<or> undone lib env res current rt current' rt'"
    by simp_all
  from out show ?thesis
  proof (elim disjE)
    assume "kept res current rt current' rt'"
    with assms(2) path show ?thesis by (simp add: kept_def agent_inv_def)
  next
    assume "adopted lib env res current rt current' rt'"
    then obtain trace where a: "cfg_version current < cfg_version current'"
        "current' = current\<lparr>cfg_version := cfg_version current', cfg_rules := cfg_rules current'\<rparr>"
        "Apply (se_os env) (se_applied_at env) (cfg_rules current') (rt_manager rt) = (rt_manager rt', Inr ())"
        "Save (lib_encode lib) (se_save env) (rt_path rt) current' (rt_disk rt) = (trace, Inr ())"
        "rt_disk rt' = saved_disk (rt_disk rt) trace"
      unfolding adopted_def by blast
    have "Load decode True (rt_path rt') (rt_disk rt') = Inr current'"
      unfolding path a(5) by (rule saved_loads [OF a(4) assms(3)])
    moreover have "current' = c0\<lparr>cfg_version := cfg_version current', cfg_rules := cfg_rules current'\<rparr>"
    proof -
      have "current = c0\<lparr>cfg_version := cfg_version current, cfg_rules := cfg_rules current\<rparr>"
        using assms(2) by (simp add: agent_inv_def)
      then have "current\<lparr>cfg_version := cfg_version current', cfg_rules := cfg_rules current'\<rparr>
          = c0\<lparr>cfg_version := cfg_version current', cfg_rules := cfg_rules current'\<rparr>"
        by (metis (no_types, lifting) agent_cfg.surjective agent_cfg.update_convs(1,6))
      with a(2) show ?thesis by simp
    qed
    moreover have "cfg_version c0 \<le> cfg_version current'"
    proof -
      have "cfg_version c0 \<le> cfg_version current" using assms(2) by (simp add: agent_inv_def)
      with a(1) show ?thesis by (meson less_imp_le order.trans)
    qed
    ultimately show ?thesis
      using Save_ok [OF a(4)] Apply_runs(1) [OF reach a(3)] unfolding agent_inv_def by blast
  next
    assume "undone lib env res current rt current' rt'"
    then obtain candidate trace mgr e r where u: "Apply (se_os env) (se_applied_at env) (cfg_rules candidate) (rt_manager rt) = (mgr, Inr ())"
        "Save (lib_encode lib) (se_save env) (rt_path rt) candidate (rt_disk rt) = (trace, Inl e)"
        "rt_disk rt' = saved_disk (rt_disk rt) trace" "current' = current"
        "Apply (se_rollback_os env) (se_rolled_back_at env) (cfg_rules current) mgr = (rt_manager rt', r)"
      unfolding undone_def by blast
    have "Load decode True (rt_path rt') (rt_disk rt') = Inr current'"
      using load Load_path_only [OF Save_error [OF u(2)]] path u(3,4) by simp
    moreover have "mgr_reach (cfg_node c0) (rt_manager rt')"
    proof -
      have "mgr_reach (cfg_node c0) mgr" using Apply_runs(1) [OF reach u(1)] .
      from mgr_reach.apply_step [OF this, of "se_rollback_os env" "se_rolled_back_at env" "cfg_rules current"] u(5)
      show ?thesis by simp
    qed
    ultimately show ?thesis using assms(2) u(4) by (simp add: agent_inv_def)
  qed
qed

text \<open>Whether the rollback of one of the iterations failed.\<close>

fun rollback_failed :: "library \<Rightarrow> sync_env list \<Rightarrow> run_state \<Rightarrow> bool" where
  "rollback_failed lib [] s = False"
| "rollback_failed lib (env # envs) s =
     ((case fst (synchronize lib env (rs_config s) (rs_runtime s)) of Inl (SaveRollbackFailed e f) \<Rightarrow> True | _ \<Rightarrow> False)
      \<or> rollback_failed lib envs (run_tick lib env s))"

lemma tick_fields:
  assumes "synchronize lib env (rs_config s) (rs_runtime s) = (res, current', rt')"
  shows "rs_config (run_tick lib env s) = current'" "rt_manager (rs_runtime (run_tick lib env s)) = rt_manager rt'"
    "rt_disk (rs_runtime (run_tick lib env s)) = rt_disk rt'" "rt_path (rs_runtime (run_tick lib env s)) = rt_path rt'"
  using assms by (cases res; simp add: run_tick_def Let_def)+

lemma tick_inv:
  assumes "agent_inv decode c0 (rs_config s) (rs_runtime s)" "faithful lib decode"
  shows "agent_inv decode c0 (rs_config (run_tick lib env s)) (rs_runtime (run_tick lib env s))"
proof -
  obtain res current' rt' where t: "synchronize lib env (rs_config s) (rs_runtime s) = (res, current', rt')" by (metis prod_cases3)
  from synchronize_inv [OF t assms] show ?thesis unfolding agent_inv_def tick_fields [OF t] .
qed

lemma tick_runs:
  assumes "agent_inv decode c0 (rs_config s) (rs_runtime s)"
    and "runs_rules (cfg_node c0) (cfg_rules (rs_config s)) (rt_manager (rs_runtime s))"
    and "\<not> rollback_failed lib [env] s"
  shows "runs_rules (cfg_node c0) (cfg_rules (rs_config (run_tick lib env s))) (rt_manager (rs_runtime (run_tick lib env s)))"
proof -
  obtain res current' rt' where t: "synchronize lib env (rs_config s) (rs_runtime s) = (res, current', rt')" by (metis prod_cases3)
  have reach: "mgr_reach (cfg_node c0) (rt_manager (rs_runtime s))" using assms(1) by (simp add: agent_inv_def)
  have ok: "res \<noteq> Inl (SaveRollbackFailed e f)" for e f using assms(3) t by auto
  from synchronize_cases [OF t reach] show ?thesis
    unfolding tick_fields [OF t]
  proof (elim conjE disjE)
    assume "kept res (rs_config s) (rs_runtime s) current' rt'"
    with assms(2) show "runs_rules (cfg_node c0) (cfg_rules current') (rt_manager rt')" by (simp add: kept_def)
  next
    assume "adopted lib env res (rs_config s) (rs_runtime s) current' rt'"
    then have "Apply (se_os env) (se_applied_at env) (cfg_rules current') (rt_manager (rs_runtime s)) = (rt_manager rt', Inr ())"
      unfolding adopted_def by blast
    then show "runs_rules (cfg_node c0) (cfg_rules current') (rt_manager rt')" by (rule Apply_runs(2) [OF reach])
  next
    assume "undone lib env res (rs_config s) (rs_runtime s) current' rt'"
    then obtain candidate trace mgr e r where u: "Apply (se_os env) (se_applied_at env) (cfg_rules candidate) (rt_manager (rs_runtime s)) = (mgr, Inr ())"
        "current' = rs_config s"
        "Save (lib_encode lib) (se_save env) (rt_path (rs_runtime s)) candidate (rt_disk (rs_runtime s)) = (trace, Inl e)"
        "rt_disk rt' = saved_disk (rt_disk (rs_runtime s)) trace"
        "Apply (se_rollback_os env) (se_rolled_back_at env) (cfg_rules (rs_config s)) mgr = (rt_manager rt', r)"
        "res = Inl (case r of Inr _ \<Rightarrow> SaveFailed e | Inl f \<Rightarrow> SaveRollbackFailed e f)"
      unfolding undone_def by blast
    have "r = Inr ()" using ok u(6) by (cases r) auto
    with u(5) have "Apply (se_rollback_os env) (se_rolled_back_at env) (cfg_rules current') mgr = (rt_manager rt', Inr ())"
      unfolding u(2) by simp
    then show "runs_rules (cfg_node c0) (cfg_rules current') (rt_manager rt')"
      by (rule Apply_runs(2) [OF Apply_runs(1) [OF reach u(1)]])
  qed
qed

lemma ticks_inv:
  assumes "agent_inv decode c0 (rs_config s) (rs_runtime s)" "faithful lib decode"
  shows "agent_inv decode c0 (rs_config (run_ticks lib envs s)) (rs_runtime (run_ticks lib envs s))"
  using assms(1) by (induction envs arbitrary: s) (simp_all add: run_ticks_def tick_inv assms(2))

lemma ticks_runs:
  assumes "agent_inv decode c0 (rs_config s) (rs_runtime s)" "faithful lib decode"
    and "runs_rules (cfg_node c0) (cfg_rules (rs_config s)) (rt_manager (rs_runtime s))" "\<not> rollback_failed lib envs s"
  shows "runs_rules (cfg_node c0) (cfg_rules (rs_config (run_ticks lib envs s))) (rt_manager (rs_runtime (run_ticks lib envs s)))"
  using assms(1,3,4)
proof (induction envs arbitrary: s)
  case (Cons env envs)
  from Cons.IH [OF tick_inv [OF Cons.prems(1) assms(2)] tick_runs [OF Cons.prems(1,2)]] Cons.prems(3)
  show ?case by (simp add: run_ticks_def)
qed (simp add: run_ticks_def)

lemma run_start_ok:
  assumes "run_start os now c0 rt0 = Inr s0" "mgr_reach (cfg_node c0) (rt_manager rt0)"
    and "Load decode True (rt_path rt0) (rt_disk rt0) = Inr c0"
  shows "agent_inv decode c0 (rs_config s0) (rs_runtime s0)"
    "runs_rules (cfg_node c0) (cfg_rules (rs_config s0)) (rt_manager (rs_runtime s0))" "rs_delay s0 = 0"
proof -
  obtain mgr where m: "config_validate c0 = None" "Apply os now (cfg_rules c0) (rt_manager rt0) = (mgr, Inr ())"
      "s0 = \<lparr>rs_config = c0, rs_runtime = rt0\<lparr>rt_manager := mgr\<rparr>, rs_failures = 0, rs_delay = 0\<rparr>"
    using assms(1) by (auto simp: run_start_def split: option.splits prod.splits sum.splits)
  show "agent_inv decode c0 (rs_config s0) (rs_runtime s0)"
    using m(1) assms(3) Apply_runs(1) [OF assms(2) m(2)] by (simp add: m(3) agent_inv_def)
  show "runs_rules (cfg_node c0) (cfg_rules (rs_config s0)) (rt_manager (rs_runtime s0))" "rs_delay s0 = 0"
    using Apply_runs(2) [OF assms(2) m(2)] by (simp_all add: m(3))
qed

section \<open>Guarantees\<close>

text \<open>
  C35: an agent is always consistent with its disk, and runs what it says it runs. Start it with the configuration its
  file holds and let it synchronise any number of times, whatever the network, the operating system and the file system
  answer: the file always loads as the current configuration, which is valid, keeps the identity of the node and never
  goes back to a lower version; and unless the rollback of a failed save has failed, the forwarding manager runs exactly
  the enabled rules of the current configuration.
\<close>

theorem agent_consistent:
  assumes "run_start os now c0 rt0 = Inr s0" "mgr_reach (cfg_node c0) (rt_manager rt0)"
    and "Load decode True (rt_path rt0) (rt_disk rt0) = Inr c0" "faithful lib decode"
    and "s = run_ticks lib envs s0"
  shows "Load decode True (rt_path (rs_runtime s)) (rt_disk (rs_runtime s)) = Inr (rs_config s)
    \<and> config_validate (rs_config s) = None \<and> cfg_version c0 \<le> cfg_version (rs_config s)
    \<and> rs_config s = c0\<lparr>cfg_version := cfg_version (rs_config s), cfg_rules := cfg_rules (rs_config s)\<rparr>
    \<and> (\<not> rollback_failed lib envs s0 \<longrightarrow> runs_rules (cfg_node c0) (cfg_rules (rs_config s)) (rt_manager (rs_runtime s)))"
proof -
  note start = run_start_ok [OF assms(1-3)]
  have "agent_inv decode c0 (rs_config s) (rs_runtime s)" unfolding assms(5) by (rule ticks_inv [OF start(1) assms(4)])
  moreover have "\<not> rollback_failed lib envs s0 \<longrightarrow> runs_rules (cfg_node c0) (cfg_rules (rs_config s)) (rt_manager (rs_runtime s))"
    unfolding assms(5) using ticks_runs [OF start(1) assms(4) start(2)] by blast
  ultimately show ?thesis unfolding agent_inv_def by blast
qed

text \<open>
  One synchronisation is all or nothing. When it reports an error the configuration is the old one, the file loads
  as before, and the manager is untouched or back on the old rules unless the error says that the rollback failed; when
  it succeeds either nothing has changed, or a strictly newer valid configuration is current, saved and running.
\<close>

theorem synchronize_all_or_nothing:
  assumes "synchronize lib env current rt = (res, current', rt')" "mgr_reach nid (rt_manager rt)" "faithful lib decode"
  shows "case res of
      Inl e \<Rightarrow> current' = current \<and> Load decode True (rt_path rt') (rt_disk rt') = Load decode True (rt_path rt) (rt_disk rt)
        \<and> (rt_manager rt' = rt_manager rt \<or> runs_rules nid (cfg_rules current) (rt_manager rt') \<or> (\<exists>a b. e = SaveRollbackFailed a b))
    | Inr interval \<Rightarrow> current' = current \<and> rt_manager rt' = rt_manager rt \<and> rt_disk rt' = rt_disk rt
        \<or> cfg_version current < cfg_version current' \<and> Load decode True (rt_path rt') (rt_disk rt') = Inr current'
          \<and> runs_rules nid (cfg_rules current') (rt_manager rt')"
proof -
  from synchronize_cases [OF assms(1,2)] have path: "rt_path rt' = rt_path rt"
    and out: "kept res current rt current' rt' \<or> adopted lib env res current rt current' rt' \<or> undone lib env res current rt current' rt'"
    by simp_all
  from out show ?thesis
  proof (elim disjE)
    assume "kept res current rt current' rt'"
    with path show ?thesis by (cases res) (simp_all add: kept_def)
  next
    assume "adopted lib env res current rt current' rt'"
    then obtain interval trace where a: "res = Inr interval" "cfg_version current < cfg_version current'"
        "Apply (se_os env) (se_applied_at env) (cfg_rules current') (rt_manager rt) = (rt_manager rt', Inr ())"
        "Save (lib_encode lib) (se_save env) (rt_path rt) current' (rt_disk rt) = (trace, Inr ())"
        "rt_disk rt' = saved_disk (rt_disk rt) trace"
      unfolding adopted_def by blast
    have "Load decode True (rt_path rt') (rt_disk rt') = Inr current'"
      unfolding path a(5) by (rule saved_loads [OF a(4) assms(3)])
    with a(1,2) Apply_runs(2) [OF assms(2) a(3)] show ?thesis by simp
  next
    assume "undone lib env res current rt current' rt'"
    then obtain candidate trace mgr e r where u: "Apply (se_os env) (se_applied_at env) (cfg_rules candidate) (rt_manager rt) = (mgr, Inr ())"
        "Save (lib_encode lib) (se_save env) (rt_path rt) candidate (rt_disk rt) = (trace, Inl e)"
        "rt_disk rt' = saved_disk (rt_disk rt) trace" "current' = current"
        "Apply (se_rollback_os env) (se_rolled_back_at env) (cfg_rules current) mgr = (rt_manager rt', r)"
        "res = Inl (case r of Inr _ \<Rightarrow> SaveFailed e | Inl f \<Rightarrow> SaveRollbackFailed e f)"
      unfolding undone_def by blast
    have load: "Load decode True (rt_path rt') (rt_disk rt') = Load decode True (rt_path rt) (rt_disk rt)"
      unfolding path u(3) by (rule Load_path_only [OF Save_error [OF u(2)]])
    show ?thesis
    proof (cases r)
      case (Inl f)
      with u(4,6) load show ?thesis by simp
    next
      case (Inr x)
      with u(5) have "Apply (se_rollback_os env) (se_rolled_back_at env) (cfg_rules current) mgr = (rt_manager rt', Inr ())" by simp
      from Apply_runs(2) [OF Apply_runs(1) [OF assms(2) u(1)] this] u(4,6) load Inr show ?thesis by simp
    qed
  qed
qed

text \<open>
  The agent never spins and never falls silent. The delay before a retry doubles from 15 seconds and stops at two
  minutes, and whatever interval the control plane asks for (its product with a second wraps at 64 bits), the next
  heartbeat comes after five seconds to five minutes.
\<close>

theorem agent_delays:
  "retryDelay failures = min (2 * go_minute) (15 * go_second * 2 ^ nat (failures - 1))
    \<and> 5 * go_second \<le> rs_delay (run_tick lib env s) \<and> rs_delay (run_tick lib env s) \<le> 5 * go_minute"
proof -
  obtain res current' rt' where t: "synchronize lib env (rs_config s) (rs_runtime s) = (res, current', rt')" by (metis prod_cases3)
  show ?thesis
  proof (cases res)
    case (Inl e)
    with t have "rs_delay (run_tick lib env s) = retryDelay (rs_failures s + 1)" by (simp add: run_tick_def Let_def)
    with retryDelay_bounds [of "rs_failures s + 1"]
    have "15 * go_second \<le> rs_delay (run_tick lib env s)" "rs_delay (run_tick lib env s) \<le> 2 * go_minute"
      by (simp_all only:)
    then have "5 * go_second \<le> rs_delay (run_tick lib env s) \<and> rs_delay (run_tick lib env s) \<le> 5 * go_minute" by linarith
    with retryDelay_eq show ?thesis by blast
  next
    case (Inr interval)
    have "\<exists>n. interval = heartbeat_interval n"
      using t Inr by (auto simp: synchronize_def follow_def adopt_def Let_def split: prod.splits sum.splits if_splits option.splits)
    then obtain n where "interval = heartbeat_interval n" by blast
    moreover have "rs_delay (run_tick lib env s) = interval" using t Inr by (simp add: run_tick_def)
    ultimately have "5 * go_second \<le> rs_delay (run_tick lib env s) \<and> rs_delay (run_tick lib env s) \<le> 5 * go_minute"
      using heartbeat_interval_bounds [of n] by simp
    with retryDelay_eq show ?thesis by blast
  qed
qed


section \<open>An example\<close>

definition example_cfg :: agent_cfg where
  "example_cfg = \<lparr>cfg_version = 1, cfg_control_url = ''https://c'', cfg_node = ''B'', cfg_credential = ''key'',
     cfg_tunnel = [], cfg_rules = []\<rparr>"

definition example_cfg2 :: agent_cfg where
  "example_cfg2 = example_cfg\<lparr>cfg_version := 2, cfg_rules := [web_rule ''r1'' 8080]\<rparr>"

definition example_decode :: "string \<Rightarrow> agent_cfg option" where
  "example_decode text = (if text = ''1'' @ [CHR 0x0A] then Some example_cfg
     else if text = ''2'' @ [CHR 0x0A] then Some example_cfg2 else None)"

definition example_lib :: library where
  "example_lib = \<lparr>lib_float = \<lambda>_. Fin 0,
     lib_response = \<lambda>_. Some \<lparr>hr_server_time = 0, hr_config_version = 2, hr_config_changed = True, hr_interval_seconds = 30\<rparr>,
     lib_config = \<lambda>_. Some \<lparr>rem_version = 2, rem_rules = [web_rule ''r1'' 8080]\<rparr>, lib_message = \<lambda>_. [],
     lib_encode = \<lambda>c. if c = example_cfg then Some ''1'' else if c = example_cfg2 then Some ''2'' else None,
     lib_lower = id, lib_text = \<lambda>_. [], lib_retry = \<lambda>_ _. []\<rparr>"

definition example_save :: save_outcome where
  "example_save = \<lparr>so_mkdir = True, so_open = True, so_chmod = True, so_write = True, so_written = 0, so_sync = True,
     so_close = True, so_rename = True, so_remove = True\<rparr>"

definition example_env :: sync_env where
  "example_env = \<lparr>se_files = \<lparr>pf_stat = None, pf_meminfo = None, pf_loadavg = None, pf_blocks = None, pf_netdev = None\<rparr>,
     se_sampled_at = 1, se_stats = Stats [] [], se_logged = [], se_marshals = True, se_wellformed = True,
     se_reply = Some \<lparr>reply_code = 200, reply_status = [], reply_body = []\<rparr>, se_config_wellformed = True,
     se_config_reply = Some \<lparr>reply_code = 200, reply_status = [], reply_body = []\<rparr>, se_os = example_os, se_applied_at = 5,
     se_rollback_os = example_os, se_rolled_back_at = 6, se_save = example_save, se_log_at = 7\<rparr>"

definition example_agent :: runtime where
  "example_agent = NewRuntime [(''c'', ''1'' @ [CHR 0x0A])] ''c'' (NewManager ''B'') ''dev'' None"

definition example_state :: run_state where
  "example_state = \<lparr>rs_config = example_cfg, rs_runtime = example_agent, rs_failures = 0, rs_delay = 0\<rparr>"

lemma example_apply_none: "Apply example_os 4 [] (NewManager ''B'') = (NewManager ''B'', Inr ())"
  by (simp add: Apply_def NewManager_def prepareRules_def Let_def next_forwarders_def next_for_def next_limiters_def
    retired_def close_all_def)

lemma example_cfgs_differ: "example_cfg2 \<noteq> example_cfg"
  by (simp add: example_cfg2_def example_cfg_def)

lemma example_cfg_valid: "config_validate example_cfg = None" "config_validate example_cfg2 = None"
  by (simp_all add: config_validate_None example_cfg_def example_cfg2_def rule_fits_def web_rule_valid belongs_to_node_def)
    (simp_all add: web_rule_def)

lemma example_start: "run_start example_os 4 example_cfg example_agent = Inr example_state"
  using example_apply_none
  by (simp add: run_start_def example_cfg_valid example_agent_def NewRuntime_def example_state_def)
    (simp add: example_cfg_def)

lemma example_faithful: "faithful example_lib example_decode"
  by (simp add: faithful_def example_lib_def example_decode_def)

lemma example_loads: "Load example_decode True (rt_path example_agent) (rt_disk example_agent) = Inr example_cfg"
  by (simp add: Load_def example_agent_def NewRuntime_def example_decode_def example_cfg_valid)

lemma example_agent_manager: "rt_manager example_agent = NewManager ''B''" "cfg_node example_cfg = ''B''"
  by (simp_all add: example_agent_def NewRuntime_def example_cfg_def)

lemma example_replies:
  "SendHeartbeat (lib_response example_lib) (lib_message example_lib) (se_marshals example_env) (se_wellformed example_env)
     (se_reply example_env) = Inr \<lparr>hr_server_time = 0, hr_config_version = 2, hr_config_changed = True, hr_interval_seconds = 30\<rparr>"
  "FetchConfig (lib_config example_lib) (lib_message example_lib) (se_config_wellformed example_env)
     (se_config_reply example_env) = Inr \<lparr>rem_version = 2, rem_rules = [web_rule ''r1'' 8080]\<rparr>"
  by (simp_all add: SendHeartbeat_def FetchConfig_def request_def example_lib_def example_env_def web_rule_valid Let_def)

lemma example_saves:
  "Save (lib_encode example_lib) (se_save example_env) (rt_path example_agent) example_cfg2 (rt_disk example_agent)
     = ([[(''c'', ''1'' @ [CHR 0x0A]), (''c.tmp'', [])], [(''c'', ''1'' @ [CHR 0x0A]), (''c.tmp'', ''2'' @ [CHR 0x0A])],
         [(''c'', ''2'' @ [CHR 0x0A])]], Inr ())"
  by (simp add: Save_def example_cfg_valid example_lib_def example_cfgs_differ example_env_def example_save_def
    example_agent_def NewRuntime_def temporary_path_def gput_Cons gdel_Cons Let_def)

lemma cfg2_rules: "cfg_rules example_cfg2 = [web_rule ''r1'' 8080]" "cfg_version example_cfg2 = 2"
  by (simp_all add: example_cfg2_def)

lemma example_candidate: "example_cfg\<lparr>cfg_version := 2, cfg_rules := [web_rule ''r1'' 8080]\<rparr> = example_cfg2"
  by (simp add: example_cfg2_def)

lemma example_apply_rules: "Apply (se_os example_env) (se_applied_at example_env) [web_rule ''r1'' 8080] (rt_manager example_agent) = (example_manager, Inr ())"
  using example_apply by (simp add: example_env_def example_agent_manager)

lemma example_synchronize:
  "\<exists>interval rt'. synchronize example_lib example_env example_cfg example_agent = (Inr interval, example_cfg2, rt')"
proof -
  have "\<not> (2 :: u64) < cfg_version example_cfg" "2 \<noteq> cfg_version example_cfg" by (simp_all add: example_cfg_def)
  then show ?thesis
    by (simp add: synchronize_def follow_def adopt_def Let_def split_beta example_replies example_candidate
      example_cfg_valid example_cfgs_differ cfg2_rules example_apply_rules example_saves)
qed

theorem agent_consistent_witness:
  "\<exists>s. s = run_ticks example_lib [example_env] example_state \<and> rs_config s = example_cfg2
    \<and> Load example_decode True (rt_path (rs_runtime s)) (rt_disk (rs_runtime s)) = Inr example_cfg2
    \<and> runs_rules ''B'' [web_rule ''r1'' 8080] (rt_manager (rs_runtime s))"
proof -
  let ?s = "run_ticks example_lib [example_env] example_state"
  obtain interval rt' where sync: "synchronize example_lib example_env example_cfg example_agent = (Inr interval, example_cfg2, rt')"
    using example_synchronize by blast
  have state: "rs_config example_state = example_cfg" "rs_runtime example_state = example_agent" by (simp_all add: example_state_def)
  have "rs_config ?s = example_cfg2" using sync by (simp add: run_ticks_def run_tick_def state)
  moreover have "\<not> rollback_failed example_lib [example_env] example_state" using sync by (simp add: state)
  moreover have "mgr_reach (cfg_node example_cfg) (rt_manager example_agent)"
    unfolding example_agent_manager by (rule mgr_reach.start)
  from agent_consistent [OF example_start this example_loads example_faithful refl]
  have "Load example_decode True (rt_path (rs_runtime ?s)) (rt_disk (rs_runtime ?s)) = Inr (rs_config ?s)"
    "\<not> rollback_failed example_lib [example_env] example_state
       \<longrightarrow> runs_rules (cfg_node example_cfg) (cfg_rules (rs_config ?s)) (rt_manager (rs_runtime ?s))"
    by blast+
  ultimately show ?thesis by (simp add: cfg2_rules example_agent_manager)
qed

theorem synchronize_all_or_nothing_witness:
  "\<exists>interval rt'. synchronize example_lib example_env example_cfg example_agent = (Inr interval, example_cfg2, rt')
    \<and> Load example_decode True (rt_path rt') (rt_disk rt') = Inr example_cfg2
    \<and> runs_rules ''B'' [web_rule ''r1'' 8080] (rt_manager rt')"
proof -
  obtain interval rt' where sync: "synchronize example_lib example_env example_cfg example_agent = (Inr interval, example_cfg2, rt')"
    using example_synchronize by blast
  have "mgr_reach ''B'' (rt_manager example_agent)" unfolding example_agent_manager by (rule mgr_reach.start)
  from synchronize_all_or_nothing [OF sync this example_faithful]
  have "Load example_decode True (rt_path rt') (rt_disk rt') = Inr example_cfg2 \<and> runs_rules ''B'' [web_rule ''r1'' 8080] (rt_manager rt')"
    using example_cfgs_differ by (simp add: cfg2_rules)
  with sync show ?thesis by blast
qed


theorem validated_config_prepares_witness:
  "\<exists>D. prepareRules [web_rule ''r1'' 8080] ''B'' = Inr D \<and> map fst D = [''r1'']"
proof -
  have "prepareRules [web_rule ''r1'' 8080] ''B'' \<noteq> Inl e" for e using web_rule_prepared(1) by auto
  with validated_config_prepares [OF example_cfg_valid(2)] show ?thesis
    by (cases "prepareRules [web_rule ''r1'' 8080] ''B''") (auto simp: cfg2_rules example_cfg2_def example_cfg_def web_rule_def)
qed

theorem Save_atomic_witness:
  "\<exists>trace. Save (lib_encode example_lib) (se_save example_env) (rt_path example_agent) example_cfg2 (rt_disk example_agent) = (trace, Inr ())
     \<and> Load example_decode True (rt_path example_agent) (saved_disk (rt_disk example_agent) trace) = Inr example_cfg2"
proof -
  have "\<forall>contents. lib_encode example_lib example_cfg2 = Some contents \<longrightarrow> example_decode (contents @ [CHR 0x0A]) = Some example_cfg2"
    using example_faithful by (auto simp: faithful_def)
  from Save_atomic [OF example_saves this] example_saves show ?thesis by auto
qed

end
