(* ===== verification/AgentMain.thy ===== *)
theory AgentMain
  imports AgentRuntime
begin

text \<open>
  \<open>cmd/agent/main.go\<close>: what an agent process does before its loop: it reads its flags, enrolls or loads its
  configuration, possibly changes its tunnel address, and builds the control client, the log buffer, the manager and the
  runtime. Its exits (\<open>log.Fatal\<close> and the early returns) are values; log lines are left out.
\<close>

record agent_flags =
  fl_config :: string
  fl_control_url :: string
  fl_token :: string
  fl_token_file :: string
  fl_enroll_only :: bool
  fl_configure_only :: bool
  fl_name :: string
  fl_tunnel :: string
  fl_version :: bool

text \<open>What the process finds: the token file, the reply to its enrollment, and the outcomes of the file operations.\<close>

record start_env =
  st_parse_url :: "string \<Rightarrow> url option"
  st_token_file :: "token_file option"
  st_enrollment :: "string \<Rightarrow> enrollment_response option"
  st_message :: "string \<Rightarrow> string"
  st_marshals :: bool
  st_wellformed :: bool
  st_reply :: "http_reply option"
  st_encode :: "agent_cfg \<Rightarrow> string option"
  st_decode :: "string \<Rightarrow> agent_cfg option"
  st_readable :: bool
  st_save :: save_outcome
  st_random :: "string option"
  st_hex_now :: string
  st_agent_version :: string

datatype fatal =
    TwoTokens | TokenFile token_error | ConfigureWhileEnrolling | URLAndNameRequired | EnrollFailed client_error
  | SaveIdentity save_error | EnrollOnlyWithoutToken | ConfigureOnlyWithoutTunnel | LoadFailed load_error
  | SaveTunnel save_error | ClientFailed client_error

datatype start_result =
    Fatal fatal | VersionShown | EnrolledOnly | WaitingForEnrollment | Configured
  | Started agent_cfg control_client runtime

definition enrolled_cfg :: "agent_flags \<Rightarrow> enrollment_response \<Rightarrow> agent_cfg" where
  "enrolled_cfg fl en =
     \<lparr>cfg_version = 1, cfg_control_url = trim_slashes (fl_control_url fl), cfg_node = en_node en,
      cfg_credential = en_credential en, cfg_tunnel = trim_space (fl_tunnel fl), cfg_rules = []\<rparr>"

text \<open>The token of the flags or of the token file.\<close>

definition start_token :: "agent_flags \<Rightarrow> start_env \<Rightarrow> fatal + string" where
  "start_token fl env =
     (let token = trim_space (fl_token fl) in
      if fl_token_file fl \<noteq> []
      then if token \<noteq> [] then Inl TwoTokens
           else (case ReadEnrollmentToken (st_token_file env) of Inl e \<Rightarrow> Inl (TokenFile e) | Inr t \<Rightarrow> Inr t)
      else Inr token)"

text \<open>The enrollment of a node: a result to return at once (\<open>Inl\<close>), or the configuration to run, and the disk.\<close>

definition start_enroll :: "agent_flags \<Rightarrow> start_env \<Rightarrow> disk \<Rightarrow> (start_result + agent_cfg) \<times> disk" where
  "start_enroll fl env d =
     (if fl_configure_only fl then (Inl (Fatal ConfigureWhileEnrolling), d)
      else if trim_space (fl_control_url fl) = [] \<or> trim_space (fl_name fl) = [] then (Inl (Fatal URLAndNameRequired), d)
      else case Enroll (st_parse_url env) (st_enrollment env) (st_message env) (fl_control_url fl) (st_marshals env)
                  (st_wellformed env) (st_reply env) of
        Inl e \<Rightarrow> (Inl (Fatal (EnrollFailed e)), d)
      | Inr en \<Rightarrow>
          let config = enrolled_cfg fl en;
              (trace, saved) = Save (st_encode env) (st_save env) (fl_config fl) config d
          in case saved of
               Inl e \<Rightarrow> (Inl (Fatal (SaveIdentity e)), saved_disk d trace)
             | Inr _ \<Rightarrow> (if fl_enroll_only fl then Inl EnrolledOnly else Inr config, saved_disk d trace))"

text \<open>The start from a saved configuration, with a change of the tunnel address where a flag gives another one.\<close>

definition start_load :: "agent_flags \<Rightarrow> start_env \<Rightarrow> disk \<Rightarrow> (start_result + agent_cfg) \<times> disk" where
  "start_load fl env d =
     (if fl_enroll_only fl then (Inl (Fatal EnrollOnlyWithoutToken), d)
      else if fl_configure_only fl \<and> trim_space (fl_tunnel fl) = [] then (Inl (Fatal ConfigureOnlyWithoutTunnel), d)
      else case Load (st_decode env) (st_readable env) (fl_config fl) d of
        Inl e \<Rightarrow> (Inl (if e = LoadMissing then WaitingForEnrollment else Fatal (LoadFailed e)), d)
      | Inr config \<Rightarrow>
          let value = trim_space (fl_tunnel fl) in
          if value \<noteq> [] \<and> value \<noteq> cfg_tunnel config
          then let config' = config\<lparr>cfg_tunnel := value\<rparr>;
                   (trace, saved) = Save (st_encode env) (st_save env) (fl_config fl) config' d
               in case saved of
                    Inl e \<Rightarrow> (Inl (Fatal (SaveTunnel e)), saved_disk d trace)
                  | Inr _ \<Rightarrow> (if fl_configure_only fl then Inl Configured else Inr config', saved_disk d trace)
          else (if fl_configure_only fl then Inl Configured else Inr config, d))"

definition agent_main :: "agent_flags \<Rightarrow> start_env \<Rightarrow> disk \<Rightarrow> start_result \<times> disk" where
  "agent_main fl env d =
     (if fl_version fl then (VersionShown, d)
      else case start_token fl env of
        Inl e \<Rightarrow> (Fatal e, d)
      | Inr token \<Rightarrow>
          (case (if token \<noteq> [] then start_enroll fl env d else start_load fl env d) of
             (Inl res, d') \<Rightarrow> (res, d')
           | (Inr config, d') \<Rightarrow>
               (case NewControlClient (st_parse_url env) (cfg_control_url config) (cfg_node config) (cfg_credential config) of
                  Inl e \<Rightarrow> (Fatal (ClientFailed e), d')
                | Inr client \<Rightarrow>
                    (Started config client
                       (NewRuntime d' (fl_config fl) (NewManager (cfg_node config)) (st_agent_version env)
                          (Some (NewLogBuffer 1000 (st_random env) (st_hex_now env)))), d'))))"

section \<open>Guarantees\<close>

lemma Save_invalid: "config_validate c = Some e \<Longrightarrow> Save encode so path c d = ([], Inl (SaveInvalid e))"
  by (simp add: Save_def)

definition codec_faithful :: "start_env \<Rightarrow> bool" where
  "codec_faithful env \<longleftrightarrow> (\<forall>c contents. st_encode env c = Some contents \<longrightarrow> st_decode env (contents @ [CHR 0x0A]) = Some c)"

lemma saved_config_loads:
  assumes "Save (st_encode env) so path c d = (trace, Inr ())" "codec_faithful env"
  shows "Load (st_decode env) True path (saved_disk d trace) = Inr c"
  using Save_ok [OF assms(1)] assms(2) by (auto simp: Load_def codec_faithful_def)

lemma Load_readable: "Load decode b path d = Inr c \<Longrightarrow> Load decode True path d = Inr c"
  by (auto simp: Load_def split: option.splits if_splits)

lemma start_enroll_loads:
  assumes "start_enroll fl env d = (Inr config, d')" "codec_faithful env"
  shows "Load (st_decode env) True (fl_config fl) d' = Inr config"
proof -
  obtain en trace where en: "config = enrolled_cfg fl en" "Save (st_encode env) (st_save env) (fl_config fl) config d = (trace, Inr ())"
      "d' = saved_disk d trace"
    using assms(1) by (auto simp: start_enroll_def Let_def split: if_splits sum.splits prod.splits)
  from saved_config_loads [OF en(2) assms(2)] show ?thesis by (simp add: en(3))
qed

lemma not_started:
  "start_enroll fl env d \<noteq> (Inl (Started c cl rt), d')" "start_load fl env d \<noteq> (Inl (Started c cl rt), d')"
  by (auto simp: start_enroll_def start_load_def Let_def split: sum.splits prod.splits)

lemma start_load_loads:
  assumes "start_load fl env d = (Inr config, d')" "codec_faithful env"
  shows "Load (st_decode env) True (fl_config fl) d' = Inr config"
proof -
  obtain c where c: "Load (st_decode env) (st_readable env) (fl_config fl) d = Inr c"
      "c = config \<and> d' = d \<or> (\<exists>trace. Save (st_encode env) (st_save env) (fl_config fl) config d = (trace, Inr ()) \<and> d' = saved_disk d trace)"
    using assms(1) by (fastforce simp: start_load_def Let_def split: if_splits sum.splits prod.splits)
  from c(2) show ?thesis
  proof (elim disjE exE conjE)
    assume "c = config" "d' = d"
    with Load_readable [OF c(1)] show ?thesis by simp
  next
    fix trace assume "Save (st_encode env) (st_save env) (fl_config fl) config d = (trace, Inr ())" "d' = saved_disk d trace"
    with saved_config_loads [OF _ assms(2)] show ?thesis by simp
  qed
qed

text \<open>
  A process that starts its loop starts it consistently, from an enrollment or from its file: the configuration it
  runs with is valid and is what the file holds, its control client speaks for the node of that configuration, and its
  manager is a fresh one of that node. These are the hypotheses of the guarantees of the loop.
\<close>

theorem started_consistent:
  assumes "agent_main fl env d = (Started config client rt, d')" "codec_faithful env"
  shows "Load (st_decode env) True (rt_path rt) (rt_disk rt) = Inr config \<and> rt_disk rt = d'
    \<and> config_validate config = None \<and> mgr_reach (cfg_node config) (rt_manager rt) \<and> cfg_node config \<noteq> []
    \<and> cc_node client = cfg_node config \<and> cc_credential client = cfg_credential config"
proof -
  obtain token where t: "start_token fl env = Inr token"
      "(if token \<noteq> [] then start_enroll fl env d else start_load fl env d) = (Inr config, d')"
      "NewControlClient (st_parse_url env) (cfg_control_url config) (cfg_node config) (cfg_credential config) = Inr client"
      "rt = NewRuntime d' (fl_config fl) (NewManager (cfg_node config)) (st_agent_version env)
          (Some (NewLogBuffer 1000 (st_random env) (st_hex_now env)))"
    using assms(1) by (auto simp: agent_main_def not_started split: if_splits sum.splits prod.splits)
  have load: "Load (st_decode env) True (fl_config fl) d' = Inr config"
    using t(2) start_enroll_loads [OF _ assms(2)] start_load_loads [OF _ assms(2)] by (cases "token = []") auto
  have "trim_space (cfg_node config) \<noteq> []" "cc_node client = cfg_node config" "cc_credential client = cfg_credential config"
    using t(3) by (auto simp: NewControlClient_def split: sum.splits if_splits)
  moreover have "cfg_node config \<noteq> []" using calculation(1) by auto
  ultimately show ?thesis
    using load Load_valid [OF load] by (simp add: t(4) NewRuntime_def mgr_reach.start)
qed

text \<open>
  C37: the tunnel address of an egress node cannot be changed. When the saved configuration has an enabled relay rule
  whose egress is the node, starting the agent with another tunnel address (the documented way to change it) ends with a
  validation error, for the rule carries the old address as its relay host; the file is unchanged, so every start with
  that flag ends the same way.
\<close>

theorem tunnel_change_stuck:
  assumes "\<not> fl_version fl" "start_token fl env = Inr []" "\<not> fl_enroll_only fl"
    and "Load (st_decode env) (st_readable env) (fl_config fl) d = Inr c"
    and "r \<in> set (cfg_rules c)" "rule_mode r = ForwardRelay" "rule_enabled r" "rule_egress r = cfg_node c"
    and "trim_space (fl_tunnel fl) \<noteq> []" "trim_space (fl_tunnel fl) \<noteq> cfg_tunnel c"
  shows "\<exists>e. agent_main fl env d = (Fatal (SaveTunnel (SaveInvalid e)), d)"
proof -
  have "config_validate (c\<lparr>cfg_tunnel := trim_space (fl_tunnel fl)\<rparr>) \<noteq> None"
    by (rule tunnel_change_refused [OF Load_valid [OF assms(4)] assms(5-8,10)])
  then obtain e where "config_validate (c\<lparr>cfg_tunnel := trim_space (fl_tunnel fl)\<rparr>) = Some e" by blast
  then have "start_load fl env d = (Inl (Fatal (SaveTunnel (SaveInvalid e))), d)"
    using assms(3,4,9,10) by (simp add: start_load_def Save_invalid saved_disk_def)
  then show ?thesis using assms(1,2) by (simp add: agent_main_def)
qed

lemma bad_tunnel_refused:
  "trim_space (fl_tunnel fl) \<noteq> [] \<Longrightarrow> \<not> ValidTunnelAddress (trim_space (fl_tunnel fl)) \<Longrightarrow> config_validate (enrolled_cfg fl en) \<noteq> None"
  by (simp add: config_validate_None enrolled_cfg_def)

lemma enrollment_discarded:
  assumes "\<not> fl_version fl" "start_token fl env = Inr token" "token \<noteq> []" "\<not> fl_configure_only fl"
    and "trim_space (fl_control_url fl) \<noteq> []" "trim_space (fl_name fl) \<noteq> []"
    and "Enroll (st_parse_url env) (st_enrollment env) (st_message env) (fl_control_url fl) (st_marshals env)
          (st_wellformed env) (st_reply env) = Inr en"
    and "trim_space (fl_tunnel fl) \<noteq> []" "\<not> ValidTunnelAddress (trim_space (fl_tunnel fl))"
  shows "\<exists>e. agent_main fl env d = (Fatal (SaveIdentity (SaveInvalid e)), d)"
proof -
  obtain e where "config_validate (enrolled_cfg fl en) = Some e" using bad_tunnel_refused assms(8,9) by blast
  then have "start_enroll fl env d = (Inl (Fatal (SaveIdentity (SaveInvalid e))), d)"
    using assms(4-7) by (simp add: start_enroll_def Save_invalid saved_disk_def)
  then show ?thesis using assms(1-3) by (simp add: agent_main_def)
qed

section \<open>Examples\<close>

definition example_flags :: agent_flags where
  "example_flags = \<lparr>fl_config = ''c'', fl_control_url = ''https://c/'', fl_token = [], fl_token_file = [],
     fl_enroll_only = False, fl_configure_only = False, fl_name = ''edge'', fl_tunnel = [], fl_version = False\<rparr>"

definition example_url :: url where
  "example_url = \<lparr>url_scheme = ''https'', url_hostname = ''c'', url_user = False, url_query = [], url_fragment = [],
     url_string = ''https://c/''\<rparr>"

definition example_start_env :: start_env where
  "example_start_env = \<lparr>st_parse_url = \<lambda>_. Some example_url, st_token_file = None,
     st_enrollment = \<lambda>_. Some \<lparr>en_node = ''B'', en_credential = ''key''\<rparr>, st_message = \<lambda>_. [],
     st_marshals = True, st_wellformed = True, st_reply = Some \<lparr>reply_code = 201, reply_status = [], reply_body = []\<rparr>,
     st_encode = lib_encode example_lib, st_decode = example_decode, st_readable = True, st_save = example_save,
     st_random = Some [], st_hex_now = [], st_agent_version = ''dev''\<rparr>"

lemma trims: "trim_space ''B'' = ''B''" "trim_space ''key'' = ''key''" "trim_space ''https://c'' = ''https://c''"
  "trim_space ''t'' = ''t''" "trim_space ''https://c/'' = ''https://c/''" "trim_space ''edge'' = ''edge''"
  "trim_space ''10.0.0.3'' = ''10.0.0.3''"
  by code_simp+

lemma example_codec: "codec_faithful example_start_env"
  using example_faithful by (simp add: codec_faithful_def faithful_def example_start_env_def)

lemma example_cfg_fields:
  "cfg_control_url example_cfg = ''https://c''" "cfg_node example_cfg = ''B''" "cfg_credential example_cfg = ''key''"
  by (simp_all add: example_cfg_def)

theorem started_consistent_witness:
  "\<exists>client rt d'. agent_main example_flags example_start_env [(''c'', ''1'' @ [CHR 0x0A])] = (Started example_cfg client rt, d')
    \<and> Load example_decode True (rt_path rt) (rt_disk rt) = Inr example_cfg"
proof -
  have "\<exists>client rt d'. agent_main example_flags example_start_env [(''c'', ''1'' @ [CHR 0x0A])] = (Started example_cfg client rt, d')"
    by (simp add: agent_main_def start_token_def start_load_def example_flags_def example_start_env_def Load_def example_decode_def
      example_cfg_valid NewControlClient_def validateControlURL_def example_url_def trims example_cfg_fields Let_def)
  then obtain client rt d' where m: "agent_main example_flags example_start_env [(''c'', ''1'' @ [CHR 0x0A])] = (Started example_cfg client rt, d')"
    by blast
  have dec: "st_decode example_start_env = example_decode" by (simp add: example_start_env_def)
  from started_consistent [OF m example_codec, unfolded dec] m show ?thesis by blast
qed

definition relay_cfg :: agent_cfg where
  "relay_cfg = example_cfg\<lparr>cfg_tunnel := ''10.0.0.2'', cfg_rules := [(web_rule ''r1'' 8080)\<lparr>rule_mode := ForwardRelay,
     rule_ingress := ''A'', rule_egress := ''B'', rule_relay_host := ''10.0.0.2'', rule_relay_port := 9000\<rparr>]\<rparr>"

lemma relay_cfg_valid: "config_validate relay_cfg = None"
  by code_simp

theorem tunnel_change_stuck_witness:
  "\<exists>e. agent_main (example_flags\<lparr>fl_tunnel := ''10.0.0.3''\<rparr>) (example_start_env\<lparr>st_decode := \<lambda>_. Some relay_cfg\<rparr>)
     [(''c'', [])] = (Fatal (SaveTunnel (SaveInvalid e)), [(''c'', [])])"
proof (rule tunnel_change_stuck)
  show "Load (st_decode (example_start_env\<lparr>st_decode := \<lambda>_. Some relay_cfg\<rparr>))
      (st_readable (example_start_env\<lparr>st_decode := \<lambda>_. Some relay_cfg\<rparr>)) (fl_config (example_flags\<lparr>fl_tunnel := ''10.0.0.3''\<rparr>))
      [(''c'', [])] = Inr relay_cfg"
    by (simp add: Load_def example_start_env_def example_flags_def relay_cfg_valid)
  show "hd (cfg_rules relay_cfg) \<in> set (cfg_rules relay_cfg)" by (simp add: relay_cfg_def)
qed (simp_all add: example_flags_def start_token_def trims relay_cfg_def example_cfg_def web_rule_def)

end
