(* ===== verification/StoreState.thy ===== *)
theory StoreState
  imports Domain
begin

text \<open>
  The data of \<open>internal/store/store.go\<close> (users, sessions, tokens, heartbeats, samples, logs) and the state of the
  in-memory store of \<open>internal/store/memory.go\<close>. Every operation of the store runs under its mutex, so an operation
  is a function from the state to the new state and a result.
\<close>

datatype store_error =
    ErrNotFound | ErrConflict | ErrBootstrapCompleted | ErrTokenInvalid | ErrLastAdministrator

definition MaxStoredConnectionsPerNode :: nat where
  "MaxStoredConnectionsPerNode = 4000"

definition NodeMetricRetention :: duration where
  "NodeMetricRetention = 30 * 24 * go_hour"

definition AgentLogRetention :: duration where
  "AgentLogRetention = 14 * 24 * go_hour"

type_synonym role = string
abbreviation "RoleAdmin \<equiv> ''admin''"
abbreviation "RoleMember \<equiv> ''member''"

record user =
  user_id :: string
  user_name :: string
  user_password_hash :: string
  user_role :: role
  user_disabled :: bool
  user_mfa_enabled :: bool
  user_mfa_secret :: string
  user_recovery_hashes :: "string list"
  user_created_at :: time

record user_update =
  upd_role :: role
  upd_disabled :: bool
  upd_password_hash :: string
  upd_reset_mfa :: bool

record session =
  session_id :: string
  session_user :: string
  session_token_hash :: string
  session_expires_at :: time
  session_created_at :: time

record enrollment_token =
  token_id :: string
  token_name :: string
  token_hash :: string
  token_created_by :: string
  token_expires_at :: time
  token_created_at :: time
  token_used_at :: "time option"

record agent_identity =
  agent_id :: string
  agent_name :: string
  agent_region :: string
  agent_public_ip :: string
  agent_architecture :: string
  agent_version :: string
  agent_credential_hash :: string
  agent_created_at :: time

datatype detail = DText string | DFlag bool

record audit_event =
  audit_id :: string
  audit_actor_type :: string
  audit_actor_id :: string
  audit_action :: string
  audit_target_type :: string
  audit_target_id :: string
  audit_remote_ip :: string
  audit_details :: "(string, detail) gomap"
  audit_created_at :: time

record metric_sample =
  sample_node :: string
  sample_at :: time
  sample_cpu :: float64
  sample_memory :: float64
  sample_load :: float64
  sample_disk :: float64
  sample_rx :: u64
  sample_tx :: u64
  sample_active :: u64
  sample_in :: u64
  sample_out :: u64

record agent_log =
  log_node :: string
  log_event :: string
  log_level :: string
  log_component :: string
  log_message :: string
  log_occurred_at :: time
  log_received_at :: time

record log_filter =
  filter_node :: string
  filter_level :: string
  filter_limit :: int
  filter_before :: time

record traffic_point =
  traffic_time :: time
  traffic_upload :: u64
  traffic_download :: u64

record active_connection =
  conn_node :: string
  conn_id :: string
  conn_rule :: string
  conn_protocol :: string
  conn_source :: string
  conn_target :: string
  conn_started_at :: time
  conn_last_activity :: time
  conn_bytes_in :: u64
  conn_bytes_out :: u64
  conn_observed_at :: time

record rule_stats =
  stats_rule :: string
  stats_active :: u64
  stats_in :: u64
  stats_out :: u64

record agent_heartbeat =
  hb_public_ip :: string
  hb_tunnel_address :: string
  hb_agent_version :: string
  hb_config_version :: u64
  hb_attempted_version :: u64
  hb_config_error :: string
  hb_cpu :: float64
  hb_memory :: float64
  hb_load :: float64
  hb_disk :: float64
  hb_rx :: u64
  hb_tx :: u64
  hb_active :: u64
  hb_in :: u64
  hb_out :: u64
  hb_rule_stats :: "rule_stats list"
  hb_connections :: "active_connection list"
  hb_complete :: bool
  hb_logs :: "agent_log list"
  hb_received_at :: time

record agent_config =
  config_version :: u64
  config_rules :: "forward_rule list"

text \<open>The state of the in-memory store, and the empty store \<open>NewMemory\<close> returns.\<close>

record memory =
  mem_users :: "(string, user) gomap"
  mem_usernames :: "(string, string) gomap"
  mem_sessions :: "(string, session) gomap"
  mem_tokens :: "(string, enrollment_token) gomap"
  mem_nodes :: "(string, node) gomap"
  mem_credentials :: "(string, string) gomap"
  mem_configs :: "(string, agent_config) gomap"
  mem_rules :: "(string, forward_rule) gomap"
  mem_audits :: "audit_event list"
  mem_samples :: "metric_sample list"
  mem_logs :: "agent_log list"
  mem_log_keys :: "string set"
  mem_connections :: "(string, (string, active_connection) gomap) gomap"

definition NewMemory :: memory where
  "NewMemory = \<lparr>mem_users = [], mem_usernames = [], mem_sessions = [], mem_tokens = [], mem_nodes = [],
     mem_credentials = [], mem_configs = [], mem_rules = [], mem_audits = [], mem_samples = [], mem_logs = [],
     mem_log_keys = {}, mem_connections = []\<rparr>"

text \<open>
  Reading \<open>memory.nodes[id]\<close> and \<open>memory.agentCredentials[id]\<close>: the zero value where the key is absent.
\<close>

definition node_at :: "memory \<Rightarrow> string \<Rightarrow> node" where
  "node_at m nid = (case map_of (mem_nodes m) nid of Some n \<Rightarrow> n | None \<Rightarrow> zero_node)"

definition credential_at :: "memory \<Rightarrow> string \<Rightarrow> string" where
  "credential_at m nid = (case map_of (mem_credentials m) nid of Some c \<Rightarrow> c | None \<Rightarrow> [])"

text \<open>Every map of the store has distinct keys.\<close>

definition maps_ok :: "memory \<Rightarrow> bool" where
  "maps_ok m \<longleftrightarrow> gomap_ok (mem_users m) \<and> gomap_ok (mem_usernames m) \<and> gomap_ok (mem_sessions m)
     \<and> gomap_ok (mem_tokens m) \<and> gomap_ok (mem_nodes m) \<and> gomap_ok (mem_credentials m)
     \<and> gomap_ok (mem_configs m) \<and> gomap_ok (mem_rules m) \<and> gomap_ok (mem_connections m)"

lemma maps_ok_NewMemory: "maps_ok NewMemory"
  by (simp add: maps_ok_def NewMemory_def)

lemma maps_okD:
  assumes "maps_ok m"
  shows "gomap_ok (mem_users m)" "gomap_ok (mem_usernames m)" "gomap_ok (mem_sessions m)"
    "gomap_ok (mem_tokens m)" "gomap_ok (mem_nodes m)" "gomap_ok (mem_credentials m)"
    "gomap_ok (mem_configs m)" "gomap_ok (mem_rules m)" "gomap_ok (mem_connections m)"
  using assms by (simp_all add: maps_ok_def)

end
