(* ===== verification/MemUsers.thy ===== *)
theory MemUsers
  imports StoreState
begin

text \<open>
  The accounts of the in-memory store: users, sessions and enrollment tokens (\<open>memory.go\<close>, \<open>CreateInitialUser\<close> to
  \<open>EnrollAgent\<close>). A method that returns an error and a value returns the state with \<open>Inl\<close> the error or \<open>Inr\<close> the value.
\<close>

section \<open>Users\<close>

definition CreateInitialUser :: "user \<Rightarrow> memory \<Rightarrow> memory \<times> (store_error + unit)" where
  "CreateInitialUser u m =
     (if length (mem_users m) \<noteq> 0 then (m, Inl ErrBootstrapCompleted)
      else (m\<lparr>mem_users := gput (user_id u) u (mem_users m),
              mem_usernames := gput (user_name u) (user_id u) (mem_usernames m)\<rparr>, Inr ()))"

definition CreateUser :: "user \<Rightarrow> memory \<Rightarrow> memory \<times> (store_error + unit)" where
  "CreateUser u m =
     (if ghas (mem_users m) (user_id u) then (m, Inl ErrConflict)
      else if ghas (mem_usernames m) (user_name u) then (m, Inl ErrConflict)
      else (m\<lparr>mem_users := gput (user_id u) u (mem_users m),
              mem_usernames := gput (user_name u) (user_id u) (mem_usernames m)\<rparr>, Inr ()))"

text \<open>An enabled administrator, and the counting loop of \<open>UpdateUser\<close> and \<open>DeleteUser\<close>.\<close>

definition active_admin :: "user \<Rightarrow> bool" where
  "active_admin u \<longleftrightarrow> user_role u = RoleAdmin \<and> \<not> user_disabled u"

fun count_admins :: "(string, user) gomap \<Rightarrow> nat" where
  "count_admins [] = 0"
| "count_admins ((k, u) # m) = (if active_admin u then Suc (count_admins m) else count_admins m)"

definition apply_update :: "user_update \<Rightarrow> user \<Rightarrow> user" where
  "apply_update upd u =
     (let u1 = u\<lparr>user_role := upd_role upd, user_disabled := upd_disabled upd\<rparr>;
          u2 = (if upd_password_hash upd \<noteq> [] then u1\<lparr>user_password_hash := upd_password_hash upd\<rparr> else u1)
      in if upd_reset_mfa upd
         then u2\<lparr>user_mfa_enabled := False, user_mfa_secret := [], user_recovery_hashes := []\<rparr> else u2)"

definition UpdateUser :: "string \<Rightarrow> user_update \<Rightarrow> memory \<Rightarrow> memory \<times> (store_error + user)" where
  "UpdateUser uid upd m =
     (case map_of (mem_users m) uid of
        None \<Rightarrow> (m, Inl ErrNotFound)
      | Some u \<Rightarrow>
          if active_admin u \<and> (upd_role upd \<noteq> RoleAdmin \<or> upd_disabled upd) \<and> count_admins (mem_users m) \<le> 1
          then (m, Inl ErrLastAdministrator)
          else let u' = apply_update upd u
               in (m\<lparr>mem_users := gput uid u' (mem_users m),
                     mem_sessions := gdel_where (\<lambda>s. session_user s = uid) (mem_sessions m)\<rparr>, Inr u'))"

definition DeleteUser :: "string \<Rightarrow> memory \<Rightarrow> memory \<times> (store_error + unit)" where
  "DeleteUser uid m =
     (case map_of (mem_users m) uid of
        None \<Rightarrow> (m, Inl ErrNotFound)
      | Some u \<Rightarrow>
          if active_admin u \<and> count_admins (mem_users m) \<le> 1 then (m, Inl ErrLastAdministrator)
          else (m\<lparr>mem_users := gdel uid (mem_users m),
                  mem_usernames := gdel (user_name u) (mem_usernames m),
                  mem_tokens := gdel_where (\<lambda>t. token_created_by t = uid) (mem_tokens m),
                  mem_sessions := gdel_where (\<lambda>s. session_user s = uid) (mem_sessions m)\<rparr>, Inr ()))"

definition SetUserMFA :: "string \<Rightarrow> bool \<Rightarrow> string \<Rightarrow> string list \<Rightarrow> memory \<Rightarrow> memory \<times> (store_error + user)" where
  "SetUserMFA uid enabled secret hashes m =
     (case map_of (mem_users m) uid of
        None \<Rightarrow> (m, Inl ErrNotFound)
      | Some u \<Rightarrow>
          let u' = u\<lparr>user_mfa_enabled := enabled, user_mfa_secret := secret, user_recovery_hashes := hashes\<rparr>
          in (m\<lparr>mem_users := gput uid u' (mem_users m)\<rparr>, Inr u'))"

text \<open>The loop of \<open>ConsumeRecoveryCode\<close>: the list without the first entry equal to the hash, if there is one.\<close>

fun consume_hash :: "string \<Rightarrow> string list \<Rightarrow> string list option" where
  "consume_hash h [] = None"
| "consume_hash h (c # cs) = (if c = h then Some cs else map_option (\<lambda>r. c # r) (consume_hash h cs))"

definition ConsumeRecoveryCode :: "string \<Rightarrow> string \<Rightarrow> memory \<Rightarrow> memory \<times> (store_error + bool)" where
  "ConsumeRecoveryCode uid hash m =
     (case map_of (mem_users m) uid of
        None \<Rightarrow> (m, Inl ErrNotFound)
      | Some u \<Rightarrow>
          (case consume_hash hash (user_recovery_hashes u) of
             None \<Rightarrow> (m, Inr False)
           | Some rest \<Rightarrow>
               (m\<lparr>mem_users := gput uid (u\<lparr>user_recovery_hashes := rest\<rparr>) (mem_users m)\<rparr>, Inr True)))"

definition user_before :: "user \<Rightarrow> user \<Rightarrow> bool" where
  "user_before a b =
     (if user_created_at a = user_created_at b then user_name a < user_name b
      else user_created_at a < user_created_at b)"

definition ListUsers :: "memory \<Rightarrow> user list" where
  "ListUsers m = sort_slice user_before (map snd (mem_users m))"

text \<open>
  \<open>UserByUsername\<close> reads \<open>memory.users[id]\<close> without a check, so an entry of the name index that has no user
  would give the zero user; the invariant below rules this out.
\<close>

definition zero_user :: user where
  "zero_user = \<lparr>user_id = [], user_name = [], user_password_hash = [], user_role = [], user_disabled = False,
     user_mfa_enabled = False, user_mfa_secret = [], user_recovery_hashes = [], user_created_at = 0\<rparr>"

definition UserByUsername :: "string \<Rightarrow> memory \<Rightarrow> store_error + user" where
  "UserByUsername name m =
     (case map_of (mem_usernames m) name of
        None \<Rightarrow> Inl ErrNotFound
      | Some uid \<Rightarrow> Inr (case map_of (mem_users m) uid of Some u \<Rightarrow> u | None \<Rightarrow> zero_user))"

definition UserByID :: "string \<Rightarrow> memory \<Rightarrow> store_error + user" where
  "UserByID uid m = (case map_of (mem_users m) uid of None \<Rightarrow> Inl ErrNotFound | Some u \<Rightarrow> Inr u)"

section \<open>Sessions\<close>

definition CreateSession :: "session \<Rightarrow> memory \<Rightarrow> memory" where
  "CreateSession s m = m\<lparr>mem_sessions := gput (session_token_hash s) s (mem_sessions m)\<rparr>"

definition SessionUserByTokenHash :: "string \<Rightarrow> time \<Rightarrow> memory \<Rightarrow> store_error + session \<times> user" where
  "SessionUserByTokenHash h now m =
     (case map_of (mem_sessions m) h of
        None \<Rightarrow> Inl ErrNotFound
      | Some s \<Rightarrow>
          if \<not> now < session_expires_at s then Inl ErrNotFound
          else (case map_of (mem_users m) (session_user s) of
                  None \<Rightarrow> Inl ErrNotFound
                | Some u \<Rightarrow> if user_disabled u then Inl ErrNotFound else Inr (s, u)))"

definition DeleteSessionByTokenHash :: "string \<Rightarrow> memory \<Rightarrow> memory" where
  "DeleteSessionByTokenHash h m = m\<lparr>mem_sessions := gdel h (mem_sessions m)\<rparr>"

section \<open>Enrollment\<close>

definition CreateEnrollmentToken :: "enrollment_token \<Rightarrow> memory \<Rightarrow> memory \<times> (store_error + unit)" where
  "CreateEnrollmentToken t m =
     (if ghas (mem_tokens m) (token_hash t) then (m, Inl ErrConflict)
      else (m\<lparr>mem_tokens := gput (token_hash t) t (mem_tokens m)\<rparr>, Inr ()))"

definition enrolled_node :: "agent_identity \<Rightarrow> time \<Rightarrow> node" where
  "enrolled_node a now = zero_node\<lparr>node_id := agent_id a, node_name := agent_name a, node_region := agent_region a,
     node_public_ip := agent_public_ip a, node_status := NodeOnline, node_architecture := agent_architecture a,
     node_agent_version := agent_version a, node_last_heartbeat := now, node_config_version := 1,
     node_applied_config_version := 1, node_attempted_config_version := 1\<rparr>"

definition EnrollAgent :: "string \<Rightarrow> time \<Rightarrow> agent_identity \<Rightarrow> memory \<Rightarrow> memory \<times> (store_error + node)" where
  "EnrollAgent h now a m =
     (case map_of (mem_tokens m) h of
        None \<Rightarrow> (m, Inl ErrTokenInvalid)
      | Some t \<Rightarrow>
          if token_used_at t \<noteq> None \<or> \<not> now < token_expires_at t then (m, Inl ErrTokenInvalid)
          else if ghas (mem_nodes m) (agent_id a) then (m, Inl ErrConflict)
          else let n = enrolled_node a now
               in (m\<lparr>mem_tokens := gput h (t\<lparr>token_used_at := Some now\<rparr>) (mem_tokens m),
                     mem_nodes := gput (node_id n) n (mem_nodes m),
                     mem_credentials := gput (node_id n) (agent_credential_hash a) (mem_credentials m),
                     mem_configs := gput (node_id n) \<lparr>config_version = 1, config_rules = []\<rparr> (mem_configs m)\<rparr>,
                   Inr n))"

definition RecordAudit :: "audit_event \<Rightarrow> memory \<Rightarrow> memory" where
  "RecordAudit e m = m\<lparr>mem_audits := mem_audits m @ [e]\<rparr>"

section \<open>The invariant of the accounts\<close>

text \<open>
  The name index and the user table are inverse to each other, and sessions and tokens are filed under their own
  hash.
\<close>

definition accounts_inv :: "memory \<Rightarrow> bool" where
  "accounts_inv m \<longleftrightarrow>
     (\<forall>uid u. map_of (mem_users m) uid = Some u \<longrightarrow>
        user_id u = uid \<and> map_of (mem_usernames m) (user_name u) = Some uid)
   \<and> (\<forall>n uid. map_of (mem_usernames m) n = Some uid \<longrightarrow>
        (\<exists>u. map_of (mem_users m) uid = Some u \<and> user_name u = n))
   \<and> (\<forall>h s. map_of (mem_sessions m) h = Some s \<longrightarrow> session_token_hash s = h)
   \<and> (\<forall>h t. map_of (mem_tokens m) h = Some t \<longrightarrow> token_hash t = h)"

lemma accounts_inv_intro:
  assumes "\<And>uid u. map_of (mem_users m) uid = Some u \<Longrightarrow>
      user_id u = uid \<and> map_of (mem_usernames m) (user_name u) = Some uid"
    and "\<And>n uid. map_of (mem_usernames m) n = Some uid \<Longrightarrow>
      \<exists>u. map_of (mem_users m) uid = Some u \<and> user_name u = n"
    and "\<And>h s. map_of (mem_sessions m) h = Some s \<Longrightarrow> session_token_hash s = h"
    and "\<And>h t. map_of (mem_tokens m) h = Some t \<Longrightarrow> token_hash t = h"
  shows "accounts_inv m"
  using assms unfolding accounts_inv_def by blast

lemma accounts_invD:
  assumes "accounts_inv m"
  shows "map_of (mem_users m) uid = Some u \<Longrightarrow> user_id u = uid"
    and "map_of (mem_users m) uid = Some u \<Longrightarrow> map_of (mem_usernames m) (user_name u) = Some uid"
    and "map_of (mem_usernames m) n = Some uid \<Longrightarrow> \<exists>u. map_of (mem_users m) uid = Some u \<and> user_name u = n"
    and "map_of (mem_sessions m) h = Some s \<Longrightarrow> session_token_hash s = h"
    and "map_of (mem_tokens m) h = Some t \<Longrightarrow> token_hash t = h"
  using assms unfolding accounts_inv_def by blast+

lemma accounts_inv_NewMemory: "accounts_inv NewMemory"
  by (simp add: accounts_inv_def NewMemory_def)

lemma apply_update_frame [simp]:
  "user_id (apply_update upd u) = user_id u" "user_name (apply_update upd u) = user_name u"
  "user_created_at (apply_update upd u) = user_created_at u"
  "user_role (apply_update upd u) = upd_role upd" "user_disabled (apply_update upd u) = upd_disabled upd"
  by (simp_all add: apply_update_def Let_def)

text \<open>Adding a user under a fresh name, and replacing a user that keeps its identity.\<close>

lemma accounts_inv_add_user:
  assumes "accounts_inv m" "map_of (mem_users m) (user_id u) = None"
    and "map_of (mem_usernames m) (user_name u) = None"
  shows "accounts_inv (m\<lparr>mem_users := gput (user_id u) u (mem_users m),
      mem_usernames := gput (user_name u) (user_id u) (mem_usernames m)\<rparr>)"
  using assms unfolding accounts_inv_def by (auto; metis option.distinct(1))

lemma accounts_inv_replace_user:
  assumes "accounts_inv m" "map_of (mem_users m) uid = Some u"
    and "user_id u' = user_id u" "user_name u' = user_name u"
  shows "accounts_inv (m\<lparr>mem_users := gput uid u' (mem_users m)\<rparr>)"
  using assms unfolding accounts_inv_def by (auto; metis option.inject)

lemma accounts_inv_fewer:
  assumes "accounts_inv m" "maps_ok m"
  shows "accounts_inv (m\<lparr>mem_sessions := gdel_where P (mem_sessions m)\<rparr>)"
    and "accounts_inv (m\<lparr>mem_tokens := gdel_where Q (mem_tokens m)\<rparr>)"
    and "accounts_inv (m\<lparr>mem_sessions := gdel h (mem_sessions m)\<rparr>)"
  using assms unfolding accounts_inv_def
  by (auto simp: map_of_gdel_where maps_okD split: option.splits if_splits)

lemma accounts_inv_remove_user:
  assumes "accounts_inv m" "map_of (mem_users m) uid = Some u"
  shows "accounts_inv (m\<lparr>mem_users := gdel uid (mem_users m), mem_usernames := gdel (user_name u) (mem_usernames m)\<rparr>)"
proof (rule accounts_inv_intro)
  fix k v assume "map_of (mem_users (m\<lparr>mem_users := gdel uid (mem_users m),
      mem_usernames := gdel (user_name u) (mem_usernames m)\<rparr>)) k = Some v"
  then have v: "map_of (mem_users m) k = Some v" "k \<noteq> uid"
    by (auto split: if_splits)
  then have "user_name v \<noteq> user_name u"
    using accounts_invD(2) [OF assms(1)] assms(2) by (metis option.inject)
  with v show "user_id v = k \<and> map_of (mem_usernames (m\<lparr>mem_users := gdel uid (mem_users m),
      mem_usernames := gdel (user_name u) (mem_usernames m)\<rparr>)) (user_name v) = Some k"
    using accounts_invD(1,2) [OF assms(1)] by simp
next
  fix n k assume "map_of (mem_usernames (m\<lparr>mem_users := gdel uid (mem_users m),
      mem_usernames := gdel (user_name u) (mem_usernames m)\<rparr>)) n = Some k"
  then have n: "map_of (mem_usernames m) n = Some k" "n \<noteq> user_name u"
    by (auto split: if_splits)
  then obtain v where v: "map_of (mem_users m) k = Some v" "user_name v = n"
    using accounts_invD(3) [OF assms(1)] by blast
  with n assms(2) have "k \<noteq> uid" by auto
  with v show "\<exists>w. map_of (mem_users (m\<lparr>mem_users := gdel uid (mem_users m),
      mem_usernames := gdel (user_name u) (mem_usernames m)\<rparr>)) k = Some w \<and> user_name w = n"
    by simp
qed (use accounts_invD [OF assms(1)] in auto)

section \<open>Every operation keeps it\<close>

lemma accounts_inv_CreateInitialUser [inv_intros]:
  assumes "accounts_inv m" shows "accounts_inv (fst (CreateInitialUser u m))"
proof (cases "mem_users m = []")
  case True
  then have "map_of (mem_usernames m) n = None" for n
    using accounts_invD(3) [OF assms, of n] by (cases "map_of (mem_usernames m) n") auto
  with True assms accounts_inv_add_user [of m u] show ?thesis
    by (simp add: CreateInitialUser_def)
qed (simp add: CreateInitialUser_def assms)

lemma accounts_inv_CreateUser [inv_intros]:
  "accounts_inv m \<Longrightarrow> accounts_inv (fst (CreateUser u m))"
  by (simp add: CreateUser_def ghas_def accounts_inv_add_user)

lemma accounts_inv_UpdateUser [inv_intros]:
  assumes "accounts_inv m" "maps_ok m" shows "accounts_inv (fst (UpdateUser uid upd m))"
proof (cases "map_of (mem_users m) uid")
  case None
  with assms show ?thesis by (simp add: UpdateUser_def)
next
  case (Some u)
  let ?m = "m\<lparr>mem_users := gput uid (apply_update upd u) (mem_users m)\<rparr>"
  have "accounts_inv ?m"
    using assms Some by (intro accounts_inv_replace_user) auto
  moreover have "maps_ok ?m"
    using assms by (simp add: maps_ok_def)
  ultimately have "accounts_inv (?m\<lparr>mem_sessions := gdel_where (\<lambda>s. session_user s = uid) (mem_sessions ?m)\<rparr>)"
    by (rule accounts_inv_fewer)
  with Some assms show ?thesis by (simp add: UpdateUser_def Let_def)
qed

lemma accounts_inv_DeleteUser [inv_intros]:
  assumes "accounts_inv m" "maps_ok m" shows "accounts_inv (fst (DeleteUser uid m))"
proof (cases "map_of (mem_users m) uid")
  case None
  with assms show ?thesis by (simp add: DeleteUser_def)
next
  case (Some u)
  let ?m = "m\<lparr>mem_users := gdel uid (mem_users m), mem_usernames := gdel (user_name u) (mem_usernames m)\<rparr>"
  let ?n = "?m\<lparr>mem_tokens := gdel_where (\<lambda>t. token_created_by t = uid) (mem_tokens ?m)\<rparr>"
  have m: "accounts_inv ?m" "maps_ok ?m"
    using assms Some by (simp_all add: accounts_inv_remove_user maps_ok_def)
  have n: "accounts_inv ?n" "maps_ok ?n"
    using accounts_inv_fewer(2) [OF m] assms by (simp_all add: maps_ok_def)
  have "accounts_inv (?n\<lparr>mem_sessions := gdel_where (\<lambda>s. session_user s = uid) (mem_sessions ?n)\<rparr>)"
    using n by (rule accounts_inv_fewer)
  with Some assms show ?thesis by (simp add: DeleteUser_def)
qed

lemma accounts_inv_SetUserMFA [inv_intros]:
  "accounts_inv m \<Longrightarrow> accounts_inv (fst (SetUserMFA uid e s hs m))"
  by (auto simp: SetUserMFA_def Let_def accounts_inv_replace_user split: option.split)

lemma accounts_inv_ConsumeRecoveryCode [inv_intros]:
  "accounts_inv m \<Longrightarrow> accounts_inv (fst (ConsumeRecoveryCode uid h m))"
  by (auto simp: ConsumeRecoveryCode_def accounts_inv_replace_user split: option.split)

lemma accounts_inv_sessions [inv_intros]:
  "accounts_inv m \<Longrightarrow> accounts_inv (CreateSession s m)"
  "accounts_inv m \<Longrightarrow> accounts_inv (DeleteSessionByTokenHash h m)"
  unfolding accounts_inv_def CreateSession_def DeleteSessionByTokenHash_def by auto

lemma accounts_inv_tokens [inv_intros]:
  "accounts_inv m \<Longrightarrow> accounts_inv (fst (CreateEnrollmentToken t m))"
  "accounts_inv m \<Longrightarrow> accounts_inv (fst (EnrollAgent h now a m))"
  unfolding accounts_inv_def CreateEnrollmentToken_def EnrollAgent_def Let_def
  by (auto split: option.split)

lemma maps_ok_accounts [inv_intros]:
  assumes "maps_ok m"
  shows "maps_ok (fst (CreateInitialUser u m))" "maps_ok (fst (CreateUser u m))"
    "maps_ok (fst (UpdateUser uid upd m))" "maps_ok (fst (DeleteUser uid m))"
    "maps_ok (fst (SetUserMFA uid e s hs m))" "maps_ok (fst (ConsumeRecoveryCode uid h m))"
    "maps_ok (CreateSession ses m)" "maps_ok (DeleteSessionByTokenHash h m)"
    "maps_ok (fst (CreateEnrollmentToken t m))" "maps_ok (fst (EnrollAgent h now a m))"
    "maps_ok (RecordAudit ev m)"
  using assms unfolding maps_ok_def
  by (auto simp: CreateInitialUser_def CreateUser_def UpdateUser_def DeleteUser_def SetUserMFA_def
      ConsumeRecoveryCode_def CreateSession_def DeleteSessionByTokenHash_def CreateEnrollmentToken_def
      EnrollAgent_def RecordAudit_def Let_def split: option.split)

section \<open>At least one administrator\<close>

definition has_admin :: "memory \<Rightarrow> bool" where
  "has_admin m \<longleftrightarrow> (\<exists>u \<in> snd ` set (mem_users m). active_admin u)"

lemma count_admins_filter: "count_admins m = length (filter (\<lambda>p. active_admin (snd p)) m)"
  by (induction m rule: count_admins.induct) auto

lemma has_admin_iff:
  "gomap_ok (mem_users m) \<Longrightarrow> has_admin m \<longleftrightarrow> (\<exists>k u. map_of (mem_users m) k = Some u \<and> active_admin u)"
  unfolding has_admin_def by (metis values_iff)

lemma count_admins_pos: "0 < count_admins m \<longleftrightarrow> (\<exists>u \<in> snd ` set m. active_admin u)"
  by (induction m rule: count_admins.induct) auto

text \<open>If more than one administrator is counted, some administrator has another key.\<close>

lemma other_admin:
  assumes "gomap_ok m" "1 < count_admins m"
  shows "\<exists>k' u'. k' \<noteq> k \<and> map_of m k' = Some u' \<and> active_admin u'"
  using assms
proof (induction m rule: count_admins.induct)
  case 1
  then show ?case by simp
next
  case (2 j v m)
  from "2.prems" have fresh: "map_of m j = None" and ok: "gomap_ok m"
    by (simp_all add: gomap_ok_Cons)
  show ?case
  proof (cases "active_admin v")
    case True
    show ?thesis
    proof (cases "j = k")
      case same: True
      from True "2.prems" obtain u where "u \<in> snd ` set m" "active_admin u"
        by (auto simp: count_admins_pos)
      with ok obtain k' where "map_of m k' = Some u" "k' \<noteq> j"
        using in_values_map_of fresh by (metis option.distinct(1))
      with same \<open>active_admin u\<close> show ?thesis
        by (intro exI [of _ k'] exI [of _ u]) auto
    next
      case False
      with True show ?thesis by (intro exI [of _ j] exI [of _ v]) auto
    qed
  next
    case False
    with "2.IH"(2) "2.prems" ok obtain k' u'
      where "k' \<noteq> k" "map_of m k' = Some u'" "active_admin u'" by auto
    moreover with fresh have "k' \<noteq> j" by auto
    ultimately show ?thesis by (intro exI [of _ k'] exI [of _ u']) auto
  qed
qed

lemma has_admin_put:
  assumes "gomap_ok (mem_users m)"
    and "active_admin u' \<or> (\<exists>k u. k \<noteq> uid \<and> map_of (mem_users m) k = Some u \<and> active_admin u)"
  shows "has_admin (m\<lparr>mem_users := gput uid u' (mem_users m)\<rparr>)"
  using assms by (auto simp: has_admin_iff)

lemma has_admin_other:
  assumes "maps_ok m" "has_admin m" "map_of (mem_users m) uid = Some u"
    and "\<not> active_admin u \<or> 1 < count_admins (mem_users m)"
  shows "\<exists>k v. k \<noteq> uid \<and> map_of (mem_users m) k = Some v \<and> active_admin v"
  using assms other_admin maps_okD(1) by (metis has_admin_iff option.inject)

lemma has_admin_UpdateUser [inv_intros]:
  assumes ok: "maps_ok m" and admin: "has_admin m"
  shows "has_admin (fst (UpdateUser uid upd m))"
proof (cases "map_of (mem_users m) uid")
  case None
  with admin show ?thesis by (simp add: UpdateUser_def)
next
  case (Some u)
  let ?guard = "active_admin u \<and> (upd_role upd \<noteq> RoleAdmin \<or> upd_disabled upd) \<and> count_admins (mem_users m) \<le> 1"
  let ?u' = "apply_update upd u"
  show ?thesis
  proof (cases ?guard)
    case True
    with Some admin show ?thesis by (simp add: UpdateUser_def)
  next
    case False
    have "active_admin ?u' \<or> (\<exists>k v. k \<noteq> uid \<and> map_of (mem_users m) k = Some v \<and> active_admin v)"
    proof (cases "active_admin ?u'")
      case demoted: False
      with False have "\<not> active_admin u \<or> 1 < count_admins (mem_users m)"
        by (auto simp: active_admin_def)
      with has_admin_other [OF ok admin Some] show ?thesis by blast
    qed simp
    with has_admin_put [of m ?u' uid] ok
    have "has_admin (m\<lparr>mem_users := gput uid ?u' (mem_users m)\<rparr>)"
      by (simp add: maps_ok_def)
    moreover from Some False have "fst (UpdateUser uid upd m) = m\<lparr>mem_users := gput uid ?u' (mem_users m),
        mem_sessions := gdel_where (\<lambda>s. session_user s = uid) (mem_sessions m)\<rparr>"
      by (auto simp: UpdateUser_def Let_def)
    ultimately show ?thesis
      by (simp add: has_admin_def)
  qed
qed

lemma has_admin_DeleteUser [inv_intros]:
  assumes ok: "maps_ok m" and admin: "has_admin m"
  shows "has_admin (fst (DeleteUser uid m))"
proof (cases "map_of (mem_users m) uid")
  case None
  with admin show ?thesis by (simp add: DeleteUser_def)
next
  case (Some u)
  show ?thesis
  proof (cases "active_admin u \<and> count_admins (mem_users m) \<le> 1")
    case True
    with Some admin show ?thesis by (simp add: DeleteUser_def)
  next
    case False
    then have "\<not> active_admin u \<or> 1 < count_admins (mem_users m)" by auto
    with has_admin_other [OF ok admin Some] obtain k v
      where "k \<noteq> uid" "map_of (mem_users m) k = Some v" "active_admin v" by blast
    then have "map_of (gdel uid (mem_users m)) k = Some v" by simp
    then have "v \<in> snd ` set (gdel uid (mem_users m))"
      by (rule map_of_in_values)
    with Some False \<open>active_admin v\<close> show ?thesis
      by (auto simp: DeleteUser_def has_admin_def)
  qed
qed

lemma has_admin_keep_user:
  assumes "maps_ok m" "has_admin m" "map_of (mem_users m) uid = Some u"
    and "user_role u' = user_role u" "user_disabled u' = user_disabled u"
  shows "has_admin (m\<lparr>mem_users := gput uid u' (mem_users m)\<rparr>)"
  using assms has_admin_put [of m u' uid] maps_okD(1) [OF assms(1)]
  by (metis active_admin_def has_admin_iff option.inject)

lemma has_admin_others [inv_intros]:
  assumes "maps_ok m" "has_admin m"
  shows "has_admin (fst (CreateInitialUser u m))" "has_admin (fst (CreateUser u m))"
    "has_admin (fst (SetUserMFA uid e s hs m))" "has_admin (fst (ConsumeRecoveryCode uid h m))"
    "has_admin (CreateSession ses m)" "has_admin (DeleteSessionByTokenHash h m)"
    "has_admin (fst (CreateEnrollmentToken t m))" "has_admin (fst (EnrollAgent h now a m))"
    "has_admin (RecordAudit ev m)"
proof -
  show "has_admin (fst (CreateInitialUser u m))"
    using assms by (auto simp: CreateInitialUser_def has_admin_def)
  show "has_admin (fst (CreateUser u m))"
  proof (cases "map_of (mem_users m) (user_id u)")
    case None
    obtain k v where v: "map_of (mem_users m) k = Some v" "active_admin v"
      using assms maps_okD(1) has_admin_iff by blast
    with None have "k \<noteq> user_id u" by auto
    with v have "map_of (gput (user_id u) u (mem_users m)) k = Some v" by simp
    then have "v \<in> snd ` set (gput (user_id u) u (mem_users m))" by (rule map_of_in_values)
    with v assms show ?thesis by (auto simp: CreateUser_def has_admin_def)
  qed (use assms in \<open>simp add: CreateUser_def ghas_def\<close>)
  show "has_admin (fst (SetUserMFA uid e s hs m))"
    using assms by (auto simp: SetUserMFA_def Let_def has_admin_keep_user split: option.split)
  show "has_admin (fst (ConsumeRecoveryCode uid h m))"
    using assms by (auto simp: ConsumeRecoveryCode_def has_admin_keep_user split: option.split)
qed (use assms in \<open>simp_all add: has_admin_def CreateSession_def DeleteSessionByTokenHash_def
    CreateEnrollmentToken_def EnrollAgent_def RecordAudit_def Let_def split: option.split\<close>)

text \<open>The bootstrap of a store without users creates the first administrator.\<close>

lemma has_admin_bootstrap:
  "snd (CreateInitialUser u m) = Inr () \<Longrightarrow> active_admin u \<Longrightarrow> has_admin (fst (CreateInitialUser u m))"
  by (auto simp: CreateInitialUser_def has_admin_def split: if_splits)

section \<open>Revocation and one-time codes\<close>

lemma no_session_after_filter:
  assumes "maps_ok m" "map_of (gdel_where (\<lambda>s. session_user s = uid) (mem_sessions m)) h = Some s"
  shows "session_user s \<noteq> uid"
  using assms by (auto simp: map_of_gdel_where maps_okD split: option.splits if_splits)

text \<open>What a resolved session says about the store.\<close>

lemma SessionUserByTokenHash_Inr:
  "SessionUserByTokenHash h now m = Inr (s, u) \<longleftrightarrow>
     map_of (mem_sessions m) h = Some s \<and> now < session_expires_at s
     \<and> map_of (mem_users m) (session_user s) = Some u \<and> \<not> user_disabled u"
  by (auto simp: SessionUserByTokenHash_def split: option.splits)

text \<open>A successful update or deletion of a user ends every session of that user.\<close>

lemma UpdateUser_sessions:
  "UpdateUser uid upd m = (m', Inr u') \<Longrightarrow>
     mem_sessions m' = gdel_where (\<lambda>s. session_user s = uid) (mem_sessions m)"
  by (auto simp: UpdateUser_def Let_def split: option.splits if_splits)

lemma DeleteUser_sessions:
  "DeleteUser uid m = (m', Inr ()) \<Longrightarrow>
     mem_sessions m' = gdel_where (\<lambda>s. session_user s = uid) (mem_sessions m)"
  by (auto simp: DeleteUser_def split: option.splits if_splits)

lemma UpdateUser_revokes:
  assumes "maps_ok m" "UpdateUser uid upd m = (m', Inr u')" "SessionUserByTokenHash h now m' = Inr (s, v)"
  shows "session_user s \<noteq> uid"
proof (rule no_session_after_filter [OF assms(1)])
  show "map_of (gdel_where (\<lambda>s. session_user s = uid) (mem_sessions m)) h = Some s"
    using UpdateUser_sessions [OF assms(2)] assms(3) by (simp add: SessionUserByTokenHash_Inr)
qed

lemma DeleteUser_revokes:
  assumes "maps_ok m" "DeleteUser uid m = (m', Inr ())" "SessionUserByTokenHash h now m' = Inr (s, v)"
  shows "session_user s \<noteq> uid"
proof (rule no_session_after_filter [OF assms(1)])
  show "map_of (gdel_where (\<lambda>s. session_user s = uid) (mem_sessions m)) h = Some s"
    using DeleteUser_sessions [OF assms(2)] assms(3) by (simp add: SessionUserByTokenHash_Inr)
qed

lemma consume_hash_Some:
  "consume_hash h cs = Some rest \<Longrightarrow> mset cs = add_mset h (mset rest)"
  by (induction cs arbitrary: rest) (auto split: if_splits)

lemma consume_hash_None: "consume_hash h cs = None \<longleftrightarrow> h \<notin> set cs"
  by (induction cs) auto

text \<open>A recovery code that was accepted leaves one copy of its hash fewer, so distinct codes work once.\<close>

lemma ConsumeRecoveryCode_True:
  assumes "ConsumeRecoveryCode uid h m = (m', Inr True)"
  shows "\<exists>u u'. map_of (mem_users m) uid = Some u \<and> map_of (mem_users m') uid = Some u'
     \<and> mset (user_recovery_hashes u) = add_mset h (mset (user_recovery_hashes u'))"
  using assms
  by (auto simp: ConsumeRecoveryCode_def consume_hash_Some split: option.splits)

lemma ConsumeRecoveryCode_once:
  assumes "ConsumeRecoveryCode uid h m = (m', Inr True)"
    and "map_of (mem_users m) uid = Some u" "distinct (user_recovery_hashes u)"
  shows "snd (ConsumeRecoveryCode uid h m') = Inr False"
proof -
  obtain v u' where u': "map_of (mem_users m) uid = Some v" "map_of (mem_users m') uid = Some u'"
      "mset (user_recovery_hashes v) = add_mset h (mset (user_recovery_hashes u'))"
    using ConsumeRecoveryCode_True [OF assms(1)] by blast
  have "h \<notin> set (user_recovery_hashes u')"
  proof
    assume "h \<in> set (user_recovery_hashes u')"
    then have "2 \<le> count (mset (user_recovery_hashes v)) h"
      using u'(3) by (simp add: Suc_le_eq count_mset_0_iff flip: neq0_conv)
    moreover have "count (mset (user_recovery_hashes v)) h \<le> 1"
      using assms(2,3) u'(1) by (simp add: distinct_count_atmost_1)
    ultimately show False by simp
  qed
  then have "consume_hash h (user_recovery_hashes u') = None"
    by (simp add: consume_hash_None)
  with u'(2) show ?thesis by (simp add: ConsumeRecoveryCode_def)
qed

text \<open>
  A recovery code works once. If a user's stored recovery hashes are all different, a code that was accepted has its
  hash removed from that user, no other hash and no other user changes, and offering the same code again is answered
  with \<open>false\<close>.
\<close>

theorem recovery_code_single_use:
  assumes "ConsumeRecoveryCode uid h m = (m', Inr True)"
    and "map_of (mem_users m) uid = Some u" "distinct (user_recovery_hashes u)"
  shows "snd (ConsumeRecoveryCode uid h m') = Inr False
    \<and> (\<exists>u'. map_of (mem_users m') = (map_of (mem_users m))(uid \<mapsto> u')
         \<and> set (user_recovery_hashes u') = set (user_recovery_hashes u) - {h})"
proof -
  obtain rest where rest: "consume_hash h (user_recovery_hashes u) = Some rest"
      "m' = m\<lparr>mem_users := gput uid (u\<lparr>user_recovery_hashes := rest\<rparr>) (mem_users m)\<rparr>"
    using assms(1,2) by (auto simp: ConsumeRecoveryCode_def split: option.splits)
  have hashes: "mset (user_recovery_hashes u) = add_mset h (mset rest)" using consume_hash_Some [OF rest(1)] .
  have "distinct (h # rest)" using assms(3) hashes by (metis mset.simps(2) mset_eq_imp_distinct_iff)
  moreover have "set (user_recovery_hashes u) = insert h (set rest)"
    using hashes by (metis set_mset_add_mset_insert set_mset_mset)
  ultimately have "set rest = set (user_recovery_hashes u) - {h}" by auto
  moreover have "snd (ConsumeRecoveryCode uid h m') = Inr False" by (rule ConsumeRecoveryCode_once [OF assms])
  ultimately show ?thesis by (auto simp: rest(2))
qed

definition example_codes_user :: user where
  "example_codes_user = zero_user\<lparr>user_id := ''u'', user_name := ''root'', user_recovery_hashes := [''c1'', ''c2'']\<rparr>"

theorem recovery_code_single_use_witness:
  "\<exists>m'. ConsumeRecoveryCode ''u'' ''c1'' (NewMemory\<lparr>mem_users := [(''u'', example_codes_user)]\<rparr>) = (m', Inr True)
     \<and> snd (ConsumeRecoveryCode ''u'' ''c1'' m') = Inr False"
proof -
  let ?m = "NewMemory\<lparr>mem_users := [(''u'', example_codes_user)]\<rparr>"
  obtain m' where m': "ConsumeRecoveryCode ''u'' ''c1'' ?m = (m', Inr True)"
    by (simp add: ConsumeRecoveryCode_def example_codes_user_def)
  have "map_of (mem_users ?m) ''u'' = Some example_codes_user" "distinct (user_recovery_hashes example_codes_user)"
    by (simp_all add: example_codes_user_def)
  from recovery_code_single_use [OF m' this] m' show ?thesis by blast
qed

text \<open>An enrollment that succeeds marks its token as used; a used or expired token enrolls nobody.\<close>

lemma EnrollAgent_used:
  "EnrollAgent h now a m = (m', Inr n) \<Longrightarrow>
     \<exists>t. map_of (mem_tokens m') h = Some t \<and> token_used_at t = Some now"
  by (auto simp: EnrollAgent_def Let_def split: option.splits if_splits)

lemma EnrollAgent_refused:
  "map_of (mem_tokens m) h = Some t \<Longrightarrow> token_used_at t \<noteq> None \<Longrightarrow>
     EnrollAgent h now a m = (m, Inl ErrTokenInvalid)"
  by (simp add: EnrollAgent_def)

text \<open>A freshly created user is found under its name and under its identifier.\<close>

lemma CreateUser_lookup:
  "CreateUser u m = (m', Inr ()) \<Longrightarrow> UserByUsername (user_name u) m' = Inr u \<and> UserByID (user_id u) m' = Inr u"
  by (auto simp: CreateUser_def UserByUsername_def UserByID_def split: if_splits)

text \<open>Under the invariant the name index never leads to a missing user, and both lookups agree.\<close>

lemma UserByUsername_found:
  assumes "accounts_inv m" "UserByUsername n m = Inr u"
  shows "user_name u = n \<and> UserByID (user_id u) m = Inr u"
proof -
  obtain uid where uid: "map_of (mem_usernames m) n = Some uid"
      "u = (case map_of (mem_users m) uid of Some u \<Rightarrow> u | None \<Rightarrow> zero_user)"
    using assms(2) by (auto simp: UserByUsername_def split: option.splits)
  obtain v where v: "map_of (mem_users m) uid = Some v" "user_name v = n"
    using accounts_invD(3) [OF assms(1) uid(1)] by blast
  with uid accounts_invD(1) [OF assms(1)] show ?thesis
    by (auto simp: UserByID_def)
qed

end
