(* ===== verification/MemRules.thy ===== *)
theory MemRules
  imports StoreState
begin

text \<open>
  Nodes, forwarding rules and the per-node configurations of the in-memory store (\<open>memory.go\<close>, \<open>ConfigForAgent\<close> to
  \<open>ListNodes\<close>): which rules may coexist, how a change bumps the configuration version of the nodes it touches, and
  that the configuration a node is given lists exactly the stored rules that involve it.
\<close>

section \<open>Which nodes a rule touches\<close>

definition ruleNodeIDs :: "forward_rule \<Rightarrow> string list" where
  "ruleNodeIDs r = rule_ingress r #
     (if rule_mode r = ForwardRelay \<and> rule_egress r \<noteq> [] \<and> rule_egress r \<noteq> rule_ingress r then [rule_egress r] else [])"

definition ruleNodesAvailable :: "memory \<Rightarrow> forward_rule \<Rightarrow> bool" where
  "ruleNodesAvailable m r =
     list_all (\<lambda>nid. case map_of (mem_nodes m) nid of None \<Rightarrow> False | Some n \<Rightarrow> node_status n \<noteq> NodeDisabled)
       (ruleNodeIDs r)"

text \<open>The two clashes \<open>listenerConflictLocked\<close> looks for: the same listener, or the same relay port at the egress.\<close>

definition listener_clash :: "forward_rule \<Rightarrow> forward_rule \<Rightarrow> bool" where
  "listener_clash r c \<longleftrightarrow> rule_ingress r = rule_ingress c \<and> ProtocolsOverlap (rule_protocol r) (rule_protocol c)
     \<and> rule_listen_host r = rule_listen_host c \<and> rule_listen_port r = rule_listen_port c"

definition relay_clash :: "forward_rule \<Rightarrow> forward_rule \<Rightarrow> bool" where
  "relay_clash r c \<longleftrightarrow> rule_mode c = ForwardRelay \<and> rule_mode r = ForwardRelay
     \<and> rule_egress r = rule_egress c \<and> rule_relay_port r = rule_relay_port c"

definition listenerConflict :: "memory \<Rightarrow> forward_rule \<Rightarrow> string \<Rightarrow> bool" where
  "listenerConflict m c excluded =
     list_ex (\<lambda>(rid, r). rid \<noteq> excluded \<and> (listener_clash r c \<or> relay_clash r c)) (mem_rules m)"

section \<open>Configurations of nodes\<close>

text \<open>The test of the rebuild loop, and the copy of a rule that goes into a configuration.\<close>

definition involves :: "string \<Rightarrow> forward_rule \<Rightarrow> bool" where
  "involves nid r \<longleftrightarrow> rule_ingress r = nid \<or> rule_mode r = ForwardRelay \<and> rule_egress r = nid"

definition with_relay_host :: "memory \<Rightarrow> forward_rule \<Rightarrow> forward_rule" where
  "with_relay_host m r =
     (if rule_mode r = ForwardRelay then r\<lparr>rule_relay_host := node_tunnel_address (node_at m (rule_egress r))\<rparr> else r)"

abbreviation rule_id_before :: "forward_rule \<Rightarrow> forward_rule \<Rightarrow> bool" where
  "rule_id_before a b \<equiv> rule_id a < rule_id b"

definition rebuildAgentConfig :: "string \<Rightarrow> memory \<Rightarrow> memory" where
  "rebuildAgentConfig nid m =
     (case map_of (mem_nodes m) nid of
        None \<Rightarrow> m
      | Some n \<Rightarrow>
          m\<lparr>mem_configs := gput nid
              \<lparr>config_version = node_config_version n,
               config_rules = sort_slice rule_id_before
                 (map (with_relay_host m) (filter (involves nid) (map snd (mem_rules m))))\<rparr> (mem_configs m)\<rparr>)"

definition ConfigForAgent :: "string \<Rightarrow> string \<Rightarrow> memory \<Rightarrow> store_error + agent_config" where
  "ConfigForAgent nid credential m =
     (case map_of (mem_nodes m) nid of
        None \<Rightarrow> Inl ErrNotFound
      | Some n \<Rightarrow>
          if credential_at m nid \<noteq> credential \<or> node_status n = NodeDisabled then Inl ErrNotFound
          else (case map_of (mem_configs m) nid of None \<Rightarrow> Inl ErrNotFound | Some c \<Rightarrow> Inr c))"

definition SetAgentConfig :: "string \<Rightarrow> agent_config \<Rightarrow> memory \<Rightarrow> memory \<times> (store_error + unit)" where
  "SetAgentConfig nid c m =
     (case map_of (mem_nodes m) nid of
        None \<Rightarrow> (m, Inl ErrNotFound)
      | Some n \<Rightarrow>
          (m\<lparr>mem_configs := gput nid c (mem_configs m),
             mem_nodes := gput nid (n\<lparr>node_config_version := config_version c\<rparr>) (mem_nodes m)\<rparr>, Inr ()))"

section \<open>Changing rules\<close>

text \<open>
  \<open>node := memory.nodes[id]; node.ConfigVersion++\<close>. Creating and deleting a rule store the node under its own
  identifier, updating stores it under the key it was read from.
\<close>

definition bumpNode :: "string \<Rightarrow> memory \<Rightarrow> memory" where
  "bumpNode nid m =
     (let n = node_at m nid
      in m\<lparr>mem_nodes := gput (node_id n) (n\<lparr>node_config_version := node_config_version n + 1\<rparr>) (mem_nodes m)\<rparr>)"

definition bumpNodeAt :: "string \<Rightarrow> memory \<Rightarrow> memory" where
  "bumpNodeAt nid m =
     (let n = node_at m nid
      in m\<lparr>mem_nodes := gput nid (n\<lparr>node_config_version := node_config_version n + 1\<rparr>) (mem_nodes m)\<rparr>)"

definition CreateForwardRule :: "forward_rule \<Rightarrow> memory \<Rightarrow> memory \<times> (store_error + forward_rule)" where
  "CreateForwardRule r m =
     (if ghas (mem_rules m) (rule_id r) then (m, Inl ErrConflict)
      else if \<not> ruleNodesAvailable m r then (m, Inl ErrNotFound)
      else if listenerConflict m r [] then (m, Inl ErrConflict)
      else let m1 = fold bumpNode (ruleNodeIDs r) m;
               r1 = r\<lparr>rule_config_version := node_config_version (node_at m1 (rule_ingress r))\<rparr>;
               r2 = (if rule_mode r = ForwardRelay
                     then r1\<lparr>rule_egress_config_version := node_config_version (node_at m1 (rule_egress r))\<rparr> else r1);
               m2 = m1\<lparr>mem_rules := gput (rule_id r) r2 (mem_rules m1)\<rparr>
           in (fold rebuildAgentConfig (ruleNodeIDs r) m2, Inr r2))"

definition UpdateForwardRule :: "forward_rule \<Rightarrow> memory \<Rightarrow> memory \<times> (store_error + forward_rule)" where
  "UpdateForwardRule r m =
     (case map_of (mem_rules m) (rule_id r) of
        None \<Rightarrow> (m, Inl ErrNotFound)
      | Some previous \<Rightarrow>
          if \<not> ruleNodesAvailable m r then (m, Inl ErrNotFound)
          else if listenerConflict m r (rule_id r) then (m, Inl ErrConflict)
          else let r0 = r\<lparr>rule_active_conns := rule_active_conns previous, rule_bytes_in := rule_bytes_in previous,
                          rule_bytes_out := rule_bytes_out previous,
                          rule_runtime_updated := rule_runtime_updated previous\<rparr>;
                   affected = remdups (ruleNodeIDs previous @ ruleNodeIDs r0);
                   m1 = fold bumpNodeAt affected m;
                   r1 = r0\<lparr>rule_config_version := node_config_version (node_at m1 (rule_ingress r0))\<rparr>;
                   r2 = r1\<lparr>rule_egress_config_version :=
                          (if rule_mode r = ForwardRelay then node_config_version (node_at m1 (rule_egress r)) else 0)\<rparr>;
                   m2 = m1\<lparr>mem_rules := gput (rule_id r) r2 (mem_rules m1)\<rparr>
               in (fold rebuildAgentConfig affected m2, Inr r2))"

definition DeleteForwardRule :: "string \<Rightarrow> memory \<Rightarrow> memory \<times> (store_error + unit)" where
  "DeleteForwardRule rid m =
     (case map_of (mem_rules m) rid of
        None \<Rightarrow> (m, Inl ErrNotFound)
      | Some r \<Rightarrow>
          let nids = ruleNodeIDs r;
              m1 = fold bumpNode nids m;
              m2 = m1\<lparr>mem_rules := gdel rid (mem_rules m1)\<rparr>
          in (fold rebuildAgentConfig nids m2, Inr ()))"

definition ListForwardRules :: "memory \<Rightarrow> forward_rule list" where
  "ListForwardRules m =
     sort_slice (\<lambda>a b. rule_name a < rule_name b) (map (\<lambda>(rid, r). with_relay_host m r) (mem_rules m))"

definition ListNodes :: "memory \<Rightarrow> node list" where
  "ListNodes m = sort_slice (\<lambda>a b. node_name a < node_name b) (map snd (mem_nodes m))"

section \<open>The invariant of nodes and rules\<close>

text \<open>
  A configuration is a snapshot: the runtime counters of a rule and the relay host (the tunnel address of the
  egress node) may change in the store without the configuration being rebuilt. The view forgets them.
\<close>

definition config_view :: "forward_rule \<Rightarrow> forward_rule" where
  "config_view r = r\<lparr>rule_relay_host := [], rule_active_conns := 0, rule_bytes_in := 0, rule_bytes_out := 0,
     rule_runtime_updated := 0\<rparr>"

definition node_view :: "memory \<Rightarrow> string \<Rightarrow> forward_rule list" where
  "node_view m nid =
     sort_slice rule_id_before (map (\<lambda>p. config_view (snd p)) (filter (\<lambda>p. involves nid (snd p)) (mem_rules m)))"

text \<open>
  What the store relies on of a validated rule: a non-empty identifier, and an egress where the mode needs one.
  For such a rule the touched nodes are the involved nodes.
\<close>

definition rule_ok :: "forward_rule \<Rightarrow> bool" where
  "rule_ok r \<longleftrightarrow> rule_id r \<noteq> [] \<and> (rule_mode r = ForwardRelay \<longrightarrow> rule_egress r \<noteq> [])"

definition nodes_wf :: "memory \<Rightarrow> bool" where
  "nodes_wf m \<longleftrightarrow>
     (\<forall>nid n. map_of (mem_nodes m) nid = Some n \<longrightarrow> node_id n = nid)
   \<and> (\<forall>rid r. map_of (mem_rules m) rid = Some r \<longrightarrow>
        rule_id r = rid \<and> rule_ok r \<and> (\<forall>nid. involves nid r \<longrightarrow> map_of (mem_nodes m) nid \<noteq> None))"

definition no_clashes :: "memory \<Rightarrow> bool" where
  "no_clashes m \<longleftrightarrow>
     (\<forall>i j r s. map_of (mem_rules m) i = Some r \<longrightarrow> map_of (mem_rules m) j = Some s \<longrightarrow> i \<noteq> j \<longrightarrow>
        \<not> listener_clash r s \<and> \<not> relay_clash r s)"

definition configs_agree :: "memory \<Rightarrow> bool" where
  "configs_agree m \<longleftrightarrow>
     (\<forall>nid n. map_of (mem_nodes m) nid = Some n \<longrightarrow>
        (\<exists>c. map_of (mem_configs m) nid = Some c \<and> config_version c = node_config_version n
           \<and> map config_view (config_rules c) = node_view m nid))"

lemma listener_clash_sym: "listener_clash r s = listener_clash s r"
  by (auto simp: listener_clash_def ProtocolsOverlap_sym)

lemma relay_clash_sym: "relay_clash r s = relay_clash s r"
  by (auto simp: relay_clash_def)

lemma listenerConflict_iff:
  "gomap_ok (mem_rules m) \<Longrightarrow> listenerConflict m c x \<longleftrightarrow>
     (\<exists>rid r. map_of (mem_rules m) rid = Some r \<and> rid \<noteq> x \<and> (listener_clash r c \<or> relay_clash r c))"
  by (auto simp: listenerConflict_def list_ex_iff in_set_map_of simp del: map_of_eq_Some_iff
      dest: in_set_map_of [THEN iffD1])

lemma involves_iff: "rule_ok r \<Longrightarrow> involves nid r \<longleftrightarrow> nid \<in> set (ruleNodeIDs r)"
  by (auto simp: involves_def ruleNodeIDs_def rule_ok_def)

lemma rule_valid_ok: "rule_validate r = None \<Longrightarrow> rule_ok r"
  using rule_valid_relay rule_valid_ids by (auto simp: rule_ok_def)

lemma ruleNodeIDs_distinct [simp]: "distinct (ruleNodeIDs r)"
  by (simp add: ruleNodeIDs_def)

lemma ruleNodesAvailable_iff:
  "ruleNodesAvailable m r \<longleftrightarrow>
     (\<forall>nid \<in> set (ruleNodeIDs r). \<exists>n. map_of (mem_nodes m) nid = Some n \<and> node_status n \<noteq> NodeDisabled)"
  unfolding ruleNodesAvailable_def list_all_iff by (force split: option.splits)

section \<open>Bumping and rebuilding\<close>

definition bumped :: "node \<Rightarrow> node" where
  "bumped n = n\<lparr>node_config_version := node_config_version n + 1\<rparr>"

lemma bumped_simps [simp]:
  "node_id (bumped n) = node_id n" "node_status (bumped n) = node_status n"
  "node_config_version (bumped n) = node_config_version n + 1"
  "node_tunnel_address (bumped n) = node_tunnel_address n"
  by (simp_all add: bumped_def)

lemma bumpNodeAt_nodes:
  "map_of (mem_nodes m) nid = Some n \<Longrightarrow>
     bumpNodeAt nid m = m\<lparr>mem_nodes := gput nid (bumped n) (mem_nodes m)\<rparr>"
  by (simp add: bumpNodeAt_def node_at_def bumped_def)

lemma bumpNode_eq:
  "nodes_wf m \<Longrightarrow> map_of (mem_nodes m) nid = Some n \<Longrightarrow> bumpNode nid m = bumpNodeAt nid m"
  by (simp add: bumpNode_def bumpNodeAt_def node_at_def nodes_wf_def)

text \<open>Only the node table changes, and in it exactly the listed nodes, by one version each.\<close>

lemma fold_bump_simps [simp]:
  "mem_rules (fold bumpNodeAt ns m) = mem_rules m" "mem_configs (fold bumpNodeAt ns m) = mem_configs m"
  "mem_users (fold bumpNodeAt ns m) = mem_users m" "mem_usernames (fold bumpNodeAt ns m) = mem_usernames m"
  "mem_sessions (fold bumpNodeAt ns m) = mem_sessions m" "mem_tokens (fold bumpNodeAt ns m) = mem_tokens m"
  "mem_credentials (fold bumpNodeAt ns m) = mem_credentials m" "mem_audits (fold bumpNodeAt ns m) = mem_audits m"
  "mem_samples (fold bumpNodeAt ns m) = mem_samples m" "mem_logs (fold bumpNodeAt ns m) = mem_logs m"
  "mem_log_keys (fold bumpNodeAt ns m) = mem_log_keys m"
  "mem_connections (fold bumpNodeAt ns m) = mem_connections m"
  by (induction ns arbitrary: m) (simp_all add: bumpNodeAt_def Let_def)

lemma fold_bump_nodes:
  assumes "distinct ns" "\<forall>nid \<in> set ns. map_of (mem_nodes m) nid \<noteq> None"
  shows "map_of (mem_nodes (fold bumpNodeAt ns m)) nid =
     (if nid \<in> set ns then map_option bumped (map_of (mem_nodes m) nid) else map_of (mem_nodes m) nid)"
  using assms
proof (induction ns arbitrary: m)
  case Nil
  then show ?case by simp
next
  case (Cons a ns)
  then obtain n where n: "map_of (mem_nodes m) a = Some n" by auto
  have present: "\<forall>nid \<in> set ns. map_of (mem_nodes (bumpNodeAt a m)) nid \<noteq> None"
    using Cons.prems n by (auto simp: bumpNodeAt_nodes)
  show ?case
    using Cons.IH [of "bumpNodeAt a m"] Cons.prems present n by (auto simp: bumpNodeAt_nodes)
qed

lemma fold_bumpNode_eq:
  assumes "nodes_wf m" "\<forall>nid \<in> set ns. map_of (mem_nodes m) nid \<noteq> None"
  shows "fold bumpNode ns m = fold bumpNodeAt ns m"
  using assms
proof (induction ns arbitrary: m)
  case Nil
  then show ?case by simp
next
  case (Cons a ns)
  then obtain n where n: "map_of (mem_nodes m) a = Some n" by auto
  then have a: "bumpNode a m = bumpNodeAt a m" using Cons.prems by (simp add: bumpNode_eq)
  have "nodes_wf (bumpNodeAt a m)"
    using Cons.prems(1) n by (auto simp: bumpNodeAt_nodes nodes_wf_def)
  moreover have "\<forall>nid \<in> set ns. map_of (mem_nodes (bumpNodeAt a m)) nid \<noteq> None"
    using Cons.prems n by (auto simp: bumpNodeAt_nodes)
  ultimately show ?case using Cons.IH a by simp
qed

lemma maps_ok_fold_bump: "maps_ok m \<Longrightarrow> maps_ok (fold bumpNodeAt ns m)"
  by (induction ns arbitrary: m) (simp_all add: bumpNodeAt_def Let_def maps_ok_def)

definition built_config :: "memory \<Rightarrow> string \<Rightarrow> node \<Rightarrow> agent_config" where
  "built_config m nid n = \<lparr>config_version = node_config_version n,
     config_rules = sort_slice rule_id_before
       (map (with_relay_host m) (filter (involves nid) (map snd (mem_rules m))))\<rparr>"

lemma rebuild_cases:
  "rebuildAgentConfig nid m =
     (case map_of (mem_nodes m) nid of None \<Rightarrow> m
      | Some n \<Rightarrow> m\<lparr>mem_configs := gput nid (built_config m nid n) (mem_configs m)\<rparr>)"
  by (simp add: rebuildAgentConfig_def built_config_def split: option.split)

lemma rebuild_frame [simp]:
  "mem_nodes (rebuildAgentConfig nid m) = mem_nodes m" "mem_rules (rebuildAgentConfig nid m) = mem_rules m"
  "mem_users (rebuildAgentConfig nid m) = mem_users m" "mem_usernames (rebuildAgentConfig nid m) = mem_usernames m"
  "mem_sessions (rebuildAgentConfig nid m) = mem_sessions m" "mem_tokens (rebuildAgentConfig nid m) = mem_tokens m"
  "mem_credentials (rebuildAgentConfig nid m) = mem_credentials m"
  "mem_audits (rebuildAgentConfig nid m) = mem_audits m" "mem_samples (rebuildAgentConfig nid m) = mem_samples m"
  "mem_logs (rebuildAgentConfig nid m) = mem_logs m" "mem_log_keys (rebuildAgentConfig nid m) = mem_log_keys m"
  "mem_connections (rebuildAgentConfig nid m) = mem_connections m"
  by (simp_all add: rebuild_cases split: option.split)

lemma fold_rebuild_frame [simp]:
  "mem_nodes (fold rebuildAgentConfig ns m) = mem_nodes m" "mem_rules (fold rebuildAgentConfig ns m) = mem_rules m"
  "mem_users (fold rebuildAgentConfig ns m) = mem_users m"
  "mem_usernames (fold rebuildAgentConfig ns m) = mem_usernames m"
  "mem_sessions (fold rebuildAgentConfig ns m) = mem_sessions m"
  "mem_tokens (fold rebuildAgentConfig ns m) = mem_tokens m"
  "mem_credentials (fold rebuildAgentConfig ns m) = mem_credentials m"
  "mem_audits (fold rebuildAgentConfig ns m) = mem_audits m"
  "mem_samples (fold rebuildAgentConfig ns m) = mem_samples m"
  "mem_logs (fold rebuildAgentConfig ns m) = mem_logs m"
  "mem_log_keys (fold rebuildAgentConfig ns m) = mem_log_keys m"
  "mem_connections (fold rebuildAgentConfig ns m) = mem_connections m"
  by (induction ns arbitrary: m) simp_all

lemma with_relay_host_frame [simp]: "with_relay_host (m\<lparr>mem_configs := cs\<rparr>) = with_relay_host m"
  by (rule ext) (simp add: with_relay_host_def node_at_def)

lemma built_config_frame [simp]:
  "built_config (m\<lparr>mem_configs := cs\<rparr>) nid n = built_config m nid n"
  by (simp add: built_config_def)

lemma fold_rebuild_configs:
  "map_of (mem_configs (fold rebuildAgentConfig ns m)) nid =
     (case map_of (mem_nodes m) nid of
        None \<Rightarrow> map_of (mem_configs m) nid
      | Some n \<Rightarrow> if nid \<in> set ns then Some (built_config m nid n) else map_of (mem_configs m) nid)"
  by (induction ns arbitrary: m) (auto simp: rebuild_cases split: option.splits)

lemma maps_ok_fold_rebuild: "maps_ok m \<Longrightarrow> maps_ok (fold rebuildAgentConfig ns m)"
  by (induction ns arbitrary: m) (auto simp: rebuild_cases maps_ok_def split: option.split)

section \<open>Views of a rebuilt configuration\<close>

lemma insert_by_map:
  "(\<And>a b. lt' (f a) (f b) = lt a b) \<Longrightarrow> map f (insert_by lt x ys) = insert_by lt' (f x) (map f ys)"
  by (induction ys) auto

lemma sort_slice_map:
  "(\<And>a b. lt' (f a) (f b) = lt a b) \<Longrightarrow> map f (sort_slice lt xs) = sort_slice lt' (map f xs)"
  by (induction xs) (simp_all add: sort_slice_def insert_by_map [of lt' f lt])

lemma config_view_simps [simp]:
  "rule_id (config_view r) = rule_id r" "config_view (with_relay_host m r) = config_view r"
  "config_view (config_view r) = config_view r" "involves nid (config_view r) = involves nid r"
  by (simp_all add: config_view_def with_relay_host_def involves_def)

lemma built_config_view: "map config_view (config_rules (built_config m nid n)) = node_view m nid"
  by (simp add: built_config_def node_view_def sort_slice_map [where f = config_view and lt' = rule_id_before]
      filter_map comp_def)

lemma filter_gput_same:
  "gomap_ok m \<Longrightarrow> \<not> P v \<Longrightarrow> (\<And>old. map_of m k = Some old \<Longrightarrow> \<not> P old) \<Longrightarrow>
     filter (\<lambda>p. P (snd p)) (gput k v m) = filter (\<lambda>p. P (snd p)) m"
  by (induction m) (auto simp: gput_def)

lemma filter_gdel_same:
  "gomap_ok m \<Longrightarrow> (\<And>old. map_of m k = Some old \<Longrightarrow> \<not> P old) \<Longrightarrow>
     filter (\<lambda>p. P (snd p)) (gdel k m) = filter (\<lambda>p. P (snd p)) m"
proof (induction m)
  case Nil
  then show ?case by (simp add: gdel_def)
next
  case (Cons p m)
  show ?case
  proof (cases "fst p = k")
    case True
    then have "map_of m k = None" using Cons.prems(1) by simp
    then have "gdel k m = m" by (simp add: gdel_def delete_idem map_of_eq_None_iff)
    with True Cons.prems show ?thesis by (cases p) (auto simp: gdel_def)
  next
    case False
    with Cons show ?thesis by (cases p) (auto simp: gdel_def)
  qed
qed

lemma node_view_put:
  assumes "maps_ok m" "\<not> involves nid r" "\<And>old. map_of (mem_rules m) rid = Some old \<Longrightarrow> \<not> involves nid old"
    and "mem_rules m' = gput rid r (mem_rules m)"
  shows "node_view m' nid = node_view m nid"
  using filter_gput_same [of "mem_rules m" "involves nid" r rid] assms
  by (simp add: node_view_def maps_ok_def)

lemma node_view_del:
  assumes "maps_ok m" "\<And>old. map_of (mem_rules m) rid = Some old \<Longrightarrow> \<not> involves nid old"
    and "mem_rules m' = gdel rid (mem_rules m)"
  shows "node_view m' nid = node_view m nid"
  using filter_gdel_same [of "mem_rules m" rid "involves nid"] assms
  by (simp add: node_view_def maps_ok_def)

text \<open>
  The commit step all three changes of rules share: after the touched nodes were bumped and the rule table changed
  for touched nodes only, rebuilding the touched configurations makes all of them agree again.
\<close>

lemma configs_agree_commit:
  assumes "configs_agree m" "mem_configs m' = mem_configs m"
    and "\<And>nid. nid \<notin> set ns \<Longrightarrow> map_of (mem_nodes m') nid = map_of (mem_nodes m) nid"
    and "\<And>nid. nid \<notin> set ns \<Longrightarrow> node_view m' nid = node_view m nid"
  shows "configs_agree (fold rebuildAgentConfig ns m')"
proof -
  let ?f = "fold rebuildAgentConfig ns m'"
  have view: "node_view ?f nid = node_view m' nid" for nid
    by (simp add: node_view_def)
  show ?thesis
    unfolding configs_agree_def
  proof (intro allI impI)
    fix nid n assume "map_of (mem_nodes ?f) nid = Some n"
    then have n: "map_of (mem_nodes m') nid = Some n" by simp
    show "\<exists>c. map_of (mem_configs ?f) nid = Some c \<and> config_version c = node_config_version n
        \<and> map config_view (config_rules c) = node_view ?f nid"
    proof (cases "nid \<in> set ns")
      case True
      with n show ?thesis
        by (simp add: fold_rebuild_configs view built_config_view) (simp add: built_config_def)
    next
      case False
      with n assms obtain c where "map_of (mem_configs m) nid = Some c"
          "config_version c = node_config_version n" "map config_view (config_rules c) = node_view m nid"
        unfolding configs_agree_def by (metis (no_types, lifting))
      with False n assms(2,4) show ?thesis
        by (simp add: fold_rebuild_configs view)
    qed
  qed
qed

section \<open>Changing rules keeps the invariant\<close>

definition rules_inv :: "memory \<Rightarrow> bool" where
  "rules_inv m \<longleftrightarrow> maps_ok m \<and> nodes_wf m \<and> no_clashes m \<and> configs_agree m"

lemma rules_invD:
  assumes "rules_inv m"
  shows "maps_ok m" "nodes_wf m" "no_clashes m" "configs_agree m"
  using assms by (simp_all add: rules_inv_def)

lemma rules_inv_NewMemory: "rules_inv NewMemory"
  by (simp add: rules_inv_def maps_ok_NewMemory nodes_wf_def no_clashes_def configs_agree_def)
    (simp add: NewMemory_def)

text \<open>A change of a rule that keeps its identity, place and listeners: everything but versions and counters.\<close>

definition same_place :: "forward_rule \<Rightarrow> forward_rule \<Rightarrow> bool" where
  "same_place r s \<longleftrightarrow> rule_id r = rule_id s \<and> rule_mode r = rule_mode s \<and> rule_ingress r = rule_ingress s
     \<and> rule_egress r = rule_egress s \<and> rule_protocol r = rule_protocol s \<and> rule_listen_host r = rule_listen_host s
     \<and> rule_listen_port r = rule_listen_port s \<and> rule_relay_port r = rule_relay_port s"

lemma same_place_simps:
  assumes "same_place r s"
  shows "rule_id r = rule_id s" "involves nid r = involves nid s" "ruleNodeIDs r = ruleNodeIDs s"
    "rule_ok r = rule_ok s" "listener_clash r c = listener_clash s c" "relay_clash r c = relay_clash s c"
    "listener_clash c r = listener_clash c s" "relay_clash c r = relay_clash c s"
  using assms by (simp_all add: same_place_def involves_def ruleNodeIDs_def rule_ok_def
      listener_clash_def relay_clash_def)

text \<open>What a successful creation, update and deletion did.\<close>

lemma available_present:
  "ruleNodesAvailable m r \<Longrightarrow> \<forall>nid \<in> set (ruleNodeIDs r). map_of (mem_nodes m) nid \<noteq> None"
  by (auto simp: ruleNodesAvailable_iff)

lemma CreateForwardRule_Inr:
  assumes "CreateForwardRule r m = (m', Inr r')" "nodes_wf m"
  defines "ns \<equiv> ruleNodeIDs r"
  shows "map_of (mem_rules m) (rule_id r) = None" "ruleNodesAvailable m r" "\<not> listenerConflict m r []"
    "same_place r' r"
    "m' = fold rebuildAgentConfig ns ((fold bumpNodeAt ns m)\<lparr>mem_rules := gput (rule_id r) r' (mem_rules m)\<rparr>)"
proof -
  have ok: "\<not> ghas (mem_rules m) (rule_id r)" "ruleNodesAvailable m r" "\<not> listenerConflict m r []"
    using assms(1) by (auto simp: CreateForwardRule_def split: if_splits)
  then show "map_of (mem_rules m) (rule_id r) = None" "ruleNodesAvailable m r" "\<not> listenerConflict m r []"
    by (simp_all add: ghas_def)
  have eq: "fold bumpNode (ruleNodeIDs r) m = fold bumpNodeAt (ruleNodeIDs r) m"
    using assms(2) available_present [OF ok(2)] by (rule fold_bumpNode_eq)
  show "same_place r' r"
    using assms(1) ok by (auto simp: CreateForwardRule_def Let_def same_place_def)
  show "m' = fold rebuildAgentConfig ns ((fold bumpNodeAt ns m)\<lparr>mem_rules := gput (rule_id r) r' (mem_rules m)\<rparr>)"
    using assms(1) ok eq by (auto simp: CreateForwardRule_def Let_def ns_def)
qed

lemma UpdateForwardRule_Inr:
  assumes "UpdateForwardRule r m = (m', Inr r')"
  obtains old where "map_of (mem_rules m) (rule_id r) = Some old" "ruleNodesAvailable m r"
    "\<not> listenerConflict m r (rule_id r)" "same_place r' r"
    "m' = (let ns = remdups (ruleNodeIDs old @ ruleNodeIDs r) in
       fold rebuildAgentConfig ns ((fold bumpNodeAt ns m)\<lparr>mem_rules := gput (rule_id r) r' (mem_rules m)\<rparr>))"
proof -
  obtain old where old: "map_of (mem_rules m) (rule_id r) = Some old" "ruleNodesAvailable m r"
      "\<not> listenerConflict m r (rule_id r)"
    using assms by (auto simp: UpdateForwardRule_def split: option.splits if_splits)
  have ids: "ruleNodeIDs (r\<lparr>rule_active_conns := a, rule_bytes_in := b, rule_bytes_out := c,
      rule_runtime_updated := d\<rparr>) = ruleNodeIDs r" for a b c d
    by (simp add: ruleNodeIDs_def)
  have place: "same_place r' r"
    using assms old by (auto simp: UpdateForwardRule_def Let_def same_place_def)
  have "m' = (let ns = remdups (ruleNodeIDs old @ ruleNodeIDs r) in
       fold rebuildAgentConfig ns ((fold bumpNodeAt ns m)\<lparr>mem_rules := gput (rule_id r) r' (mem_rules m)\<rparr>))"
    using assms old by (auto simp: UpdateForwardRule_def Let_def ids)
  with old place that show ?thesis by blast
qed

lemma DeleteForwardRule_Inr:
  assumes "DeleteForwardRule rid m = (m', Inr u)" "nodes_wf m"
  obtains old where "map_of (mem_rules m) rid = Some old"
    "m' = fold rebuildAgentConfig (ruleNodeIDs old)
       ((fold bumpNodeAt (ruleNodeIDs old) m)\<lparr>mem_rules := gdel rid (mem_rules m)\<rparr>)"
proof -
  obtain old where old: "map_of (mem_rules m) rid = Some old"
    using assms(1) by (auto simp: DeleteForwardRule_def split: option.splits)
  have "\<forall>nid \<in> set (ruleNodeIDs old). map_of (mem_nodes m) nid \<noteq> None"
    using assms(2) old involves_iff unfolding nodes_wf_def by blast
  then have "fold bumpNode (ruleNodeIDs old) m = fold bumpNodeAt (ruleNodeIDs old) m"
    using assms(2) by (simp add: fold_bumpNode_eq)
  with assms(1) old have "m' = fold rebuildAgentConfig (ruleNodeIDs old)
       ((fold bumpNodeAt (ruleNodeIDs old) m)\<lparr>mem_rules := gdel rid (mem_rules m)\<rparr>)"
    by (auto simp: DeleteForwardRule_def Let_def)
  with old that show ?thesis by blast
qed

lemma nodes_wf_fold_bump:
  assumes "nodes_wf m" "distinct ns" "\<forall>nid \<in> set ns. map_of (mem_nodes m) nid \<noteq> None"
  shows "nodes_wf (fold bumpNodeAt ns m)"
proof -
  let ?f = "fold bumpNodeAt ns m"
  note nodes = fold_bump_nodes [OF assms(2,3)]
  have ids: "node_id n = nid" if "map_of (mem_nodes m) nid = Some n" for nid n
    using that assms(1) by (simp add: nodes_wf_def)
  have "node_id n = nid" if "map_of (mem_nodes ?f) nid = Some n" for nid n
    using that ids unfolding nodes by (cases "nid \<in> set ns"; cases "map_of (mem_nodes m) nid") auto
  moreover have "map_of (mem_nodes ?f) nid = None \<longleftrightarrow> map_of (mem_nodes m) nid = None" for nid
    unfolding nodes by (cases "nid \<in> set ns") simp_all
  ultimately show ?thesis
    using assms(1) unfolding nodes_wf_def fold_bump_simps by presburger
qed

lemma nodes_wf_put:
  assumes "nodes_wf m" "rule_id r = rid" "rule_ok r"
    and "\<And>nid. involves nid r \<Longrightarrow> map_of (mem_nodes m) nid \<noteq> None"
  shows "nodes_wf (m\<lparr>mem_rules := gput rid r (mem_rules m)\<rparr>)"
proof -
  let ?P = "\<lambda>k q. rule_id q = k \<and> rule_ok q \<and> (\<forall>nid. involves nid q \<longrightarrow> map_of (mem_nodes m) nid \<noteq> None)"
  have old: "?P k q" if "map_of (mem_rules m) k = Some q" for k q
    using that assms(1) unfolding nodes_wf_def by blast
  have "?P rid r" using assms(2-4) by blast
  then have "?P k q" if "map_of (gput rid r (mem_rules m)) k = Some q" for k q
    using map_of_gput_SomeD [OF that] old by blast
  moreover have "\<forall>nid n. map_of (mem_nodes m) nid = Some n \<longrightarrow> node_id n = nid"
    using assms(1) unfolding nodes_wf_def by blast
  ultimately have "(\<forall>nid n. map_of (mem_nodes m) nid = Some n \<longrightarrow> node_id n = nid)
    \<and> (\<forall>k q. map_of (gput rid r (mem_rules m)) k = Some q \<longrightarrow> ?P k q)" by blast
  then show ?thesis unfolding nodes_wf_def by (simp del: map_of_gput)
qed

lemma nodes_wf_del: "nodes_wf m \<Longrightarrow> nodes_wf (m\<lparr>mem_rules := gdel rid (mem_rules m)\<rparr>)"
  unfolding nodes_wf_def by (simp split: if_split)

text \<open>Installing a rule under its identifier, and removing one, with the touched nodes bumped and rebuilt.\<close>

lemma rules_inv_install:
  assumes inv: "rules_inv m" and rid: "rule_id r = rid" and eg: "rule_ok r"
    and ns: "distinct ns" "\<forall>nid \<in> set ns. map_of (mem_nodes m) nid \<noteq> None"
    and new: "\<And>nid. involves nid r \<Longrightarrow> nid \<in> set ns"
    and old: "\<And>nid q. map_of (mem_rules m) rid = Some q \<Longrightarrow> involves nid q \<Longrightarrow> nid \<in> set ns"
    and clash: "\<And>k q. map_of (mem_rules m) k = Some q \<Longrightarrow> k \<noteq> rid \<Longrightarrow> \<not> listener_clash q r \<and> \<not> relay_clash q r"
  shows "rules_inv (fold rebuildAgentConfig ns ((fold bumpNodeAt ns m)\<lparr>mem_rules := gput rid r (mem_rules m)\<rparr>))"
    (is "rules_inv (fold rebuildAgentConfig ns ?m)")
proof -
  note parts = rules_invD [OF inv]
  have maps: "maps_ok ?m"
    using maps_ok_fold_bump [OF parts(1), of ns] by (simp add: maps_ok_def)
  note nodes = fold_bump_nodes [OF ns]
  have "map_of (mem_nodes (fold bumpNodeAt ns m)) nid \<noteq> None" if "involves nid r" for nid
    using new [OF that] ns(2) unfolding nodes by simp
  from nodes_wf_put [OF nodes_wf_fold_bump [OF parts(2) ns] rid eg this] have "nodes_wf ?m"
    unfolding fold_bump_simps .
  then have wf: "nodes_wf (fold rebuildAgentConfig ns ?m)"
    by (simp add: nodes_wf_def)
  have "no_clashes ?m"
    unfolding no_clashes_def
  proof (intro allI impI)
    fix i j q s assume q: "map_of (mem_rules ?m) i = Some q" "map_of (mem_rules ?m) j = Some s" "i \<noteq> j"
    have q': "map_of (gput rid r (mem_rules m)) i = Some q" "map_of (gput rid r (mem_rules m)) j = Some s"
      using q by simp_all
    consider "i = rid" "q = r" "map_of (mem_rules m) j = Some s" "j \<noteq> rid"
      | "j = rid" "s = r" "map_of (mem_rules m) i = Some q" "i \<noteq> rid"
      | "map_of (mem_rules m) i = Some q" "map_of (mem_rules m) j = Some s"
      using q(3) map_of_gput_SomeD [OF q'(1)] map_of_gput_SomeD [OF q'(2)] by blast
    then show "\<not> listener_clash q s \<and> \<not> relay_clash q s"
    proof cases
      case 1
      then show ?thesis using clash [of j s] by (simp add: listener_clash_sym [of r] relay_clash_sym [of r])
    next
      case 2
      then show ?thesis using clash [of i q] by simp
    next
      case 3
      then show ?thesis using parts(3) q(3) unfolding no_clashes_def by blast
    qed
  qed
  then have cl: "no_clashes (fold rebuildAgentConfig ns ?m)"
    by (simp add: no_clashes_def)
  have "configs_agree (fold rebuildAgentConfig ns ?m)"
  proof (rule configs_agree_commit [OF parts(4)])
    fix nid assume out: "nid \<notin> set ns"
    then show "map_of (mem_nodes ?m) nid = map_of (mem_nodes m) nid" by (simp add: nodes)
    show "node_view ?m nid = node_view m nid"
      by (rule node_view_put [OF parts(1)]) (use out new old in auto)
  qed simp
  with wf cl maps_ok_fold_rebuild [OF maps] show ?thesis by (simp add: rules_inv_def)
qed

lemma rules_inv_remove:
  assumes inv: "rules_inv m"
    and ns: "distinct ns" "\<forall>nid \<in> set ns. map_of (mem_nodes m) nid \<noteq> None"
    and old: "\<And>nid q. map_of (mem_rules m) rid = Some q \<Longrightarrow> involves nid q \<Longrightarrow> nid \<in> set ns"
  shows "rules_inv (fold rebuildAgentConfig ns ((fold bumpNodeAt ns m)\<lparr>mem_rules := gdel rid (mem_rules m)\<rparr>))"
    (is "rules_inv (fold rebuildAgentConfig ns ?m)")
proof -
  note parts = rules_invD [OF inv]
  have maps: "maps_ok ?m"
    using maps_ok_fold_bump [OF parts(1), of ns] by (simp add: maps_ok_def)
  note nodes = fold_bump_nodes [OF ns]
  have "nodes_wf ?m"
    using nodes_wf_del [OF nodes_wf_fold_bump [OF parts(2) ns], of rid] unfolding fold_bump_simps .
  then have wf: "nodes_wf (fold rebuildAgentConfig ns ?m)"
    by (simp add: nodes_wf_def)
  have cl: "no_clashes (fold rebuildAgentConfig ns ?m)"
    using parts(3) by (auto simp: no_clashes_def)
  have "configs_agree (fold rebuildAgentConfig ns ?m)"
  proof (rule configs_agree_commit [OF parts(4)])
    fix nid assume out: "nid \<notin> set ns"
    then show "map_of (mem_nodes ?m) nid = map_of (mem_nodes m) nid" by (simp add: nodes)
    show "node_view ?m nid = node_view m nid"
      by (rule node_view_del [OF parts(1)]) (use out old in auto)
  qed simp
  with wf cl maps_ok_fold_rebuild [OF maps] show ?thesis by (simp add: rules_inv_def)
qed

lemma rules_inv_CreateForwardRule [inv_intros]:
  assumes "rules_inv m" "rule_ok r"
  shows "rules_inv (fst (CreateForwardRule r m))"
proof (cases "snd (CreateForwardRule r m)")
  case (Inl e)
  then show ?thesis
    using assms by (auto simp: CreateForwardRule_def Let_def split: if_splits)
next
  case (Inr r')
  then obtain m' where m': "CreateForwardRule r m = (m', Inr r')"
    by (metis prod.collapse)
  note c = CreateForwardRule_Inr [OF m' rules_invD(2) [OF assms(1)]]
  note p = same_place_simps [OF c(4)]
  have "\<not> listener_clash q r \<and> \<not> relay_clash q r" if "map_of (mem_rules m) k = Some q" for k q
  proof -
    have "k \<noteq> []"
      using that rules_invD(2) [OF assms(1)] by (auto simp: nodes_wf_def rule_ok_def)
    with c(3) that show ?thesis
      using listenerConflict_iff [OF maps_okD(8) [OF rules_invD(1) [OF assms(1)]]] by blast
  qed
  then have "rules_inv m'"
    unfolding c(5)
    by (intro rules_inv_install)
      (use assms c p available_present [OF c(2)] in \<open>auto simp: involves_iff\<close>)
  with m' show ?thesis by simp
qed

lemma rules_inv_UpdateForwardRule [inv_intros]:
  assumes "rules_inv m" "rule_ok r"
  shows "rules_inv (fst (UpdateForwardRule r m))"
proof (cases "snd (UpdateForwardRule r m)")
  case (Inl e)
  then have "fst (UpdateForwardRule r m) = m"
    by (auto simp: UpdateForwardRule_def Let_def split: option.splits if_splits)
  with assms show ?thesis by simp
next
  case (Inr r')
  then have "UpdateForwardRule r m = (fst (UpdateForwardRule r m), Inr r')"
    by (metis prod.collapse)
  then obtain old where o: "map_of (mem_rules m) (rule_id r) = Some old" "ruleNodesAvailable m r"
      "\<not> listenerConflict m r (rule_id r)" "same_place r' r"
      "fst (UpdateForwardRule r m) = (let ns = remdups (ruleNodeIDs old @ ruleNodeIDs r) in
       fold rebuildAgentConfig ns ((fold bumpNodeAt ns m)\<lparr>mem_rules := gput (rule_id r) r' (mem_rules m)\<rparr>))"
    by (rule UpdateForwardRule_Inr)
  note p = same_place_simps [OF o(4)]
  have old: "rule_ok old" "\<And>nid. involves nid old \<Longrightarrow> map_of (mem_nodes m) nid \<noteq> None"
    using o(1) rules_invD(2) [OF assms(1)] unfolding nodes_wf_def by blast+
  let ?ns = "remdups (ruleNodeIDs old @ ruleNodeIDs r)"
  have present: "\<forall>nid \<in> set ?ns. map_of (mem_nodes m) nid \<noteq> None"
    using available_present [OF o(2)] old involves_iff [OF old(1)] by (simp only: set_remdups set_append) blast
  have clash: "\<not> listener_clash q r' \<and> \<not> relay_clash q r'"
    if "map_of (mem_rules m) k = Some q" "k \<noteq> rule_id r" for k q
    using o(3) that listenerConflict_iff [OF maps_okD(8) [OF rules_invD(1) [OF assms(1)]]]
    unfolding p by blast
  have new: "nid \<in> set ?ns" if "involves nid r'" for nid
    using that involves_iff [OF assms(2)] by (simp add: p)
  have gone: "nid \<in> set ?ns" if "map_of (mem_rules m) (rule_id r) = Some q" "involves nid q" for nid q
    using that o(1) involves_iff [OF old(1)] by simp
  have "rules_inv (fold rebuildAgentConfig ?ns
      ((fold bumpNodeAt ?ns m)\<lparr>mem_rules := gput (rule_id r) r' (mem_rules m)\<rparr>))"
    by (rule rules_inv_install [OF assms(1) p(1) _ _ present]) (fact new gone | use p assms(2) clash in simp)+
  then show ?thesis unfolding o(5) Let_def .
qed

lemma rules_inv_DeleteForwardRule [inv_intros]:
  assumes "rules_inv m"
  shows "rules_inv (fst (DeleteForwardRule rid m))"
proof (cases "snd (DeleteForwardRule rid m)")
  case (Inl e)
  then have "fst (DeleteForwardRule rid m) = m"
    by (auto simp: DeleteForwardRule_def Let_def split: option.splits)
  with assms show ?thesis by simp
next
  case (Inr u)
  then have "DeleteForwardRule rid m = (fst (DeleteForwardRule rid m), Inr u)"
    by (metis prod.collapse)
  then obtain old where o: "map_of (mem_rules m) rid = Some old"
    "fst (DeleteForwardRule rid m) = fold rebuildAgentConfig (ruleNodeIDs old)
       ((fold bumpNodeAt (ruleNodeIDs old) m)\<lparr>mem_rules := gdel rid (mem_rules m)\<rparr>)"
    using rules_invD(2) [OF assms] by (rule DeleteForwardRule_Inr)
  have old: "rule_ok old" "\<And>nid. involves nid old \<Longrightarrow> map_of (mem_nodes m) nid \<noteq> None"
    using o(1) rules_invD(2) [OF assms] unfolding nodes_wf_def by blast+
  have present: "\<forall>nid \<in> set (ruleNodeIDs old). map_of (mem_nodes m) nid \<noteq> None"
    using old involves_iff by blast
  show ?thesis
    unfolding o(2)
    by (rule rules_inv_remove [OF assms _ present]) (use o(1) involves_iff [OF old(1)] in auto)
qed

section \<open>What a change of rules does\<close>

text \<open>What the user defined of a rule: everything but the versions and the runtime counters, which the store sets.\<close>

definition rule_definition :: "forward_rule \<Rightarrow> forward_rule" where
  "rule_definition r = r\<lparr>rule_config_version := 0, rule_egress_config_version := 0, rule_active_conns := 0,
     rule_bytes_in := 0, rule_bytes_out := 0, rule_runtime_updated := 0\<rparr>"

text \<open>
  The effect on nodes and configurations the three changes share, for the touched nodes \<open>ns\<close>: each touched node gets
  one version more and a configuration of that version built from the new rules, every other node keeps both.
\<close>

definition committed :: "string list \<Rightarrow> memory \<Rightarrow> memory \<Rightarrow> bool" where
  "committed ns m m' \<longleftrightarrow> (\<forall>nid n. map_of (mem_nodes m) nid = Some n \<longrightarrow>
     (if nid \<in> set ns
      then map_of (mem_nodes m') nid = Some (n\<lparr>node_config_version := node_config_version n + 1\<rparr>)
         \<and> (\<exists>c. map_of (mem_configs m') nid = Some c \<and> config_version c = node_config_version n + 1
              \<and> map config_view (config_rules c) = node_view m' nid)
      else map_of (mem_nodes m') nid = Some n \<and> map_of (mem_configs m') nid = map_of (mem_configs m) nid))"

lemma committed_intro:
  assumes "rules_inv m'" "distinct ns" "\<forall>nid \<in> set ns. map_of (mem_nodes m) nid \<noteq> None"
    and "m' = fold rebuildAgentConfig ns ((fold bumpNodeAt ns m)\<lparr>mem_rules := rs\<rparr>)"
  shows "committed ns m m'"
  unfolding committed_def
proof (intro allI impI)
  fix nid n assume n: "map_of (mem_nodes m) nid = Some n"
  have nodes: "map_of (mem_nodes m') nid = Some (if nid \<in> set ns then bumped n else n)"
    using fold_bump_nodes [OF assms(2,3), of nid] n by (simp add: assms(4))
  show "if nid \<in> set ns
      then map_of (mem_nodes m') nid = Some (n\<lparr>node_config_version := node_config_version n + 1\<rparr>)
         \<and> (\<exists>c. map_of (mem_configs m') nid = Some c \<and> config_version c = node_config_version n + 1
              \<and> map config_view (config_rules c) = node_view m' nid)
      else map_of (mem_nodes m') nid = Some n \<and> map_of (mem_configs m') nid = map_of (mem_configs m) nid"
  proof (cases "nid \<in> set ns")
    case True
    with nodes have "map_of (mem_nodes m') nid = Some (bumped n)" by simp
    with True rules_invD(4) [OF assms(1)] show ?thesis unfolding configs_agree_def by (fastforce simp: bumped_def)
  next
    case False
    with nodes have b: "map_of (mem_nodes m') nid = Some n" by simp
    have "map_of (mem_configs m') nid = map_of (mem_configs m) nid"
      using False by (simp add: assms(4) fold_rebuild_configs split: option.split)
    with False b show ?thesis by simp
  qed
qed

text \<open>
  Creating a rule is all or nothing and reaches exactly the nodes it touches. When \<open>CreateForwardRule\<close> succeeds, the
  identifier was free, the rule is stored unchanged but for its versions, no other rule changed, the ingress (and for a
  relay the egress) got exactly one version more together with a configuration of that version that holds the new rule
  set, the stored rule carries the new version of its ingress, and every other node kept its version and configuration.
\<close>

theorem CreateForwardRule_commits:
  assumes "rules_inv m" "rule_ok r" "CreateForwardRule r m = (m', Inr r')"
  shows "map_of (mem_rules m) (rule_id r) = None
    \<and> map_of (mem_rules m') = (map_of (mem_rules m))(rule_id r \<mapsto> r')
    \<and> rule_definition r' = rule_definition r
    \<and> map_option node_config_version (map_of (mem_nodes m') (rule_ingress r)) = Some (rule_config_version r')
    \<and> committed (ruleNodeIDs r) m m'"
proof -
  note c = CreateForwardRule_Inr [OF assms(3) rules_invD(2) [OF assms(1)]]
  have "rules_inv m'" using rules_inv_CreateForwardRule [OF assms(1,2)] assms(3) by simp
  from committed_intro [OF this ruleNodeIDs_distinct available_present [OF c(2)] c(5)]
  have commit: "committed (ruleNodeIDs r) m m'" .
  have avail: "\<not> ghas (mem_rules m) (rule_id r)" using c(1) by (simp add: ghas_def)
  have bump: "fold bumpNode (ruleNodeIDs r) m = fold bumpNodeAt (ruleNodeIDs r) m"
    using rules_invD(2) [OF assms(1)] available_present [OF c(2)] by (rule fold_bumpNode_eq)
  have r': "r' = (let m1 = fold bumpNodeAt (ruleNodeIDs r) m;
        r1 = r\<lparr>rule_config_version := node_config_version (node_at m1 (rule_ingress r))\<rparr>
      in if rule_mode r = ForwardRelay
         then r1\<lparr>rule_egress_config_version := node_config_version (node_at m1 (rule_egress r))\<rparr> else r1)"
    using assms(3) avail c(2,3) by (simp add: CreateForwardRule_def Let_def bump split: if_splits)
  obtain n where "map_of (mem_nodes m) (rule_ingress r) = Some n"
    using c(2) by (auto simp: ruleNodesAvailable_iff ruleNodeIDs_def)
  then have "map_option node_config_version (map_of (mem_nodes m') (rule_ingress r)) = Some (rule_config_version r')"
    using fold_bump_nodes [OF ruleNodeIDs_distinct available_present [OF c(2)], of "rule_ingress r"]
    by (simp add: c(5) r' Let_def node_at_def)
  moreover have "rule_definition r' = rule_definition r"
    by (simp add: r' Let_def rule_definition_def)
  moreover have "map_of (mem_rules m') = (map_of (mem_rules m))(rule_id r \<mapsto> r')" by (simp add: c(5))
  ultimately show ?thesis using c(1) commit by blast
qed

text \<open>
  Updating a rule reaches the nodes of the old and of the new version of the rule, each exactly once. When
  \<open>UpdateForwardRule\<close> succeeds, only that rule changed; it takes the new definition but keeps the runtime counters of
  the old one; every node that the old or the new rule touches got exactly one version more and a configuration of that
  version with the new rule set (so a node the rule left behind drops it); all other nodes kept theirs.
\<close>

theorem UpdateForwardRule_commits:
  assumes "rules_inv m" "rule_ok r" "UpdateForwardRule r m = (m', Inr r')"
  shows "\<exists>old. map_of (mem_rules m) (rule_id r) = Some old
    \<and> map_of (mem_rules m') = (map_of (mem_rules m))(rule_id r \<mapsto> r')
    \<and> rule_definition r' = rule_definition r
    \<and> rule_active_conns r' = rule_active_conns old \<and> rule_bytes_in r' = rule_bytes_in old
    \<and> rule_bytes_out r' = rule_bytes_out old \<and> rule_runtime_updated r' = rule_runtime_updated old
    \<and> committed (ruleNodeIDs old @ ruleNodeIDs r) m m'"
proof -
  from assms(3) obtain old where o: "map_of (mem_rules m) (rule_id r) = Some old" "ruleNodesAvailable m r"
      "\<not> listenerConflict m r (rule_id r)" "same_place r' r"
      "m' = (let ns = remdups (ruleNodeIDs old @ ruleNodeIDs r) in
       fold rebuildAgentConfig ns ((fold bumpNodeAt ns m)\<lparr>mem_rules := gput (rule_id r) r' (mem_rules m)\<rparr>))"
    by (rule UpdateForwardRule_Inr)
  have inv: "rules_inv m'" using rules_inv_UpdateForwardRule [OF assms(1,2)] assms(3) by simp
  have "rule_ok old" "\<forall>nid. involves nid old \<longrightarrow> map_of (mem_nodes m) nid \<noteq> None"
    using o(1) rules_invD(2) [OF assms(1)] unfolding nodes_wf_def by blast+
  then have "\<forall>nid \<in> set (remdups (ruleNodeIDs old @ ruleNodeIDs r)). map_of (mem_nodes m) nid \<noteq> None"
    using available_present [OF o(2)] involves_iff by (simp only: set_remdups set_append) blast
  from committed_intro [OF inv distinct_remdups this o(5) [unfolded Let_def]]
  have "committed (ruleNodeIDs old @ ruleNodeIDs r) m m'" by (simp add: committed_def)
  moreover have "rule_active_conns r' = rule_active_conns old \<and> rule_bytes_in r' = rule_bytes_in old
    \<and> rule_bytes_out r' = rule_bytes_out old \<and> rule_runtime_updated r' = rule_runtime_updated old"
    using assms(3) o(1-3) by (auto simp: UpdateForwardRule_def Let_def)
  moreover have "map_of (mem_rules m') = (map_of (mem_rules m))(rule_id r \<mapsto> r')"
    by (simp add: o(5) Let_def)
  moreover have "rule_definition r' = rule_definition r"
    using assms(3) o(1-3) by (auto simp: UpdateForwardRule_def Let_def rule_definition_def)
  ultimately show ?thesis using o(1) by blast
qed

end
