(* ===== verification/MemHeartbeat.thy ===== *)
theory MemHeartbeat
  imports StoreState
begin

text \<open>
  Heartbeats in the in-memory store (\<open>memory.go\<close>, \<open>UpdateAgentHeartbeat\<close> and its helpers): what a heartbeat writes
  into the node, the metric samples, the agent logs, the active connections and the counters of the rules, and the
  reads of these tables.
\<close>

section \<open>The node\<close>

definition heartbeat_node :: "agent_heartbeat \<Rightarrow> node \<Rightarrow> node" where
  "heartbeat_node hb n =
     (let applied = (if node_config_version n < hb_config_version hb then node_config_version n
                     else hb_config_version hb);
          attempted = (if hb_attempted_version hb = 0 then applied else hb_attempted_version hb)
      in n\<lparr>node_public_ip := hb_public_ip hb, node_status := NodeOnline, node_agent_version := hb_agent_version hb,
           node_last_heartbeat := hb_received_at hb,
           node_applied_config_version := applied,
           node_attempted_config_version :=
             (if node_config_version n < attempted then node_config_version n else attempted),
           node_last_config_error := hb_config_error hb, node_last_config_attempt := hb_received_at hb,
           node_cpu_percent := hb_cpu hb, node_memory_percent := hb_memory hb, node_load_one := hb_load hb,
           node_disk_percent := hb_disk hb, node_network_rx_bps := hb_rx hb, node_network_tx_bps := hb_tx hb,
           node_active_conns := hb_active hb, node_bytes_in := hb_in hb, node_bytes_out := hb_out hb,
           node_tunnel_address := hb_tunnel_address hb\<rparr>)"

section \<open>Metric samples\<close>

definition heartbeat_sample :: "string \<Rightarrow> time \<Rightarrow> agent_heartbeat \<Rightarrow> metric_sample" where
  "heartbeat_sample nid bucket hb =
     \<lparr>sample_node = nid, sample_at = bucket, sample_cpu = hb_cpu hb, sample_memory = hb_memory hb,
      sample_load = hb_load hb, sample_disk = hb_disk hb, sample_rx = hb_rx hb, sample_tx = hb_tx hb,
      sample_active = hb_active hb, sample_in = hb_in hb, sample_out = hb_out hb\<rparr>"

text \<open>The loop over the samples: the samples kept, and whether one of them was replaced.\<close>

fun filter_samples ::
  "string \<Rightarrow> time \<Rightarrow> time \<Rightarrow> agent_heartbeat \<Rightarrow> metric_sample list \<Rightarrow> metric_sample list \<times> bool" where
  "filter_samples nid bucket cutoff hb [] = ([], False)"
| "filter_samples nid bucket cutoff hb (s # ss) =
     (let (rest, replaced) = filter_samples nid bucket cutoff hb ss
      in if sample_at s < cutoff then (rest, replaced)
         else if sample_node s = nid \<and> sample_at s = bucket then (heartbeat_sample nid bucket hb # rest, True)
         else (s # rest, replaced))"

definition recordMetric :: "string \<Rightarrow> agent_heartbeat \<Rightarrow> memory \<Rightarrow> memory" where
  "recordMetric nid hb m =
     (let bucket = time_truncate (hb_received_at hb) go_minute;
          cutoff = bucket - NodeMetricRetention;
          (kept, replaced) = filter_samples nid bucket cutoff hb (mem_samples m)
      in m\<lparr>mem_samples := (if replaced then kept else kept @ [heartbeat_sample nid bucket hb])\<rparr>)"

section \<open>Agent logs\<close>

definition log_key :: "string \<Rightarrow> string \<Rightarrow> string" where
  "log_key nid event = nid @ CHR 0x00 # event"

definition entry_key :: "agent_log \<Rightarrow> string" where
  "entry_key e = log_key (log_node e) (log_event e)"

text \<open>The first loop drops the expired entries and their keys, the second appends the entries not seen before.\<close>

fun expire_logs :: "time \<Rightarrow> agent_log list \<Rightarrow> string set \<Rightarrow> agent_log list \<times> string set" where
  "expire_logs cutoff [] keys = ([], keys)"
| "expire_logs cutoff (e # es) keys =
     (if log_received_at e < cutoff then expire_logs cutoff es (keys - {entry_key e})
      else let (kept, keys') = expire_logs cutoff es keys in (e # kept, keys'))"

fun add_logs :: "string \<Rightarrow> time \<Rightarrow> agent_log list \<Rightarrow> agent_log list \<times> string set \<Rightarrow> agent_log list \<times> string set" where
  "add_logs nid received [] st = st"
| "add_logs nid received (e # es) (logs, keys) =
     (let key = log_key nid (log_event e)
      in if key \<in> keys then add_logs nid received es (logs, keys)
         else add_logs nid received es
                (logs @ [e\<lparr>log_node := nid, log_received_at := received\<rparr>], insert key keys))"

definition recordAgentLogs :: "string \<Rightarrow> agent_heartbeat \<Rightarrow> memory \<Rightarrow> memory" where
  "recordAgentLogs nid hb m =
     (let (logs, keys) = add_logs nid (hb_received_at hb) (hb_logs hb)
            (expire_logs (hb_received_at hb - AgentLogRetention) (mem_logs m) (mem_log_keys m))
      in m\<lparr>mem_logs := logs, mem_log_keys := keys\<rparr>)"

section \<open>Active connections\<close>

definition recent_first :: "active_connection \<Rightarrow> active_connection \<Rightarrow> bool" where
  "recent_first a b =
     (if conn_observed_at a = conn_observed_at b then conn_last_activity b < conn_last_activity a
      else conn_observed_at b < conn_observed_at a)"

definition observe_connections ::
  "string \<Rightarrow> agent_heartbeat \<Rightarrow> (string, active_connection) gomap \<Rightarrow> (string, active_connection) gomap" where
  "observe_connections nid hb cs =
     fold (\<lambda>c. gput (conn_id c) (c\<lparr>conn_node := nid, conn_observed_at := hb_received_at hb\<rparr>)) (hb_connections hb) cs"

definition trim_connections :: "(string, active_connection) gomap \<Rightarrow> (string, active_connection) gomap" where
  "trim_connections cs =
     (if MaxStoredConnectionsPerNode < length cs
      then fold (\<lambda>c. gdel (conn_id c)) (drop MaxStoredConnectionsPerNode (sort_slice recent_first (map snd cs))) cs
      else cs)"

definition heartbeat_connections :: "string \<Rightarrow> agent_heartbeat \<Rightarrow> memory \<Rightarrow> memory" where
  "heartbeat_connections nid hb m =
     (let start = (case map_of (mem_connections m) nid of
                     None \<Rightarrow> [] | Some cs \<Rightarrow> if hb_complete hb then [] else cs)
      in m\<lparr>mem_connections :=
             gput nid (trim_connections (observe_connections nid hb start)) (mem_connections m)\<rparr>)"

section \<open>Counters of the rules\<close>

definition stats_rule_update :: "agent_heartbeat \<Rightarrow> rule_stats \<Rightarrow> forward_rule \<Rightarrow> forward_rule" where
  "stats_rule_update hb st r = r\<lparr>rule_active_conns := stats_active st, rule_bytes_in := stats_in st,
     rule_bytes_out := stats_out st, rule_runtime_updated := hb_received_at hb\<rparr>"

text \<open>The loop over the reported statistics returns the rules and the identifiers it has seen.\<close>

fun apply_stats :: "string \<Rightarrow> agent_heartbeat \<Rightarrow> rule_stats list \<Rightarrow> (string, forward_rule) gomap \<times> string set
    \<Rightarrow> (string, forward_rule) gomap \<times> string set" where
  "apply_stats nid hb [] st = st"
| "apply_stats nid hb (x # xs) (rules, seen) =
     (case map_of rules (stats_rule x) of
        None \<Rightarrow> apply_stats nid hb xs (rules, seen)
      | Some r \<Rightarrow>
          if rule_ingress r \<noteq> nid then apply_stats nid hb xs (rules, seen)
          else apply_stats nid hb xs (gput (rule_id r) (stats_rule_update hb x r) rules, insert (rule_id r) seen))"

definition heartbeat_rules :: "string \<Rightarrow> agent_heartbeat \<Rightarrow> memory \<Rightarrow> memory" where
  "heartbeat_rules nid hb m =
     (let (rules, seen) = apply_stats nid hb (hb_rule_stats hb) (mem_rules m, {})
      in m\<lparr>mem_rules :=
             gmap_vals (\<lambda>rid r. if rule_ingress r = nid \<and> rid \<notin> seen
                                then r\<lparr>rule_active_conns := 0, rule_runtime_updated := hb_received_at hb\<rparr> else r)
               rules\<rparr>)"

section \<open>The heartbeat\<close>

definition UpdateAgentHeartbeat ::
  "string \<Rightarrow> string \<Rightarrow> agent_heartbeat \<Rightarrow> memory \<Rightarrow> memory \<times> (store_error + node)" where
  "UpdateAgentHeartbeat nid credential hb m =
     (case map_of (mem_nodes m) nid of
        None \<Rightarrow> (m, Inl ErrNotFound)
      | Some n \<Rightarrow>
          if credential_at m nid \<noteq> credential \<or> node_status n = NodeDisabled then (m, Inl ErrNotFound)
          else let n' = heartbeat_node hb n;
                   m1 = m\<lparr>mem_nodes := gput nid n' (mem_nodes m)\<rparr>
               in (heartbeat_rules nid hb (heartbeat_connections nid hb
                     (recordAgentLogs nid hb (recordMetric nid hb m1))), Inr n'))"

section \<open>Reads\<close>

definition connection_before :: "active_connection \<Rightarrow> active_connection \<Rightarrow> bool" where
  "connection_before a b =
     (if conn_last_activity a = conn_last_activity b
      then (if conn_node a = conn_node b then conn_id a < conn_id b else conn_node a < conn_node b)
      else conn_last_activity b < conn_last_activity a)"

definition ListActiveConnections :: "memory \<Rightarrow> active_connection list" where
  "ListActiveConnections m =
     sort_slice connection_before (concat (map (\<lambda>(nid, cs). map snd cs) (mem_connections m)))"

text \<open>
  \<open>ListAudit\<close> walks the events from the newest appended one and stops when it has \<open>limit\<close> of them; a negative
  limit makes the allocation panic and is \<open>None\<close>.
\<close>

definition ListAudit :: "int \<Rightarrow> time \<Rightarrow> memory \<Rightarrow> audit_event list option" where
  "ListAudit limit before m =
     (if limit < 0 then None
      else Some (take (nat limit)
             (filter (\<lambda>e. before = 0 \<or> audit_created_at e < before) (rev (mem_audits m)))))"

definition newest_log_first :: "agent_log \<Rightarrow> agent_log \<Rightarrow> bool" where
  "newest_log_first a b =
     (if log_occurred_at a = log_occurred_at b then log_event b < log_event a
      else log_occurred_at b < log_occurred_at a)"

definition log_selected :: "log_filter \<Rightarrow> agent_log \<Rightarrow> bool" where
  "log_selected f e \<longleftrightarrow> \<not> (filter_node f \<noteq> [] \<and> log_node e \<noteq> filter_node f
     \<or> filter_level f \<noteq> [] \<and> log_level e \<noteq> filter_level f
     \<or> filter_before f \<noteq> 0 \<and> \<not> log_occurred_at e < filter_before f)"

text \<open>The limit is tested after an entry is added, so a limit of 0 is no limit; a negative one panics.\<close>

definition ListAgentLogs :: "log_filter \<Rightarrow> memory \<Rightarrow> agent_log list option" where
  "ListAgentLogs f m =
     (if filter_limit f < 0 then None
      else let found = filter (log_selected f) (sort_slice newest_log_first (mem_logs m))
           in Some (if filter_limit f = 0 then found else take (nat (filter_limit f)) found))"

section \<open>The invariant of the runtime tables\<close>

definition samples_ok :: "memory \<Rightarrow> bool" where
  "samples_ok m \<longleftrightarrow> distinct (map (\<lambda>s. (sample_node s, sample_at s)) (mem_samples m))
     \<and> (\<forall>s \<in> set (mem_samples m). go_minute dvd sample_at s)"

definition logs_ok :: "memory \<Rightarrow> bool" where
  "logs_ok m \<longleftrightarrow> distinct (map entry_key (mem_logs m)) \<and> mem_log_keys m = entry_key ` set (mem_logs m)"

definition conns_ok :: "memory \<Rightarrow> bool" where
  "conns_ok m \<longleftrightarrow> (\<forall>nid cs. map_of (mem_connections m) nid = Some cs \<longrightarrow>
     gomap_ok cs \<and> length cs \<le> MaxStoredConnectionsPerNode
     \<and> (\<forall>cid c. map_of cs cid = Some c \<longrightarrow> conn_id c = cid \<and> conn_node c = nid))"

definition runtime_inv :: "memory \<Rightarrow> bool" where
  "runtime_inv m \<longleftrightarrow> samples_ok m \<and> logs_ok m \<and> conns_ok m"

lemma runtime_inv_NewMemory: "runtime_inv NewMemory"
  by (simp add: runtime_inv_def samples_ok_def logs_ok_def conns_ok_def NewMemory_def)

lemma runtime_inv_cong:
  "mem_samples m' = mem_samples m \<Longrightarrow> mem_logs m' = mem_logs m \<Longrightarrow> mem_log_keys m' = mem_log_keys m \<Longrightarrow>
   mem_connections m' = mem_connections m \<Longrightarrow> runtime_inv m \<Longrightarrow> runtime_inv m'"
  by (simp add: runtime_inv_def samples_ok_def logs_ok_def conns_ok_def)

subsection \<open>Samples\<close>

text \<open>
  The loop keeps the samples inside the retention, with the sample of this node and minute replaced by the new one.
\<close>

lemma filter_samples_eq:
  "filter_samples nid b c hb ss =
     (map (\<lambda>s. if sample_node s = nid \<and> sample_at s = b then heartbeat_sample nid b hb else s)
        (filter (\<lambda>s. \<not> sample_at s < c) ss),
      \<exists>s \<in> set ss. \<not> sample_at s < c \<and> sample_node s = nid \<and> sample_at s = b)"
  by (induction ss) (auto simp: Let_def split: prod.split)

lemma heartbeat_sample_key [simp]:
  "sample_node (heartbeat_sample nid b hb) = nid" "sample_at (heartbeat_sample nid b hb) = b"
  by (simp_all add: heartbeat_sample_def)

definition kept_samples :: "string \<Rightarrow> agent_heartbeat \<Rightarrow> memory \<Rightarrow> metric_sample list" where
  "kept_samples nid hb m =
     (let b = time_truncate (hb_received_at hb) go_minute
      in map (\<lambda>s. if sample_node s = nid \<and> sample_at s = b then heartbeat_sample nid b hb else s)
           (filter (\<lambda>s. \<not> sample_at s < b - NodeMetricRetention) (mem_samples m)))"

lemma samples_recordMetric:
  "mem_samples (recordMetric nid hb m) =
     (let b = time_truncate (hb_received_at hb) go_minute; ks = kept_samples nid hb m
      in if \<exists>s \<in> set (mem_samples m). sample_node s = nid \<and> sample_at s = b then ks
         else ks @ [heartbeat_sample nid b hb])"
proof -
  have "0 \<le> NodeMetricRetention" by (simp add: NodeMetricRetention_def)
  then have "\<not> b < b - NodeMetricRetention" for b :: time by simp
  then show ?thesis
    by (auto simp: recordMetric_def filter_samples_eq kept_samples_def Let_def)
qed

lemma map_key_kept:
  "map (\<lambda>s. (sample_node s, sample_at s)) (kept_samples nid hb m) =
     map (\<lambda>s. (sample_node s, sample_at s))
       (filter (\<lambda>s. \<not> sample_at s < time_truncate (hb_received_at hb) go_minute - NodeMetricRetention) (mem_samples m))"
  by (simp add: kept_samples_def Let_def)

lemma samples_ok_recordMetric:
  assumes "samples_ok m"
  shows "samples_ok (recordMetric nid hb m)"
proof -
  let ?key = "\<lambda>s. (sample_node s, sample_at s)"
  let ?b = "time_truncate (hb_received_at hb) go_minute"
  have b: "go_minute dvd ?b"
    by (simp add: time_truncate_def)
  have ks: "distinct (map ?key (kept_samples nid hb m))"
    using assms unfolding map_key_kept by (simp add: samples_ok_def distinct_map_filter)
  have keys: "?key ` set (kept_samples nid hb m) \<subseteq> ?key ` set (mem_samples m)"
    using arg_cong [OF map_key_kept, of set] by auto
  have dvd: "\<forall>s \<in> set (kept_samples nid hb m). go_minute dvd sample_at s"
    using assms b by (auto simp: kept_samples_def samples_ok_def Let_def)
  show ?thesis
  proof (cases "\<exists>s \<in> set (mem_samples m). sample_node s = nid \<and> sample_at s = ?b")
    case True
    with ks dvd show ?thesis by (simp add: samples_ok_def samples_recordMetric Let_def)
  next
    case False
    then have "(nid, ?b) \<notin> ?key ` set (mem_samples m)" by auto
    with keys have "(nid, ?b) \<notin> ?key ` set (kept_samples nid hb m)" by blast
    with ks have "distinct (map ?key (kept_samples nid hb m @ [heartbeat_sample nid ?b hb]))" by simp
    moreover have "mem_samples (recordMetric nid hb m) = kept_samples nid hb m @ [heartbeat_sample nid ?b hb]"
      using False by (simp add: samples_recordMetric Let_def)
    ultimately show ?thesis
      using dvd b unfolding samples_ok_def by (simp del: map_append)
  qed
qed

subsection \<open>Logs\<close>

lemma expire_logs_eq:
  "distinct (map entry_key es) \<Longrightarrow> entry_key ` set es \<subseteq> keys \<Longrightarrow>
   expire_logs c es keys =
     (filter (\<lambda>e. \<not> log_received_at e < c) es,
      keys - entry_key ` set (filter (\<lambda>e. log_received_at e < c) es))"
proof (induction es arbitrary: keys)
  case Nil
  then show ?case by simp
next
  case (Cons e es)
  then have "entry_key ` set es \<subseteq> keys - {entry_key e}" by (simp add: subset_Diff_insert)
  moreover have "\<forall>x \<in> set es. entry_key x \<noteq> entry_key e"
    using Cons.prems(1) by (auto simp: image_iff)
  moreover have "entry_key ` set es \<subseteq> keys" using Cons.prems(2) by simp
  ultimately show ?case using Cons.IH Cons.prems(1) by (auto simp: Let_def)
qed

lemma expire_logs_ok:
  assumes "distinct (map entry_key es)"
  shows "expire_logs c es (entry_key ` set es) =
     (let kept = filter (\<lambda>e. \<not> log_received_at e < c) es in (kept, entry_key ` set kept))"
proof -
  have "entry_key ` set es - entry_key ` set (filter (\<lambda>e. log_received_at e < c) es)
      = entry_key ` set (filter (\<lambda>e. \<not> log_received_at e < c) es)"
    using assms by (auto simp: distinct_map inj_on_def)
  with assms show ?thesis by (simp add: expire_logs_eq Let_def)
qed

text \<open>Appending keeps keys and entries in step and only ever appends.\<close>

lemma add_logs_ok:
  assumes "distinct (map entry_key logs)" "keys = entry_key ` set logs" "add_logs nid t es (logs, keys) = (logs', keys')"
  shows "distinct (map entry_key logs') \<and> keys' = entry_key ` set logs' \<and> (\<exists>ext. logs' = logs @ ext)
     \<and> keys' = keys \<union> (\<lambda>e. log_key nid (log_event e)) ` set es"
  using assms
proof (induction es arbitrary: logs keys)
  case Nil
  then show ?case by auto
next
  case (Cons e es)
  let ?new = "e\<lparr>log_node := nid, log_received_at := t\<rparr>"
  have key: "entry_key ?new = log_key nid (log_event e)"
    by (simp add: entry_key_def)
  show ?case
  proof (cases "log_key nid (log_event e) \<in> keys")
    case True
    with Cons.IH [OF Cons.prems(1,2)] Cons.prems(3) show ?thesis by auto
  next
    case False
    have "distinct (map entry_key (logs @ [?new]))" "insert (log_key nid (log_event e)) keys = entry_key ` set (logs @ [?new])"
      using Cons.prems(1,2) False key by auto
    from Cons.IH [OF this] Cons.prems(3) False show ?thesis by auto
  qed
qed

lemma logs_ok_recordAgentLogs:
  assumes "logs_ok m"
  shows "logs_ok (recordAgentLogs nid hb m)"
proof -
  let ?kept = "filter (\<lambda>e. \<not> log_received_at e < hb_received_at hb - AgentLogRetention) (mem_logs m)"
  obtain logs keys where st: "add_logs nid (hb_received_at hb) (hb_logs hb) (?kept, entry_key ` set ?kept) = (logs, keys)"
    by fastforce
  have "distinct (map entry_key ?kept)"
    using assms by (simp add: logs_ok_def distinct_map_filter)
  from add_logs_ok [OF this refl st] st assms show ?thesis
    by (simp add: recordAgentLogs_def logs_ok_def expire_logs_ok Let_def)
qed

subsection \<open>Connections\<close>

definition table_ok :: "string \<Rightarrow> (string, active_connection) gomap \<Rightarrow> bool" where
  "table_ok nid cs \<longleftrightarrow> gomap_ok cs \<and> (\<forall>cid c. map_of cs cid = Some c \<longrightarrow> conn_id c = cid \<and> conn_node c = nid)"

lemma table_ok_put: "table_ok nid cs \<Longrightarrow> conn_node c = nid \<Longrightarrow> table_ok nid (gput (conn_id c) c cs)"
  unfolding table_ok_def by (metis gomap_ok_gput map_of_gput_SomeD)

lemma table_ok_observe: "table_ok nid cs \<Longrightarrow> table_ok nid (observe_connections nid hb cs)"
proof -
  have "table_ok nid (fold (\<lambda>c. gput (conn_id c) (c\<lparr>conn_node := nid, conn_observed_at := hb_received_at hb\<rparr>)) xs cs)"
    if "table_ok nid cs" for xs cs
    using that
  proof (induction xs arbitrary: cs)
    case (Cons x xs)
    from table_ok_put [OF Cons.prems, of "x\<lparr>conn_node := nid, conn_observed_at := hb_received_at hb\<rparr>"]
    show ?case by (simp add: Cons.IH)
  qed simp
  then show "table_ok nid cs \<Longrightarrow> table_ok nid (observe_connections nid hb cs)"
    by (simp add: observe_connections_def)
qed

text \<open>Deleting the identifiers of a list of values leaves exactly the other values.\<close>

lemma fold_gdel_eq:
  "fold (\<lambda>c. gdel (f c)) xs cs = filter (\<lambda>p. fst p \<notin> f ` set xs) cs"
proof (induction xs arbitrary: cs)
  case Nil
  then show ?case by simp
next
  case (Cons x xs)
  have "gdel (f x) cs = filter (\<lambda>p. fst p \<noteq> f x) cs"
    by (auto simp: gdel_def AList.delete_eq intro: filter_cong)
  with Cons show ?case by (auto intro: filter_cong)
qed

lemma trim_values:
  assumes "table_ok nid cs"
  shows "mset (map snd (trim_connections cs)) =
     mset (take MaxStoredConnectionsPerNode (sort_slice recent_first (map snd cs)))"
proof (cases "MaxStoredConnectionsPerNode < length cs")
  case False
  then show ?thesis by (simp add: trim_connections_def)
next
  case True
  let ?xs = "sort_slice recent_first (map snd cs)"
  let ?n = MaxStoredConnectionsPerNode
  have ids: "map (\<lambda>p. conn_id (snd p)) cs = map fst cs"
    using assms by (auto simp: table_ok_def in_set_map_of simp del: map_of_eq_Some_iff)
  have "mset (map conn_id ?xs) = mset (map fst cs)"
    by (simp flip: ids add: multiset.map_comp comp_def)
  then have dist: "distinct (map conn_id ?xs)"
    using assms by (metis gomap_ok_def mset_eq_imp_distinct_iff table_ok_def)
  then have apart: "conn_id ` set (take ?n ?xs) \<inter> conn_id ` set (drop ?n ?xs) = {}"
    by (metis append_take_drop_id distinct_append map_append set_map)
  have "map snd (trim_connections cs) = filter (\<lambda>c. conn_id c \<notin> conn_id ` set (drop ?n ?xs)) (map snd cs)"
  proof -
    have "filter (\<lambda>p. fst p \<notin> conn_id ` set (drop ?n ?xs)) cs
        = filter (\<lambda>p. conn_id (snd p) \<notin> conn_id ` set (drop ?n ?xs)) cs"
      using ids by (intro filter_cong) (auto simp: map_eq_conv)
    with True show ?thesis
      by (simp add: trim_connections_def fold_gdel_eq filter_map comp_def)
  qed
  then have "mset (map snd (trim_connections cs)) = mset (filter (\<lambda>c. conn_id c \<notin> conn_id ` set (drop ?n ?xs)) ?xs)"
    by (simp only: mset_filter mset_sort_slice)
  also have "filter (\<lambda>c. conn_id c \<notin> conn_id ` set (drop ?n ?xs)) ?xs
      = filter (\<lambda>c. conn_id c \<notin> conn_id ` set (drop ?n ?xs)) (take ?n ?xs @ drop ?n ?xs)"
    by simp
  also have "\<dots> = take ?n ?xs"
    unfolding filter_append using apart by (auto simp: filter_id_conv filter_empty_conv)
  finally show ?thesis .
qed

lemma length_trim: "table_ok nid cs \<Longrightarrow> length (trim_connections cs) \<le> MaxStoredConnectionsPerNode"
  using arg_cong [OF trim_values, of nid cs size] by simp

lemma table_ok_trim: "table_ok nid cs \<Longrightarrow> table_ok nid (trim_connections cs)"
proof (cases "MaxStoredConnectionsPerNode < length cs")
  case True
  assume ok: "table_ok nid cs"
  then have gok: "gomap_ok cs" by (simp add: table_ok_def)
  have "map_of cs k = Some v" if "map_of (filter P cs) k = Some v" for P k v
    using that gok filter_is_subset [of P cs] gomap_ok_filter [OF gok, of P]
    by (metis in_set_map_of subsetD)
  with ok have "table_ok nid (filter P cs)" for P
    unfolding table_ok_def using gomap_ok_filter [OF gok] by blast
  with True show ?thesis
    by (simp only: trim_connections_def fold_gdel_eq if_True)
qed (simp add: trim_connections_def)

lemma conns_ok_iff:
  "conns_ok m \<longleftrightarrow> (\<forall>nid cs. map_of (mem_connections m) nid = Some cs \<longrightarrow>
     table_ok nid cs \<and> length cs \<le> MaxStoredConnectionsPerNode)"
  by (auto simp: conns_ok_def table_ok_def)

lemma conns_ok_heartbeat:
  assumes "conns_ok m"
  shows "conns_ok (heartbeat_connections nid hb m)"
proof -
  define start where "start = (case map_of (mem_connections m) nid of
      None \<Rightarrow> [] | Some cs \<Rightarrow> if hb_complete hb then [] else cs)"
  have "table_ok nid start"
    using assms by (auto simp: conns_ok_iff start_def table_ok_def split: option.splits)
  then have "table_ok nid (trim_connections (observe_connections nid hb start))"
    "length (trim_connections (observe_connections nid hb start)) \<le> MaxStoredConnectionsPerNode"
    using table_ok_observe table_ok_trim length_trim by blast+
  moreover have "mem_connections (heartbeat_connections nid hb m) =
      gput nid (trim_connections (observe_connections nid hb start)) (mem_connections m)"
    by (simp add: heartbeat_connections_def start_def Let_def)
  ultimately show ?thesis
    using assms unfolding conns_ok_iff by (metis map_of_gput_SomeD)
qed

subsection \<open>Rules\<close>

text \<open>
  The heartbeat of a node changes the counters of rules whose ingress it is, and nothing else of any rule: with the
  counters forgotten, the rule table is the same. Rules not reported become inactive.
\<close>

definition without_counters :: "forward_rule \<Rightarrow> forward_rule" where
  "without_counters r = r\<lparr>rule_active_conns := 0, rule_bytes_in := 0, rule_bytes_out := 0, rule_runtime_updated := 0\<rparr>"

definition forget_counters :: "(string, forward_rule) gomap \<Rightarrow> (string, forward_rule) gomap" where
  "forget_counters = map (\<lambda>(k, r). (k, without_counters r))"

lemma without_counters_update [simp]:
  "without_counters (stats_rule_update hb x r) = without_counters r"
  "without_counters (r\<lparr>rule_active_conns := a, rule_runtime_updated := t\<rparr>) = without_counters r"
  by (simp_all add: without_counters_def stats_rule_update_def)

lemma forget_counters_put:
  "map_of rules k = Some r \<Longrightarrow> without_counters r' = without_counters r \<Longrightarrow> gomap_ok rules \<Longrightarrow>
     forget_counters (gput k r' rules) = forget_counters rules"
  by (induction rules) (auto simp: forget_counters_def gput_def)

lemma apply_stats_forget:
  assumes "gomap_ok rules" "\<And>k r. map_of rules k = Some r \<Longrightarrow> rule_id r = k"
    "apply_stats nid hb xs (rules, seen) = (rules', seen')"
  shows "forget_counters rules' = forget_counters rules"
  using assms
proof (induction xs arbitrary: rules seen)
  case Nil
  then show ?case by simp
next
  case (Cons x xs)
  show ?case
  proof (cases "map_of rules (stats_rule x)")
    case None
    then show ?thesis using Cons.IH [OF Cons.prems(1,2)] Cons.prems(3) by simp
  next
    case (Some r)
    let ?rules = "gput (rule_id r) (stats_rule_update hb x r) rules"
    have rid: "rule_id r = stats_rule x" by (rule Cons.prems(2) [OF Some])
    have ids: "rule_id q = k" if "map_of ?rules k = Some q" for k q
      using map_of_gput_SomeD [OF that] Cons.prems(2) by (auto simp: stats_rule_update_def)
    have "forget_counters ?rules = forget_counters rules"
      using forget_counters_put [OF Some] Cons.prems(1) rid by simp
    then show ?thesis
      using Cons.IH [OF Cons.prems(1,2), of seen] Cons.IH [of ?rules "insert (rule_id r) seen", OF _ ids]
        Cons.prems(1,3) Some by (simp split: if_splits)
  qed
qed

lemma gomap_ok_forget [simp]: "gomap_ok (forget_counters rules) = gomap_ok rules"
  by (simp add: forget_counters_def gomap_ok_def case_prod_beta comp_def)

lemma map_of_forget: "map_of (forget_counters rules) k = map_option without_counters (map_of rules k)"
  unfolding forget_counters_def by (induction rules) auto

lemma forget_counters_heartbeat:
  assumes "gomap_ok (mem_rules m)" "\<And>k r. map_of (mem_rules m) k = Some r \<Longrightarrow> rule_id r = k"
  shows "forget_counters (mem_rules (heartbeat_rules nid hb m)) = forget_counters (mem_rules m)"
proof -
  obtain rules seen where st: "apply_stats nid hb (hb_rule_stats hb) (mem_rules m, {}) = (rules, seen)"
    by fastforce
  have "forget_counters (gmap_vals (\<lambda>rid r. if rule_ingress r = nid \<and> rid \<notin> seen
      then r\<lparr>rule_active_conns := 0, rule_runtime_updated := hb_received_at hb\<rparr> else r) rules) = forget_counters rules"
    by (auto simp: forget_counters_def gmap_vals_def)
  with st apply_stats_forget [OF assms st] show ?thesis
    by (simp add: heartbeat_rules_def)
qed

section \<open>The heartbeat as a whole\<close>

lemma heartbeat_frames [simp]:
  "mem_nodes (recordMetric nid hb m) = mem_nodes m" "mem_nodes (recordAgentLogs nid hb m) = mem_nodes m"
  "mem_nodes (heartbeat_connections nid hb m) = mem_nodes m" "mem_nodes (heartbeat_rules nid hb m) = mem_nodes m"
  "mem_rules (recordMetric nid hb m) = mem_rules m" "mem_rules (recordAgentLogs nid hb m) = mem_rules m"
  "mem_rules (heartbeat_connections nid hb m) = mem_rules m"
  "mem_configs (recordMetric nid hb m) = mem_configs m" "mem_configs (recordAgentLogs nid hb m) = mem_configs m"
  "mem_configs (heartbeat_connections nid hb m) = mem_configs m" "mem_configs (heartbeat_rules nid hb m) = mem_configs m"
  by (simp_all add: recordMetric_def recordAgentLogs_def heartbeat_connections_def heartbeat_rules_def Let_def
      split: prod.split)

lemma heartbeat_frames_accounts [simp]:
  "mem_users (recordMetric nid hb m) = mem_users m" "mem_users (recordAgentLogs nid hb m) = mem_users m"
  "mem_users (heartbeat_connections nid hb m) = mem_users m" "mem_users (heartbeat_rules nid hb m) = mem_users m"
  "mem_usernames (recordMetric nid hb m) = mem_usernames m" "mem_usernames (recordAgentLogs nid hb m) = mem_usernames m"
  "mem_usernames (heartbeat_connections nid hb m) = mem_usernames m"
  "mem_usernames (heartbeat_rules nid hb m) = mem_usernames m"
  "mem_sessions (recordMetric nid hb m) = mem_sessions m" "mem_sessions (recordAgentLogs nid hb m) = mem_sessions m"
  "mem_sessions (heartbeat_connections nid hb m) = mem_sessions m" "mem_sessions (heartbeat_rules nid hb m) = mem_sessions m"
  "mem_tokens (recordMetric nid hb m) = mem_tokens m" "mem_tokens (recordAgentLogs nid hb m) = mem_tokens m"
  "mem_tokens (heartbeat_connections nid hb m) = mem_tokens m" "mem_tokens (heartbeat_rules nid hb m) = mem_tokens m"
  "mem_credentials (recordMetric nid hb m) = mem_credentials m"
  "mem_credentials (recordAgentLogs nid hb m) = mem_credentials m"
  "mem_credentials (heartbeat_connections nid hb m) = mem_credentials m"
  "mem_credentials (heartbeat_rules nid hb m) = mem_credentials m"
  "mem_audits (recordMetric nid hb m) = mem_audits m" "mem_audits (recordAgentLogs nid hb m) = mem_audits m"
  "mem_audits (heartbeat_connections nid hb m) = mem_audits m" "mem_audits (heartbeat_rules nid hb m) = mem_audits m"
  by (simp_all add: recordMetric_def recordAgentLogs_def heartbeat_connections_def heartbeat_rules_def Let_def
      split: prod.split)

lemma heartbeat_frames_runtime [simp]:
  "mem_samples (recordAgentLogs nid hb m) = mem_samples m"
  "mem_samples (heartbeat_connections nid hb m) = mem_samples m" "mem_samples (heartbeat_rules nid hb m) = mem_samples m"
  "mem_logs (recordMetric nid hb m) = mem_logs m" "mem_logs (heartbeat_connections nid hb m) = mem_logs m"
  "mem_logs (heartbeat_rules nid hb m) = mem_logs m"
  "mem_log_keys (recordMetric nid hb m) = mem_log_keys m"
  "mem_log_keys (heartbeat_connections nid hb m) = mem_log_keys m"
  "mem_log_keys (heartbeat_rules nid hb m) = mem_log_keys m"
  "mem_connections (recordMetric nid hb m) = mem_connections m"
  "mem_connections (recordAgentLogs nid hb m) = mem_connections m"
  "mem_connections (heartbeat_rules nid hb m) = mem_connections m"
  by (simp_all add: recordMetric_def recordAgentLogs_def heartbeat_connections_def heartbeat_rules_def Let_def
      split: prod.split)

lemma UpdateAgentHeartbeat_cases:
  obtains (refused) "UpdateAgentHeartbeat nid cred hb m = (m, Inl ErrNotFound)"
  | (accepted) n where "map_of (mem_nodes m) nid = Some n" "credential_at m nid = cred" "node_status n \<noteq> NodeDisabled"
      "UpdateAgentHeartbeat nid cred hb m =
        (heartbeat_rules nid hb (heartbeat_connections nid hb (recordAgentLogs nid hb (recordMetric nid hb
           (m\<lparr>mem_nodes := gput nid (heartbeat_node hb n) (mem_nodes m)\<rparr>)))), Inr (heartbeat_node hb n))"
proof (cases "\<exists>n. map_of (mem_nodes m) nid = Some n \<and> credential_at m nid = cred \<and> node_status n \<noteq> NodeDisabled")
  case True
  then obtain n where "map_of (mem_nodes m) nid = Some n" "credential_at m nid = cred" "node_status n \<noteq> NodeDisabled"
    by blast
  then show ?thesis by (intro accepted) (simp_all add: UpdateAgentHeartbeat_def Let_def)
next
  case False
  then show ?thesis by (intro refused) (auto simp: UpdateAgentHeartbeat_def split: option.splits)
qed

lemma runtime_inv_UpdateAgentHeartbeat [inv_intros]:
  assumes "runtime_inv m"
  shows "runtime_inv (fst (UpdateAgentHeartbeat nid cred hb m))"
proof (cases rule: UpdateAgentHeartbeat_cases [of nid cred hb m])
  case refused
  with assms show ?thesis by simp
next
  case (accepted n)
  let ?m = "m\<lparr>mem_nodes := gput nid (heartbeat_node hb n) (mem_nodes m)\<rparr>"
  have "runtime_inv ?m" by (rule runtime_inv_cong [OF _ _ _ _ assms]) simp_all
  then have "samples_ok (recordMetric nid hb ?m)" "logs_ok (recordMetric nid hb ?m)" "conns_ok (recordMetric nid hb ?m)"
    by (simp_all add: runtime_inv_def samples_ok_recordMetric) (simp_all add: logs_ok_def conns_ok_def)
  then have "samples_ok (recordAgentLogs nid hb (recordMetric nid hb ?m))"
      "logs_ok (recordAgentLogs nid hb (recordMetric nid hb ?m))"
      "conns_ok (recordAgentLogs nid hb (recordMetric nid hb ?m))"
    by (simp_all add: logs_ok_recordAgentLogs) (simp_all add: samples_ok_def conns_ok_def)
  then have "runtime_inv (heartbeat_connections nid hb (recordAgentLogs nid hb (recordMetric nid hb ?m)))"
    unfolding runtime_inv_def by (simp add: conns_ok_heartbeat) (simp add: samples_ok_def logs_ok_def)
  then show ?thesis
    unfolding accepted(4) fst_conv by (rule runtime_inv_cong [rotated 4]) simp_all
qed

section \<open>What the bounded tables keep\<close>

interpretation recent: strict_weak_order recent_first
  unfolding recent_first_def by (rule strict_weak_order.then_key_desc [OF swo_by_key_desc])

interpretation connection: strict_weak_order connection_before
  unfolding connection_before_def
  by (rule strict_weak_order.then_key_desc [OF strict_weak_order.then_key [OF swo_by_key]])

interpretation newest_log: strict_weak_order newest_log_first
  unfolding newest_log_first_def by (rule strict_weak_order.then_key_desc [OF swo_by_key_desc])

text \<open>No connection that was dropped is more recent than one that was kept.\<close>

lemma trim_keeps_recent:
  assumes "table_ok nid cs" "c \<in> set (map snd (trim_connections cs))"
    and "d \<in> set (map snd cs)" "d \<notin> set (map snd (trim_connections cs))"
  shows "\<not> recent_first d c"
proof -
  let ?xs = "sort_slice recent_first (map snd cs)" and ?n = MaxStoredConnectionsPerNode
  have kept: "set (map snd (trim_connections cs)) = set (take ?n ?xs)"
    using trim_values [OF assms(1)] by (metis set_mset_mset)
  have "d \<in> set ?xs" using assms(3) by simp
  then have "d \<in> set (take ?n ?xs) \<union> set (drop ?n ?xs)"
    by (metis append_take_drop_id set_append)
  with assms(4) kept have "d \<in> set (drop ?n ?xs)" by simp
  moreover have "c \<in> set (take ?n ?xs)" using assms(2) kept by simp
  moreover have "sorted_wrt (\<lambda>a b. \<not> recent_first b a) (take ?n ?xs @ drop ?n ?xs)"
    using recent.sorted_sort_slice [of "map snd cs"] by simp
  ultimately show ?thesis by (simp only: sorted_wrt_append) blast
qed

text \<open>
  Trimming a node's connection table keeps the most recent connections. Of a table filed under connection
  identifiers, exactly the first 4000 (or all, if there are fewer) stay, unchanged, and no dropped connection was
  observed later than a kept one, nor at the same time with later activity.
\<close>

theorem trim_connections_recent:
  assumes "table_ok nid cs"
  shows "length (trim_connections cs) = min 4000 (length cs) \<and> set (trim_connections cs) \<subseteq> set cs
    \<and> (\<forall>c \<in> snd ` set (trim_connections cs). \<forall>d \<in> snd ` set cs - snd ` set (trim_connections cs).
         conn_observed_at d \<le> conn_observed_at c
         \<and> (conn_observed_at d = conn_observed_at c \<longrightarrow> conn_last_activity d \<le> conn_last_activity c))"
proof -
  have "length (trim_connections cs) = min 4000 (length cs)"
    using arg_cong [OF trim_values [OF assms], of size] by (simp add: MaxStoredConnectionsPerNode_def min.commute)
  moreover have "set (trim_connections cs) \<subseteq> set cs"
    by (auto simp: trim_connections_def fold_gdel_eq)
  moreover have "conn_observed_at d \<le> conn_observed_at c
      \<and> (conn_observed_at d = conn_observed_at c \<longrightarrow> conn_last_activity d \<le> conn_last_activity c)"
    if "c \<in> snd ` set (trim_connections cs)" "d \<in> snd ` set cs - snd ` set (trim_connections cs)" for c d
  proof -
    have "\<not> recent_first d c" by (rule trim_keeps_recent [OF assms]) (use that in auto)
    then show ?thesis by (auto simp: recent_first_def not_less split: if_splits)
  qed
  ultimately show ?thesis by blast
qed

definition example_connection :: "string \<Rightarrow> time \<Rightarrow> active_connection" where
  "example_connection cid t = \<lparr>conn_node = ''n'', conn_id = cid, conn_rule = ''r'', conn_protocol = ''tcp'',
     conn_source = [], conn_target = [], conn_started_at = 1, conn_last_activity = t, conn_bytes_in = 0,
     conn_bytes_out = 0, conn_observed_at = t\<rparr>"

theorem trim_connections_recent_witness:
  "length (trim_connections [(''a'', example_connection ''a'' 5), (''b'', example_connection ''b'' 6)]) = 2"
proof -
  have "table_ok ''n'' [(''a'', example_connection ''a'' 5), (''b'', example_connection ''b'' 6)]"
    by (simp add: table_ok_def example_connection_def)
  from trim_connections_recent [OF this] show ?thesis by simp
qed

lemma add_logs_known:
  "(\<lambda>e. log_key nid (log_event e)) ` set es \<subseteq> keys \<Longrightarrow> add_logs nid t es (logs, keys) = (logs, keys)"
  by (induction es) auto

lemma add_logs_received:
  "add_logs nid t es (xs, ks) = (logs, keys) \<Longrightarrow> \<forall>e \<in> set xs. P (log_received_at e) \<Longrightarrow> P t \<Longrightarrow>
     \<forall>e \<in> set logs. P (log_received_at e)"
proof (induction es arbitrary: xs ks)
  case Nil
  then show ?case by simp
next
  case (Cons e es)
  show ?case
  proof (cases "log_key nid (log_event e) \<in> ks")
    case True
    then show ?thesis using Cons.prems by (intro Cons.IH) simp_all
  next
    case False
    then show ?thesis
      using Cons.prems by (intro Cons.IH [where xs = "xs @ [e\<lparr>log_node := nid, log_received_at := t\<rparr>]"]) (simp_all add: Let_def)
  qed
qed

text \<open>Sending the same log entries again in a heartbeat received at the same time adds nothing.\<close>

lemma recordAgentLogs_again:
  assumes "logs_ok m" "hb_logs hb' = hb_logs hb" "hb_received_at hb' = hb_received_at hb"
  shows "recordAgentLogs nid hb' (recordAgentLogs nid hb m) = recordAgentLogs nid hb m"
proof -
  let ?t = "hb_received_at hb" and ?c = "hb_received_at hb - AgentLogRetention"
  let ?kept = "filter (\<lambda>e. \<not> log_received_at e < ?c) (mem_logs m)"
  obtain logs keys where st: "add_logs nid ?t (hb_logs hb) (?kept, entry_key ` set ?kept) = (logs, keys)"
    by fastforce
  have kept: "distinct (map entry_key ?kept)"
    using assms(1) by (simp add: logs_ok_def distinct_map_filter)
  note ok = add_logs_ok [OF kept refl st]
  have once: "recordAgentLogs nid hb m = m\<lparr>mem_logs := logs, mem_log_keys := keys\<rparr>"
    using st assms(1) by (simp add: recordAgentLogs_def logs_ok_def expire_logs_ok Let_def)
  have "0 \<le> AgentLogRetention" by (simp add: AgentLogRetention_def)
  then have "\<forall>e \<in> set logs. \<not> log_received_at e < ?c"
    using add_logs_received [OF st, of "\<lambda>u. \<not> u < ?c"] by simp
  then have "filter (\<lambda>e. \<not> log_received_at e < ?c) logs = logs" by simp
  then have "expire_logs ?c logs keys = (logs, keys)"
    using ok by (simp add: expire_logs_ok Let_def)
  moreover have "add_logs nid ?t (hb_logs hb) (logs, keys) = (logs, keys)"
    using ok by (intro add_logs_known) auto
  ultimately show ?thesis
    unfolding once using assms(2,3) by (simp add: recordAgentLogs_def Let_def)
qed

end
