(* ===== verification/MemHistory.thy ===== *)
theory MemHistory
  imports MemHeartbeat
begin

text \<open>
  The charts read from the metric samples (\<open>memory.go\<close>, \<open>TrafficHistory\<close> and \<open>NodeMetricHistory\<close>): the samples are
  walked in time order and their counters, which a restart of an agent may reset, are turned into increments per
  bucket of \<open>interval\<close>. An interval shorter than a second makes the code divide by zero; that is \<open>None\<close>.
\<close>

section \<open>Buckets and increments\<close>

definition bucket_unix :: "int \<Rightarrow> time \<Rightarrow> int option" where
  "bucket_unix seconds t = (if seconds = 0 then None else Some (go_div (time_unix t) seconds * seconds))"

definition counter_delta :: "u64 \<Rightarrow> u64 \<Rightarrow> u64" where
  "counter_delta current prior = (if prior \<le> current then current - prior else current)"

definition sample_before :: "metric_sample \<Rightarrow> metric_sample \<Rightarrow> bool" where
  "sample_before a b = (if sample_node a = sample_node b then sample_at a < sample_at b else sample_node a < sample_node b)"

interpretation sample: strict_weak_order sample_before
  unfolding sample_before_def by (rule strict_weak_order.then_key [OF swo_by_key])

section \<open>Traffic of all nodes\<close>

type_synonym traffic_state = "(string, u64 \<times> u64) gomap \<times> (int, traffic_point) gomap"

definition zero_point :: traffic_point where
  "zero_point = \<lparr>traffic_time = 0, traffic_upload = 0, traffic_download = 0\<rparr>"

definition add_traffic :: "int \<Rightarrow> u64 \<Rightarrow> u64 \<Rightarrow> (int, traffic_point) gomap \<Rightarrow> (int, traffic_point) gomap" where
  "add_traffic b up down points =
     (let p = (case map_of points b of Some p \<Rightarrow> p | None \<Rightarrow> zero_point)
      in gput b \<lparr>traffic_time = unix_time b, traffic_upload = traffic_upload p + up,
                 traffic_download = traffic_download p + down\<rparr> points)"

fun traffic_step :: "time \<Rightarrow> time \<Rightarrow> int \<Rightarrow> metric_sample \<Rightarrow> traffic_state \<Rightarrow> traffic_state option" where
  "traffic_step from to seconds s (previous, points) =
     (if to < sample_at s then Some (previous, points)
      else let prior = map_of previous (sample_node s);
               previous' = gput (sample_node s) (sample_in s, sample_out s) previous
           in case prior of
                None \<Rightarrow> Some (previous', points)
              | Some (prior_in, prior_out) \<Rightarrow>
                  if sample_at s < from then Some (previous', points)
                  else (case bucket_unix seconds (sample_at s) of
                          None \<Rightarrow> None
                        | Some b \<Rightarrow> Some (previous', add_traffic b (counter_delta (sample_in s) prior_in)
                                          (counter_delta (sample_out s) prior_out) points)))"

fun traffic_loop :: "time \<Rightarrow> time \<Rightarrow> int \<Rightarrow> metric_sample list \<Rightarrow> traffic_state \<Rightarrow> traffic_state option" where
  "traffic_loop from to seconds [] st = Some st"
| "traffic_loop from to seconds (s # ss) st =
     Option.bind (traffic_step from to seconds s st) (traffic_loop from to seconds ss)"

text \<open>\<open>result = append(result, points[key])\<close> over the sorted keys.\<close>

definition sorted_values :: "(int, 'a) gomap \<Rightarrow> 'a list" where
  "sorted_values points = map (\<lambda>k. the (map_of points k)) (sort_slice (<) (map fst points))"

definition TrafficHistory :: "time \<Rightarrow> time \<Rightarrow> duration \<Rightarrow> memory \<Rightarrow> traffic_point list option" where
  "TrafficHistory from to interval m =
     map_option (\<lambda>(previous, points). sorted_values points)
       (traffic_loop from to (go_div interval go_second) (sort_slice sample_before (mem_samples m)) ([], []))"

section \<open>Metrics of one node\<close>

fun float_add :: "float64 \<Rightarrow> float64 \<Rightarrow> float64" where
  "float_add (Fin a) (Fin b) = Fin (a + b)"
| "float_add NaN y = NaN"
| "float_add x NaN = NaN"
| "float_add PosInf NegInf = NaN"
| "float_add NegInf PosInf = NaN"
| "float_add PosInf y = PosInf"
| "float_add NegInf y = NegInf"
| "float_add x PosInf = PosInf"
| "float_add x NegInf = NegInf"

text \<open>Division by a positive count, and \<open>uint64(x)\<close> of a finite value, which truncates.\<close>

fun float_div_count :: "float64 \<Rightarrow> nat \<Rightarrow> float64" where
  "float_div_count (Fin a) n = Fin (a / of_nat n)"
| "float_div_count x n = x"

definition u64_of_rat :: "rat \<Rightarrow> u64" where
  "u64_of_rat q = word_of_int \<lfloor>q\<rfloor>"

record metric_point =
  point_time :: time
  point_cpu :: float64
  point_memory :: float64
  point_load :: float64
  point_disk :: float64
  point_rx :: u64
  point_tx :: u64
  point_active :: u64
  point_upload :: u64
  point_download :: u64

record aggregate =
  agg_point :: metric_point
  agg_count :: nat
  agg_rx :: rat
  agg_tx :: rat

definition zero_aggregate :: aggregate where
  "zero_aggregate = \<lparr>agg_point = \<lparr>point_time = 0, point_cpu = Fin 0, point_memory = Fin 0, point_load = Fin 0,
     point_disk = Fin 0, point_rx = 0, point_tx = 0, point_active = 0, point_upload = 0, point_download = 0\<rparr>,
     agg_count = 0, agg_rx = 0, agg_tx = 0\<rparr>"

definition add_sample :: "int \<Rightarrow> (u64 \<times> u64) option \<Rightarrow> metric_sample \<Rightarrow> aggregate \<Rightarrow> aggregate" where
  "add_sample b prior s a =
     (let p = agg_point a;
          (up, down) = (case prior of
             None \<Rightarrow> (point_upload p, point_download p)
           | Some (prior_in, prior_out) \<Rightarrow>
               (point_upload p + counter_delta (sample_in s) prior_in,
                point_download p + counter_delta (sample_out s) prior_out))
      in \<lparr>agg_point = \<lparr>point_time = unix_time b, point_cpu = float_add (point_cpu p) (sample_cpu s),
            point_memory = float_add (point_memory p) (sample_memory s),
            point_load = float_add (point_load p) (sample_load s),
            point_disk = float_add (point_disk p) (sample_disk s), point_rx = point_rx p, point_tx = point_tx p,
            point_active = sample_active s, point_upload = up, point_download = down\<rparr>,
          agg_count = agg_count a + 1, agg_rx = agg_rx a + of_nat (unat (sample_rx s)),
          agg_tx = agg_tx a + of_nat (unat (sample_tx s))\<rparr>)"

fun metric_loop :: "time \<Rightarrow> int \<Rightarrow> metric_sample list \<Rightarrow> (u64 \<times> u64) option \<Rightarrow> (int, aggregate) gomap
    \<Rightarrow> (int, aggregate) gomap option" where
  "metric_loop from seconds [] prior buckets = Some buckets"
| "metric_loop from seconds (s # ss) prior buckets =
     (if sample_at s < from then metric_loop from seconds ss (Some (sample_in s, sample_out s)) buckets
      else (case bucket_unix seconds (sample_at s) of
              None \<Rightarrow> None
            | Some b \<Rightarrow>
                let a = (case map_of buckets b of Some a \<Rightarrow> a | None \<Rightarrow> zero_aggregate)
                in metric_loop from seconds ss (Some (sample_in s, sample_out s))
                     (gput b (add_sample b prior s a) buckets)))"

definition finish_point :: "aggregate \<Rightarrow> metric_point" where
  "finish_point a =
     (let p = agg_point a; n = agg_count a
      in p\<lparr>point_cpu := float_div_count (point_cpu p) n, point_memory := float_div_count (point_memory p) n,
           point_load := float_div_count (point_load p) n, point_disk := float_div_count (point_disk p) n,
           point_rx := u64_of_rat (agg_rx a / of_nat n), point_tx := u64_of_rat (agg_tx a / of_nat n)\<rparr>)"

definition NodeMetricHistory :: "string \<Rightarrow> time \<Rightarrow> time \<Rightarrow> duration \<Rightarrow> memory \<Rightarrow> metric_point list option" where
  "NodeMetricHistory nid from to interval m =
     (let samples = filter (\<lambda>s. sample_node s = nid \<and> \<not> to < sample_at s) (mem_samples m)
      in map_option (\<lambda>buckets. map finish_point (sorted_values buckets))
           (metric_loop from (go_div interval go_second) (sort_slice (\<lambda>a b. sample_at a < sample_at b) samples)
              None []))"

section \<open>The totals of the traffic chart\<close>

text \<open>
  The specification of one node's traffic: walk its samples in time order, count the growth of the counter from one
  sample to the next, and after a reset the whole new value; the first sample counts nothing, and samples before
  \<open>from\<close> are only the base of the next one.
\<close>

fun increase :: "(metric_sample \<Rightarrow> u64) \<Rightarrow> time \<Rightarrow> u64 option \<Rightarrow> metric_sample list \<Rightarrow> u64" where
  "increase f from prior [] = 0"
| "increase f from prior (s # ss) =
     (case prior of Some v \<Rightarrow> if sample_at s < from then 0 else counter_delta (f s) v | None \<Rightarrow> 0)
     + increase f from (Some (f s)) ss"

definition node_samples :: "string \<Rightarrow> time \<Rightarrow> metric_sample list \<Rightarrow> metric_sample list" where
  "node_samples nid to ss = filter (\<lambda>s. sample_node s = nid \<and> \<not> to < sample_at s) ss"

lemma node_samples_simps [simp]:
  "node_samples nid to [] = []"
  "node_samples nid to (s # ss) =
     (if sample_node s = nid \<and> \<not> to < sample_at s then s # node_samples nid to ss else node_samples nid to ss)"
  by (simp_all add: node_samples_def)

text \<open>Without a reset the increments telescope to the difference of the last and the first value.\<close>

lemma increase_telescopes:
  "sorted (map f ss) \<Longrightarrow> \<forall>s \<in> set ss. v \<le> f s \<and> from \<le> sample_at s \<Longrightarrow> ss \<noteq> [] \<Longrightarrow>
     increase f from (Some v) ss = f (last ss) - v"
proof (induction ss arbitrary: v)
  case Nil
  then show ?case by simp
next
  case (Cons s ss)
  show ?case
  proof (cases "ss = []")
    case True
    with Cons.prems show ?thesis by (simp add: counter_delta_def)
  next
    case False
    have "increase f from (Some (f s)) ss = f (last ss) - f s"
      using Cons.prems False by (intro Cons.IH) auto
    with Cons.prems False show ?thesis by (simp add: counter_delta_def)
  qed
qed

lemma sum_list_gput:
  fixes g :: "'v \<Rightarrow> u64"
  assumes "gomap_ok m"
  shows "(\<Sum>p\<leftarrow>gput k v m. g (snd p)) =
     (\<Sum>p\<leftarrow>m. g (snd p)) + g v - (case map_of m k of Some old \<Rightarrow> g old | None \<Rightarrow> 0)"
  using assms by (induction m) (auto simp: gput_def split: option.splits)

lemma add_traffic_total:
  assumes "gomap_ok points"
  shows "(\<Sum>p\<leftarrow>add_traffic b up down points. traffic_upload (snd p)) = (\<Sum>p\<leftarrow>points. traffic_upload (snd p)) + up"
    and "(\<Sum>p\<leftarrow>add_traffic b up down points. traffic_download (snd p)) = (\<Sum>p\<leftarrow>points. traffic_download (snd p)) + down"
    and "gomap_ok (add_traffic b up down points)"
  using assms by (auto simp: add_traffic_def Let_def sum_list_gput zero_point_def split: option.splits)

lemma mset_sorted_values: "gomap_ok m \<Longrightarrow> mset (sorted_values m) = mset (map snd m)"
proof -
  assume ok: "gomap_ok m"
  have "mset (sorted_values m) = image_mset (\<lambda>k. the (map_of m k)) (mset (map fst m))"
    unfolding sorted_values_def by (simp only: mset_map mset_sort_slice)
  also have "\<dots> = mset (map (\<lambda>p. the (map_of m (fst p))) m)"
    by (simp add: multiset.map_comp comp_def)
  also have "map (\<lambda>p. the (map_of m (fst p))) m = map snd m"
    using ok by (intro map_cong) (auto simp: gomap_ok_def)
  finally show ?thesis .
qed

lemma sum_sorted_values:
  fixes g :: "'v \<Rightarrow> u64"
  shows "gomap_ok m \<Longrightarrow> (\<Sum>p\<leftarrow>sorted_values m. g p) = (\<Sum>p\<leftarrow>m. g (snd p))"
  using arg_cong [OF mset_sorted_values, of m "\<lambda>M. sum_mset (image_mset g M)"]
  by (simp add: comp_def multiset.map_comp flip: sum_mset_sum_list)

definition node_traffic ::
  "(metric_sample \<Rightarrow> u64) \<Rightarrow> (u64 \<times> u64 \<Rightarrow> u64) \<Rightarrow> time \<Rightarrow> time \<Rightarrow> metric_sample list
     \<Rightarrow> (string, u64 \<times> u64) gomap \<Rightarrow> string \<Rightarrow> u64" where
  "node_traffic f g from to ss previous nid =
     increase f from (map_option g (map_of previous nid)) (node_samples nid to ss)"

lemma sum_changed_at:
  fixes F G :: "string \<Rightarrow> u64"
  assumes "finite N" "a \<in> N" "\<And>n. n \<noteq> a \<Longrightarrow> F n = G n" "F a = d + G a"
  shows "sum F N = d + sum G N"
proof -
  have "sum F (N - {a}) = sum G (N - {a})"
    using assms(3) by (intro sum.cong) auto
  with assms show ?thesis
    by (simp add: sum.remove [of N a F] sum.remove [of N a G] add.assoc)
qed

lemma traffic_loop_total:
  assumes "traffic_loop from to seconds ss (previous, points) = Some (previous', points')"
    and "finite N" "sample_node ` set ss \<subseteq> N" "gomap_ok points"
  shows "gomap_ok points'
    \<and> (\<Sum>p\<leftarrow>points'. traffic_upload (snd p)) =
        (\<Sum>p\<leftarrow>points. traffic_upload (snd p)) + sum (node_traffic sample_in fst from to ss previous) N
    \<and> (\<Sum>p\<leftarrow>points'. traffic_download (snd p)) =
        (\<Sum>p\<leftarrow>points. traffic_download (snd p)) + sum (node_traffic sample_out snd from to ss previous) N"
  using assms
proof (induction ss arbitrary: previous points)
  case Nil
  then show ?case by (simp add: node_traffic_def)
next
  case (Cons s ss)
  let ?a = "sample_node s" and ?prev = "gput (sample_node s) (sample_in s, sample_out s) previous"
  have N: "?a \<in> N" "sample_node ` set ss \<subseteq> N" using Cons.prems(3) by auto
  have step: "sum (node_traffic f g from to (s # ss) previous) N = d + sum (node_traffic f g from to ss ?prev) N"
    if "\<not> to < sample_at s" "g (sample_in s, sample_out s) = f s"
      "d = (case map_of previous ?a of Some v \<Rightarrow> if sample_at s < from then 0 else counter_delta (f s) (g v) | None \<Rightarrow> 0)"
    for f g d
    by (rule sum_changed_at [OF Cons.prems(2) N(1)]) (use that in \<open>auto simp: node_traffic_def split: option.splits\<close>)
  consider (late) "to < sample_at s"
    | (base) "\<not> to < sample_at s" "map_of previous ?a = None \<or> sample_at s < from"
    | (count) v where "\<not> to < sample_at s" "map_of previous ?a = Some v" "\<not> sample_at s < from"
    by (metis option.exhaust)
  then show ?case
  proof cases
    case late
    then have "node_traffic f g from to (s # ss) previous = node_traffic f g from to ss previous" for f g
      by (auto simp: node_traffic_def)
    with late Cons.IH [OF _ Cons.prems(2) N(2) Cons.prems(4)] Cons.prems(1) show ?thesis by simp
  next
    case base
    then have "traffic_loop from to seconds ss (?prev, points) = Some (previous', points')"
      using Cons.prems(1) by (cases "map_of previous ?a") (auto simp: Let_def split: prod.splits)
    from Cons.IH [OF this Cons.prems(2) N(2) Cons.prems(4)] base
      step [of fst sample_in 0] step [of snd sample_out 0] show ?thesis
      by (auto split: option.splits)
  next
    case (count v)
    then obtain b where b: "traffic_loop from to seconds ss (?prev, add_traffic b (counter_delta (sample_in s) (fst v))
        (counter_delta (sample_out s) (snd v)) points) = Some (previous', points')"
      using Cons.prems(1) by (cases v) (auto split: option.splits)
    note t = add_traffic_total [OF Cons.prems(4), of b "counter_delta (sample_in s) (fst v)"
        "counter_delta (sample_out s) (snd v)"]
    from Cons.IH [OF b Cons.prems(2) N(2) t(3)] t(1,2) count
      step [of fst sample_in "counter_delta (sample_in s) (fst v)"]
      step [of snd sample_out "counter_delta (sample_out s) (snd v)"]
    show ?thesis by (simp add: add.assoc)
  qed
qed

section \<open>The charts\<close>

lemma traffic_points_keyed:
  assumes "traffic_loop from to seconds ss (previous, points) = Some (previous', points')"
    and "\<And>k p. map_of points k = Some p \<Longrightarrow> traffic_time p = unix_time k \<and> seconds dvd k"
    and "map_of points' k = Some p"
  shows "traffic_time p = unix_time k \<and> seconds dvd k"
  using assms
proof (induction ss arbitrary: previous points)
  case Nil
  then show ?case by simp
next
  case (Cons s ss)
  obtain previous1 points1 where st: "traffic_step from to seconds s (previous, points) = Some (previous1, points1)"
      "traffic_loop from to seconds ss (previous1, points1) = Some (previous', points')"
    using Cons.prems(1) by (cases "traffic_step from to seconds s (previous, points)") auto
  have "points1 = points \<or> (\<exists>b u d. points1 = add_traffic b u d points \<and> seconds dvd b)"
    using st(1) by (auto simp: Let_def bucket_unix_def split: option.splits if_splits prod.splits)
      (metis dvd_triv_right)
  then have "traffic_time q = unix_time j \<and> seconds dvd j" if "map_of points1 j = Some q" for j q
    using that Cons.prems(2) by (auto simp: add_traffic_def Let_def split: if_splits)
  from Cons.IH [OF st(2) this Cons.prems(3)] show ?case .
qed

lemma sorted_values_times:
  assumes "gomap_ok m" "\<And>k p. map_of m k = Some p \<Longrightarrow> f p = unix_time k"
  shows "sorted_wrt (<) (map f (sorted_values m))"
proof -
  have keys: "sorted_wrt (<) (sort_slice (<) (map fst m))"
  proof -
    have "distinct (sort_slice (<) (map fst m))" using assms(1) by (simp add: gomap_ok_def)
    moreover have "sorted_wrt (\<lambda>a b. \<not> b < a) (sort_slice (<) (map fst m))"
      using by_key.sorted_sort_slice [of "\<lambda>x. x" "map fst m"] by simp
    ultimately show ?thesis by (simp add: strict_sorted_iff not_less)
  qed
  have "f (the (map_of m k)) = unix_time k" if "k \<in> set (sort_slice (<) (map fst m))" for k
  proof -
    have "k \<in> fst ` set m" using that by simp
    then obtain p where "map_of m k = Some p" by (metis map_of_eq_None_iff not_None_eq)
    with assms(2) show ?thesis by simp
  qed
  then have "map f (sorted_values m) = map unix_time (sort_slice (<) (map fst m))"
    by (simp add: sorted_values_def)
  with keys show ?thesis by (simp add: sorted_wrt_map unix_time_def)
qed

text \<open>
  The traffic chart accounts for every byte once: the points are in strictly increasing time order, every point
  starts at a multiple of the interval, and the uploads and downloads of all points add up (modulo the 64-bit
  wrap-around of the counters) to the growth of the counters of all nodes between the first sample and \<open>to\<close>, as
  \<open>increase\<close> defines it node by node.
\<close>

theorem TrafficHistory_total:
  assumes "TrafficHistory from to interval m = Some ps"
  defines "ss \<equiv> sort_slice sample_before (mem_samples m)"
    and "nodes \<equiv> sample_node ` set (mem_samples m)"
  shows "sorted_wrt (<) (map traffic_time ps)
    \<and> (\<forall>p \<in> set ps. go_div interval go_second dvd time_unix (traffic_time p))
    \<and> (\<Sum>p\<leftarrow>ps. traffic_upload p) = (\<Sum>nid\<in>nodes. increase sample_in from None (node_samples nid to ss))
    \<and> (\<Sum>p\<leftarrow>ps. traffic_download p) = (\<Sum>nid\<in>nodes. increase sample_out from None (node_samples nid to ss))"
proof -
  obtain previous points where
    loop: "traffic_loop from to (go_div interval go_second) ss ([], []) = Some (previous, points)"
    and ps: "ps = sorted_values points"
    using assms(1) by (auto simp: TrafficHistory_def ss_def)
  have "finite nodes" "sample_node ` set ss \<subseteq> nodes" by (simp_all add: nodes_def ss_def)
  from traffic_loop_total [OF loop this] have total: "gomap_ok points"
      "(\<Sum>p\<leftarrow>points. traffic_upload (snd p)) = (\<Sum>nid\<in>nodes. increase sample_in from None (node_samples nid to ss))"
      "(\<Sum>p\<leftarrow>points. traffic_download (snd p)) = (\<Sum>nid\<in>nodes. increase sample_out from None (node_samples nid to ss))"
    by (simp_all add: node_traffic_def [abs_def])
  have keyed: "traffic_time p = unix_time k \<and> go_div interval go_second dvd k" if "map_of points k = Some p" for k p
    using traffic_points_keyed [OF loop _ that] by simp
  have "\<exists>k. map_of points k = Some p" if "p \<in> set ps" for p
    using that mset_sorted_values [OF total(1)] values_iff [OF total(1)] unfolding ps
    by (metis set_map set_mset_mset)
  then have "\<forall>p \<in> set ps. go_div interval go_second dvd time_unix (traffic_time p)"
    using keyed by (metis time_unix_unix_time)
  with total keyed show ?thesis
    unfolding ps by (simp add: sum_sorted_values sorted_values_times)
qed

text \<open>An example: a node whose counter grows by 50, is reset, and grows to 7 again.\<close>

definition example_sample :: "int \<Rightarrow> u64 \<Rightarrow> metric_sample" where
  "example_sample minute bytes =
     \<lparr>sample_node = ''n'', sample_at = unix_time (60 * minute), sample_cpu = Fin 10, sample_memory = Fin 20,
      sample_load = Fin 1, sample_disk = Fin 30, sample_rx = 8, sample_tx = 4, sample_active = 1, sample_in = bytes,
      sample_out = 2 * bytes\<rparr>"

definition example_history :: memory where
  "example_history =
     NewMemory\<lparr>mem_samples := [example_sample 2 7, example_sample 0 100, example_sample 1 150]\<rparr>"

lemmas history_eval = TrafficHistory_def NodeMetricHistory_def example_history_def example_sample_def NewMemory_def
  sort_slice_def sample_before_def bucket_unix_def time_unix_def unix_time_def go_div_def counter_delta_def
  add_traffic_def zero_point_def sorted_values_def Let_def gput_Cons

theorem TrafficHistory_total_witness:
  "\<exists>ps. TrafficHistory 0 (unix_time 600) go_minute example_history = Some ps \<and> length ps = 2
     \<and> (\<Sum>p\<leftarrow>ps. traffic_upload p) = 57"
proof -
  obtain ps where ps: "TrafficHistory 0 (unix_time 600) go_minute example_history = Some ps" "length ps = 2"
    by (simp add: history_eval)
  have "(\<Sum>p\<leftarrow>ps. traffic_upload p) = 57"
    using TrafficHistory_total [OF ps(1)] by (simp add: example_history_def example_sample_def NewMemory_def
        sort_slice_def sample_before_def unix_time_def counter_delta_def)
  with ps show ?thesis by blast
qed

section \<open>Averages\<close>

definition percent :: "float64 \<Rightarrow> bool" where
  "percent x \<longleftrightarrow> (\<exists>q. x = Fin q \<and> 0 \<le> q \<and> q \<le> 100)"

definition percent_sum :: "nat \<Rightarrow> float64 \<Rightarrow> bool" where
  "percent_sum n x \<longleftrightarrow> (\<exists>q. x = Fin q \<and> 0 \<le> q \<and> q \<le> 100 * of_nat n)"

definition aggregate_ok :: "aggregate \<Rightarrow> bool" where
  "aggregate_ok a \<longleftrightarrow> 0 < agg_count a \<and> percent_sum (agg_count a) (point_cpu (agg_point a))
     \<and> percent_sum (agg_count a) (point_memory (agg_point a)) \<and> percent_sum (agg_count a) (point_disk (agg_point a))"

lemma percent_sum_add: "percent_sum n x \<Longrightarrow> percent y \<Longrightarrow> percent_sum (n + 1) (float_add x y)"
  by (auto simp: percent_sum_def percent_def algebra_simps)

lemma percent_div: "0 < n \<Longrightarrow> percent_sum n x \<Longrightarrow> percent (float_div_count x n)"
  by (auto simp: percent_sum_def percent_def divide_le_eq mult.commute)

definition sample_percent :: "metric_sample \<Rightarrow> bool" where
  "sample_percent s \<longleftrightarrow> percent (sample_cpu s) \<and> percent (sample_memory s) \<and> percent (sample_disk s)"

lemma aggregate_ok_add:
  assumes "a = zero_aggregate \<or> aggregate_ok a" "sample_percent s"
  shows "aggregate_ok (add_sample b prior s a)"
proof -
  have "percent_sum (agg_count a) (point_cpu (agg_point a))" "percent_sum (agg_count a) (point_memory (agg_point a))"
    "percent_sum (agg_count a) (point_disk (agg_point a))"
    using assms(1) by (auto simp: aggregate_ok_def zero_aggregate_def percent_sum_def)
  from this [THEN percent_sum_add] assms(2) show ?thesis
    by (simp add: aggregate_ok_def add_sample_def sample_percent_def Let_def split: prod.split)
qed

lemma metric_loop_ok:
  assumes "metric_loop from seconds ss prior buckets = Some buckets'" "\<forall>s \<in> set ss. sample_percent s"
    and "\<forall>k a. map_of buckets k = Some a \<longrightarrow> aggregate_ok a" "gomap_ok buckets"
  shows "gomap_ok buckets' \<and> (\<forall>k a. map_of buckets' k = Some a \<longrightarrow> aggregate_ok a)"
  using assms
proof (induction ss arbitrary: prior buckets)
  case Nil
  then show ?case by simp
next
  case (Cons s ss)
  show ?case
  proof (cases "sample_at s < from")
    case True
    with Cons.prems(1) have "metric_loop from seconds ss (Some (sample_in s, sample_out s)) buckets = Some buckets'"
      by simp
    from Cons.IH [OF this] Cons.prems(2-4) show ?thesis by simp
  next
    case False
    then obtain b where b: "bucket_unix seconds (sample_at s) = Some b"
      using Cons.prems(1) by (auto split: option.splits)
    define a where "a = (case map_of buckets b of Some a \<Rightarrow> a | None \<Rightarrow> zero_aggregate)"
    have "aggregate_ok (add_sample b prior s a)"
      using Cons.prems(2,3) by (intro aggregate_ok_add) (auto simp: a_def split: option.splits)
    then have "\<forall>k c. map_of (gput b (add_sample b prior s a) buckets) k = Some c \<longrightarrow> aggregate_ok c"
      using Cons.prems(3) by (metis map_of_gput_SomeD)
    moreover have "metric_loop from seconds ss (Some (sample_in s, sample_out s))
        (gput b (add_sample b prior s a) buckets) = Some buckets'"
      using Cons.prems(1) False b by (simp add: a_def Let_def)
    ultimately show ?thesis
      using Cons.prems(2,4) Cons.IH by (metis gomap_ok_gput list.set_intros(2))
  qed
qed

text \<open>
  If every stored sample reports percentages between 0 and 100 (which the control plane checks before it stores
  a heartbeat), every point of a node's chart does: the averages of CPU, memory and disk are again between 0 and 100,
  and never \<open>NaN\<close> or infinite.
\<close>

theorem NodeMetricHistory_percent:
  assumes "NodeMetricHistory nid from to interval m = Some ps" "\<forall>s \<in> set (mem_samples m). sample_percent s"
  shows "\<forall>p \<in> set ps. percent (point_cpu p) \<and> percent (point_memory p) \<and> percent (point_disk p)"
proof -
  let ?ss = "sort_slice (\<lambda>a b. sample_at a < sample_at b)
      (filter (\<lambda>s. sample_node s = nid \<and> \<not> to < sample_at s) (mem_samples m))"
  obtain buckets where b: "metric_loop from (go_div interval go_second) ?ss None [] = Some buckets"
      "ps = map finish_point (sorted_values buckets)"
    using assms(1) by (auto simp: NodeMetricHistory_def Let_def)
  have "gomap_ok buckets \<and> (\<forall>k a. map_of buckets k = Some a \<longrightarrow> aggregate_ok a)"
    by (rule metric_loop_ok [OF b(1)]) (use assms(2) in auto)
  then have "aggregate_ok a" if "a \<in> set (sorted_values buckets)" for a
    using that mset_sorted_values values_iff by (metis set_map set_mset_mset)
  then show ?thesis
    unfolding b(2) by (auto simp: finish_point_def Let_def aggregate_ok_def intro: percent_div)
qed

theorem NodeMetricHistory_percent_witness:
  "\<exists>ps. NodeMetricHistory ''n'' 0 (unix_time 600) go_minute example_history = Some ps \<and> length ps = 3
     \<and> (\<forall>p \<in> set ps. percent (point_cpu p) \<and> percent (point_memory p) \<and> percent (point_disk p))"
proof -
  obtain ps where ps: "NodeMetricHistory ''n'' 0 (unix_time 600) go_minute example_history = Some ps" "length ps = 3"
    by (simp add: history_eval)
  have "\<forall>s \<in> set (mem_samples example_history). sample_percent s"
    by (simp add: example_history_def example_sample_def sample_percent_def percent_def NewMemory_def)
  with ps show ?thesis using NodeMetricHistory_percent [OF ps(1)] by blast
qed

end
