(* ===== verification/StoreMachine.thy ===== *)
theory StoreMachine
  imports MemUsers MemRules MemHistory
begin

text \<open>
  The in-memory store as a state machine: one operation per mutating method of the \<open>Store\<close> interface, runs as
  sequences of operations and results, and what holds in every state a run reaches from the empty store.
\<close>

section \<open>Operations and runs\<close>

datatype store_op =
    OpCreateInitialUser user
  | OpCreateUser user
  | OpUpdateUser string user_update
  | OpDeleteUser string
  | OpSetUserMFA string bool string "string list"
  | OpConsumeRecoveryCode string string
  | OpCreateSession session
  | OpDeleteSession string
  | OpCreateEnrollmentToken enrollment_token
  | OpEnrollAgent string time agent_identity
  | OpHeartbeat string string agent_heartbeat
  | OpCreateRule forward_rule
  | OpUpdateRule forward_rule
  | OpDeleteRule string
  | OpRecordAudit audit_event

datatype store_value = VUnit | VUser user | VBool bool | VNode node | VRule forward_rule

type_synonym outcome = "store_error + store_value"

definition lift_result :: "('a \<Rightarrow> store_value) \<Rightarrow> memory \<times> (store_error + 'a) \<Rightarrow> memory \<times> outcome" where
  "lift_result f p = (fst p, map_sum (\<lambda>e. e) f (snd p))"

fun exec :: "store_op \<Rightarrow> memory \<Rightarrow> memory \<times> outcome" where
  "exec (OpCreateInitialUser u) m = lift_result (\<lambda>_. VUnit) (CreateInitialUser u m)"
| "exec (OpCreateUser u) m = lift_result (\<lambda>_. VUnit) (CreateUser u m)"
| "exec (OpUpdateUser uid upd) m = lift_result VUser (UpdateUser uid upd m)"
| "exec (OpDeleteUser uid) m = lift_result (\<lambda>_. VUnit) (DeleteUser uid m)"
| "exec (OpSetUserMFA uid e s hs) m = lift_result VUser (SetUserMFA uid e s hs m)"
| "exec (OpConsumeRecoveryCode uid h) m = lift_result VBool (ConsumeRecoveryCode uid h m)"
| "exec (OpCreateSession s) m = (CreateSession s m, Inr VUnit)"
| "exec (OpDeleteSession h) m = (DeleteSessionByTokenHash h m, Inr VUnit)"
| "exec (OpCreateEnrollmentToken t) m = lift_result (\<lambda>_. VUnit) (CreateEnrollmentToken t m)"
| "exec (OpEnrollAgent h now a) m = lift_result VNode (EnrollAgent h now a m)"
| "exec (OpHeartbeat nid cred hb) m = lift_result VNode (UpdateAgentHeartbeat nid cred hb m)"
| "exec (OpCreateRule r) m = lift_result VRule (CreateForwardRule r m)"
| "exec (OpUpdateRule r) m = lift_result VRule (UpdateForwardRule r m)"
| "exec (OpDeleteRule rid) m = lift_result (\<lambda>_. VUnit) (DeleteForwardRule rid m)"
| "exec (OpRecordAudit e) m = (RecordAudit e m, Inr VUnit)"

text \<open>The control plane validates a rule before it stores it; the store relies on \<open>rule_ok\<close> only.\<close>

fun op_ok :: "store_op \<Rightarrow> bool" where
  "op_ok (OpCreateRule r) = rule_ok r"
| "op_ok (OpUpdateRule r) = rule_ok r"
| "op_ok op = True"

inductive store_step :: "memory \<Rightarrow> store_op \<Rightarrow> outcome \<Rightarrow> memory \<Rightarrow> bool" where
  "op_ok op \<Longrightarrow> exec op m = (m', res) \<Longrightarrow> store_step m op res m'"

inductive store_run :: "(store_op \<times> outcome) list \<Rightarrow> memory \<Rightarrow> bool" where
  run_empty: "store_run [] NewMemory"
| run_step: "store_run t m \<Longrightarrow> store_step m op res m' \<Longrightarrow> store_run (t @ [(op, res)]) m'"

inductive_simps store_step_iff: "store_step m op res m'"
inductive_cases store_run_snocE: "store_run (t @ [p]) m"

text \<open>Running a list of operations, to exhibit runs.\<close>

fun run_ops :: "store_op list \<Rightarrow> memory \<Rightarrow> (store_op \<times> outcome) list \<times> memory" where
  "run_ops [] m = ([], m)"
| "run_ops (op # ops) m =
     (let (m1, res) = exec op m; (t, m2) = run_ops ops m1 in ((op, res) # t, m2))"

lemma store_run_extend:
  "store_run t m \<Longrightarrow> list_all op_ok ops \<Longrightarrow> run_ops ops m = (t', m') \<Longrightarrow> store_run (t @ t') m'"
proof (induction ops arbitrary: t m t')
  case Nil
  then show ?case by simp
next
  case (Cons op ops)
  obtain m1 res where e: "exec op m = (m1, res)" by fastforce
  obtain t2 where t2: "run_ops ops m1 = (t2, m')" "t' = (op, res) # t2"
    using Cons.prems(3) e by (auto split: prod.splits)
  have "store_run (t @ [(op, res)]) m1"
    using Cons.prems e by (auto intro: run_step store_step.intros)
  from Cons.IH [OF this _ t2(1)] Cons.prems(2) t2(2) show ?case by simp
qed

lemma store_run_ops: "list_all op_ok ops \<Longrightarrow> store_run (fst (run_ops ops NewMemory)) (snd (run_ops ops NewMemory))"
  using store_run_extend [OF run_empty] by (metis append_Nil prod.collapse)

section \<open>Errors change nothing\<close>

lemma lift_result_iff [simp]:
  "lift_result f p = (m', Inl e) \<longleftrightarrow> p = (m', Inl e)"
  "lift_result f p = (m', Inr v) \<longleftrightarrow> (\<exists>x. p = (m', Inr x) \<and> v = f x)"
  "fst (lift_result f p) = fst p"
  by (cases p; cases "snd p"; auto simp: lift_result_def)+

lemma heartbeat_error: "UpdateAgentHeartbeat nid cred hb m = (m', Inl e) \<Longrightarrow> m' = m"
  by (cases rule: UpdateAgentHeartbeat_cases [of nid cred hb m]) auto

lemma exec_error: "exec op m = (m', Inl e) \<Longrightarrow> m' = m"
proof (cases op)
  case (OpHeartbeat nid cred hb)
  then show "exec op m = (m', Inl e) \<Longrightarrow> m' = m" by (simp add: heartbeat_error)
qed (auto simp: CreateInitialUser_def CreateUser_def UpdateUser_def DeleteUser_def SetUserMFA_def
    ConsumeRecoveryCode_def CreateEnrollmentToken_def EnrollAgent_def CreateForwardRule_def UpdateForwardRule_def
    DeleteForwardRule_def Let_def split: option.splits if_splits)

text \<open>
  Every operation of the store is atomic with respect to errors: one that returns an error leaves the whole state
  as it was, whatever the state and the arguments (no half-updated node, rule, account or token).
\<close>

theorem store_error_unchanged: "exec op m = (m', Inl e) \<Longrightarrow> m' = m"
  by (rule exec_error)

theorem store_error_unchanged_witness:
  "exec (OpDeleteRule ''r'') NewMemory = (NewMemory, Inl ErrNotFound)
   \<and> fst (exec (OpDeleteRule ''r'') NewMemory) = NewMemory"
proof -
  have e: "exec (OpDeleteRule ''r'') NewMemory = (NewMemory, Inl ErrNotFound)"
    by (simp add: DeleteForwardRule_def NewMemory_def)
  with store_error_unchanged [OF e] show ?thesis by simp
qed

section \<open>Frames\<close>

text \<open>Account operations other than enrollment leave nodes, rules and configurations alone; rule operations and heartbeats leave the accounts alone.\<close>

lemma rules_inv_cong:
  assumes "mem_nodes m' = mem_nodes m" "mem_rules m' = mem_rules m" "mem_configs m' = mem_configs m" "maps_ok m'"
    and "rules_inv m"
  shows "rules_inv m'"
  using assms by (simp add: rules_inv_def nodes_wf_def no_clashes_def configs_agree_def node_view_def)

lemma accounts_inv_cong:
  "mem_users m' = mem_users m \<Longrightarrow> mem_usernames m' = mem_usernames m \<Longrightarrow> mem_sessions m' = mem_sessions m \<Longrightarrow>
   mem_tokens m' = mem_tokens m \<Longrightarrow> accounts_inv m \<Longrightarrow> accounts_inv m'"
  by (simp add: accounts_inv_def)

fun is_account_op :: "store_op \<Rightarrow> bool" where
  "is_account_op (OpEnrollAgent h now a) = False"
| "is_account_op (OpHeartbeat nid cred hb) = False"
| "is_account_op (OpCreateRule r) = False"
| "is_account_op (OpUpdateRule r) = False"
| "is_account_op (OpDeleteRule rid) = False"
| "is_account_op op = True"

fun is_rule_op :: "store_op \<Rightarrow> bool" where
  "is_rule_op (OpCreateRule r) = True"
| "is_rule_op (OpUpdateRule r) = True"
| "is_rule_op (OpDeleteRule rid) = True"
| "is_rule_op op = False"

lemmas account_defs = CreateInitialUser_def CreateUser_def UpdateUser_def DeleteUser_def SetUserMFA_def
  ConsumeRecoveryCode_def CreateSession_def DeleteSessionByTokenHash_def CreateEnrollmentToken_def RecordAudit_def
  Let_def

lemma account_op_frame:
  assumes "is_account_op op"
  shows "mem_nodes (fst (exec op m)) = mem_nodes m" "mem_rules (fst (exec op m)) = mem_rules m"
    "mem_configs (fst (exec op m)) = mem_configs m" "mem_credentials (fst (exec op m)) = mem_credentials m"
  using assms by (cases op; simp add: account_defs split: option.split)+

lemma rule_op_accounts_frame:
  assumes "is_rule_op op"
  shows "mem_users (fst (exec op m)) = mem_users m" "mem_usernames (fst (exec op m)) = mem_usernames m"
    "mem_sessions (fst (exec op m)) = mem_sessions m" "mem_tokens (fst (exec op m)) = mem_tokens m"
    "mem_credentials (fst (exec op m)) = mem_credentials m"
proof -
  have bump: "mem_users (fold bumpNode ns m) = mem_users m" "mem_usernames (fold bumpNode ns m) = mem_usernames m"
    "mem_sessions (fold bumpNode ns m) = mem_sessions m" "mem_tokens (fold bumpNode ns m) = mem_tokens m"
    "mem_credentials (fold bumpNode ns m) = mem_credentials m" for ns
    by (induction ns arbitrary: m) (simp_all add: bumpNode_def Let_def)
  show "mem_users (fst (exec op m)) = mem_users m" "mem_usernames (fst (exec op m)) = mem_usernames m"
    "mem_sessions (fst (exec op m)) = mem_sessions m" "mem_tokens (fst (exec op m)) = mem_tokens m"
    "mem_credentials (fst (exec op m)) = mem_credentials m"
    using assms
    by (cases op; simp add: CreateForwardRule_def UpdateForwardRule_def DeleteForwardRule_def Let_def bump
        split: option.split)+
qed

lemma rule_op_runtime_frame:
  assumes "is_rule_op op"
  shows "mem_samples (fst (exec op m)) = mem_samples m" "mem_logs (fst (exec op m)) = mem_logs m"
    "mem_log_keys (fst (exec op m)) = mem_log_keys m" "mem_connections (fst (exec op m)) = mem_connections m"
proof -
  have bump: "mem_samples (fold bumpNode ns m) = mem_samples m" "mem_logs (fold bumpNode ns m) = mem_logs m"
    "mem_log_keys (fold bumpNode ns m) = mem_log_keys m" "mem_connections (fold bumpNode ns m) = mem_connections m" for ns
    by (induction ns arbitrary: m) (simp_all add: bumpNode_def Let_def)
  show "mem_samples (fst (exec op m)) = mem_samples m" "mem_logs (fst (exec op m)) = mem_logs m"
    "mem_log_keys (fst (exec op m)) = mem_log_keys m" "mem_connections (fst (exec op m)) = mem_connections m"
    using assms
    by (cases op; simp add: CreateForwardRule_def UpdateForwardRule_def DeleteForwardRule_def Let_def bump
        split: option.split)+
qed

lemma account_op_runtime_frame:
  assumes "is_account_op op \<or> op = OpEnrollAgent h now a"
  shows "mem_samples (fst (exec op m)) = mem_samples m" "mem_logs (fst (exec op m)) = mem_logs m"
    "mem_log_keys (fst (exec op m)) = mem_log_keys m" "mem_connections (fst (exec op m)) = mem_connections m"
  using assms by (cases op; simp add: account_defs EnrollAgent_def split: option.split)+

lemma heartbeat_accounts_frame:
  "mem_users (fst (UpdateAgentHeartbeat nid cred hb m)) = mem_users m"
  "mem_usernames (fst (UpdateAgentHeartbeat nid cred hb m)) = mem_usernames m"
  "mem_sessions (fst (UpdateAgentHeartbeat nid cred hb m)) = mem_sessions m"
  "mem_tokens (fst (UpdateAgentHeartbeat nid cred hb m)) = mem_tokens m"
  "mem_credentials (fst (UpdateAgentHeartbeat nid cred hb m)) = mem_credentials m"
  "mem_configs (fst (UpdateAgentHeartbeat nid cred hb m)) = mem_configs m"
  by (cases rule: UpdateAgentHeartbeat_cases [of nid cred hb m]; simp)+

section \<open>The rules invariant under enrollments and heartbeats\<close>

lemma rules_inv_EnrollAgent [inv_intros]:
  assumes inv: "rules_inv m"
  shows "rules_inv (fst (EnrollAgent h now a m))"
proof (cases "snd (EnrollAgent h now a m)")
  case (Inl e)
  then have "fst (EnrollAgent h now a m) = m"
    by (auto simp: EnrollAgent_def Let_def split: option.splits if_splits)
  with inv show ?thesis by simp
next
  case (Inr n)
  let ?m = "fst (EnrollAgent h now a m)"
  have new: "map_of (mem_nodes m) (agent_id a) = None"
    and nodes: "mem_nodes ?m = gput (agent_id a) (enrolled_node a now) (mem_nodes m)"
    and configs: "mem_configs ?m = gput (agent_id a) \<lparr>config_version = 1, config_rules = []\<rparr> (mem_configs m)"
    and rules: "mem_rules ?m = mem_rules m"
    using Inr by (auto simp: EnrollAgent_def Let_def ghas_def enrolled_node_def split: option.splits if_splits)
  note parts = rules_invD [OF inv]
  have maps: "maps_ok ?m" by (rule maps_ok_accounts) (rule parts(1))
  have ids: "node_id n = nid" if "map_of (mem_nodes ?m) nid = Some n" for nid n
    using map_of_gput_SomeD [OF that [unfolded nodes]] parts(2) by (auto simp: nodes_wf_def enrolled_node_def)
  have known: "rule_id r = rid \<and> rule_ok r \<and> (\<forall>nid. involves nid r \<longrightarrow> map_of (mem_nodes m) nid \<noteq> None)"
    if "map_of (mem_rules m) rid = Some r" for rid r
    using that parts(2) unfolding nodes_wf_def by blast
  have grown: "map_of (mem_nodes ?m) nid \<noteq> None" if "map_of (mem_nodes m) nid \<noteq> None" for nid
    using that unfolding nodes by (cases "nid = agent_id a") simp_all
  have "nodes_wf ?m"
    unfolding nodes_wf_def rules using ids known grown by blast
  moreover have "no_clashes ?m" using parts(3) by (simp add: no_clashes_def rules)
  moreover have "configs_agree ?m"
    unfolding configs_agree_def
  proof (intro allI impI)
    fix nid n assume "map_of (mem_nodes ?m) nid = Some n"
    then consider "nid = agent_id a" "n = enrolled_node a now" | "nid \<noteq> agent_id a" "map_of (mem_nodes m) nid = Some n"
      using map_of_gput_SomeD unfolding nodes by fast
    then show "\<exists>c. map_of (mem_configs ?m) nid = Some c \<and> config_version c = node_config_version n
        \<and> map config_view (config_rules c) = node_view ?m nid"
    proof cases
      case 1
      have "\<not> involves (agent_id a) (snd p)" if "p \<in> set (mem_rules m)" for p
        using that known [of "fst p" "snd p"] new in_set_map_of [OF maps_okD(8) [OF parts(1)], of "fst p" "snd p"] by auto
      then have "node_view ?m nid = []" using 1 by (simp add: node_view_def rules sort_slice_def)
      with 1 show ?thesis by (simp add: configs enrolled_node_def)
    next
      case 2
      with parts(4) show ?thesis by (simp add: configs configs_agree_def node_view_def rules)
    qed
  qed
  ultimately show ?thesis using maps by (simp add: rules_inv_def)
qed

lemma without_counters_same:
  assumes "without_counters r = without_counters s"
  shows "same_place r s" "config_view r = config_view s"
proof -
  have fields: "rule_id r = rule_id s" "rule_mode r = rule_mode s" "rule_ingress r = rule_ingress s"
    "rule_egress r = rule_egress s" "rule_protocol r = rule_protocol s" "rule_listen_host r = rule_listen_host s"
    "rule_listen_port r = rule_listen_port s" "rule_relay_port r = rule_relay_port s"
    using arg_cong [OF assms, of rule_id] arg_cong [OF assms, of rule_mode] arg_cong [OF assms, of rule_ingress]
      arg_cong [OF assms, of rule_egress] arg_cong [OF assms, of rule_protocol] arg_cong [OF assms, of rule_listen_host]
      arg_cong [OF assms, of rule_listen_port] arg_cong [OF assms, of rule_relay_port]
    by (simp_all add: without_counters_def)
  then show "same_place r s" by (simp add: same_place_def)
  have "config_view (without_counters q) = config_view q" for q
    by (simp add: config_view_def without_counters_def)
  with assms show "config_view r = config_view s" by metis
qed

lemma node_view_forget:
  assumes "forget_counters (mem_rules m') = forget_counters (mem_rules m)"
  shows "node_view m' nid = node_view m nid"
proof -
  have view: "config_view (without_counters q) = config_view q" "involves nid (without_counters q) = involves nid q" for q
    by (simp_all add: config_view_def without_counters_def involves_def)
  have "map (\<lambda>p. config_view (snd p)) (filter (\<lambda>p. involves nid (snd p)) (forget_counters rs)) =
      map (\<lambda>p. config_view (snd p)) (filter (\<lambda>p. involves nid (snd p)) rs)" for rs
    unfolding forget_counters_def by (induction rs) (auto simp: view)
  with assms show ?thesis unfolding node_view_def by metis
qed

lemma rules_inv_same_rules:
  assumes inv: "rules_inv m" and maps: "maps_ok m'"
    and rules: "forget_counters (mem_rules m') = forget_counters (mem_rules m)"
    and nodes: "mem_nodes m' = gput nid n' (mem_nodes m)" "map_of (mem_nodes m) nid = Some n"
      "node_id n' = node_id n" "node_config_version n' = node_config_version n"
    and configs: "mem_configs m' = mem_configs m"
  shows "rules_inv m'"
proof -
  note parts = rules_invD [OF inv]
  have old: "\<exists>r. map_of (mem_rules m) k = Some r \<and> same_place r' r" if "map_of (mem_rules m') k = Some r'" for k r'
  proof -
    have "map_of (forget_counters (mem_rules m)) k = Some (without_counters r')"
      using that by (simp flip: rules add: map_of_forget)
    then show ?thesis using without_counters_same by (auto simp: map_of_forget)
  qed
  have ids: "node_id q = k" if "map_of (mem_nodes m') k = Some q" for k q
    using map_of_gput_SomeD [OF that [unfolded nodes(1)]] parts(2) nodes(2,3) unfolding nodes_wf_def by auto
  have known: "rule_id r = rid \<and> rule_ok r \<and> (\<forall>nid. involves nid r \<longrightarrow> map_of (mem_nodes m) nid \<noteq> None)"
    if "map_of (mem_rules m) rid = Some r" for rid r
    using that parts(2) unfolding nodes_wf_def by blast
  have grown: "map_of (mem_nodes m') k \<noteq> None" if "map_of (mem_nodes m) k \<noteq> None" for k
    using that unfolding nodes by (cases "k = nid") simp_all
  have known': "rule_id r' = rid \<and> rule_ok r' \<and> (\<forall>nid. involves nid r' \<longrightarrow> map_of (mem_nodes m') nid \<noteq> None)"
    if r': "map_of (mem_rules m') rid = Some r'" for rid r'
  proof -
    obtain r where r: "map_of (mem_rules m) rid = Some r" "same_place r' r" using old [OF r'] by blast
    show ?thesis using known [OF r(1)] grown same_place_simps [OF r(2)] by metis
  qed
  have "nodes_wf m'" unfolding nodes_wf_def using ids known' by blast
  moreover have "no_clashes m'"
    unfolding no_clashes_def
  proof (intro allI impI)
    fix i j r' s' assume "map_of (mem_rules m') i = Some r'" "map_of (mem_rules m') j = Some s'" and ne: "i \<noteq> j"
    then obtain r s where r: "map_of (mem_rules m) i = Some r" "same_place r' r"
        and s: "map_of (mem_rules m) j = Some s" "same_place s' s"
      using old by meson
    have "\<not> listener_clash r s \<and> \<not> relay_clash r s"
      using parts(3) r(1) s(1) ne unfolding no_clashes_def by blast
    then show "\<not> listener_clash r' s' \<and> \<not> relay_clash r' s'"
      unfolding same_place_simps(5,6) [OF r(2)] same_place_simps(7,8) [OF s(2)] .
  qed
  moreover have "configs_agree m'"
    unfolding configs_agree_def configs node_view_forget [OF rules]
  proof (intro allI impI)
    fix k q assume "map_of (mem_nodes m') k = Some q"
    then obtain q0 where "map_of (mem_nodes m) k = Some q0" "node_config_version q0 = node_config_version q"
      using map_of_gput_SomeD [of nid n' "mem_nodes m" k q] nodes by metis
    then show "\<exists>c. map_of (mem_configs m) k = Some c \<and> config_version c = node_config_version q \<and>
        map config_view (config_rules c) = node_view m k"
      using parts(4) unfolding configs_agree_def by metis
  qed
  ultimately show ?thesis using maps by (simp add: rules_inv_def)
qed

lemma heartbeat_node_simps [simp]:
  "node_id (heartbeat_node hb n) = node_id n" "node_config_version (heartbeat_node hb n) = node_config_version n"
  "node_status (heartbeat_node hb n) = NodeOnline"
  "node_applied_config_version (heartbeat_node hb n) \<le> node_config_version n"
  "node_attempted_config_version (heartbeat_node hb n) \<le> node_config_version n"
  by (simp_all add: heartbeat_node_def Let_def not_less)

lemma rules_inv_Heartbeat [inv_intros]:
  assumes inv: "rules_inv m"
  shows "rules_inv (fst (UpdateAgentHeartbeat nid cred hb m))"
proof (cases rule: UpdateAgentHeartbeat_cases [of nid cred hb m])
  case refused
  with inv show ?thesis by simp
next
  case (accepted n)
  let ?m1 = "heartbeat_connections nid hb (recordAgentLogs nid hb (recordMetric nid hb
      (m\<lparr>mem_nodes := gput nid (heartbeat_node hb n) (mem_nodes m)\<rparr>)))"
  have m': "fst (UpdateAgentHeartbeat nid cred hb m) = heartbeat_rules nid hb ?m1" by (simp add: accepted(4))
  note parts = rules_invD [OF inv]
  have ids: "rule_id r = k" if "map_of (mem_rules m) k = Some r" for k r
    using that parts(2) unfolding nodes_wf_def by blast
  have forget: "forget_counters (mem_rules (heartbeat_rules nid hb ?m1)) = forget_counters (mem_rules m)"
    using forget_counters_heartbeat [of ?m1 nid hb] maps_okD(8) [OF parts(1)] ids by simp
  have conns: "gomap_ok (mem_connections ?m1)"
    using maps_okD(9) [OF parts(1)] by (simp add: heartbeat_connections_def Let_def)
  have "gomap_ok (mem_rules (heartbeat_rules nid hb ?m1))"
    using arg_cong [OF forget, of gomap_ok] maps_okD(8) [OF parts(1)] by simp
  then have "maps_ok (heartbeat_rules nid hb ?m1)"
    using parts(1) conns by (simp add: maps_ok_def)
  from rules_inv_same_rules [OF inv this forget, of nid "heartbeat_node hb n" n] accepted(1) show ?thesis
    unfolding m' by simp
qed

section \<open>The invariant of reachable stores\<close>

definition store_inv :: "memory \<Rightarrow> bool" where
  "store_inv m \<longleftrightarrow> accounts_inv m \<and> rules_inv m \<and> runtime_inv m"

lemma accounts_inv_RecordAudit [inv_intros]: "accounts_inv m \<Longrightarrow> accounts_inv (RecordAudit e m)"
  by (rule accounts_inv_cong [where m = m]) (simp_all add: RecordAudit_def)

lemma store_inv_exec:
  assumes "store_inv m" "op_ok op"
  shows "store_inv (fst (exec op m))"
proof -
  have inv: "accounts_inv m" "rules_inv m" "runtime_inv m" "maps_ok m"
    using assms(1) rules_invD by (auto simp: store_inv_def)
  have "rules_inv (fst (exec op m))"
  proof (cases "is_account_op op")
    case True
    have "maps_ok (fst (exec op m))"
      using True inv(4) by (cases op) (simp_all add: maps_ok_accounts)
    with True inv(2) show ?thesis by (intro rules_inv_cong [OF account_op_frame(1-3)])
  next
    case False
    with inv assms(2) show ?thesis by (cases op) (simp_all add: inv_intros)
  qed
  moreover have "accounts_inv (fst (exec op m))"
  proof (cases "is_rule_op op")
    case True
    with inv(1) show ?thesis by (intro accounts_inv_cong [OF rule_op_accounts_frame(1-4)])
  next
    case False
    with inv show ?thesis
      by (cases op) (simp_all add: inv_intros accounts_inv_cong [OF heartbeat_accounts_frame(1-4)])
  qed
  moreover have "runtime_inv (fst (exec op m))"
  proof -
    consider "is_rule_op op" | h now a where "is_account_op op \<or> op = OpEnrollAgent h now a"
      | nid cred hb where "op = OpHeartbeat nid cred hb"
      by (cases op) auto
    then show ?thesis
    proof cases
      case 1
      with inv(3) show ?thesis by (intro runtime_inv_cong [OF rule_op_runtime_frame])
    next
      case 2
      with inv(3) show ?thesis by (intro runtime_inv_cong [OF account_op_runtime_frame])
    next
      case 3
      with inv(3) show ?thesis by (simp add: inv_intros)
    qed
  qed
  ultimately show ?thesis by (simp add: store_inv_def)
qed

lemma store_inv_run: "store_run t m \<Longrightarrow> store_inv m"
proof (induction rule: store_run.induct)
  case run_empty
  then show ?case
    by (simp add: store_inv_def accounts_inv_NewMemory rules_inv_NewMemory runtime_inv_NewMemory)
next
  case (run_step t m op res m')
  then show ?case using store_inv_exec [of m op] by (simp add: store_step_iff)
qed

section \<open>What holds in every reachable store\<close>

lemma node_view_spec:
  assumes "nodes_wf m" "maps_ok m"
  shows "sorted_wrt (<) (map rule_id (node_view m nid))"
    and "set (node_view m nid) = {config_view r |rid r. map_of (mem_rules m) rid = Some r \<and> involves nid r}"
proof -
  let ?ps = "filter (\<lambda>p. involves nid (snd p)) (mem_rules m)"
  have rid: "rule_id (snd p) = fst p" if "p \<in> set (mem_rules m)" for p
    using that assms(1) in_set_map_of [OF maps_okD(8) [OF assms(2)], of "fst p" "snd p"] unfolding nodes_wf_def by simp
  have "map (\<lambda>p. rule_id (config_view (snd p))) ?ps = map fst ?ps"
    using rid by simp
  then have "distinct (map (\<lambda>p. rule_id (config_view (snd p))) ?ps)"
    using maps_okD(8) [OF assms(2)] by (metis gomap_ok_def gomap_ok_filter)
  moreover have "mset (map rule_id (node_view m nid)) = mset (map (\<lambda>p. rule_id (config_view (snd p))) ?ps)"
    unfolding node_view_def by (simp add: multiset.map_comp comp_def)
  ultimately have dist: "distinct (map rule_id (node_view m nid))"
    by (metis mset_eq_imp_distinct_iff)
  have "sorted_wrt (\<lambda>a b. \<not> rule_id b < rule_id a) (node_view m nid)"
    unfolding node_view_def by (rule by_key.sorted_sort_slice)
  then have "sorted (map rule_id (node_view m nid))" by (simp add: sorted_wrt_map not_less)
  with dist show "sorted_wrt (<) (map rule_id (node_view m nid))" by (simp add: strict_sorted_iff)
  have "set (node_view m nid) = {config_view r |rid r. (rid, r) \<in> set (mem_rules m) \<and> involves nid r}"
    unfolding node_view_def by force
  then show "set (node_view m nid) = {config_view r |rid r. map_of (mem_rules m) rid = Some r \<and> involves nid r}"
    using in_set_map_of [OF maps_okD(8) [OF assms(2)]] by simp
qed

lemma config_exact:
  assumes "store_run t m" "ConfigForAgent nid credential m = Inr c"
  shows "(\<exists>n. map_of (mem_nodes m) nid = Some n \<and> node_status n \<noteq> NodeDisabled \<and> credential_at m nid = credential
            \<and> config_version c = node_config_version n)
    \<and> sorted_wrt (<) (map rule_id (config_rules c))
    \<and> set (map config_view (config_rules c)) =
        {config_view r |rid r. map_of (mem_rules m) rid = Some r \<and> involves nid r}"
proof -
  have inv: "rules_inv m" using store_inv_run [OF assms(1)] by (simp add: store_inv_def)
  obtain n where n: "map_of (mem_nodes m) nid = Some n" "node_status n \<noteq> NodeDisabled" "credential_at m nid = credential"
      and c: "map_of (mem_configs m) nid = Some c"
    using assms(2) by (auto simp: ConfigForAgent_def split: option.splits if_splits)
  have agree: "config_version c = node_config_version n" "map config_view (config_rules c) = node_view m nid"
    using rules_invD(4) [OF inv] n(1) c unfolding configs_agree_def by (metis option.inject)+
  have "map rule_id (config_rules c) = map rule_id (map config_view (config_rules c))" by simp
  then show ?thesis
    using n agree node_view_spec [OF rules_invD(2,1) [OF inv], of nid] by (simp del: map_map list.map_comp)
qed

text \<open>
  C20: the configuration an agent receives is exact. In every store that a run reaches, what \<open>ConfigForAgent\<close> returns
  for a node carries the node's current configuration version and lists, in strictly increasing order of identifiers
  (so none twice), exactly the stored rules in which the node takes part as ingress or relay egress, up to the runtime
  counters and the relay host; and it is returned only to the holder of the node's credential, and only for a node that
  is not disabled.
\<close>

theorem reachable_config_exact:
  assumes "store_run t m" "ConfigForAgent nid credential m = Inr c"
  shows "(\<exists>n. map_of (mem_nodes m) nid = Some n \<and> node_status n \<noteq> NodeDisabled \<and> credential_at m nid = credential
            \<and> config_version c = node_config_version n)
    \<and> sorted_wrt (<) (map rule_id (config_rules c))
    \<and> set (map config_view (config_rules c)) =
        {config_view r |rid r. map_of (mem_rules m) rid = Some r \<and> involves nid r}"
  by (rule config_exact [OF assms])

text \<open>
  C21: no two rules of a reachable store compete for a listener. Two stored rules with different identifiers never share
  ingress node, listen address and listen port with overlapping protocols, and two relay rules never share the relay
  port of the same egress node.
\<close>

theorem reachable_no_clash:
  assumes "store_run t m" "map_of (mem_rules m) i = Some r" "map_of (mem_rules m) j = Some s" "i \<noteq> j"
  shows "\<not> (rule_ingress r = rule_ingress s \<and> rule_listen_host r = rule_listen_host s
            \<and> rule_listen_port r = rule_listen_port s \<and> ProtocolsOverlap (rule_protocol r) (rule_protocol s))
    \<and> \<not> (rule_mode r = ForwardRelay \<and> rule_mode s = ForwardRelay \<and> rule_egress r = rule_egress s
            \<and> rule_relay_port r = rule_relay_port s)"
proof -
  have "no_clashes m" using store_inv_run [OF assms(1)] rules_invD(3) by (auto simp: store_inv_def)
  then have "\<not> listener_clash r s \<and> \<not> relay_clash r s" using assms(2-4) unfolding no_clashes_def by blast
  then show ?thesis by (auto simp: listener_clash_def relay_clash_def)
qed

text \<open>
  The runtime tables of a reachable store stay bounded and free of duplicates: at most one metric sample per node
  and minute, at most one stored log entry per node and event identifier (an agent may send its logs again after a lost
  answer), and at most 4000 connections per node, each filed under its own identifier and node.
\<close>

theorem reachable_runtime_tables:
  assumes "store_run t m"
  shows "distinct (map (\<lambda>s. (sample_node s, sample_at s)) (mem_samples m))
    \<and> (\<forall>s \<in> set (mem_samples m). go_minute dvd sample_at s)
    \<and> distinct (map entry_key (mem_logs m))
    \<and> (\<forall>nid cs. map_of (mem_connections m) nid = Some cs \<longrightarrow> length cs \<le> 4000
         \<and> (\<forall>cid c. map_of cs cid = Some c \<longrightarrow> conn_id c = cid \<and> conn_node c = nid))"
  using store_inv_run [OF assms]
  by (auto simp: store_inv_def runtime_inv_def samples_ok_def logs_ok_def conns_ok_def MaxStoredConnectionsPerNode_def)

text \<open>
  Accounts of a reachable store are consistent: two users never share a name, and looking a user up by name gives
  the user of that name, the same one the lookup by identifier gives (never the zero user of a dangling index entry).
\<close>

theorem reachable_accounts:
  assumes "store_run t m" "UserByUsername name m = Inr u"
  shows "user_name u = name \<and> UserByID (user_id u) m = Inr u
    \<and> (\<forall>uid v. UserByID uid m = Inr v \<longrightarrow> user_name v = name \<longrightarrow> v = u)"
proof -
  have inv: "accounts_inv m" using store_inv_run [OF assms(1)] by (simp add: store_inv_def)
  have found: "user_name u = name" "UserByID (user_id u) m = Inr u"
    using UserByUsername_found [OF inv assms(2)] by auto
  have "v = u" if v: "UserByID uid m = Inr v" "user_name v = name" for uid v
  proof -
    have "map_of (mem_users m) uid = Some v" "map_of (mem_users m) (user_id u) = Some u"
      using v(1) found(2) by (auto simp: UserByID_def split: option.splits)
    with v(2) found(1) accounts_invD(2) [OF inv] show ?thesis by (metis option.inject)
  qed
  with found show ?thesis by blast
qed

section \<open>Enrollment tokens along a run\<close>

definition created :: "string \<Rightarrow> (store_op \<times> outcome) list \<Rightarrow> nat" where
  "created h t = length (filter (\<lambda>(op, res). case (op, res) of
     (OpCreateEnrollmentToken tok, Inr v) \<Rightarrow> token_hash tok = h | _ \<Rightarrow> False) t)"

definition enrolled :: "string \<Rightarrow> (store_op \<times> outcome) list \<Rightarrow> nat" where
  "enrolled h t = length (filter (\<lambda>(op, res). case (op, res) of
     (OpEnrollAgent h' now a, Inr v) \<Rightarrow> h' = h | _ \<Rightarrow> False) t)"

definition unused :: "memory \<Rightarrow> string \<Rightarrow> nat" where
  "unused m h = (case map_of (mem_tokens m) h of Some t \<Rightarrow> if token_used_at t = None then 1 else 0 | None \<Rightarrow> 0)"

lemma created_enrolled_simps [simp]:
  "created h [] = 0" "enrolled h [] = 0"
  "created h (t @ [(op, res)]) = created h t +
     (case (op, res) of (OpCreateEnrollmentToken tok, Inr v) \<Rightarrow> if token_hash tok = h then 1 else 0 | _ \<Rightarrow> 0)"
  "enrolled h (t @ [(op, res)]) = enrolled h t +
     (case (op, res) of (OpEnrollAgent h' now a, Inr v) \<Rightarrow> if h' = h then 1 else 0 | _ \<Rightarrow> 0)"
  by (auto simp: created_def enrolled_def split: store_op.split sum.split)

text \<open>A step that neither creates nor uses a token can only remove tokens.\<close>

lemma unused_fewer:
  assumes "maps_ok m" "\<And>tok. op \<noteq> OpCreateEnrollmentToken tok" "\<And>h now a. op \<noteq> OpEnrollAgent h now a"
  shows "unused (fst (exec op m)) h \<le> unused m h"
proof -
  have same: "mem_tokens m' = mem_tokens m \<Longrightarrow> unused m' h \<le> unused m h" for m' by (simp add: unused_def)
  show ?thesis
  proof (cases op)
    case (OpDeleteUser uid)
    have "mem_tokens (fst (DeleteUser uid m)) = mem_tokens m
        \<or> mem_tokens (fst (DeleteUser uid m)) = gdel_where (\<lambda>t. token_created_by t = uid) (mem_tokens m)"
      by (auto simp: DeleteUser_def split: option.split)
    with OpDeleteUser same show ?thesis
      using map_of_gdel_where [OF maps_okD(4) [OF assms(1)], of "\<lambda>t. token_created_by t = uid" h]
      by (auto simp: unused_def split: option.splits if_splits)
  next
    case (OpHeartbeat nid cred hb)
    then show ?thesis by (simp add: same heartbeat_accounts_frame)
  qed (use assms in \<open>auto intro!: same simp: account_defs rule_op_accounts_frame [of "OpCreateRule r" for r, simplified]
      rule_op_accounts_frame [of "OpUpdateRule r" for r, simplified]
      rule_op_accounts_frame [of "OpDeleteRule r" for r, simplified] split: option.split\<close>)
qed

lemma enrolled_invariant: "store_run t m \<Longrightarrow> enrolled h t + unused m h \<le> created h t"
proof (induction rule: store_run.induct)
  case run_empty
  then show ?case by (simp add: unused_def NewMemory_def)
next
  case (run_step t m op res m')
  have e: "exec op m = (m', res)" using run_step.hyps(2) by (simp add: store_step_iff)
  have ok: "maps_ok m" using store_inv_run [OF run_step.hyps(1)] rules_invD(1) by (auto simp: store_inv_def)
  consider (create) tok where "op = OpCreateEnrollmentToken tok" | (enroll) h' now a where "op = OpEnrollAgent h' now a"
    | (other) "\<And>tok. op \<noteq> OpCreateEnrollmentToken tok" "\<And>h' now a. op \<noteq> OpEnrollAgent h' now a"
    by blast
  then show ?case
  proof cases
    case create
    with e run_step.IH show ?thesis
      by (auto simp: CreateEnrollmentToken_def unused_def ghas_def lift_result_def split: if_splits sum.split)
  next
    case enroll
    with e run_step.IH show ?thesis
      by (auto simp: EnrollAgent_def Let_def unused_def lift_result_def split: if_splits sum.split option.splits)
  next
    case other
    have "unused m' h \<le> unused m h" using unused_fewer [OF ok other, of h] e by simp
    moreover have "created h (t @ [(op, res)]) = created h t" "enrolled h (t @ [(op, res)]) = enrolled h t"
      using other by (cases op; simp)+
    ultimately show ?thesis using run_step.IH by simp
  qed
qed

text \<open>
  An enrollment token is single use. In every run of the store the number of successful enrollments with a token
  hash is at most the number of times a token with that hash was created; a token created once enrolls at most one
  node, whatever other operations (expired or used attempts, deletions of users, heartbeats) are interleaved.
\<close>

theorem enrollments_bounded:
  assumes "store_run t m"
  shows "enrolled h t \<le> created h t"
  using enrolled_invariant [OF assms, of h] by simp

section \<open>Configuration versions along a run\<close>

text \<open>How one operation changes a node: not at all, by one version, by a heartbeat, or by enrolling it.\<close>

definition node_change :: "node option \<Rightarrow> node \<Rightarrow> bool" where
  "node_change old n \<longleftrightarrow> old = Some n \<or> (\<exists>q. old = Some q \<and> n = bumped q)
     \<or> (\<exists>q hb. old = Some q \<and> n = heartbeat_node hb q) \<or> (\<exists>a now. old = None \<and> n = enrolled_node a now)"

lemma bump_change:
  assumes "nodes_wf m" "distinct ns" "\<forall>nid \<in> set ns. map_of (mem_nodes m) nid \<noteq> None"
    and "map_of (mem_nodes (fold bumpNodeAt ns m)) nid = Some n"
  shows "node_change (map_of (mem_nodes m) nid) n"
  using assms(4) unfolding fold_bump_nodes [OF assms(2,3)] node_change_def by (auto split: if_splits)

lemma exec_node_change:
  assumes inv: "rules_inv m" and n: "map_of (mem_nodes (fst (exec op m))) nid = Some n"
  shows "node_change (map_of (mem_nodes m) nid) n"
proof -
  have wf: "nodes_wf m" using rules_invD(2) [OF inv] .
  have keep: "node_change (map_of (mem_nodes m) nid) n" if "mem_nodes (fst (exec op m)) = mem_nodes m"
    using n that by (simp add: node_change_def)
  show ?thesis
  proof (cases "\<exists>e. snd (exec op m) = Inl e")
    case True
    then have "fst (exec op m) = m" using exec_error by (metis prod.collapse)
    then show ?thesis by (simp add: keep)
  next
    case False
    then obtain v where v: "snd (exec op m) = Inr v" by (cases "snd (exec op m)") auto
    then have e: "exec op m = (fst (exec op m), Inr v)" by (metis prod.collapse)
    consider "is_account_op op" | h now a where "op = OpEnrollAgent h now a"
      | nid' cred hb where "op = OpHeartbeat nid' cred hb" | r where "op = OpCreateRule r"
      | r where "op = OpUpdateRule r" | rid where "op = OpDeleteRule rid"
      by (cases op) auto
    then show ?thesis
    proof cases
      case 1
      then show ?thesis by (intro keep account_op_frame)
    next
      case 2
      then have "map_of (mem_nodes m) (agent_id a) = None"
        "mem_nodes (fst (exec op m)) = gput (agent_id a) (enrolled_node a now) (mem_nodes m)"
        using e by (auto simp: EnrollAgent_def Let_def ghas_def enrolled_node_def split: option.splits if_splits)
      with n map_of_gput_SomeD show ?thesis unfolding node_change_def by metis
    next
      case 3
      show ?thesis
      proof (cases rule: UpdateAgentHeartbeat_cases [of nid' cred hb m])
        case refused
        with 3 show ?thesis by (intro keep) simp
      next
        case (accepted q)
        with 3 have "mem_nodes (fst (exec op m)) = gput nid' (heartbeat_node hb q) (mem_nodes m)" by simp
        with n accepted(1) map_of_gput_SomeD show ?thesis unfolding node_change_def by metis
      qed
    next
      case (4 r)
      then obtain r' where "CreateForwardRule r m = (fst (exec op m), Inr r')" using e by auto
      note c = CreateForwardRule_Inr [OF this wf]
      from n show ?thesis
        by (intro bump_change [OF wf ruleNodeIDs_distinct available_present [OF c(2)]]) (simp add: c(5) del: not_None_eq)
    next
      case (5 r)
      then obtain r' where "UpdateForwardRule r m = (fst (exec op m), Inr r')" using e by auto
      then obtain old where o: "map_of (mem_rules m) (rule_id r) = Some old" "ruleNodesAvailable m r"
          "\<not> listenerConflict m r (rule_id r)" "same_place r' r"
          "fst (exec op m) = (let ns = remdups (ruleNodeIDs old @ ruleNodeIDs r) in
             fold rebuildAgentConfig ns ((fold bumpNodeAt ns m)\<lparr>mem_rules := gput (rule_id r) r' (mem_rules m)\<rparr>))"
        by (rule UpdateForwardRule_Inr)
      have "rule_ok old" "\<forall>nid. involves nid old \<longrightarrow> map_of (mem_nodes m) nid \<noteq> None"
        using o(1) wf unfolding nodes_wf_def by blast+
      then have "\<forall>nid \<in> set (remdups (ruleNodeIDs old @ ruleNodeIDs r)). map_of (mem_nodes m) nid \<noteq> None"
        using available_present [OF o(2)] involves_iff by (simp only: set_remdups set_append) blast
      from bump_change [OF wf _ this, of nid n] n show ?thesis by (simp add: o(5) Let_def)
    next
      case (6 rid)
      then obtain u where "DeleteForwardRule rid m = (fst (exec op m), Inr u)" using e by auto
      then obtain old where o: "map_of (mem_rules m) rid = Some old"
        "fst (exec op m) = fold rebuildAgentConfig (ruleNodeIDs old)
           ((fold bumpNodeAt (ruleNodeIDs old) m)\<lparr>mem_rules := gdel rid (mem_rules m)\<rparr>)"
        using wf by (rule DeleteForwardRule_Inr)
      have "\<forall>nid \<in> set (ruleNodeIDs old). map_of (mem_nodes m) nid \<noteq> None"
        using o(1) wf involves_iff unfolding nodes_wf_def by blast
      from bump_change [OF wf _ this, of nid n] n show ?thesis by (simp add: o(2))
    qed
  qed
qed

definition versions_ok :: "nat \<Rightarrow> node \<Rightarrow> bool" where
  "versions_ok k n \<longleftrightarrow> unat (node_config_version n) \<le> k + 1
     \<and> node_applied_config_version n \<le> node_config_version n
     \<and> node_attempted_config_version n \<le> node_config_version n"

lemma unat_bump: "unat (v :: u64) \<le> k + 1 \<Longrightarrow> k + 2 < 2 ^ 64 \<Longrightarrow> unat (v + 1) = unat v + 1"
  by (simp add: unat_word_ariths)

lemma versions_ok_change:
  assumes "node_change old n" "\<And>q. old = Some q \<Longrightarrow> versions_ok k q" "k + 2 < 2 ^ 64"
  shows "versions_ok (Suc k) n"
proof -
  consider "old = Some n" | q where "old = Some q" "n = bumped q" | q hb where "old = Some q" "n = heartbeat_node hb q"
    | a now where "n = enrolled_node a now"
    using assms(1) unfolding node_change_def by blast
  then show ?thesis
  proof cases
    case 2
    have q: "versions_ok k q" using assms(2) 2 by blast
    then have "unat (node_config_version q + 1) = unat (node_config_version q) + 1"
      using assms(3) by (intro unat_bump) (simp_all add: versions_ok_def)
    moreover have "node_applied_config_version n = node_applied_config_version q"
      "node_attempted_config_version n = node_attempted_config_version q"
      using 2 by (simp_all add: bumped_def)
    ultimately show ?thesis
      using q 2 unfolding versions_ok_def word_le_nat_alt by simp
  qed (use assms(2) in \<open>auto simp: versions_ok_def enrolled_node_def\<close>)
qed

text \<open>
  Configuration versions count changes and reports never run ahead of them. In every run of fewer than
  \<open>2^64 - 1\<close> operations, so that no version can wrap around, each node's configuration version is at most one more
  than the number of operations, and the versions the node reports as applied and attempted, whatever a heartbeat
  claims, are at most the node's configuration version.
\<close>

theorem reachable_versions:
  assumes "store_run t m" "length t + 1 < 2 ^ 64" "map_of (mem_nodes m) nid = Some n"
  shows "unat (node_config_version n) \<le> length t + 1 \<and> node_applied_config_version n \<le> node_config_version n
    \<and> node_attempted_config_version n \<le> node_config_version n"
proof -
  have "versions_ok (length t) n"
    using assms
  proof (induction arbitrary: nid n rule: store_run.induct)
    case run_empty
    then show ?case by (simp add: NewMemory_def)
  next
    case (run_step t m op res m')
    have inv: "rules_inv m" using store_inv_run [OF run_step.hyps(1)] by (simp add: store_inv_def)
    have "map_of (mem_nodes (fst (exec op m))) nid = Some n"
      using run_step.hyps(2) run_step.prems(2) by (simp add: store_step_iff)
    from exec_node_change [OF inv this] have "versions_ok (Suc (length t)) n"
      by (rule versions_ok_change) (use run_step in \<open>auto\<close>)
    then show ?case by simp
  qed
  then show ?thesis by (simp add: versions_ok_def)
qed

section \<open>Administrators along a run\<close>

text \<open>
  C22: the control plane cannot be locked out. From any reachable store with an enabled administrator, every sequence of
  store operations (demoting, disabling and deleting users in any order) again ends in a store with an enabled
  administrator.
\<close>

theorem administrator_remains:
  assumes "store_run t m" "has_admin m" "list_all op_ok ops"
  shows "has_admin (snd (run_ops ops m))"
  using assms
proof (induction ops arbitrary: t m)
  case Nil
  then show ?case by simp
next
  case (Cons op ops)
  have maps: "maps_ok m" using store_inv_run [OF Cons.prems(1)] rules_invD(1) by (auto simp: store_inv_def)
  have "has_admin (fst (exec op m))"
  proof (cases "is_rule_op op \<or> (\<exists>nid cred hb. op = OpHeartbeat nid cred hb)")
    case True
    then have "mem_users (fst (exec op m)) = mem_users m"
      using rule_op_accounts_frame(1) by (auto simp: heartbeat_accounts_frame)
    with Cons.prems(2) show ?thesis by (simp add: has_admin_def)
  next
    case False
    with maps Cons.prems(2) show ?thesis by (cases op) (simp_all add: inv_intros)
  qed
  moreover have "store_run (t @ [(op, snd (exec op m))]) (fst (exec op m))"
    using Cons.prems(1,3) by (intro run_step store_step.intros) simp_all
  ultimately show ?case
    using Cons.IH Cons.prems(3) by (simp add: split_beta)
qed

section \<open>Revocation\<close>

text \<open>
  C23: changing or deleting an account ends its sessions. After a successful update (role, password, disabling, reset of
  the second factor) or deletion of a user in a reachable store, no session token resolves to that user any more, at any
  time, while every session of another user is still stored as it was.
\<close>

theorem account_change_revokes:
  assumes "store_run t m" "op = OpUpdateUser uid upd \<or> op = OpDeleteUser uid" "exec op m = (m', Inr v)"
  shows "(\<forall>h now s u. SessionUserByTokenHash h now m' = Inr (s, u) \<longrightarrow> session_user s \<noteq> uid)
    \<and> (\<forall>h s. map_of (mem_sessions m) h = Some s \<longrightarrow> session_user s \<noteq> uid \<longrightarrow> map_of (mem_sessions m') h = Some s)"
proof -
  have maps: "maps_ok m" using store_inv_run [OF assms(1)] rules_invD(1) by (auto simp: store_inv_def)
  have ses: "mem_sessions m' = gdel_where (\<lambda>s. session_user s = uid) (mem_sessions m)"
    using assms(2,3) UpdateUser_sessions DeleteUser_sessions by (auto simp: unit_eq)
  have "session_user s \<noteq> uid" if "SessionUserByTokenHash h now m' = Inr (s, u)" for h now s u
    using that no_session_after_filter [OF maps, of uid h s] by (simp add: SessionUserByTokenHash_Inr ses)
  moreover have "map_of (mem_sessions m') h = Some s"
    if "map_of (mem_sessions m) h = Some s" "session_user s \<noteq> uid" for h s
    using that by (simp add: ses map_of_gdel_where [OF maps_okD(3) [OF maps]])
  ultimately show ?thesis by blast
qed

section \<open>An example run\<close>

text \<open>
  Two nodes enroll and report their tunnel addresses; a relay rule from the first to the second and a direct rule of
  the second, listening on its tunnel address, are created.
\<close>

definition example_user :: user where
  "example_user = \<lparr>user_id = ''u'', user_name = ''root'', user_password_hash = ''h'', user_role = RoleAdmin,
     user_disabled = False, user_mfa_enabled = False, user_mfa_secret = [], user_recovery_hashes = [''c1'', ''c2''],
     user_created_at = 1\<rparr>"

definition example_token :: "string \<Rightarrow> enrollment_token" where
  "example_token h = \<lparr>token_id = h, token_name = ''t'', token_hash = h, token_created_by = ''u'',
     token_expires_at = 100, token_created_at = 1, token_used_at = None\<rparr>"

definition example_identity :: "string \<Rightarrow> agent_identity" where
  "example_identity nid = \<lparr>agent_id = nid, agent_name = nid, agent_region = [], agent_public_ip = [],
     agent_architecture = ''amd64'', agent_version = ''1'', agent_credential_hash = ''key'', agent_created_at = 2\<rparr>"

definition example_heartbeat :: "string \<Rightarrow> time \<Rightarrow> agent_heartbeat" where
  "example_heartbeat tunnel t = \<lparr>hb_public_ip = [], hb_tunnel_address = tunnel, hb_agent_version = ''1'',
     hb_config_version = 1, hb_attempted_version = 0, hb_config_error = [], hb_cpu = Fin 5, hb_memory = Fin 6,
     hb_load = Fin 1, hb_disk = Fin 7, hb_rx = 1, hb_tx = 1, hb_active = 0, hb_in = 10, hb_out = 20,
     hb_rule_stats = [], hb_connections = [], hb_complete = True, hb_logs = [], hb_received_at = t\<rparr>"

definition example_rule :: "string \<Rightarrow> forward_rule" where
  "example_rule rid = \<lparr>rule_id = rid, rule_name = rid, rule_protocol = ProtocolTCP, rule_mode = ForwardDirect,
     rule_ingress = ''B'', rule_egress = [], rule_listen_host = ''10.0.0.2'', rule_listen_port = 9000,
     rule_target_host = ''192.168.1.5'', rule_target_port = 80, rule_relay_host = [], rule_relay_port = 0,
     rule_enabled = True, rule_bandwidth_kbps = 0, rule_max_connections = 10, rule_allow_cidrs = [],
     rule_deny_cidrs = [], rule_config_version = 0, rule_egress_config_version = 0, rule_active_conns = 0,
     rule_bytes_in = 0, rule_bytes_out = 0, rule_runtime_updated = 0\<rparr>"

definition example_relay :: forward_rule where
  "example_relay = (example_rule ''r1'')\<lparr>rule_mode := ForwardRelay, rule_ingress := ''A'', rule_egress := ''B'',
     rule_listen_host := ''0.0.0.0'', rule_listen_port := 8080, rule_relay_host := ''10.0.0.2'', rule_relay_port := 9000\<rparr>"

definition example_ops :: "store_op list" where
  "example_ops =
     [OpCreateInitialUser example_user,
      OpCreateEnrollmentToken (example_token ''t1''), OpEnrollAgent ''t1'' 5 (example_identity ''A''),
      OpCreateEnrollmentToken (example_token ''t2''), OpEnrollAgent ''t2'' 6 (example_identity ''B''),
      OpHeartbeat ''A'' ''key'' (example_heartbeat ''10.0.0.1'' 7),
      OpHeartbeat ''B'' ''key'' (example_heartbeat ''10.0.0.2'' 8),
      OpCreateRule example_relay, OpCreateRule (example_rule ''r2'')]"

definition example_store :: memory where
  "example_store = snd (run_ops example_ops NewMemory)"

lemma example_run: "store_run (fst (run_ops example_ops NewMemory)) example_store"
  unfolding example_store_def
  by (rule store_run_ops) (simp add: example_ops_def example_relay_def example_rule_def rule_ok_def)

lemma example_values:
  "map_option node_config_version (map_of (mem_nodes example_store) ''B'') = Some 3"
  "map_option rule_id (map_of (mem_rules example_store) ''r1'') = Some ''r1''"
  "map_option rule_id (map_of (mem_rules example_store) ''r2'') = Some ''r2''"
  "length (fst (run_ops example_ops NewMemory)) = 9"
  "enrolled ''t1'' (fst (run_ops example_ops NewMemory)) = 1"
  "map_sum (\<lambda>_. ()) (\<lambda>c. map rule_id (config_rules c)) (ConfigForAgent ''B'' ''key'' example_store) = Inr [''r1'', ''r2'']"
  "map_sum (\<lambda>_. ()) user_name (UserByUsername ''root'' example_store) = Inr ''root''"
  by code_simp+

theorem reachable_config_exact_witness:
  "\<exists>c. ConfigForAgent ''B'' ''key'' example_store = Inr c \<and> length (config_rules c) = 2
     \<and> sorted_wrt (<) (map rule_id (config_rules c))"
proof -
  obtain c where c: "ConfigForAgent ''B'' ''key'' example_store = Inr c" "map rule_id (config_rules c) = [''r1'', ''r2'']"
    using example_values(6) by (cases "ConfigForAgent ''B'' ''key'' example_store") auto
  from c(2) have "length (config_rules c) = 2" by (metis length_map list.size(3,4) One_nat_def Suc_1 add.commute plus_1_eq_Suc)
  with c reachable_config_exact [OF example_run c(1)] show ?thesis by blast
qed

theorem reachable_no_clash_witness:
  "\<exists>r s. map_of (mem_rules example_store) ''r1'' = Some r \<and> map_of (mem_rules example_store) ''r2'' = Some s
     \<and> \<not> (rule_ingress r = rule_ingress s \<and> rule_listen_host r = rule_listen_host s
          \<and> rule_listen_port r = rule_listen_port s \<and> ProtocolsOverlap (rule_protocol r) (rule_protocol s))"
proof -
  obtain r s where r: "map_of (mem_rules example_store) ''r1'' = Some r" "map_of (mem_rules example_store) ''r2'' = Some s"
    using example_values(2,3) by auto
  have "''r1'' \<noteq> ''r2''" by simp
  with r reachable_no_clash [OF example_run r] show ?thesis by blast
qed

theorem reachable_runtime_tables_witness:
  "distinct (map entry_key (mem_logs example_store)) \<and> length (mem_samples example_store) = 2"
proof -
  have "length (mem_samples example_store) = 2" by code_simp
  with reachable_runtime_tables [OF example_run] show ?thesis by blast
qed

theorem reachable_accounts_witness:
  "\<exists>u. UserByUsername ''root'' example_store = Inr u \<and> UserByID (user_id u) example_store = Inr u"
proof -
  obtain u where u: "UserByUsername ''root'' example_store = Inr u"
    using example_values(7) by (cases "UserByUsername ''root'' example_store") auto
  with reachable_accounts [OF example_run u] show ?thesis by blast
qed

theorem enrollments_bounded_witness:
  "enrolled ''t1'' (fst (run_ops example_ops NewMemory)) = 1 \<and> 1 \<le> created ''t1'' (fst (run_ops example_ops NewMemory))"
  using enrollments_bounded [OF example_run, of "''t1''"] example_values(5) by simp

theorem reachable_versions_witness:
  "\<exists>n. map_of (mem_nodes example_store) ''B'' = Some n \<and> unat (node_config_version n) \<le> 10
     \<and> node_applied_config_version n \<le> node_config_version n"
proof -
  obtain n where n: "map_of (mem_nodes example_store) ''B'' = Some n"
    using example_values(1) by auto
  with reachable_versions [OF example_run _ n] example_values(4) show ?thesis by simp
qed

theorem administrator_remains_witness:
  "has_admin (snd (run_ops [OpDeleteUser ''u''] example_store))"
proof -
  have "has_admin example_store" unfolding has_admin_def by code_simp
  from administrator_remains [OF example_run this, of "[OpDeleteUser ''u'']"] show ?thesis by simp
qed


theorem CreateForwardRule_commits_witness:
  "\<exists>m' r'. CreateForwardRule ((example_rule ''r3'')\<lparr>rule_listen_port := 7000\<rparr>) example_store = (m', Inr r')
     \<and> map_option node_config_version (map_of (mem_nodes m') ''B'') = Some (rule_config_version r')"
proof -
  let ?r = "(example_rule ''r3'')\<lparr>rule_listen_port := 7000\<rparr>"
  have inv: "rules_inv example_store" using store_inv_run [OF example_run] by (simp add: store_inv_def)
  have ok: "rule_ok ?r" by (simp add: rule_ok_def example_rule_def)
  have "isl (snd (CreateForwardRule ?r example_store)) = False" by code_simp
  then obtain m' r' where c: "CreateForwardRule ?r example_store = (m', Inr r')"
    by (metis isl_def prod.collapse sum.exhaust_sel)
  moreover have "rule_ingress ?r = ''B''" by (simp add: example_rule_def)
  ultimately show ?thesis using CreateForwardRule_commits [OF inv ok c] by auto
qed

theorem UpdateForwardRule_commits_witness:
  "\<exists>m' r'. UpdateForwardRule ((example_rule ''r2'')\<lparr>rule_ingress := ''A''\<rparr>) example_store = (m', Inr r')
     \<and> (\<exists>old. map_of (mem_rules example_store) ''r2'' = Some old
          \<and> committed (ruleNodeIDs old @ [''A'']) example_store m')"
proof -
  let ?r = "(example_rule ''r2'')\<lparr>rule_ingress := ''A''\<rparr>"
  have inv: "rules_inv example_store" using store_inv_run [OF example_run] by (simp add: store_inv_def)
  have ok: "rule_ok ?r" by (simp add: rule_ok_def example_rule_def)
  have "isl (snd (UpdateForwardRule ?r example_store)) = False" by code_simp
  then obtain m' r' where c: "UpdateForwardRule ?r example_store = (m', Inr r')"
    by (metis isl_def prod.collapse sum.exhaust_sel)
  moreover have "rule_id ?r = ''r2''" "ruleNodeIDs ?r = [''A'']" by (simp_all add: example_rule_def ruleNodeIDs_def)
  ultimately show ?thesis using UpdateForwardRule_commits [OF inv ok c] by auto
qed

theorem account_change_revokes_witness:
  "\<exists>m' v. exec (OpUpdateUser ''u'' \<lparr>upd_role = RoleAdmin, upd_disabled = False, upd_password_hash = ''h2'',
       upd_reset_mfa = False\<rparr>) example_store = (m', Inr v)
     \<and> (\<forall>h now s u. SessionUserByTokenHash h now m' = Inr (s, u) \<longrightarrow> session_user s \<noteq> ''u'')"
proof -
  let ?op = "OpUpdateUser ''u'' \<lparr>upd_role = RoleAdmin, upd_disabled = False, upd_password_hash = ''h2'', upd_reset_mfa = False\<rparr>"
  have "isl (snd (exec ?op example_store)) = False" by code_simp
  then obtain m' v where e: "exec ?op example_store = (m', Inr v)"
    by (metis isl_def prod.collapse sum.exhaust_sel)
  with account_change_revokes [OF example_run disjI1 [OF refl] e] show ?thesis by blast
qed

end
