(* ===== verification/Encoding.thy ===== *)
theory Encoding
  imports GoStrings
begin

text \<open>
  The unpadded encodings of Go's \<open>encoding/base64\<close> (URL alphabet) and \<open>encoding/base32\<close> (standard alphabet): the bits of
  the bytes, most significant first, in groups of \<open>k\<close> bits, the last group filled with zeros, each group a digit of
  the alphabet. Decoders skip line ends, refuse other characters, and drop the bits that do not fill a byte.
\<close>

section \<open>Bits\<close>

fun bits_of :: "nat \<Rightarrow> nat \<Rightarrow> bool list" where
  "bits_of 0 n = []"
| "bits_of (Suc k) n = bits_of k (n div 2) @ [odd n]"

definition val_of :: "bool list \<Rightarrow> nat" where
  "val_of bs = foldl (\<lambda>n b. 2 * n + of_bool b) 0 bs"

lemma length_bits_of [simp]: "length (bits_of k n) = k"
  by (induction k n rule: bits_of.induct) auto

lemma val_of_Nil [simp]: "val_of [] = 0"
  by (simp add: val_of_def)

lemma val_of_snoc [simp]: "val_of (bs @ [b]) = 2 * val_of bs + of_bool b"
  by (simp add: val_of_def)

lemma val_of_bits_of: "n < 2 ^ k \<Longrightarrow> val_of (bits_of k n) = n"
proof (induction k n rule: bits_of.induct)
  case (2 k n)
  then have "n div 2 < 2 ^ k" by simp
  with 2 show ?case by simp
qed simp

lemma bits_of_val_of: "bits_of (length bs) (val_of bs) = bs"
  by (induction bs rule: rev_induct) auto

lemma val_of_less: "val_of bs < 2 ^ length bs"
  by (induction bs rule: rev_induct) auto

section \<open>Groups\<close>

text \<open>The groups of \<open>k\<close> bits of a sequence, the last one filled up.\<close>

function groups :: "nat \<Rightarrow> bool list \<Rightarrow> bool list list" where
  "groups k bs =
     (if bs = [] \<or> k = 0 then []
      else (take k bs @ replicate (k - length bs) False) # groups k (drop k bs))"
  by pat_completeness auto
termination
  by (relation "measure (\<lambda>(k, bs). length bs)") auto

declare groups.simps [simp del]

lemma groups_length: "g \<in> set (groups k bs) \<Longrightarrow> length g = k"
proof (induction k bs rule: groups.induct)
  case (1 k bs)
  show ?case
  proof (cases "bs = [] \<or> k = 0")
    case True
    with "1.prems" show ?thesis by (subst (asm) groups.simps) simp
  next
    case False
    then have "g = take k bs @ replicate (k - length bs) False \<or> g \<in> set (groups k (drop k bs))"
      using "1.prems" by (subst (asm) groups.simps) simp
    with "1.IH" [OF False] show ?thesis by (auto simp: min_def)
  qed
qed

lemma groups_concat: "0 < k \<Longrightarrow> \<exists>pad. concat (groups k bs) = bs @ pad \<and> length pad < k \<and> (\<forall>b \<in> set pad. \<not> b)"
proof (induction k bs rule: groups.induct)
  case (1 k bs)
  show ?case
  proof (cases "bs = []")
    case True
    with "1.prems" show ?thesis by (subst groups.simps) simp
  next
    case False
    with "1.prems" have step: "concat (groups k bs) = take k bs @ replicate (k - length bs) False @ concat (groups k (drop k bs))"
      by (subst groups.simps) simp
    show ?thesis
    proof (cases "length bs \<le> k")
      case True
      then have "groups k (drop k bs) = []" by (simp add: groups.simps)
      with step True False have "concat (groups k bs) = bs @ replicate (k - length bs) False" by simp
      moreover have "k - length bs < k" using False "1.prems" by (cases bs) auto
      ultimately show ?thesis by (intro exI [of _ "replicate (k - length bs) False"]) simp
    next
      case long: False
      obtain pad where "concat (groups k (drop k bs)) = drop k bs @ pad" "length pad < k" "\<forall>b \<in> set pad. \<not> b"
        using "1.IH" "1.prems" False by auto
      with step long show ?thesis by (intro exI [of _ pad]) simp
    qed
  qed
qed

section \<open>Alphabets\<close>

definition digit_index :: "string \<Rightarrow> char \<Rightarrow> nat option" where
  "digit_index alphabet c = map_of (zip alphabet [0..<length alphabet]) c"

definition encode_digits :: "string \<Rightarrow> nat \<Rightarrow> string \<Rightarrow> string" where
  "encode_digits alphabet k bytes =
     map (\<lambda>g. alphabet ! val_of g) (groups k (concat (map (\<lambda>c. bits_of 8 (of_char c)) bytes)))"

text \<open>The bytes in a sequence of bits; fewer than eight bits at the end are dropped.\<close>

function bytes_of :: "bool list \<Rightarrow> string" where
  "bytes_of bs = (if length bs < 8 then [] else char_of (val_of (take 8 bs)) # bytes_of (drop 8 bs))"
  by pat_completeness auto
termination
  by (relation "measure length") auto

declare bytes_of.simps [simp del]

definition strip_newlines :: "string \<Rightarrow> string" where
  "strip_newlines s = filter (\<lambda>c. c \<noteq> CHR 0x0A \<and> c \<noteq> CHR 0x0D) s"

text \<open>\<open>usable n\<close> is how many of \<open>n\<close> digits count, \<open>None\<close> where that number of digits is an error.\<close>

definition decode_digits :: "string \<Rightarrow> nat \<Rightarrow> (nat \<Rightarrow> nat option) \<Rightarrow> string \<Rightarrow> string option" where
  "decode_digits alphabet k usable s =
     (let digits = map (digit_index alphabet) (strip_newlines s)
      in if None \<in> set digits then None
         else case usable (length digits) of
           None \<Rightarrow> None
         | Some n \<Rightarrow> Some (bytes_of (concat (map (\<lambda>d. bits_of k (the d)) (take n digits)))))"

lemma digit_index_nth: "distinct alphabet \<Longrightarrow> i < length alphabet \<Longrightarrow> digit_index alphabet (alphabet ! i) = Some i"
  unfolding digit_index_def by (subst map_of_zip_nth) simp_all

lemma bytes_of_append: "length pad < 8 \<Longrightarrow> bytes_of (concat (map (\<lambda>c. bits_of 8 (of_char c)) s) @ pad) = s"
proof (induction s)
  case Nil
  then show ?case by (simp add: bytes_of.simps)
next
  case (Cons c s)
  have "val_of (bits_of 8 (of_char c)) = of_char c"
    by (rule val_of_bits_of) (use nat_of_char_less_256 [of c] in simp)
  with Cons show ?case by (subst bytes_of.simps) simp
qed

lemma encode_digits_decodes:
  assumes "distinct alphabet" "length alphabet = 2 ^ k" "0 < k" "k \<le> 8"
    and "usable (length (encode_digits alphabet k s)) = Some (length (encode_digits alphabet k s))"
    and "\<forall>c \<in> set alphabet. c \<noteq> CHR 0x0A \<and> c \<noteq> CHR 0x0D"
  shows "decode_digits alphabet k usable (encode_digits alphabet k s) = Some s"
proof -
  let ?bits = "concat (map (\<lambda>c. bits_of 8 (of_char c)) s)"
  have dig: "val_of g < length alphabet" if "g \<in> set (groups k ?bits)" for g
    using val_of_less [of g] groups_length [OF that] assms(2) by simp
  have "strip_newlines (encode_digits alphabet k s) = encode_digits alphabet k s"
    unfolding strip_newlines_def using assms(6) dig by (auto simp: encode_digits_def intro!: filter_True)
  moreover have "map (digit_index alphabet) (encode_digits alphabet k s) = map (\<lambda>g. Some (val_of g)) (groups k ?bits)"
    using dig digit_index_nth [OF assms(1)] by (auto simp: encode_digits_def)
  moreover have "concat (map (\<lambda>g. bits_of k (val_of g)) (groups k ?bits)) = concat (groups k ?bits)"
  proof -
    have "bits_of k (val_of g) = g" if "g \<in> set (groups k ?bits)" for g
      using bits_of_val_of [of g] groups_length [OF that] by simp
    then have "map (\<lambda>g. bits_of k (val_of g)) (groups k ?bits) = map (\<lambda>g. g) (groups k ?bits)" by (intro map_cong) auto
    then show ?thesis by simp
  qed
  moreover obtain pad where "concat (groups k ?bits) = ?bits @ pad" "length pad < k"
    using groups_concat [OF assms(3), of ?bits] by blast
  moreover have "bytes_of (?bits @ pad) = s" by (rule bytes_of_append) (use calculation(5) assms(4) in simp)
  moreover have "length (encode_digits alphabet k s) = length (groups k ?bits)" by (simp add: encode_digits_def)
  ultimately show ?thesis
    using assms(5) by (auto simp: decode_digits_def Let_def comp_def image_iff)
qed

section \<open>Base 64 and base 32\<close>

definition base64url_alphabet :: string where
  "base64url_alphabet = ''ABCDEFGHIJKLMNOPQRSTUVWXYZabcdefghijklmnopqrstuvwxyz0123456789-_''"

definition base32_alphabet :: string where
  "base32_alphabet = ''ABCDEFGHIJKLMNOPQRSTUVWXYZ234567''"

definition base64url_encode :: "string \<Rightarrow> string" where
  "base64url_encode s = encode_digits base64url_alphabet 6 s"

text \<open>A single digit after the last group of four is an error.\<close>

definition base64url_decode :: "string \<Rightarrow> string option" where
  "base64url_decode s = decode_digits base64url_alphabet 6 (\<lambda>n. if n mod 4 = 1 then None else Some n) s"

definition base32_encode :: "string \<Rightarrow> string" where
  "base32_encode s = encode_digits base32_alphabet 5 s"

text \<open>
  One, three or six digits after the last group of eight are ignored: no case of the decoder's \<open>switch\<close> matches.
\<close>

definition base32_decode :: "string \<Rightarrow> string option" where
  "base32_decode s =
     decode_digits base32_alphabet 5 (\<lambda>n. Some (if n mod 8 \<in> {1, 3, 6} then n - n mod 8 else n)) s"

lemma length_groups: "0 < k \<Longrightarrow> length (groups k bs) = (length bs + k - 1) div k"
proof (induction k bs rule: groups.induct)
  case (1 k bs)
  show ?case
  proof (cases "bs = []")
    case True
    then show ?thesis using "1.prems" by (subst groups.simps) simp
  next
    case False
    then have len: "length (groups k bs) = Suc ((length bs - k + k - 1) div k)"
      using "1.IH" "1.prems" by (subst groups.simps) simp
    show ?thesis
    proof (cases "length bs \<le> k")
      case True
      have "0 < length bs" using False by simp
      then have "k \<le> length bs + k - 1" "length bs + k - 1 < 2 * k" using True "1.prems" by linarith+
      then have "(length bs + k - 1) div k = 1" by (intro div_nat_eqI) simp_all
      then show ?thesis using len True "1.prems" by simp
    next
      case False
      then have "length bs + k - 1 = (length bs - k + k - 1) + k" by simp
      then have "(length bs + k - 1) div k = Suc ((length bs - k + k - 1) div k)" using "1.prems" by (metis div_add_self2 less_not_refl Suc_eq_plus1)
      with len show ?thesis by simp
    qed
  qed
qed

lemma length_bits: "length (concat (map (\<lambda>c. bits_of 8 (of_char c)) s)) = 8 * length s"
  by (induction s) simp_all

lemma length_encode_digits: "0 < k \<Longrightarrow> length (encode_digits a k s) = (8 * length s + k - 1) div k"
  by (simp add: encode_digits_def length_groups length_bits)

lemma base64url_roundtrip: "base64url_decode (base64url_encode s) = Some s"
  unfolding base64url_decode_def base64url_encode_def
proof (rule encode_digits_decodes)
  have "((5 + 8 * n) div 6) mod 4 \<noteq> Suc 0" for n :: nat by presburger
  then show "(if length (encode_digits base64url_alphabet 6 s) mod 4 = 1 then None else Some (length (encode_digits base64url_alphabet 6 s)))
      = Some (length (encode_digits base64url_alphabet 6 s))"
    by (simp add: length_encode_digits)
qed (simp_all add: base64url_alphabet_def)

lemma base32_roundtrip: "base32_decode (base32_encode s) = Some s"
  unfolding base32_decode_def base32_encode_def
proof (rule encode_digits_decodes)
  have "((4 + 8 * n) div 5) mod 8 \<noteq> Suc 0 \<and> ((4 + 8 * n) div 5) mod 8 \<noteq> 3 \<and> ((4 + 8 * n) div 5) mod 8 \<noteq> 6" for n :: nat
    by presburger
  from this [of "length s"] show "Some (if length (encode_digits base32_alphabet 5 s) mod 8 \<in> {1, 3, 6}
      then length (encode_digits base32_alphabet 5 s) - length (encode_digits base32_alphabet 5 s) mod 8
      else length (encode_digits base32_alphabet 5 s)) = Some (length (encode_digits base32_alphabet 5 s))"
    by (simp add: length_encode_digits)
qed (simp_all add: base32_alphabet_def)

lemma base32_encode_chars: "c \<in> set (base32_encode s) \<Longrightarrow> c \<in> set base32_alphabet"
proof -
  assume "c \<in> set (base32_encode s)"
  then obtain g where g: "g \<in> set (groups 5 (concat (map (\<lambda>c. bits_of 8 (of_char c)) s)))" "c = base32_alphabet ! val_of g"
    by (auto simp: base32_encode_def encode_digits_def)
  have "val_of g < length base32_alphabet" using val_of_less [of g] groups_length [OF g(1)] by (simp add: base32_alphabet_def)
  with g(2) show ?thesis by simp
qed

end
