(* ===== verification/Auth.thy ===== *)
theory Auth
  imports Encoding
begin

text \<open>
  \<open>internal/auth\<close>: password and user name rules, tokens and identifiers (\<open>auth.go\<close>); encrypted MFA secrets, one-time
  codes and recovery codes (\<open>totp.go\<close>). The cryptographic primitives (bcrypt, SHA-256, HMAC-SHA1, AES-GCM) are the
  functions of the record \<open>crypto\<close>; \<open>crypto_ok\<close> says what their documentation promises. Random bytes are arguments,
  \<open>None\<close> where the random source fails. \<open>ul\<close> and \<open>uu\<close> are the Unicode case mappings of non-ASCII text.
\<close>

record crypto =
  cr_bcrypt :: "string \<Rightarrow> string \<Rightarrow> string option"
  cr_bcrypt_ok :: "string \<Rightarrow> string \<Rightarrow> bool"
  cr_sha256 :: "string \<Rightarrow> string"
  cr_hmac_sha1 :: "string \<Rightarrow> string \<Rightarrow> string"
  cr_seal :: "string \<Rightarrow> string \<Rightarrow> string \<Rightarrow> string"
  cr_open :: "string \<Rightarrow> string \<Rightarrow> string \<Rightarrow> string option"

text \<open>
  bcrypt refuses passwords longer than 72 bytes and accepts what it hashed; GCM opens what it sealed; digests have
  their length.
\<close>

definition crypto_ok :: "crypto \<Rightarrow> bool" where
  "crypto_ok cr \<longleftrightarrow> (\<forall>salt p. 72 < length p \<longrightarrow> cr_bcrypt cr salt p = None)
     \<and> (\<forall>salt p h. cr_bcrypt cr salt p = Some h \<longrightarrow> cr_bcrypt_ok cr h p)
     \<and> (\<forall>key nonce p. cr_open cr key nonce (cr_seal cr key nonce p) = Some p)
     \<and> (\<forall>key m. length (cr_hmac_sha1 cr key m) = 20)"

section \<open>Passwords and names\<close>

definition MinPasswordLength :: nat where "MinPasswordLength = 12"
definition MaxPasswordLength :: nat where "MaxPasswordLength = 128"

datatype auth_error =
    PasswordTooShort | PasswordTooLong | HashFailed | UsernameLength | UsernameCharacters | RandomFailed

definition ValidatePassword :: "string \<Rightarrow> auth_error option" where
  "ValidatePassword password =
     (if length password < MinPasswordLength then Some PasswordTooShort
      else if MaxPasswordLength < length password then Some PasswordTooLong
      else None)"

definition HashPassword :: "crypto \<Rightarrow> string \<Rightarrow> string \<Rightarrow> auth_error + string" where
  "HashPassword cr salt password =
     (case ValidatePassword password of
        Some e \<Rightarrow> Inl e
      | None \<Rightarrow> (case cr_bcrypt cr salt password of None \<Rightarrow> Inl HashFailed | Some h \<Rightarrow> Inr h))"

definition CheckPassword :: "crypto \<Rightarrow> string \<Rightarrow> string \<Rightarrow> bool" where
  "CheckPassword cr hash password = cr_bcrypt_ok cr hash password"

definition username_char :: "char \<Rightarrow> bool" where
  "username_char c \<longleftrightarrow> is_lower c \<or> is_digit c \<or> c = CHR ''_'' \<or> c = CHR ''-''"

text \<open>
  The loop ranges over runes; a rune that is not one of the accepted ASCII characters fails it, and any byte of 128 or
  more is part of such a rune.
\<close>

definition NormalizeUsername :: "(string \<Rightarrow> string) \<Rightarrow> string \<Rightarrow> auth_error + string" where
  "NormalizeUsername ul username =
     (let name = to_lower ul (trim_space username)
      in if length name < 3 \<or> 32 < length name then Inl UsernameLength
         else if list_all username_char name then Inr name
         else Inl UsernameCharacters)"

section \<open>Tokens\<close>

text \<open>\<open>random\<close> holds as many bytes as were asked for.\<close>

definition NewToken :: "string option \<Rightarrow> auth_error + string" where
  "NewToken random = (case random of None \<Rightarrow> Inl RandomFailed | Some bytes \<Rightarrow> Inr (base64url_encode bytes))"

definition TokenHash :: "crypto \<Rightarrow> string \<Rightarrow> string" where
  "TokenHash cr token = hex_encode (cr_sha256 cr token)"

definition NewID :: "string option \<Rightarrow> string \<Rightarrow> auth_error + string" where
  "NewID random prefix =
     (case NewToken random of Inl e \<Rightarrow> Inl e | Inr token \<Rightarrow> Inr (prefix @ ''_'' @ token))"

section \<open>MFA secrets\<close>

datatype protector_error = KeyLength

text \<open>A protector is its key; an AES key of 32 bytes is always accepted.\<close>

definition NewSecretProtector :: "string \<Rightarrow> protector_error + string" where
  "NewSecretProtector key = (if length key \<noteq> 32 then Inl KeyLength else Inr key)"

definition nonce_size :: nat where "nonce_size = 12"

definition Encrypt :: "crypto \<Rightarrow> string \<Rightarrow> string option \<Rightarrow> string \<Rightarrow> auth_error + string" where
  "Encrypt cr key random value =
     (case random of
        None \<Rightarrow> Inl RandomFailed
      | Some nonce \<Rightarrow> Inr (base64url_encode (nonce @ cr_seal cr key nonce value)))"

definition Decrypt :: "crypto \<Rightarrow> string \<Rightarrow> string \<Rightarrow> string option" where
  "Decrypt cr key value =
     (case base64url_decode value of
        None \<Rightarrow> None
      | Some sealed \<Rightarrow>
          if length sealed < nonce_size then None
          else cr_open cr key (take nonce_size sealed) (drop nonce_size sealed))"

definition NewTOTPSecret :: "string option \<Rightarrow> auth_error + string" where
  "NewTOTPSecret random = (case random of None \<Rightarrow> Inl RandomFailed | Some bytes \<Rightarrow> Inr (base32_encode bytes))"

section \<open>One-time codes\<close>

definition TOTPPeriod :: duration where "TOTPPeriod = 30 * go_second"
definition TOTPDigits :: nat where "TOTPDigits = 6"

fun big_endian :: "nat \<Rightarrow> nat \<Rightarrow> string" where
  "big_endian 0 n = []"
| "big_endian (Suc k) n = big_endian k (n div 256) @ [char_of (n mod 256)]"

definition big_endian_value :: "string \<Rightarrow> nat" where
  "big_endian_value s = foldl (\<lambda>n c. 256 * n + of_char c) 0 s"

definition zero_padded :: "nat \<Rightarrow> nat \<Rightarrow> string" where
  "zero_padded w n = replicate (w - length (nat_string n)) (CHR ''0'') @ nat_string n"

text \<open>The step of a time, and the code of a step (RFC 4226 dynamic truncation).\<close>

definition totp_step :: "time \<Rightarrow> int" where
  "totp_step now = go_div (time_unix now) (TOTPPeriod div go_second)"

definition totp_code :: "crypto \<Rightarrow> string \<Rightarrow> int \<Rightarrow> string" where
  "totp_code cr key step =
     (let digest = cr_hmac_sha1 cr key (big_endian 8 (unat (word_of_int step :: u64)));
          offset = of_char (last digest) mod 16;
          value = big_endian_value (take 4 (drop offset digest)) mod 2 ^ 31
      in zero_padded TOTPDigits (value mod 1000000))"

definition totp_key :: "(string \<Rightarrow> string) \<Rightarrow> string \<Rightarrow> string option" where
  "totp_key uu secret =
     (case base32_decode (to_upper uu (remove_char (CHR '' '') (trim_space secret))) of
        None \<Rightarrow> None | Some key \<Rightarrow> if key = [] then None else Some key)"

definition TOTPCode :: "crypto \<Rightarrow> (string \<Rightarrow> string) \<Rightarrow> string \<Rightarrow> time \<Rightarrow> string option" where
  "TOTPCode cr uu secret now = map_option (\<lambda>key. totp_code cr key (totp_step now)) (totp_key uu secret)"

text \<open>\<open>strconv.Atoi\<close> accepts it: an optional sign and digits (six characters always fit an \<open>int\<close>).\<close>

definition atoi_ok :: "string \<Rightarrow> bool" where
  "atoi_ok s =
     (let digits = (if s \<noteq> [] \<and> (hd s = CHR ''+'' \<or> hd s = CHR ''-'') then tl s else s)
      in digits \<noteq> [] \<and> list_all is_digit digits)"

text \<open>The loop over the offsets; the comparison takes constant time and is an equality.\<close>

fun totp_loop :: "crypto \<Rightarrow> (string \<Rightarrow> string) \<Rightarrow> string \<Rightarrow> string \<Rightarrow> time \<Rightarrow> int list \<Rightarrow> bool" where
  "totp_loop cr uu secret code now [] = False"
| "totp_loop cr uu secret code now (offset # offsets) =
     (if TOTPCode cr uu secret (now + offset * TOTPPeriod) = Some code then True
      else totp_loop cr uu secret code now offsets)"

definition ValidateTOTP :: "crypto \<Rightarrow> (string \<Rightarrow> string) \<Rightarrow> string \<Rightarrow> string \<Rightarrow> time \<Rightarrow> bool" where
  "ValidateTOTP cr uu secret input now =
     (let code = remove_char (CHR '' '') (trim_space input)
      in if length code \<noteq> TOTPDigits then False
         else if \<not> atoi_ok code then False
         else totp_loop cr uu secret code now [-1, 0, 1])"

section \<open>Recovery codes\<close>

definition recovery_raw :: "(string \<Rightarrow> string) \<Rightarrow> string \<Rightarrow> string" where
  "recovery_raw uu bytes =
     to_upper uu (remove_char (CHR ''_'') (remove_char (CHR ''-'') (base64url_encode bytes)))"

definition recovery_format :: "string \<Rightarrow> string" where
  "recovery_format raw = take 4 raw @ ''-'' @ take 4 (drop 4 raw) @ ''-'' @ take 4 (drop 8 raw)"

text \<open>
  The loop draws nine bytes at a time until it has enough codes; \<open>draws\<close> is what the random source gives. \<open>None\<close> is a
  loop that is still waiting for more, \<open>Inl\<close> a failing source.
\<close>

fun recovery_loop :: "(string \<Rightarrow> string) \<Rightarrow> nat \<Rightarrow> string option list \<Rightarrow> string list \<Rightarrow> (auth_error + string list) option" where
  "recovery_loop uu 0 draws codes = Some (Inr codes)"
| "recovery_loop uu (Suc n) [] codes = None"
| "recovery_loop uu (Suc n) (random # draws) codes =
     (case NewToken random of
        Inl e \<Rightarrow> Some (Inl e)
      | Inr token \<Rightarrow>
          let raw = to_upper uu (remove_char (CHR ''_'') (remove_char (CHR ''-'') token))
          in if length raw < 12 then recovery_loop uu (Suc n) draws codes
             else recovery_loop uu n draws (codes @ [recovery_format raw]))"

definition NewRecoveryCodes :: "(string \<Rightarrow> string) \<Rightarrow> nat \<Rightarrow> string option list \<Rightarrow> (auth_error + string list) option" where
  "NewRecoveryCodes uu n draws = recovery_loop uu n draws []"

definition NormalizeRecoveryCode :: "(string \<Rightarrow> string) \<Rightarrow> string \<Rightarrow> string" where
  "NormalizeRecoveryCode uu code =
     to_upper uu (remove_char (CHR '' '') (remove_char (CHR ''-'') (trim_space code)))"

definition RecoveryCodeHash :: "crypto \<Rightarrow> (string \<Rightarrow> string) \<Rightarrow> string \<Rightarrow> string" where
  "RecoveryCodeHash cr uu code = TokenHash cr (NormalizeRecoveryCode uu code)"

section \<open>Plain text\<close>

text \<open>Visible ASCII characters: no white space, one byte each.\<close>

definition plain :: "char \<Rightarrow> bool" where
  "plain c \<longleftrightarrow> 33 \<le> (of_char c :: nat) \<and> (of_char c :: nat) < 127"

lemma plain_not_space: "plain c \<Longrightarrow> c \<notin> space_leads \<and> c \<notin> space_tails"
  by (auto simp: plain_def space_leads_def space_tails_def space_seqs_def)

lemma trim_space_plain:
  assumes "\<forall>c \<in> set s. plain c"
  shows "trim_space s = s"
proof (rule trim_space_id)
  show "s = [] \<or> hd s \<notin> space_leads \<and> last s \<notin> space_tails"
    using assms plain_not_space by (cases "s = []") auto
qed

lemma is_ascii_plain: "\<forall>c \<in> set s. plain c \<Longrightarrow> is_ascii s"
  by (force simp: is_ascii_def plain_def)

lemma char_codes:
  "is_lower c \<longleftrightarrow> 97 \<le> (of_char c :: nat) \<and> (of_char c :: nat) \<le> 122"
  "is_upper c \<longleftrightarrow> 65 \<le> (of_char c :: nat) \<and> (of_char c :: nat) \<le> 90"
  "is_digit c \<longleftrightarrow> 48 \<le> (of_char c :: nat) \<and> (of_char c :: nat) \<le> 57"
  by (simp_all add: is_lower_def is_upper_def is_digit_def less_eq_char_def)

lemma remove_char_absent: "c \<notin> set s \<Longrightarrow> remove_char c s = s"
  by (auto simp: remove_char_def intro: filter_True)

lemma to_lower_plain: "\<forall>c \<in> set s. plain c \<and> \<not> is_upper c \<Longrightarrow> to_lower ul s = s"
  by (simp add: to_lower_def is_ascii_plain ascii_lower_def map_idI)

lemma to_upper_plain: "\<forall>c \<in> set s. plain c \<and> \<not> is_lower c \<Longrightarrow> to_upper uu s = s"
  by (simp add: to_upper_def is_ascii_plain ascii_upper_def map_idI)

section \<open>What accounts rely on\<close>

lemma username_char_plain: "username_char c \<Longrightarrow> plain c \<and> \<not> is_upper c"
  by (auto simp: username_char_def plain_def char_codes)

text \<open>
  A normalised user name is in normal form. It has 3 to 32 characters, all of them lower-case ASCII letters, digits,
  underscores and hyphens, and normalising it again changes nothing, so two spellings of a name that normalise alike
  always meet the same account.
\<close>

theorem NormalizeUsername_normal:
  assumes "NormalizeUsername ul username = Inr name"
  shows "3 \<le> length name \<and> length name \<le> 32 \<and> (\<forall>c \<in> set name. username_char c) \<and> NormalizeUsername ul' name = Inr name"
proof -
  have n: "3 \<le> length name" "length name \<le> 32" "\<forall>c \<in> set name. username_char c"
    using assms by (auto simp: NormalizeUsername_def Let_def list_all_iff split: if_splits)
  then have "\<forall>c \<in> set name. plain c \<and> \<not> is_upper c" using username_char_plain by blast
  then have "trim_space name = name" "to_lower ul' name = name" using trim_space_plain to_lower_plain by blast+
  with n have "NormalizeUsername ul' name = Inr name" by (simp add: NormalizeUsername_def Let_def list_all_iff)
  with n show ?thesis by blast
qed

text \<open>
  What passwords the code can store. A password is hashed exactly when it has at least 12 bytes and bcrypt accepts
  it, and then it checks against its hash; but bcrypt refuses more than 72 bytes, so every password of 73 to 128 bytes
  passes \<open>ValidatePassword\<close>, whose limit is 128, and can still not be set.
\<close>

theorem password_gap:
  assumes "crypto_ok cr"
  shows "(HashPassword cr salt password = Inr h \<longrightarrow> CheckPassword cr h password \<and> 12 \<le> length password \<and> length password \<le> 72)
    \<and> (72 < length password \<and> length password \<le> 128 \<longrightarrow>
         ValidatePassword password = None \<and> HashPassword cr salt password = Inl HashFailed)"
proof -
  have long: "cr_bcrypt cr salt password = None" if "72 < length password"
    using assms that by (simp add: crypto_ok_def)
  have "\<And>h. cr_bcrypt cr salt password = Some h \<Longrightarrow> cr_bcrypt_ok cr h password"
    using assms by (simp add: crypto_ok_def)
  moreover have "length password \<le> 72" if "cr_bcrypt cr salt password = Some h" for h
    using long that by (cases "72 < length password") auto
  ultimately show ?thesis
    using long by (auto simp: HashPassword_def ValidatePassword_def CheckPassword_def MinPasswordLength_def MaxPasswordLength_def
      split: option.splits)
qed

text \<open>An encrypted MFA secret decrypts to itself, with the key it was encrypted with.\<close>

theorem mfa_secret_roundtrip:
  assumes "crypto_ok cr" "length nonce = 12" "Encrypt cr key (Some nonce) value = Inr sealed"
  shows "Decrypt cr key sealed = Some value"
proof -
  have "sealed = base64url_encode (nonce @ cr_seal cr key nonce value)" using assms(3) by (simp add: Encrypt_def)
  then have "Decrypt cr key sealed = cr_open cr key nonce (cr_seal cr key nonce value)"
    using assms(2) by (simp add: Decrypt_def base64url_roundtrip nonce_size_def)
  with assms(1) show ?thesis by (simp add: crypto_ok_def)
qed

section \<open>What second factors rely on\<close>

lemma length_nat_string: "n < 10 ^ Suc k \<Longrightarrow> length (nat_string n) \<le> Suc k"
proof (induction k arbitrary: n)
  case 0
  then show ?case by (simp add: nat_string.simps)
next
  case (Suc k)
  then have "n div 10 < 10 ^ Suc k" by (simp add: less_mult_imp_div_less)
  from Suc.IH [OF this] show ?case by (subst nat_string.simps) simp
qed

lemma zero_padded_six:
  assumes "n < 1000000"
  shows "length (zero_padded 6 n) = 6" "\<forall>c \<in> set (zero_padded 6 n). is_digit c"
proof -
  have "length (nat_string n) \<le> 6" using length_nat_string [of n 5] assms by simp
  then show "length (zero_padded 6 n) = 6" by (simp add: zero_padded_def)
  show "\<forall>c \<in> set (zero_padded 6 n). is_digit c"
    using nat_string_digits by (auto simp: zero_padded_def char_codes)
qed

lemma totp_code_digits: "length (totp_code cr key k) = 6 \<and> (\<forall>c \<in> set (totp_code cr key k). is_digit c)"
  unfolding totp_code_def Let_def TOTPDigits_def
  using zero_padded_six [of "big_endian_value (take 4 (drop (of_char (last (cr_hmac_sha1 cr key (big_endian 8 (unat (word_of_int k :: u64))))) mod 16)
      (cr_hmac_sha1 cr key (big_endian 8 (unat (word_of_int k :: u64)))))) mod 2 ^ 31 mod 1000000"] by simp

lemma digits_plain: "\<forall>c \<in> set s. is_digit c \<Longrightarrow> \<forall>c \<in> set s. plain c \<and> c \<noteq> CHR '' ''"
  by (auto simp: plain_def char_codes)

lemma digits_atoi:
  assumes "\<forall>c \<in> set s. is_digit c" "s \<noteq> []"
  shows "atoi_ok s"
proof -
  have "is_digit (hd s)" using assms by simp
  then have "hd s \<noteq> CHR ''+''" "hd s \<noteq> CHR ''-''" by (auto simp: char_codes)
  then show ?thesis using assms by (simp add: atoi_ok_def list_all_iff Let_def)
qed

lemma totp_loop_iff: "totp_loop cr uu secret code now offsets \<longleftrightarrow> (\<exists>k \<in> set offsets. TOTPCode cr uu secret (now + k * TOTPPeriod) = Some code)"
  by (induction offsets) auto

lemma time_unix_shift: "time_unix (now + j * TOTPPeriod) = time_unix now + j * 30"
proof -
  have "(now + j * (30 * go_second)) div go_second = now div go_second + j * 30"
    using div_mult_self1 [of go_second now "j * 30"] by (simp add: algebra_simps)
  then show ?thesis by (simp add: time_unix_def TOTPPeriod_def)
qed

lemma totp_step_shift: "30 \<le> time_unix now \<Longrightarrow> j \<in> {-1, 0, 1} \<Longrightarrow> totp_step (now + j * TOTPPeriod) = totp_step now + j"
proof -
  assume a: "30 \<le> time_unix now" "j \<in> {-1, 0, 1}"
  then have "0 \<le> time_unix now + j * 30" by auto
  then have "totp_step (now + j * TOTPPeriod) = (time_unix now + j * 30) div 30" "totp_step now = time_unix now div 30"
    using a(1) by (simp_all add: totp_step_def time_unix_shift go_div_nonneg TOTPPeriod_def [THEN arg_cong [where f = "\<lambda>d. d div go_second"], simplified])
  then show ?thesis by simp
qed

text \<open>The codes a secret accepts at a time: those of the step of the time and of its two neighbours.\<close>

definition accepted_codes :: "crypto \<Rightarrow> (string \<Rightarrow> string) \<Rightarrow> string \<Rightarrow> time \<Rightarrow> string set" where
  "accepted_codes cr uu secret now =
     (case totp_key uu secret of None \<Rightarrow> {} | Some key \<Rightarrow> (\<lambda>j. totp_code cr key (totp_step now + j)) ` {-1, 0, 1})"

lemma ValidateTOTP_accepts:
  assumes "30 \<le> time_unix now"
  shows "ValidateTOTP cr uu secret input now \<longleftrightarrow> remove_char (CHR '' '') (trim_space input) \<in> accepted_codes cr uu secret now"
proof -
  let ?code = "remove_char (CHR '' '') (trim_space input)"
  have loop: "totp_loop cr uu secret ?code now [-1, 0, 1] \<longleftrightarrow> ?code \<in> accepted_codes cr uu secret now"
  proof (cases "totp_key uu secret")
    case (Some key)
    have "totp_step (now + k * TOTPPeriod) = totp_step now + k" if "k \<in> set [-1, 0, 1]" for k
      using totp_step_shift [OF assms, of k] that by simp
    then have "(\<exists>k \<in> set [-1, 0, 1]. TOTPCode cr uu secret (now + k * TOTPPeriod) = Some ?code)
        \<longleftrightarrow> (\<exists>k \<in> set [-1, 0, 1]. ?code = totp_code cr key (totp_step now + k))"
      by (intro bex_cong) (auto simp: TOTPCode_def Some)
    then show ?thesis unfolding totp_loop_iff by (simp add: accepted_codes_def Some image_iff)
  qed (simp add: totp_loop_iff accepted_codes_def TOTPCode_def)
  have "length ?code = 6 \<and> atoi_ok ?code" if "?code \<in> accepted_codes cr uu secret now"
  proof -
    from that obtain key where "?code \<in> (\<lambda>j. totp_code cr key (totp_step now + j)) ` {-1, 0, 1}"
      by (cases "totp_key uu secret") (simp_all only: accepted_codes_def option.case empty_iff)
    then obtain k where "?code = totp_code cr key k" by blast
    moreover have "totp_code cr key k \<noteq> []" using totp_code_digits [of cr key k] by (cases "totp_code cr key k") simp_all
    ultimately show ?thesis using totp_code_digits [of cr key k] digits_atoi [of "totp_code cr key k"] by simp
  qed
  with loop show ?thesis by (auto simp: ValidateTOTP_def TOTPDigits_def Let_def)
qed

lemma base32_chars_plain: "c \<in> set base32_alphabet \<Longrightarrow> plain c \<and> \<not> is_lower c \<and> c \<noteq> CHR '' ''"
  by (auto simp: base32_alphabet_def plain_def char_codes)

lemma totp_key_of_secret:
  assumes "NewTOTPSecret (Some bytes) = Inr secret" "bytes \<noteq> []"
  shows "totp_key uu secret = Some bytes"
proof -
  have s: "secret = base32_encode bytes" using assms(1) by (simp add: NewTOTPSecret_def)
  have c: "\<forall>c \<in> set secret. plain c \<and> \<not> is_lower c \<and> c \<noteq> CHR '' ''"
  proof
    fix c assume "c \<in> set secret"
    then have "c \<in> set base32_alphabet" unfolding s by (rule base32_encode_chars)
    then show "plain c \<and> \<not> is_lower c \<and> c \<noteq> CHR '' ''" by (rule base32_chars_plain)
  qed
  have "trim_space secret = secret" by (rule trim_space_plain) (use c in blast)
  moreover have "remove_char (CHR '' '') secret = secret" by (rule remove_char_absent) (use c in blast)
  moreover have "to_upper uu secret = secret" by (rule to_upper_plain) (use c in blast)
  ultimately show ?thesis using assms(2) s by (simp add: totp_key_def base32_roundtrip)
qed

text \<open>
  C40: one-time codes. From the first minute of 1970 on, \<open>ValidateTOTP\<close> accepts exactly the codes of the current
  30-second step and of the steps before and after it, with blanks ignored; its own length and number checks exclude none
  of them. In particular a code that an authenticator computes from a fresh secret is accepted at every time whose step is
  at most one away.
\<close>

theorem ValidateTOTP_window:
  assumes "30 \<le> time_unix now"
  shows "(ValidateTOTP cr uu secret input now \<longleftrightarrow>
      (\<exists>key. totp_key uu secret = Some key \<and> (\<exists>j \<in> {-1, 0, 1}. remove_char (CHR '' '') (trim_space input) = totp_code cr key (totp_step now + j))))
    \<and> (NewTOTPSecret (Some bytes) = Inr secret \<and> bytes \<noteq> [] \<and> \<bar>totp_step shown - totp_step now\<bar> \<le> 1 \<longrightarrow>
      (\<exists>code. TOTPCode cr uu secret shown = Some code \<and> ValidateTOTP cr uu secret code now))"
proof -
  have iff: "ValidateTOTP cr uu secret i now \<longleftrightarrow>
      (\<exists>key. totp_key uu secret = Some key \<and> (\<exists>j \<in> {-1, 0, 1}. remove_char (CHR '' '') (trim_space i) = totp_code cr key (totp_step now + j)))" for i
    unfolding ValidateTOTP_accepts [OF assms] accepted_codes_def by (cases "totp_key uu secret") (auto simp: image_iff)
  have "\<exists>code. TOTPCode cr uu secret shown = Some code \<and> ValidateTOTP cr uu secret code now"
    if a: "NewTOTPSecret (Some bytes) = Inr secret" "bytes \<noteq> []" "\<bar>totp_step shown - totp_step now\<bar> \<le> 1"
  proof -
    have key: "totp_key uu secret = Some bytes" by (rule totp_key_of_secret [OF a(1,2)])
    let ?code = "totp_code cr bytes (totp_step shown)"
    have c: "\<forall>c \<in> set ?code. plain c \<and> c \<noteq> CHR '' ''" using totp_code_digits by (intro digits_plain) blast
    have "trim_space ?code = ?code" by (rule trim_space_plain) (use c in blast)
    moreover have "remove_char (CHR '' '') ?code = ?code" by (rule remove_char_absent) (use c in blast)
    moreover have "totp_step shown - totp_step now \<in> {-1, 0, 1}" using a(3) by auto
    moreover have "totp_step shown = totp_step now + (totp_step shown - totp_step now)" by simp
    ultimately have "ValidateTOTP cr uu secret ?code now" unfolding iff using key by metis
    then show ?thesis using key by (simp add: TOTPCode_def)
  qed
  with iff show ?thesis by blast
qed

section \<open>What recovery relies on\<close>

text \<open>A recovery code: three groups of four upper-case letters and digits.\<close>

definition recovery_char :: "char \<Rightarrow> bool" where
  "recovery_char c \<longleftrightarrow> is_upper c \<or> is_digit c"

definition recovery_shape :: "string \<Rightarrow> bool" where
  "recovery_shape code \<longleftrightarrow> (\<exists>a b c. code = a @ ''-'' @ b @ ''-'' @ c \<and> length a = 4 \<and> length b = 4 \<and> length c = 4
     \<and> (\<forall>x \<in> set (a @ b @ c). recovery_char x))"

lemma base64url_char: "c \<in> set base64url_alphabet \<Longrightarrow> is_upper c \<or> is_lower c \<or> is_digit c \<or> c = CHR ''-'' \<or> c = CHR ''_''"
proof -
  have "list_all (\<lambda>c. is_upper c \<or> is_lower c \<or> is_digit c \<or> c = CHR ''-'' \<or> c = CHR ''_'') base64url_alphabet"
    by code_simp
  then show "c \<in> set base64url_alphabet \<Longrightarrow> is_upper c \<or> is_lower c \<or> is_digit c \<or> c = CHR ''-'' \<or> c = CHR ''_''"
    by (simp add: list_all_iff)
qed

lemma base64url_encode_chars: "c \<in> set (base64url_encode s) \<Longrightarrow> c \<in> set base64url_alphabet"
proof -
  assume "c \<in> set (base64url_encode s)"
  then obtain g where g: "g \<in> set (groups 6 (concat (map (\<lambda>c. bits_of 8 (of_char c)) s)))" "c = base64url_alphabet ! val_of g"
    by (auto simp: base64url_encode_def encode_digits_def)
  have "val_of g < length base64url_alphabet" using val_of_less [of g] groups_length [OF g(1)] by (simp add: base64url_alphabet_def)
  with g(2) show ?thesis by simp
qed

lemma ascii_upper_letter: "is_upper c \<or> is_lower c \<or> is_digit c \<Longrightarrow> recovery_char (ascii_upper c)"
proof (cases "is_lower c")
  case True
  then have "97 \<le> (of_char c :: nat)" "(of_char c :: nat) \<le> 122" by (simp_all add: char_codes)
  then have "65 \<le> (of_char c :: nat) - 32" "(of_char c :: nat) - 32 \<le> 90" by linarith+
  moreover have "(of_char (ascii_upper c) :: nat) = of_char c - 32"
  proof -
    have "(of_char c :: nat) - 32 < 256" using nat_of_char_less_256 [of c] by linarith
    then show ?thesis using True by (simp add: ascii_upper_def)
  qed
  ultimately have "is_upper (ascii_upper c)" unfolding char_codes by metis
  then show ?thesis by (simp add: recovery_char_def)
qed (simp_all add: recovery_char_def ascii_upper_def)

lemma recovery_raw_chars: "\<forall>c \<in> set (recovery_raw uu bytes). recovery_char c"
proof -
  let ?s = "remove_char (CHR ''_'') (remove_char (CHR ''-'') (base64url_encode bytes))"
  have c: "\<forall>c \<in> set ?s. is_upper c \<or> is_lower c \<or> is_digit c"
    using base64url_char base64url_encode_chars by (fastforce simp: remove_char_def)
  then have "\<forall>c \<in> set ?s. plain c" by (auto simp: plain_def char_codes)
  then have "recovery_raw uu bytes = map ascii_upper ?s" by (simp add: recovery_raw_def to_upper_def is_ascii_plain)
  with c ascii_upper_letter show ?thesis by auto
qed

lemma recovery_format_shape:
  assumes "\<forall>c \<in> set raw. recovery_char c" "12 \<le> length raw"
  shows "recovery_shape (recovery_format raw)"
  unfolding recovery_shape_def
proof (intro exI conjI)
  show "recovery_format raw = take 4 raw @ ''-'' @ take 4 (drop 4 raw) @ ''-'' @ take 4 (drop 8 raw)"
    by (rule recovery_format_def)
  show "\<forall>x \<in> set (take 4 raw @ take 4 (drop 4 raw) @ take 4 (drop 8 raw)). recovery_char x"
    using assms(1) by (auto dest: in_set_takeD in_set_dropD)
qed (use assms(2) in auto)

lemma recovery_char_plain: "recovery_char c \<Longrightarrow> plain c \<and> \<not> is_lower c \<and> c \<noteq> CHR '' '' \<and> c \<noteq> CHR ''-''"
  by (auto simp: recovery_char_def plain_def char_codes)

lemma recovery_shape_normal:
  assumes "recovery_shape code"
  shows "NormalizeRecoveryCode uu code = remove_char (CHR ''-'') code"
proof -
  obtain a b c where s: "code = a @ ''-'' @ b @ ''-'' @ c" "\<forall>x \<in> set (a @ b @ c). recovery_char x"
    using assms unfolding recovery_shape_def by blast
  have "plain (CHR ''-'')" by (simp add: plain_def)
  then have "\<forall>x \<in> set code. plain x" using s recovery_char_plain by auto
  then have t: "trim_space code = code" by (rule trim_space_plain)
  have r: "\<forall>x \<in> set (remove_char (CHR ''-'') code). recovery_char x"
    using s by (auto simp: remove_char_def)
  have "remove_char (CHR '' '') (remove_char (CHR ''-'') code) = remove_char (CHR ''-'') code"
    by (rule remove_char_absent) (use r recovery_char_plain in blast)
  moreover have "to_upper uu (remove_char (CHR ''-'') code) = remove_char (CHR ''-'') code"
    by (rule to_upper_plain) (use r recovery_char_plain in blast)
  ultimately show ?thesis by (simp add: NormalizeRecoveryCode_def t)
qed

lemma recovery_loop_shape:
  "recovery_loop uu n draws codes = Some (Inr result) \<Longrightarrow> (\<forall>code \<in> set codes. recovery_shape code) \<Longrightarrow>
     length result = length codes + n \<and> (\<forall>code \<in> set result. recovery_shape code)"
proof (induction uu n draws codes rule: recovery_loop.induct)
  case (3 uu n random draws codes)
  show ?case
  proof (cases random)
    case None
    with "3.prems"(1) show ?thesis by (simp add: NewToken_def)
  next
    case (Some bytes)
    then have tok: "NewToken random = Inr (base64url_encode bytes)" by (simp add: NewToken_def)
    have raw: "to_upper uu (remove_char (CHR ''_'') (remove_char (CHR ''-'') (base64url_encode bytes))) = recovery_raw uu bytes"
      by (simp add: recovery_raw_def)
    show ?thesis
    proof (cases "length (recovery_raw uu bytes) < 12")
      case True
      then have "recovery_loop uu (Suc n) draws codes = Some (Inr result)"
        using "3.prems"(1) by (simp add: tok raw Let_def)
      with "3.IH"(1) [OF tok refl] True "3.prems"(2) show ?thesis unfolding raw by blast
    next
      case False
      then have "recovery_loop uu n draws (codes @ [recovery_format (recovery_raw uu bytes)]) = Some (Inr result)"
        using "3.prems"(1) by (simp add: tok raw Let_def)
      moreover have "\<forall>code \<in> set (codes @ [recovery_format (recovery_raw uu bytes)]). recovery_shape code"
        using "3.prems"(2) recovery_format_shape [OF recovery_raw_chars] False by auto
      ultimately have "length result = length (codes @ [recovery_format (recovery_raw uu bytes)]) + n \<and> (\<forall>code \<in> set result. recovery_shape code)"
        using "3.IH"(2) [OF tok refl] False unfolding raw by blast
      then show ?thesis by simp
    qed
  qed
qed simp_all

text \<open>
  Recovery codes have the form their hashes are made for. \<open>NewRecoveryCodes\<close> returns as many codes as asked for,
  each three groups of four upper-case letters and digits; typing such a code with or without its hyphens gives the same
  hash, that of its twelve characters.
\<close>

theorem recovery_codes_formed:
  assumes "NewRecoveryCodes uu n draws = Some (Inr codes)"
  shows "length codes = n \<and> (\<forall>code \<in> set codes. recovery_shape code
    \<and> RecoveryCodeHash cr uu code = TokenHash cr (remove_char (CHR ''-'') code)
    \<and> RecoveryCodeHash cr uu (remove_char (CHR ''-'') code) = RecoveryCodeHash cr uu code)"
proof -
  have shape: "length codes = n" "\<forall>code \<in> set codes. recovery_shape code"
    using recovery_loop_shape [of uu n draws "[]" codes] assms by (simp_all add: NewRecoveryCodes_def)
  have "NormalizeRecoveryCode uu (remove_char (CHR ''-'') code) = NormalizeRecoveryCode uu code" if c: "recovery_shape code" for code
  proof -
    obtain a b d where s: "code = a @ ''-'' @ b @ ''-'' @ d" "\<forall>x \<in> set (a @ b @ d). recovery_char x"
      using c unfolding recovery_shape_def by blast
    let ?r = "remove_char (CHR ''-'') code"
    have r: "\<forall>x \<in> set ?r. plain x \<and> \<not> is_lower x \<and> x \<noteq> CHR '' '' \<and> x \<noteq> CHR ''-''"
      using s recovery_char_plain by (auto simp: remove_char_def)
    have "trim_space ?r = ?r" by (rule trim_space_plain) (use r in blast)
    moreover have "remove_char (CHR ''-'') ?r = ?r" by (rule remove_char_absent) (use r in blast)
    moreover have "remove_char (CHR '' '') ?r = ?r" by (rule remove_char_absent) (use r in blast)
    moreover have "to_upper uu ?r = ?r" by (rule to_upper_plain) (use r in blast)
    ultimately show ?thesis by (simp add: NormalizeRecoveryCode_def recovery_shape_normal [OF c, unfolded NormalizeRecoveryCode_def])
  qed
  with shape recovery_shape_normal show ?thesis by (simp add: RecoveryCodeHash_def)
qed

section \<open>Examples\<close>

text \<open>Primitives that satisfy what is relied on (they are no cryptography).\<close>

definition example_crypto :: crypto where
  "example_crypto = \<lparr>cr_bcrypt = \<lambda>salt p. if 72 < length p then None else Some (''h'' @ p), cr_bcrypt_ok = \<lambda>h p. h = ''h'' @ p,
     cr_sha256 = \<lambda>s. replicate 32 (CHR ''x''), cr_hmac_sha1 = \<lambda>key m. replicate 20 (CHR 0x11),
     cr_seal = \<lambda>key nonce p. p, cr_open = \<lambda>key nonce c. Some c\<rparr>"

lemma example_crypto_ok: "crypto_ok example_crypto"
  by (simp add: crypto_ok_def example_crypto_def)

theorem NormalizeUsername_normal_witness:
  "NormalizeUsername id '' Root_1 '' = Inr ''root_1'' \<and> NormalizeUsername id ''root_1'' = Inr ''root_1''"
proof -
  have "NormalizeUsername id '' Root_1 '' = Inr ''root_1''" by code_simp
  with NormalizeUsername_normal [OF this, of id] show ?thesis by blast
qed

theorem password_gap_witness:
  "ValidatePassword (replicate 100 (CHR ''a'')) = None
    \<and> HashPassword example_crypto [] (replicate 100 (CHR ''a'')) = Inl HashFailed
    \<and> (\<exists>h. HashPassword example_crypto [] ''correct horse'' = Inr h \<and> CheckPassword example_crypto h ''correct horse'')"
proof -
  have "\<exists>h. HashPassword example_crypto [] ''correct horse'' = Inr h"
    by (simp add: HashPassword_def ValidatePassword_def example_crypto_def MinPasswordLength_def MaxPasswordLength_def)
  then show ?thesis
    using password_gap [OF example_crypto_ok, of "[]" "replicate 100 (CHR ''a'')"]
      password_gap [OF example_crypto_ok, of "[]" "''correct horse''"] by auto
qed

theorem mfa_secret_roundtrip_witness:
  "\<exists>sealed. Encrypt example_crypto ''k'' (Some (replicate 12 (CHR ''n''))) ''JBSW'' = Inr sealed
     \<and> Decrypt example_crypto ''k'' sealed = Some ''JBSW''"
proof -
  obtain sealed where s: "Encrypt example_crypto ''k'' (Some (replicate 12 (CHR ''n''))) ''JBSW'' = Inr sealed"
    by (simp add: Encrypt_def)
  with mfa_secret_roundtrip [OF example_crypto_ok _ s] show ?thesis by simp
qed

theorem ValidateTOTP_window_witness:
  "\<exists>secret code. NewTOTPSecret (Some ''12345678901234567890'') = Inr secret
     \<and> TOTPCode example_crypto id secret (unix_time 59) = Some code \<and> ValidateTOTP example_crypto id secret code (unix_time 60)"
proof -
  obtain secret where s: "NewTOTPSecret (Some ''12345678901234567890'') = Inr secret" by (simp add: NewTOTPSecret_def)
  have "\<bar>totp_step (unix_time 59) - totp_step (unix_time 60)\<bar> \<le> 1"
    by (simp add: totp_step_def TOTPPeriod_def go_div_nonneg)
  with ValidateTOTP_window [of "unix_time 60" example_crypto id secret "[]" "''12345678901234567890''" "unix_time 59"] s
  show ?thesis by auto
qed

lemma val_of_zeros: "\<forall>b \<in> set bs. \<not> b \<Longrightarrow> val_of bs = 0"
  by (induction bs rule: rev_induct) auto

lemma bits_of_zero: "b \<in> set (bits_of k 0) \<Longrightarrow> \<not> b"
  by (induction k) auto

lemma base64url_zeros: "base64url_encode (replicate n (CHR 0x00)) = replicate ((8 * n + 5) div 6) (CHR ''A'')"
proof (rule replicate_eqI)
  let ?bits = "concat (map (\<lambda>c. bits_of 8 (of_char c)) (replicate n (CHR 0x00)))"
  show "length (base64url_encode (replicate n (CHR 0x00))) = (8 * n + 5) div 6"
    by (simp add: base64url_encode_def length_encode_digits)
  fix c assume "c \<in> set (base64url_encode (replicate n (CHR 0x00)))"
  then obtain g where g: "g \<in> set (groups 6 ?bits)" "c = base64url_alphabet ! val_of g"
    by (auto simp: base64url_encode_def encode_digits_def)
  obtain pad where "concat (groups 6 ?bits) = ?bits @ pad" "\<forall>b \<in> set pad. \<not> b" using groups_concat [of 6 ?bits] by auto
  moreover have "\<forall>b \<in> set ?bits. \<not> b" using bits_of_zero by auto
  ultimately have "\<forall>b \<in> set (concat (groups 6 ?bits)). \<not> b" by auto
  then have "\<forall>b \<in> set g. \<not> b" using g(1) by auto
  with g(2) show "c = CHR ''A''" by (simp add: val_of_zeros base64url_alphabet_def)
qed

theorem recovery_codes_formed_witness:
  "\<exists>codes. NewRecoveryCodes id 1 [Some (replicate 9 (CHR 0x00))] = Some (Inr codes) \<and> length codes = 1
     \<and> (\<forall>code \<in> set codes. recovery_shape code)"
proof -
  have "replicate 12 (CHR ''A'') = ''AAAAAAAAAAAA''" by code_simp
  then have raw: "base64url_encode (replicate 9 (CHR 0x00)) = ''AAAAAAAAAAAA''"
    using base64url_zeros [of 9] by simp
  have "to_upper id (remove_char (CHR ''_'') (remove_char (CHR ''-'') ''AAAAAAAAAAAA'')) = ''AAAAAAAAAAAA''"
    by code_simp
  then have "NewRecoveryCodes id 1 [Some (replicate 9 (CHR 0x00))] = Some (Inr [''AAAA-AAAA-AAAA''])"
    using raw by (simp add: NewRecoveryCodes_def NewToken_def Let_def recovery_format_def)
  with recovery_codes_formed [OF this] show ?thesis by auto
qed

end
