(* ===== verification/Http.thy ===== *)
theory Http
  imports StoreMachine Auth
begin

text \<open>
  The HTTP side of the control server, \<open>internal/control/server.go\<close>: requests and responses as its handlers see them,
  the helpers that read a request and write an error, and handlers as programs. The server runs every request in a
  goroutine of its own, so a handler is not one step: it is a program whose steps are the reading of the clock, a draw of
  random bytes, a critical section of the login table or one call of the store, and the steps of different requests
  interleave.
\<close>

section \<open>Requests and responses\<close>

text \<open>
  A header that is absent is the empty string, as \<open>Header.Get\<close> returns it; \<open>wr_cookie\<close> is the session cookie, if any.
\<close>

record web_request =
  wr_method :: string
  wr_path :: string
  wr_query :: "(string \<times> string) list"
  wr_content_type :: string
  wr_cookie :: "string option"
  wr_authorization :: string
  wr_node_header :: string
  wr_forwarded_proto :: string
  wr_tls :: bool
  wr_remote_addr :: string
  wr_body :: string

record public_user =
  pu_id :: string
  pu_name :: string
  pu_role :: role
  pu_disabled :: bool
  pu_mfa :: bool
  pu_created_at :: time

definition publicUser :: "user \<Rightarrow> public_user" where
  "publicUser u = \<lparr>pu_id = user_id u, pu_name = user_name u, pu_role = user_role u, pu_disabled = user_disabled u,
     pu_mfa = user_mfa_enabled u, pu_created_at = user_created_at u\<rparr>"

record node_view =
  nv_node :: node
  nv_rules :: "forward_rule list"
  nv_from :: time
  nv_to :: time
  nv_interval_seconds :: int
  nv_upload :: u64
  nv_download :: u64
  nv_points :: "metric_point list"

record summary =
  sum_online :: nat
  sum_offline :: nat
  sum_healthy :: nat
  sum_degraded :: nat
  sum_stopped :: nat
  sum_connections :: u64
  sum_upload :: u64
  sum_download :: u64

record traffic_view =
  tv_from :: time
  tv_to :: time
  tv_interval_seconds :: int
  tv_upload :: u64
  tv_download :: u64
  tv_points :: "traffic_point list"

record settings_view =
  sv_version :: string
  sv_started_at :: time
  sv_server_time :: time
  sv_uptime_seconds :: int
  sv_secure_cookies :: bool
  sv_session_seconds :: int
  sv_storage_mode :: string
  sv_https :: bool
  sv_administrators :: nat
  sv_checks :: "(string \<times> bool) list"
  sv_ready :: bool

text \<open>The values a response body is encoded from; the messages that go with an error code are left out.\<close>

datatype body =
    NoBody
  | ErrorBody string
  | RedirectBody string
  | SetupRequired bool
  | HealthBody string string time time
  | UserBody public_user
  | UserItems "public_user list"
  | MFARequired
  | LoggedIn public_user time
  | MFASecret string string
  | RecoveryCodes "string list"
  | MFADisabled
  | TokenBody string string string time
  | Enrolled node string
  | HeartbeatBody time u64 bool int
  | ConfigBody u64 "forward_rule list"
  | NodeItems "node list"
  | NodeBody node_view
  | RuleItems "forward_rule list"
  | RuleBody forward_rule
  | SummaryBody summary
  | TrafficBody traffic_view
  | AuditItems "audit_event list" "time option"
  | LogItems "agent_log list" "time option"
  | ConnectionItems "active_connection list" time
  | SettingsBody settings_view

record cookie =
  ck_value :: string
  ck_expires :: "time option"
  ck_max_age :: int
  ck_secure :: bool

record web_response =
  wp_status :: nat
  wp_headers :: "(string, string) gomap"
  wp_cookie :: "cookie option"
  wp_body :: body

definition writeJSON :: "nat \<Rightarrow> body \<Rightarrow> web_response" where
  "writeJSON status b =
     \<lparr>wp_status = status, wp_headers = [(''Content-Type'', ''application/json; charset=utf-8'')], wp_cookie = None, wp_body = b\<rparr>"

definition writeError :: "nat \<Rightarrow> string \<Rightarrow> web_response" where
  "writeError status code = writeJSON status (ErrorBody code)"

definition with_header :: "string \<Rightarrow> string \<Rightarrow> web_response \<Rightarrow> web_response" where
  "with_header name value r = r\<lparr>wp_headers := gput name value (wp_headers r)\<rparr>"

definition methodNotAllowed :: "string \<Rightarrow> web_response" where
  "methodNotAllowed allowed = with_header ''Allow'' allowed (writeError 405 ''method_not_allowed'')"

text \<open>\<open>response.WriteHeader(http.StatusNoContent)\<close>.\<close>

definition no_content :: web_response where
  "no_content = \<lparr>wp_status = 204, wp_headers = [], wp_cookie = None, wp_body = NoBody\<rparr>"

section \<open>Reading a request\<close>

definition remoteIP :: "web_request \<Rightarrow> string" where
  "remoteIP req = (case split_host_port (wr_remote_addr req) of Some (host, port) \<Rightarrow> host | None \<Rightarrow> wr_remote_addr req)"

abbreviation "bearer \<equiv> ''Bearer ''"

definition sessionToken :: "web_request \<Rightarrow> string" where
  "sessionToken req =
     (case wr_cookie req of
        Some value \<Rightarrow> value
      | None \<Rightarrow> if has_prefix (wr_authorization req) bearer then trim_space (trim_prefix (wr_authorization req) bearer) else [])"

definition requireAgentCredentials :: "web_request \<Rightarrow> web_response + string \<times> string" where
  "requireAgentCredentials req =
     (let nid = trim_space (wr_node_header req);
          authorization = wr_authorization req
      in if nid = [] \<or> \<not> has_prefix authorization bearer then Inl (writeError 401 ''agent_authentication_required'')
         else let credential = trim_space (trim_prefix authorization bearer)
              in if credential = [] \<or> 128 < length nid \<or> 256 < length credential
                 then Inl (writeError 401 ''invalid_agent_credentials'')
                 else Inr (nid, credential))"

text \<open>\<open>request.URL.Query().Get(name)\<close>.\<close>

definition query_value :: "web_request \<Rightarrow> string \<Rightarrow> string" where
  "query_value req name = (case map_of (wr_query req) name of Some v \<Rightarrow> v | None \<Rightarrow> [])"

text \<open>
  \<open>decode\<close> stands for \<open>encoding/json\<close>: it returns a value when the text is one JSON value of the wanted shape without
  unknown fields and nothing follows it. A body over one megabyte fails to be read to its end.
\<close>

definition body_bytes :: nat where
  "body_bytes = 1048576"

definition decodeJSON :: "(string \<Rightarrow> 'a option) \<Rightarrow> web_request \<Rightarrow> web_response + 'a" where
  "decodeJSON decode req =
     (if \<not> has_prefix (wr_content_type req) ''application/json'' then Inl (writeError 415 ''invalid_content_type'')
      else if body_bytes < length (wr_body req) then Inl (writeError 400 ''invalid_json'')
      else case decode (wr_body req) of None \<Rightarrow> Inl (writeError 400 ''invalid_json'') | Some x \<Rightarrow> Inr x)"

text \<open>\<open>strconv.Atoi\<close>: an optional sign and digits, within 64 bits.\<close>

definition atoi :: "string \<Rightarrow> int option" where
  "atoi s =
     (let negative = has_prefix s ''-'';
          digits = (if negative \<or> has_prefix s ''+'' then tl s else s);
          value = (if negative then - int (string_nat digits) else int (string_nat digits))
      in if digits \<noteq> [] \<and> list_all is_digit digits \<and> - (2 ^ 63) \<le> value \<and> value < 2 ^ 63 then Some value else None)"

text \<open>\<open>url.QueryEscape\<close>.\<close>

definition unreserved :: "char \<Rightarrow> bool" where
  "unreserved c \<longleftrightarrow> is_lower c \<or> is_upper c \<or> is_digit c \<or> c \<in> set ''-_.~''"

definition upper_hex :: "nat \<Rightarrow> char" where
  "upper_hex d = (if d < 10 then digit_char d else char_of (d + 55))"

definition query_escape :: "string \<Rightarrow> string" where
  "query_escape s = concat (map (\<lambda>c. if c = CHR '' '' then ''+'' else if unreserved c then [c]
     else ''%'' @ [upper_hex (of_char c div 16), upper_hex (of_char c mod 16)]) s)"

section \<open>Handlers as programs\<close>

text \<open>The table of failed logins: for a client address and a user name, the number of failures and when they began.\<close>

record login_attempt =
  la_count :: int
  la_start :: time

type_synonym attempts = "(string, login_attempt) gomap"

text \<open>
  \<open>Random n\<close> draws \<open>n\<close> bytes (\<open>None\<close> when the source of randomness fails), \<open>Draws\<close> as many draws as a loop makes,
  \<open>Clock\<close> reads the clock, \<open>Table\<close> is a critical section of the login table, \<open>Read\<close> a reading call of the store,
  \<open>Op\<close> a changing one. \<open>NoReply\<close> is a handler that writes no response: a loop that has not drawn enough yet, or a panic.
\<close>

datatype prog =
    Reply web_response
  | Random nat "string option \<Rightarrow> prog"
  | Draws "string option list \<Rightarrow> prog"
  | Clock "time \<Rightarrow> prog"
  | Table "attempts \<Rightarrow> attempts" "attempts \<Rightarrow> prog"
  | Read "memory \<Rightarrow> prog"
  | Op store_op "outcome \<Rightarrow> prog"
  | NoReply

text \<open>A header that is set before a handler goes on is set in every response the handler may write.\<close>

primrec prog_header :: "string \<Rightarrow> string \<Rightarrow> prog \<Rightarrow> prog" where
  "prog_header name value (Reply r) = Reply (r\<lparr>wp_headers := (if ghas (wp_headers r) name then wp_headers r else gput name value (wp_headers r))\<rparr>)"
| "prog_header name value (Random n k) = Random n (\<lambda>x. prog_header name value (k x))"
| "prog_header name value (Draws k) = Draws (\<lambda>x. prog_header name value (k x))"
| "prog_header name value (Clock k) = Clock (\<lambda>x. prog_header name value (k x))"
| "prog_header name value (Table f k) = Table f (\<lambda>x. prog_header name value (k x))"
| "prog_header name value (Read k) = Read (\<lambda>x. prog_header name value (k x))"
| "prog_header name value (Op op k) = Op op (\<lambda>x. prog_header name value (k x))"
| "prog_header name value NoReply = NoReply"

definition no_store :: "prog \<Rightarrow> prog" where
  "no_store p = prog_header ''Cache-Control'' ''no-store'' p"

text \<open>What the environment answers to the steps of a program, and the programs a program becomes.\<close>

datatype event =
    ERandom nat "string option"
  | EDraws "string option list"
  | EClock time
  | ETable attempts
  | ERead memory
  | EOp store_op memory

inductive path :: "prog \<Rightarrow> event list \<Rightarrow> prog \<Rightarrow> bool" where
  path_here: "path p [] p"
| path_random: "path (k x) es q \<Longrightarrow> (\<And>bytes. x = Some bytes \<Longrightarrow> length bytes = n) \<Longrightarrow> path (Random n k) (ERandom n x # es) q"
| path_draws: "path (k xs) es q \<Longrightarrow> path (Draws k) (EDraws xs # es) q"
| path_clock: "path (k t) es q \<Longrightarrow> path (Clock k) (EClock t # es) q"
| path_table: "path (k a) es q \<Longrightarrow> path (Table f k) (ETable a # es) q"
| path_read: "path (k m) es q \<Longrightarrow> path (Read k) (ERead m # es) q"
| path_op: "path (k (snd (exec op m))) es q \<Longrightarrow> path (Op op k) (EOp op m # es) q"

inductive_cases path_consE: "path p (e # es) q"

text \<open>On concrete events the simplifier follows a program step by step.\<close>

inductive_simps path_nil: "path p [] q"
inductive_simps path_steps:
  "path (Random n k) (ERandom n' x # es) q" "path (Draws k) (EDraws xs # es) q" "path (Clock k) (EClock t # es) q"
  "path (Table f k) (ETable a # es) q" "path (Read k) (ERead m # es) q" "path (Op op k) (EOp op' m # es) q"

lemmas follow = path_nil path_steps

text \<open>
  \<open>always P Q p h\<close>: after the events \<open>h\<close> (the latest first) whatever the environment answers, every changing call of
  \<open>p\<close> satisfies \<open>P\<close> and every reply \<open>Q\<close>, given the events before it.
\<close>

primrec always :: "(event list \<Rightarrow> store_op \<Rightarrow> bool) \<Rightarrow> (event list \<Rightarrow> web_response \<Rightarrow> bool) \<Rightarrow> prog \<Rightarrow> event list \<Rightarrow> bool" where
  "always P Q (Reply r) = (\<lambda>h. Q h r)"
| "always P Q (Random n k) = (\<lambda>h. \<forall>x. (\<forall>bytes. x = Some bytes \<longrightarrow> length bytes = n) \<longrightarrow> always P Q (k x) (ERandom n x # h))"
| "always P Q (Draws k) = (\<lambda>h. \<forall>x. always P Q (k x) (EDraws x # h))"
| "always P Q (Clock k) = (\<lambda>h. \<forall>x. always P Q (k x) (EClock x # h))"
| "always P Q (Table f k) = (\<lambda>h. \<forall>x. always P Q (k x) (ETable x # h))"
| "always P Q (Read k) = (\<lambda>h. \<forall>x. always P Q (k x) (ERead x # h))"
| "always P Q (Op op k) = (\<lambda>h. P h op \<and> (\<forall>x. always P Q (k (snd (exec op x))) (EOp op x # h)))"
| "always P Q NoReply = (\<lambda>h. True)"

lemma always_path:
  assumes "path p es q" "always P Q p h"
  shows "always P Q q (rev es @ h)"
  using assms
proof (induction arbitrary: h rule: path.induct)
  case (path_random k x es q n)
  then have "always P Q (k x) (ERandom n x # h)" by auto
  from path_random.IH [OF this] show ?case by simp
next
  case (path_draws k xs es q)
  then have "always P Q (k xs) (EDraws xs # h)" by auto
  from path_draws.IH [OF this] show ?case by simp
next
  case (path_clock k t es q)
  then have "always P Q (k t) (EClock t # h)" by auto
  from path_clock.IH [OF this] show ?case by simp
next
  case (path_table k a es q f)
  then have "always P Q (k a) (ETable a # h)" by auto
  from path_table.IH [OF this] show ?case by simp
next
  case (path_read k m es q)
  then have "always P Q (k m) (ERead m # h)" by auto
  from path_read.IH [OF this] show ?case by simp
next
  case (path_op k op m es q)
  then have "always P Q (k (snd (exec op m))) (EOp op m # h)" by auto
  from path_op.IH [OF this] show ?case by simp
qed simp

lemma always_Op: "path p es (Op op k) \<Longrightarrow> always P Q p [] \<Longrightarrow> P (rev es) op"
  using always_path [of p es "Op op k" P Q "[]"] by simp

lemma always_Reply: "path p es (Reply r) \<Longrightarrow> always P Q p [] \<Longrightarrow> Q (rev es) r"
  using always_path [of p es "Reply r" P Q "[]"] by simp

lemma always_prog_header:
  "always P Q (prog_header name value p) h = always P (\<lambda>h r. Q h (r\<lparr>wp_headers := (if ghas (wp_headers r) name then wp_headers r else gput name value (wp_headers r))\<rparr>)) p h"
  by (induction p arbitrary: h) auto

end
