(* ===== verification/ServerState.thy ===== *)
theory ServerState
  imports Http
begin

text \<open>
  The control server of \<open>internal/control/server.go\<close>: its settings, what it uses of other packages, the login table,
  sessions, audit records and the state of nodes as users see it.
\<close>

section \<open>Settings\<close>

definition defaultSessionTTL :: duration where "defaultSessionTTL = 12 * go_hour"
definition loginFailureLimit :: int where "loginFailureLimit = 5"
definition loginFailureWindow :: duration where "loginFailureWindow = 15 * go_minute"
definition heartbeatInterval :: duration where "heartbeatInterval = 15 * go_second"
definition nodeOfflineThreshold :: duration where "nodeOfflineThreshold = 45 * go_second"
definition maxConnectionsPerHeartbeat :: nat where "maxConnectionsPerHeartbeat = 2000"
definition maxAgentLogsPerHeartbeat :: nat where "maxAgentLogsPerHeartbeat = 100"

record server_options =
  so_version :: string
  so_has_store :: bool
  so_storage_mode :: string
  so_secure_cookies :: bool
  so_session_ttl :: duration
  so_mfa_key :: string

record server_settings =
  ss_started_at :: time
  ss_version :: string
  ss_storage_mode :: string
  ss_secure_cookies :: bool
  ss_session_ttl :: duration
  ss_mfa_key :: string

datatype server_panic = StoreRequired | KeyNotCreated | KeyInvalid

text \<open>\<open>fresh_key\<close> is what \<open>NewEncryptionKey\<close> draws where no key is given.\<close>

definition NewServer :: "server_options \<Rightarrow> time \<Rightarrow> string option \<Rightarrow> server_panic + server_settings \<times> attempts" where
  "NewServer options now fresh_key =
     (if \<not> so_has_store options then Inl StoreRequired
      else let ttl = (if so_session_ttl options = 0 then defaultSessionTTL else so_session_ttl options);
               mode = (if so_storage_mode options = [] then ''memory'' else so_storage_mode options)
           in case (if so_mfa_key options = [] then fresh_key else Some (so_mfa_key options)) of
                None \<Rightarrow> Inl KeyNotCreated
              | Some key \<Rightarrow>
                  (case NewSecretProtector key of
                     Inl e \<Rightarrow> Inl KeyInvalid
                   | Inr protector \<Rightarrow>
                       Inr (\<lparr>ss_started_at = now, ss_version = so_version options, ss_storage_mode = mode,
                             ss_secure_cookies = so_secure_cookies options, ss_session_ttl = ttl, ss_mfa_key = protector\<rparr>, [])))"

section \<open>Request bodies\<close>

record setup_input =
  in_username :: string
  in_password :: string

record login_input = setup_input +
  in_code :: string
  in_recovery :: string

record mfa_input =
  mi_password :: string
  mi_code :: string
  mi_recovery :: string

record user_input = setup_input +
  in_role :: role

record user_change =
  uc_role :: role
  uc_disabled :: bool
  uc_password :: string
  uc_reset_mfa :: bool

record token_input =
  ti_name :: string
  ti_minutes :: int

record enroll_input =
  ei_token :: string
  ei_name :: string
  ei_region :: string
  ei_architecture :: string
  ei_version :: string

record connection_input =
  ci_id :: string
  ci_rule :: string
  ci_protocol :: string
  ci_source :: string
  ci_target :: string
  ci_started_at :: time
  ci_last_activity :: time
  ci_bytes_in :: u64
  ci_bytes_out :: u64

record log_input =
  gi_id :: string
  gi_level :: string
  gi_component :: string
  gi_message :: string
  gi_occurred_at :: time

record heartbeat_input =
  hi_agent_version :: string
  hi_tunnel_address :: string
  hi_config_version :: u64
  hi_attempted_version :: u64
  hi_config_error :: string
  hi_cpu :: float64
  hi_memory :: float64
  hi_load :: float64
  hi_disk :: float64
  hi_rx :: u64
  hi_tx :: u64
  hi_active :: u64
  hi_in :: u64
  hi_out :: u64
  hi_rule_stats :: "rule_stats list"
  hi_connections :: "connection_input list"
  hi_complete :: bool
  hi_logs :: "log_input list"

record forward_rule_input =
  fi_name :: string
  fi_protocol :: protocol
  fi_mode :: string
  fi_ingress :: string
  fi_egress :: string
  fi_listen_host :: string
  fi_listen_port :: u16
  fi_target_host :: string
  fi_target_port :: u16
  fi_relay_port :: u16
  fi_enabled :: bool
  fi_bandwidth_kbps :: u64
  fi_max_connections :: u32
  fi_allow_cidrs :: "string list"
  fi_deny_cidrs :: "string list"

text \<open>
  What the server uses of other packages: cryptography, the case conversion of text outside ASCII, \<open>time.Parse\<close> for
  RFC 3339 and the decoding of each request body.
\<close>

record deps =
  dp_crypto :: crypto
  dp_lower :: "string \<Rightarrow> string"
  dp_upper :: "string \<Rightarrow> string"
  dp_time :: "string \<Rightarrow> time option"
  dp_setup :: "string \<Rightarrow> setup_input option"
  dp_login :: "string \<Rightarrow> login_input option"
  dp_mfa_setup :: "string \<Rightarrow> mfa_input option"
  dp_mfa_enable :: "string \<Rightarrow> mfa_input option"
  dp_mfa_disable :: "string \<Rightarrow> mfa_input option"
  dp_new_user :: "string \<Rightarrow> user_input option"
  dp_user_change :: "string \<Rightarrow> user_change option"
  dp_token :: "string \<Rightarrow> token_input option"
  dp_enroll :: "string \<Rightarrow> enroll_input option"
  dp_heartbeat :: "string \<Rightarrow> heartbeat_input option"
  dp_rule :: "string \<Rightarrow> forward_rule_input option"

section \<open>Calls\<close>

text \<open>The values of the results of the store, by the type the call has.\<close>

fun as_user :: "store_value \<Rightarrow> user" where
  "as_user (VUser u) = u"
| "as_user _ = zero_user"

fun as_bool :: "store_value \<Rightarrow> bool" where
  "as_bool (VBool b) = b"
| "as_bool _ = False"

fun as_node :: "store_value \<Rightarrow> node" where
  "as_node (VNode n) = n"
| "as_node _ = zero_node"

definition zero_rule :: forward_rule where
  "zero_rule = \<lparr>rule_id = [], rule_name = [], rule_protocol = [], rule_mode = [], rule_ingress = [], rule_egress = [],
     rule_listen_host = [], rule_listen_port = 0, rule_target_host = [], rule_target_port = 0, rule_relay_host = [],
     rule_relay_port = 0, rule_enabled = False, rule_bandwidth_kbps = 0, rule_max_connections = 0, rule_allow_cidrs = [],
     rule_deny_cidrs = [], rule_config_version = 0, rule_egress_config_version = 0, rule_active_conns = 0,
     rule_bytes_in = 0, rule_bytes_out = 0, rule_runtime_updated = 0\<rparr>"

fun as_rule :: "store_value \<Rightarrow> forward_rule" where
  "as_rule (VRule r) = r"
| "as_rule _ = zero_rule"

definition decoded :: "(string \<Rightarrow> 'a option) \<Rightarrow> web_request \<Rightarrow> ('a \<Rightarrow> prog) \<Rightarrow> prog" where
  "decoded decode req k = (case decodeJSON decode req of Inl r \<Rightarrow> Reply r | Inr x \<Rightarrow> k x)"

definition new_token :: "nat \<Rightarrow> (auth_error + string \<Rightarrow> prog) \<Rightarrow> prog" where
  "new_token n k = Random n (\<lambda>d. k (NewToken d))"

definition new_id :: "string \<Rightarrow> (auth_error + string \<Rightarrow> prog) \<Rightarrow> prog" where
  "new_id prefix k = Random 12 (\<lambda>d. k (NewID d prefix))"

text \<open>bcrypt draws its salt itself, and fails where it cannot.\<close>

definition hash_password :: "deps \<Rightarrow> string \<Rightarrow> (auth_error + string \<Rightarrow> prog) \<Rightarrow> prog" where
  "hash_password dp password k =
     Random 16 (\<lambda>d. k (case d of
         None \<Rightarrow> (case ValidatePassword password of Some e \<Rightarrow> Inl e | None \<Rightarrow> Inl HashFailed)
       | Some salt \<Rightarrow> HashPassword (dp_crypto dp) salt password))"

definition audit :: "web_request \<Rightarrow> string \<Rightarrow> string \<Rightarrow> string \<Rightarrow> string \<Rightarrow> string \<Rightarrow> (string, detail) gomap \<Rightarrow> prog \<Rightarrow> prog" where
  "audit req actor_type actor action target_type target details k =
     new_id ''aud'' (\<lambda>r. case r of
       Inl e \<Rightarrow> k
     | Inr event \<Rightarrow>
         Clock (\<lambda>now. Op (OpRecordAudit \<lparr>audit_id = event, audit_actor_type = actor_type, audit_actor_id = actor,
             audit_action = action, audit_target_type = target_type, audit_target_id = target, audit_remote_ip = remoteIP req,
             audit_details = details, audit_created_at = now\<rparr>) (\<lambda>_. k)))"

definition requireUser :: "deps \<Rightarrow> web_request \<Rightarrow> role \<Rightarrow> (user \<Rightarrow> prog) \<Rightarrow> prog" where
  "requireUser dp req role k =
     (let raw = sessionToken req in
      if raw = [] then Reply (writeError 401 ''authentication_required'')
      else Clock (\<lambda>now. Read (\<lambda>m. case SessionUserByTokenHash (TokenHash (dp_crypto dp) raw) now m of
          Inl e \<Rightarrow> Reply (writeError 401 ''invalid_session'')
        | Inr (s, u) \<Rightarrow> if role \<noteq> [] \<and> user_role u \<noteq> role then Reply (writeError 403 ''permission_denied'') else k u)))"

definition setSessionCookie :: "server_settings \<Rightarrow> string \<Rightarrow> time \<Rightarrow> web_response \<Rightarrow> web_response" where
  "setSessionCookie st token expires r =
     r\<lparr>wp_cookie := Some \<lparr>ck_value = token, ck_expires = Some expires, ck_max_age = 0, ck_secure = ss_secure_cookies st\<rparr>\<rparr>"

definition clear_cookie :: "server_settings \<Rightarrow> web_response \<Rightarrow> web_response" where
  "clear_cookie st r =
     r\<lparr>wp_cookie := Some \<lparr>ck_value = [], ck_expires = None, ck_max_age = - 1, ck_secure = ss_secure_cookies st\<rparr>\<rparr>"

section \<open>The login table\<close>

definition window_over :: "time \<Rightarrow> login_attempt \<Rightarrow> bool" where
  "window_over now a \<longleftrightarrow> loginFailureWindow \<le> time_sub now (la_start a)"

definition limited :: "string \<Rightarrow> time \<Rightarrow> attempts \<Rightarrow> bool" where
  "limited key now table =
     (case map_of table key of None \<Rightarrow> False | Some a \<Rightarrow> \<not> window_over now a \<and> loginFailureLimit \<le> la_count a)"

definition drop_expired :: "string \<Rightarrow> time \<Rightarrow> attempts \<Rightarrow> attempts" where
  "drop_expired key now table =
     (case map_of table key of None \<Rightarrow> table | Some a \<Rightarrow> if window_over now a then gdel key table else table)"

definition loginRateLimited :: "string \<Rightarrow> (bool \<Rightarrow> prog) \<Rightarrow> prog" where
  "loginRateLimited key k = Clock (\<lambda>now. Table (drop_expired key now) (\<lambda>table. k (limited key now table)))"

text \<open>The clock is read once to see whether the window is over, and again for the start of a new window.\<close>

definition count_failure :: "string \<Rightarrow> time \<Rightarrow> time \<Rightarrow> attempts \<Rightarrow> attempts" where
  "count_failure key now now' table =
     (case map_of table key of
        None \<Rightarrow> gput key \<lparr>la_count = 1, la_start = now'\<rparr> table
      | Some a \<Rightarrow> if window_over now a then gput key \<lparr>la_count = 1, la_start = now'\<rparr> table
                  else gput key (a\<lparr>la_count := la_count a + 1\<rparr>) table)"

definition recordLoginFailure :: "string \<Rightarrow> prog \<Rightarrow> prog" where
  "recordLoginFailure key k = Clock (\<lambda>now. Clock (\<lambda>now'. Table (count_failure key now now') (\<lambda>_. k)))"

definition clearLoginFailures :: "string \<Rightarrow> prog \<Rightarrow> prog" where
  "clearLoginFailures key k = Table (gdel key) (\<lambda>_. k)"

section \<open>Nodes\<close>

definition effective_status :: "time \<Rightarrow> node \<Rightarrow> node" where
  "effective_status now n =
     (if node_status n = NodeOnline \<and> nodeOfflineThreshold < time_sub now (node_last_heartbeat n)
      then n\<lparr>node_status := NodeOffline\<rparr> else n)"

definition effectiveNodeStatuses :: "time \<Rightarrow> node list \<Rightarrow> node list" where
  "effectiveNodeStatuses now nodes = map (effective_status now) nodes"

section \<open>Guarantees of the helpers\<close>

text \<open>What a session proves: the clock and the store were read, and the store knew the token of the request.\<close>

definition session_seen :: "deps \<Rightarrow> web_request \<Rightarrow> event list \<Rightarrow> user \<Rightarrow> bool" where
  "session_seen dp req h u \<longleftrightarrow> sessionToken req \<noteq> [] \<and>
     (\<exists>now m s. EClock now \<in> set h \<and> ERead m \<in> set h
        \<and> SessionUserByTokenHash (TokenHash (dp_crypto dp) (sessionToken req)) now m = Inr (s, u))"

definition user_seen :: "deps \<Rightarrow> web_request \<Rightarrow> event list \<Rightarrow> bool" where
  "user_seen dp req h \<longleftrightarrow> (\<exists>u. session_seen dp req h u)"

definition admin_seen :: "deps \<Rightarrow> web_request \<Rightarrow> event list \<Rightarrow> bool" where
  "admin_seen dp req h \<longleftrightarrow> (\<exists>u. session_seen dp req h u \<and> user_role u = RoleAdmin)"

text \<open>What was seen stays seen.\<close>

lemma session_seen_later: "session_seen dp req h u \<Longrightarrow> set h \<subseteq> set h' \<Longrightarrow> session_seen dp req h' u"
  unfolding session_seen_def by blast

lemma session_seen_Cons: "session_seen dp req h u \<Longrightarrow> session_seen dp req (e # h) u"
  by (erule session_seen_later) auto

lemma user_seen_Cons: "user_seen dp req h \<Longrightarrow> user_seen dp req (e # h)"
  by (auto simp: user_seen_def intro: session_seen_Cons)

lemma admin_seen_Cons: "admin_seen dp req h \<Longrightarrow> admin_seen dp req (e # h)"
  by (auto simp: admin_seen_def intro: session_seen_Cons)

named_theorems helper_rules "rules for the helpers of handlers"

lemma always_decoded [helper_rules]:
  "always P Q (decoded decode req k) h \<longleftrightarrow>
     (case decodeJSON decode req of Inl r \<Rightarrow> Q h r | Inr x \<Rightarrow> always P Q (k x) h)"
  by (simp add: decoded_def split: sum.split)

lemma always_requireUser [helper_rules]:
  assumes "\<And>h' status code. Q h' (writeError status code)"
    and "\<And>u now m. session_seen dp req (ERead m # EClock now # h) u \<Longrightarrow> user_seen dp req (ERead m # EClock now # h)
           \<Longrightarrow> role \<noteq> [] \<longrightarrow> user_role u = role
           \<Longrightarrow> role = RoleAdmin \<longrightarrow> admin_seen dp req (ERead m # EClock now # h) \<Longrightarrow> always P Q (k u) (ERead m # EClock now # h)"
  shows "always P Q (requireUser dp req role k) h"
proof -
  have run: "always P Q (k u) (ERead m # EClock now # h)"
    if "sessionToken req \<noteq> []" "SessionUserByTokenHash (TokenHash (dp_crypto dp) (sessionToken req)) now m = Inr (s, u)"
      "role \<noteq> [] \<longrightarrow> user_role u = role" for now m s u
  proof -
    have "session_seen dp req (ERead m # EClock now # h) u" using that by (auto simp: session_seen_def)
    with that(3) show ?thesis by (intro assms(2)) (auto simp: user_seen_def admin_seen_def)
  qed
  show ?thesis using assms(1) run by (auto simp: requireUser_def Let_def split: sum.split)
qed

end
