(* ===== verification/ServerAccounts.thy ===== *)
theory ServerAccounts
  imports ServerState
begin

text \<open>
  The handlers of accounts: setup, login with a second factor, MFA, logout and the management of users
  (\<open>server.go\<close>, from \<open>setupStatus\<close> to \<open>user\<close>).
\<close>

definition setupStatus :: "web_request \<Rightarrow> prog" where
  "setupStatus req =
     (if wr_method req \<noteq> ''GET'' then Reply (methodNotAllowed ''GET'')
      else Read (\<lambda>m. Reply (writeJSON 200 (SetupRequired (ListUsers m = [])))))"

text \<open>The in-memory store is always healthy.\<close>

definition health :: "server_settings \<Rightarrow> web_request \<Rightarrow> prog" where
  "health st req =
     (if wr_method req \<noteq> ''GET'' then Reply (methodNotAllowed ''GET'')
      else Clock (\<lambda>now. Reply (writeJSON 200 (HealthBody ''ok'' (ss_version st) (ss_started_at st) now))))"

definition setupAdmin :: "deps \<Rightarrow> web_request \<Rightarrow> prog" where
  "setupAdmin dp req =
     (if wr_method req \<noteq> ''POST'' then Reply (methodNotAllowed ''POST'')
      else decoded (dp_setup dp) req (\<lambda>input.
        case NormalizeUsername (dp_lower dp) (in_username input) of
          Inl e \<Rightarrow> Reply (writeError 422 ''invalid_username'')
        | Inr username \<Rightarrow>
            hash_password dp (in_password input) (\<lambda>hashed. case hashed of
              Inl e \<Rightarrow> Reply (writeError 422 ''invalid_password'')
            | Inr password_hash \<Rightarrow>
                new_id ''usr'' (\<lambda>r. case r of
                  Inl e \<Rightarrow> Reply (writeError 500 ''internal_error'')
                | Inr uid \<Rightarrow>
                    Clock (\<lambda>now.
                      let u = zero_user\<lparr>user_id := uid, user_name := username, user_password_hash := password_hash,
                            user_role := RoleAdmin, user_created_at := now\<rparr>
                      in Op (OpCreateInitialUser u) (\<lambda>res. case res of
                          Inl ErrBootstrapCompleted \<Rightarrow> Reply (writeError 409 ''setup_completed'')
                        | Inl e \<Rightarrow> Reply (writeError 500 ''storage_error'')
                        | Inr v \<Rightarrow>
                            audit req ''user'' uid ''user.bootstrap'' ''user'' uid []
                              (Reply (writeJSON 201 (UserBody (publicUser u))))))))))"

section \<open>Login\<close>

definition invalidCredentials :: web_response where
  "invalidCredentials = writeError 401 ''invalid_credentials''"

definition attempt_key :: "web_request \<Rightarrow> string \<Rightarrow> string" where
  "attempt_key req username = remoteIP req @ [CHR 0x00] @ username"

text \<open>A code of the authenticator of a user, read when the second factor is checked.\<close>

definition code_valid :: "server_settings \<Rightarrow> deps \<Rightarrow> user \<Rightarrow> string \<Rightarrow> time \<Rightarrow> bool" where
  "code_valid st dp u code now =
     (case Decrypt (dp_crypto dp) (ss_mfa_key st) (user_mfa_secret u) of
        None \<Rightarrow> False
      | Some secret \<Rightarrow> ValidateTOTP (dp_crypto dp) (dp_upper dp) secret code now)"

text \<open>The second factor; \<open>k\<close> gets whether it is valid.\<close>

definition second_factor :: "server_settings \<Rightarrow> deps \<Rightarrow> login_input \<Rightarrow> user \<Rightarrow> (bool \<Rightarrow> prog) \<Rightarrow> prog" where
  "second_factor st dp input u k =
     (if trim_space (in_code input) \<noteq> [] then Clock (\<lambda>now. k (code_valid st dp u (in_code input) now))
      else if trim_space (in_recovery input) \<noteq> []
        then Op (OpConsumeRecoveryCode (user_id u) (RecoveryCodeHash (dp_crypto dp) (dp_upper dp) (in_recovery input)))
               (\<lambda>res. case res of Inl e \<Rightarrow> Reply (writeError 500 ''storage_error'') | Inr v \<Rightarrow> k (as_bool v))
      else Reply (writeJSON 202 MFARequired))"

definition login_session :: "server_settings \<Rightarrow> deps \<Rightarrow> web_request \<Rightarrow> string \<Rightarrow> user \<Rightarrow> prog" where
  "login_session st dp req key u =
     new_token 32 (\<lambda>t. case t of
       Inl e \<Rightarrow> Reply (writeError 500 ''internal_error'')
     | Inr raw \<Rightarrow>
         new_id ''ses'' (\<lambda>r. case r of
           Inl e \<Rightarrow> Reply (writeError 500 ''internal_error'')
         | Inr sid \<Rightarrow>
             Clock (\<lambda>now.
               let expires = now + ss_session_ttl st;
                   s = \<lparr>session_id = sid, session_user = user_id u, session_token_hash = TokenHash (dp_crypto dp) raw,
                        session_expires_at = expires, session_created_at = now\<rparr>
               in Op (OpCreateSession s) (\<lambda>res. case res of
                   Inl e \<Rightarrow> Reply (writeError 500 ''storage_error'')
                 | Inr v \<Rightarrow>
                     clearLoginFailures key
                       (audit req ''user'' (user_id u) ''auth.login'' ''session'' sid []
                         (Reply (setSessionCookie st raw expires (writeJSON 200 (LoggedIn (publicUser u) expires)))))))))"

definition login_user :: "server_settings \<Rightarrow> deps \<Rightarrow> web_request \<Rightarrow> login_input \<Rightarrow> string \<Rightarrow> prog" where
  "login_user st dp req input username =
     (let key = attempt_key req username in
      loginRateLimited key (\<lambda>blocked.
        if blocked then Reply (with_header ''Retry-After'' ''900'' (writeError 429 ''login_rate_limited''))
        else Read (\<lambda>m.
          let found = UserByUsername username m;
              refused = (case found of Inl e \<Rightarrow> True
                         | Inr u \<Rightarrow> user_disabled u \<or> \<not> CheckPassword (dp_crypto dp) (user_password_hash u) (in_password input))
          in if refused
             then recordLoginFailure key
                    (audit req ''anonymous'' [] ''auth.login_failed'' ''user'' [] [(''username'', DText username)] (Reply invalidCredentials))
             else let u = (case found of Inl e \<Rightarrow> zero_user | Inr u \<Rightarrow> u) in
               if user_mfa_enabled u
               then second_factor st dp input u (\<lambda>valid.
                      if valid then login_session st dp req key u
                      else recordLoginFailure key
                             (audit req ''anonymous'' [] ''auth.mfa_failed'' ''user'' (user_id u) [(''username'', DText username)]
                               (Reply (writeError 401 ''invalid_mfa_code''))))
               else login_session st dp req key u)))"

definition login :: "server_settings \<Rightarrow> deps \<Rightarrow> web_request \<Rightarrow> prog" where
  "login st dp req =
     (if wr_method req \<noteq> ''POST'' then Reply (methodNotAllowed ''POST'')
      else no_store (decoded (dp_login dp) req (\<lambda>input.
        case NormalizeUsername (dp_lower dp) (in_username input) of
          Inl e \<Rightarrow> Reply invalidCredentials
        | Inr username \<Rightarrow> login_user st dp req input username)))"

text \<open>The store forgets the session even when it does not know its user any more.\<close>

definition logout :: "server_settings \<Rightarrow> deps \<Rightarrow> web_request \<Rightarrow> prog" where
  "logout st dp req =
     (if wr_method req \<noteq> ''POST'' then Reply (methodNotAllowed ''POST'')
      else let raw = sessionToken req;
               done_reply = Reply (clear_cookie st no_content)
           in if raw = [] then done_reply
              else Clock (\<lambda>now. Read (\<lambda>m.
                let uid = (case SessionUserByTokenHash (TokenHash (dp_crypto dp) raw) now m of Inl e \<Rightarrow> [] | Inr (s, u) \<Rightarrow> user_id u)
                in Op (OpDeleteSession (TokenHash (dp_crypto dp) raw)) (\<lambda>res.
                     if uid \<noteq> [] then audit req ''user'' uid ''auth.logout'' ''session'' [] [] done_reply else done_reply))))"

definition me :: "deps \<Rightarrow> web_request \<Rightarrow> prog" where
  "me dp req =
     (if wr_method req \<noteq> ''GET'' then Reply (methodNotAllowed ''GET'')
      else requireUser dp req [] (\<lambda>u. Reply (writeJSON 200 (UserBody (publicUser u)))))"

section \<open>Second factor\<close>

definition otpauth_url :: "string \<Rightarrow> string \<Rightarrow> string" where
  "otpauth_url username secret =
     ''otpauth://totp/'' @ query_escape (''PortFlow:'' @ username) @ ''?secret='' @ query_escape secret @ ''&issuer=''
       @ query_escape ''PortFlow'' @ ''&algorithm=SHA1&digits=6&period=30''"

definition mfaSetup :: "server_settings \<Rightarrow> deps \<Rightarrow> web_request \<Rightarrow> prog" where
  "mfaSetup st dp req =
     (if wr_method req \<noteq> ''POST'' then Reply (methodNotAllowed ''POST'')
      else no_store (requireUser dp req [] (\<lambda>u. decoded (dp_mfa_setup dp) req (\<lambda>input.
        if \<not> CheckPassword (dp_crypto dp) (user_password_hash u) (mi_password input) then Reply (writeError 401 ''invalid_password'')
        else if user_mfa_enabled u then Reply (writeError 409 ''mfa_already_enabled'')
        else Random 20 (\<lambda>d. case NewTOTPSecret d of
            Inl e \<Rightarrow> Reply (writeError 500 ''internal_error'')
          | Inr secret \<Rightarrow>
              Random 12 (\<lambda>nonce. case Encrypt (dp_crypto dp) (ss_mfa_key st) nonce secret of
                Inl e \<Rightarrow> Reply (writeError 500 ''internal_error'')
              | Inr encrypted \<Rightarrow>
                  Op (OpSetUserMFA (user_id u) False encrypted []) (\<lambda>res. case res of
                    Inl e \<Rightarrow> Reply (writeError 500 ''storage_error'')
                  | Inr v \<Rightarrow>
                      audit req ''user'' (user_id u) ''auth.mfa_setup'' ''user'' (user_id u) []
                        (Reply (writeJSON 200 (MFASecret secret (otpauth_url (user_name u) secret)))))))))))"

definition mfaEnable :: "server_settings \<Rightarrow> deps \<Rightarrow> web_request \<Rightarrow> prog" where
  "mfaEnable st dp req =
     (if wr_method req \<noteq> ''POST'' then Reply (methodNotAllowed ''POST'')
      else no_store (requireUser dp req [] (\<lambda>u. decoded (dp_mfa_enable dp) req (\<lambda>input.
        if \<not> CheckPassword (dp_crypto dp) (user_password_hash u) (mi_password input) then Reply (writeError 401 ''invalid_password'')
        else if user_mfa_secret u = [] then Reply (writeError 409 ''mfa_setup_required'')
        else Clock (\<lambda>now.
          if \<not> code_valid st dp u (mi_code input) now then Reply (writeError 401 ''invalid_mfa_code'')
          else Draws (\<lambda>draws. case NewRecoveryCodes (dp_upper dp) 8 draws of
              None \<Rightarrow> NoReply
            | Some (Inl e) \<Rightarrow> Reply (writeError 500 ''internal_error'')
            | Some (Inr codes) \<Rightarrow>
                Op (OpSetUserMFA (user_id u) True (user_mfa_secret u) (map (RecoveryCodeHash (dp_crypto dp) (dp_upper dp)) codes))
                  (\<lambda>res. case res of
                    Inl e \<Rightarrow> Reply (writeError 500 ''storage_error'')
                  | Inr v \<Rightarrow>
                      audit req ''user'' (user_id u) ''auth.mfa_enable'' ''user'' (user_id u) []
                        (Reply (writeJSON 200 (RecoveryCodes codes))))))))))"

definition disable_mfa :: "web_request \<Rightarrow> user \<Rightarrow> bool \<Rightarrow> prog" where
  "disable_mfa req u valid =
     (if \<not> valid then Reply (writeError 401 ''invalid_mfa_code'')
      else Op (OpSetUserMFA (user_id u) False [] []) (\<lambda>res. case res of
          Inl e \<Rightarrow> Reply (writeError 500 ''storage_error'')
        | Inr v \<Rightarrow>
            audit req ''user'' (user_id u) ''auth.mfa_disable'' ''user'' (user_id u) [] (Reply (writeJSON 200 MFADisabled))))"

definition mfaDisable :: "server_settings \<Rightarrow> deps \<Rightarrow> web_request \<Rightarrow> prog" where
  "mfaDisable st dp req =
     (if wr_method req \<noteq> ''POST'' then Reply (methodNotAllowed ''POST'')
      else requireUser dp req [] (\<lambda>u. decoded (dp_mfa_disable dp) req (\<lambda>input.
        if \<not> CheckPassword (dp_crypto dp) (user_password_hash u) (mi_password input) then Reply (writeError 401 ''invalid_password'')
        else if user_mfa_enabled u \<and> trim_space (mi_code input) \<noteq> []
          then Clock (\<lambda>now. disable_mfa req u (code_valid st dp u (mi_code input) now))
        else if user_mfa_enabled u \<and> trim_space (mi_recovery input) \<noteq> []
          then Op (OpConsumeRecoveryCode (user_id u) (RecoveryCodeHash (dp_crypto dp) (dp_upper dp) (mi_recovery input)))
                 (\<lambda>res. case res of Inl e \<Rightarrow> Reply (writeError 500 ''storage_error'') | Inr v \<Rightarrow> disable_mfa req u (as_bool v))
        else disable_mfa req u (\<not> user_mfa_enabled u))))"

section \<open>Users\<close>

definition create_user :: "deps \<Rightarrow> web_request \<Rightarrow> user \<Rightarrow> user_input \<Rightarrow> prog" where
  "create_user dp req actor input =
     (case NormalizeUsername (dp_lower dp) (in_username input) of
        Inl e \<Rightarrow> Reply (writeError 422 ''invalid_username'')
      | Inr username \<Rightarrow>
          let wanted = (if in_role input = [] then RoleMember else in_role input) in
          if wanted \<noteq> RoleAdmin \<and> wanted \<noteq> RoleMember then Reply (writeError 422 ''invalid_role'')
          else hash_password dp (in_password input) (\<lambda>hashed. case hashed of
              Inl e \<Rightarrow> Reply (writeError 422 ''invalid_password'')
            | Inr password_hash \<Rightarrow>
                new_id ''usr'' (\<lambda>r. case r of
                  Inl e \<Rightarrow> Reply (writeError 500 ''internal_error'')
                | Inr uid \<Rightarrow>
                    Clock (\<lambda>now.
                      let u = zero_user\<lparr>user_id := uid, user_name := username, user_password_hash := password_hash,
                            user_role := wanted, user_created_at := now\<rparr>
                      in Op (OpCreateUser u) (\<lambda>res. case res of
                          Inl ErrConflict \<Rightarrow> Reply (writeError 409 ''username_conflict'')
                        | Inl e \<Rightarrow> Reply (writeError 500 ''storage_error'')
                        | Inr v \<Rightarrow>
                            audit req ''user'' (user_id actor) ''user.create'' ''user'' uid
                              [(''username'', DText username), (''role'', DText wanted)]
                              (Reply (writeJSON 201 (UserBody (publicUser u)))))))))"

definition users :: "deps \<Rightarrow> web_request \<Rightarrow> prog" where
  "users dp req =
     requireUser dp req RoleAdmin (\<lambda>actor.
       if wr_method req = ''GET'' then Read (\<lambda>m. Reply (writeJSON 200 (UserItems (map publicUser (ListUsers m)))))
       else if wr_method req = ''POST'' then decoded (dp_new_user dp) req (create_user dp req actor)
       else Reply (methodNotAllowed ''GET, POST''))"

definition remove_user :: "web_request \<Rightarrow> user \<Rightarrow> string \<Rightarrow> prog" where
  "remove_user req actor uid =
     Read (\<lambda>m. case UserByID uid m of
       Inl ErrNotFound \<Rightarrow> Reply (writeError 404 ''not_found'')
     | Inl e \<Rightarrow> Reply (writeError 500 ''storage_error'')
     | Inr previous \<Rightarrow>
         Op (OpDeleteUser uid) (\<lambda>res. case res of
           Inl ErrLastAdministrator \<Rightarrow> Reply (writeError 409 ''last_administrator'')
         | Inl ErrNotFound \<Rightarrow> Reply (writeError 404 ''not_found'')
         | Inl e \<Rightarrow> Reply (writeError 500 ''storage_error'')
         | Inr v \<Rightarrow>
             audit req ''user'' (user_id actor) ''user.delete'' ''user'' uid
               [(''username'', DText (user_name previous)), (''role'', DText (user_role previous))] (Reply no_content)))"

definition change_user :: "web_request \<Rightarrow> user \<Rightarrow> string \<Rightarrow> user_change \<Rightarrow> string \<Rightarrow> prog" where
  "change_user req actor uid input password_hash =
     Read (\<lambda>m. case UserByID uid m of
       Inl ErrNotFound \<Rightarrow> Reply (writeError 404 ''not_found'')
     | Inl e \<Rightarrow> Reply (writeError 500 ''storage_error'')
     | Inr previous \<Rightarrow>
         Op (OpUpdateUser uid \<lparr>upd_role = uc_role input, upd_disabled = uc_disabled input, upd_password_hash = password_hash,
               upd_reset_mfa = uc_reset_mfa input\<rparr>) (\<lambda>res. case res of
           Inl ErrNotFound \<Rightarrow> Reply (writeError 404 ''not_found'')
         | Inl ErrLastAdministrator \<Rightarrow> Reply (writeError 409 ''last_administrator'')
         | Inl e \<Rightarrow> Reply (writeError 500 ''storage_error'')
         | Inr v \<Rightarrow>
             let updated = as_user v in
             audit req ''user'' (user_id actor) ''user.update'' ''user'' (user_id updated)
               [(''username'', DText (user_name updated)), (''previousRole'', DText (user_role previous)),
                (''role'', DText (user_role updated)), (''previousDisabled'', DFlag (user_disabled previous)),
                (''disabled'', DFlag (user_disabled updated)), (''passwordReset'', DFlag (password_hash \<noteq> [])),
                (''mfaReset'', DFlag (uc_reset_mfa input))]
               (Reply (writeJSON 200 (UserBody (publicUser updated))))))"

abbreviation "users_path \<equiv> ''/api/v1/users/''"

definition user_handler :: "deps \<Rightarrow> web_request \<Rightarrow> prog" where
  "user_handler dp req =
     (if wr_method req \<noteq> ''PUT'' \<and> wr_method req \<noteq> ''DELETE'' then Reply (methodNotAllowed ''PUT, DELETE'')
      else requireUser dp req RoleAdmin (\<lambda>actor.
        let uid = trim_prefix (wr_path req) users_path in
        if uid = [] \<or> contains_char uid (CHR ''/'') \<or> 128 < length uid then Reply (writeError 404 ''not_found'')
        else if uid = user_id actor then Reply (writeError 409 ''self_modification'')
        else if wr_method req = ''DELETE'' then remove_user req actor uid
        else decoded (dp_user_change dp) req (\<lambda>input.
          if uc_role input \<noteq> RoleAdmin \<and> uc_role input \<noteq> RoleMember then Reply (writeError 422 ''invalid_role'')
          else if uc_password input \<noteq> []
            then hash_password dp (uc_password input) (\<lambda>hashed. case hashed of
                Inl e \<Rightarrow> Reply (writeError 422 ''invalid_password'')
              | Inr password_hash \<Rightarrow> change_user req actor uid input password_hash)
          else change_user req actor uid input [])))"

end
