(* ===== verification/ServerAgents.thy ===== *)
theory ServerAgents
  imports ServerState
begin

text \<open>
  The handlers agents talk to: enrollment tokens, enrollment, heartbeats and configurations (\<open>server.go\<close>, from
  \<open>enrollmentTokens\<close> to \<open>invalidPercent\<close>), and what passes the checks of a heartbeat.
\<close>

section \<open>Enrollment\<close>

definition enrollmentTokens :: "deps \<Rightarrow> web_request \<Rightarrow> prog" where
  "enrollmentTokens dp req =
     (if wr_method req \<noteq> ''POST'' then Reply (methodNotAllowed ''POST'')
      else requireUser dp req RoleAdmin (\<lambda>u. decoded (dp_token dp) req (\<lambda>input.
        let name = trim_space (ti_name input);
            minutes = (if ti_minutes input = 0 then 30 else ti_minutes input)
        in if name = [] \<or> 80 < length name then Reply (writeError 422 ''invalid_name'')
           else if minutes < 5 \<or> 1440 < minutes then Reply (writeError 422 ''invalid_expiration'')
           else new_token 32 (\<lambda>t. case t of
               Inl e \<Rightarrow> Reply (writeError 500 ''internal_error'')
             | Inr raw \<Rightarrow>
                 new_id ''ent'' (\<lambda>r. case r of
                   Inl e \<Rightarrow> Reply (writeError 500 ''internal_error'')
                 | Inr tid \<Rightarrow>
                     Clock (\<lambda>now.
                       let expires = now + minutes * go_minute
                       in Op (OpCreateEnrollmentToken \<lparr>token_id = tid, token_name = name,
                              token_hash = TokenHash (dp_crypto dp) raw, token_created_by = user_id u,
                              token_expires_at = expires, token_created_at = now, token_used_at = None\<rparr>)
                            (\<lambda>res. case res of
                               Inl e \<Rightarrow> Reply (writeError 500 ''storage_error'')
                             | Inr v \<Rightarrow>
                                 audit req ''user'' (user_id u) ''enrollment_token.create'' ''enrollment_token'' tid
                                   [(''name'', DText name)]
                                   (Reply (writeJSON 201 (TokenBody tid name raw expires))))))))))"

definition enroll_input_ok :: "enroll_input \<Rightarrow> bool" where
  "enroll_input_ok i \<longleftrightarrow> \<not> (ei_token i = [] \<or> ei_name i = [] \<or> 80 < length (ei_name i) \<or> ei_architecture i = []
     \<or> 32 < length (ei_architecture i) \<or> ei_version i = [] \<or> 32 < length (ei_version i) \<or> 80 < length (ei_region i))"

definition trimmed_enroll :: "enroll_input \<Rightarrow> enroll_input" where
  "trimmed_enroll i = i\<lparr>ei_name := trim_space (ei_name i), ei_region := trim_space (ei_region i),
     ei_architecture := trim_space (ei_architecture i), ei_version := trim_space (ei_version i)\<rparr>"

definition enrollAgent :: "deps \<Rightarrow> web_request \<Rightarrow> prog" where
  "enrollAgent dp req =
     (if wr_method req \<noteq> ''POST'' then Reply (methodNotAllowed ''POST'')
      else decoded (dp_enroll dp) req (\<lambda>raw_input.
        let input = trimmed_enroll raw_input in
        if \<not> enroll_input_ok input then Reply (writeError 422 ''invalid_agent'')
        else new_token 48 (\<lambda>c. case c of
            Inl e \<Rightarrow> Reply (writeError 500 ''internal_error'')
          | Inr credential \<Rightarrow>
              new_id ''nod'' (\<lambda>r. case r of
                Inl e \<Rightarrow> Reply (writeError 500 ''internal_error'')
              | Inr nid \<Rightarrow>
                  Clock (\<lambda>now.
                    Op (OpEnrollAgent (TokenHash (dp_crypto dp) (ei_token input)) now
                         \<lparr>agent_id = nid, agent_name = ei_name input, agent_region = ei_region input,
                          agent_public_ip = remoteIP req, agent_architecture = ei_architecture input,
                          agent_version = ei_version input, agent_credential_hash = TokenHash (dp_crypto dp) credential,
                          agent_created_at = now\<rparr>)
                      (\<lambda>res. case res of
                         Inl ErrTokenInvalid \<Rightarrow> Reply (writeError 401 ''invalid_enrollment_token'')
                       | Inl e \<Rightarrow> Reply (writeError 500 ''storage_error'')
                       | Inr v \<Rightarrow>
                           let n = as_node v in
                           audit req ''agent'' (node_id n) ''agent.enroll'' ''node'' (node_id n) [(''name'', DText (node_name n))]
                             (Reply (writeJSON 201 (Enrolled n credential)))))))))"

section \<open>Heartbeats\<close>

definition invalidPercent :: "float64 \<Rightarrow> bool" where
  "invalidPercent v \<longleftrightarrow> float_lt v (Fin 0) \<or> float_lt (Fin 100) v \<or> float_is_nan v \<or> float_is_inf v"

definition maxSignedCounter :: u64 where
  "maxSignedCounter = 2 ^ 63 - 1"

abbreviation too_large :: "u64 \<Rightarrow> bool" where
  "too_large v \<equiv> maxSignedCounter < v"

definition trimmed_heartbeat :: "heartbeat_input \<Rightarrow> heartbeat_input" where
  "trimmed_heartbeat i = i\<lparr>hi_agent_version := trim_space (hi_agent_version i), hi_tunnel_address := trim_space (hi_tunnel_address i),
     hi_attempted_version := (if hi_attempted_version i = 0 then hi_config_version i else hi_attempted_version i)\<rparr>"

definition heartbeat_metrics_ok :: "heartbeat_input \<Rightarrow> bool" where
  "heartbeat_metrics_ok i \<longleftrightarrow> \<not> (hi_agent_version i = [] \<or> 32 < length (hi_agent_version i) \<or> hi_config_version i = 0
     \<or> hi_attempted_version i = 0 \<or> 2000 < length (hi_config_error i) \<or> 10000 < length (hi_rule_stats i)
     \<or> maxConnectionsPerHeartbeat < length (hi_connections i) \<or> maxAgentLogsPerHeartbeat < length (hi_logs i)
     \<or> invalidPercent (hi_cpu i) \<or> invalidPercent (hi_memory i) \<or> invalidPercent (hi_disk i)
     \<or> float_lt (hi_load i) (Fin 0) \<or> float_is_nan (hi_load i) \<or> float_is_inf (hi_load i))"

definition heartbeat_counters_ok :: "heartbeat_input \<Rightarrow> bool" where
  "heartbeat_counters_ok i \<longleftrightarrow> \<not> (too_large (hi_active i) \<or> too_large (hi_in i) \<or> too_large (hi_out i) \<or> too_large (hi_rx i)
     \<or> too_large (hi_tx i))"

definition stats_invalid :: "rule_stats \<Rightarrow> bool" where
  "stats_invalid s \<longleftrightarrow> stats_rule s = [] \<or> 128 < length (stats_rule s) \<or> too_large (stats_active s) \<or> too_large (stats_in s)
     \<or> too_large (stats_out s)"

text \<open>The three loops: \<open>None\<close> where an entry is invalid or its identifier was seen before.\<close>

fun stats_loop :: "rule_stats list \<Rightarrow> string set \<Rightarrow> rule_stats list option" where
  "stats_loop [] seen = Some []"
| "stats_loop (s # ss) seen =
     (if stats_invalid s then None
      else if stats_rule s \<in> seen then None
      else map_option (\<lambda>rest. s # rest) (stats_loop ss (insert (stats_rule s) seen)))"

definition trimmed_connection :: "(string \<Rightarrow> string) \<Rightarrow> connection_input \<Rightarrow> connection_input" where
  "trimmed_connection ul c = c\<lparr>ci_id := trim_space (ci_id c), ci_rule := trim_space (ci_rule c),
     ci_protocol := to_lower ul (trim_space (ci_protocol c)), ci_source := trim_space (ci_source c),
     ci_target := trim_space (ci_target c)\<rparr>"

definition connection_invalid :: "time \<Rightarrow> connection_input \<Rightarrow> bool" where
  "connection_invalid now c \<longleftrightarrow> ci_id c = [] \<or> 128 < length (ci_id c) \<or> ci_rule c = [] \<or> 128 < length (ci_rule c)
     \<or> ci_protocol c \<noteq> ''tcp'' \<and> ci_protocol c \<noteq> ''udp'' \<or> ci_source c = [] \<or> 300 < length (ci_source c)
     \<or> ci_target c = [] \<or> 300 < length (ci_target c) \<or> time_is_zero (ci_started_at c) \<or> time_is_zero (ci_last_activity c)
     \<or> ci_last_activity c < ci_started_at c \<or> now + 10 * go_minute < ci_started_at c
     \<or> now + 10 * go_minute < ci_last_activity c \<or> too_large (ci_bytes_in c) \<or> too_large (ci_bytes_out c)"

text \<open>The node and the time of observation are filled in by the store.\<close>

definition connection_entry :: "connection_input \<Rightarrow> active_connection" where
  "connection_entry c = \<lparr>conn_node = [], conn_id = ci_id c, conn_rule = ci_rule c, conn_protocol = ci_protocol c,
     conn_source = ci_source c, conn_target = ci_target c, conn_started_at = ci_started_at c,
     conn_last_activity = ci_last_activity c, conn_bytes_in = ci_bytes_in c, conn_bytes_out = ci_bytes_out c,
     conn_observed_at = 0\<rparr>"

fun connection_loop :: "(string \<Rightarrow> string) \<Rightarrow> time \<Rightarrow> connection_input list \<Rightarrow> string set \<Rightarrow> active_connection list option" where
  "connection_loop ul now [] seen = Some []"
| "connection_loop ul now (c # cs) seen =
     (let c' = trimmed_connection ul c in
      if connection_invalid now c' then None
      else if ci_id c' \<in> seen then None
      else map_option (\<lambda>rest. connection_entry c' # rest) (connection_loop ul now cs (insert (ci_id c') seen)))"

definition trimmed_log :: "(string \<Rightarrow> string) \<Rightarrow> log_input \<Rightarrow> log_input" where
  "trimmed_log ul e = e\<lparr>gi_id := trim_space (gi_id e), gi_level := to_lower ul (trim_space (gi_level e)),
     gi_component := trim_space (gi_component e), gi_message := trim_space (gi_message e)\<rparr>"

definition log_invalid :: "time \<Rightarrow> log_input \<Rightarrow> bool" where
  "log_invalid now e \<longleftrightarrow> gi_id e = [] \<or> 128 < length (gi_id e)
     \<or> gi_level e \<noteq> ''info'' \<and> gi_level e \<noteq> ''warning'' \<and> gi_level e \<noteq> ''error''
     \<or> gi_component e = [] \<or> 64 < length (gi_component e) \<or> gi_message e = [] \<or> 2000 < length (gi_message e)
     \<or> time_is_zero (gi_occurred_at e) \<or> gi_occurred_at e < now - 30 * 24 * go_hour \<or> now + 10 * go_minute < gi_occurred_at e"

definition log_line :: "log_input \<Rightarrow> agent_log" where
  "log_line e = \<lparr>log_node = [], log_event = gi_id e, log_level = gi_level e, log_component = gi_component e,
     log_message = gi_message e, log_occurred_at = gi_occurred_at e, log_received_at = 0\<rparr>"

fun log_loop :: "(string \<Rightarrow> string) \<Rightarrow> time \<Rightarrow> log_input list \<Rightarrow> string set \<Rightarrow> agent_log list option" where
  "log_loop ul now [] seen = Some []"
| "log_loop ul now (e # es) seen =
     (let e' = trimmed_log ul e in
      if log_invalid now e' then None
      else if gi_id e' \<in> seen then None
      else map_option (\<lambda>rest. log_line e' # rest) (log_loop ul now es (insert (gi_id e') seen)))"

definition checked_heartbeat :: "(string \<Rightarrow> string) \<Rightarrow> string \<Rightarrow> time \<Rightarrow> heartbeat_input \<Rightarrow> rule_stats list \<Rightarrow> agent_heartbeat option" where
  "checked_heartbeat ul ip now i rule_stats =
     (case connection_loop ul now (hi_connections i) {} of
        None \<Rightarrow> None
      | Some connections \<Rightarrow>
          (case log_loop ul now (hi_logs i) {} of
             None \<Rightarrow> None
           | Some logs \<Rightarrow> Some
               \<lparr>hb_public_ip = ip, hb_tunnel_address = hi_tunnel_address i, hb_agent_version = hi_agent_version i,
                hb_config_version = hi_config_version i, hb_attempted_version = hi_attempted_version i,
                hb_config_error = hi_config_error i, hb_cpu = hi_cpu i, hb_memory = hi_memory i, hb_load = hi_load i,
                hb_disk = hi_disk i, hb_rx = hi_rx i, hb_tx = hi_tx i, hb_active = hi_active i, hb_in = hi_in i, hb_out = hi_out i,
                hb_rule_stats = rule_stats, hb_connections = connections, hb_complete = hi_complete i, hb_logs = logs,
                hb_received_at = now\<rparr>))"

definition agentHeartbeat :: "deps \<Rightarrow> web_request \<Rightarrow> prog" where
  "agentHeartbeat dp req =
     (if wr_method req \<noteq> ''POST'' then Reply (methodNotAllowed ''POST'')
      else case requireAgentCredentials req of
        Inl r \<Rightarrow> Reply r
      | Inr (nid, credential) \<Rightarrow>
          decoded (dp_heartbeat dp) req (\<lambda>raw_input.
            let i = trimmed_heartbeat raw_input;
                invalid = Reply (writeError 422 ''invalid_heartbeat'')
            in if \<not> heartbeat_metrics_ok i then invalid
               else if \<not> heartbeat_counters_ok i then invalid
               else if hi_tunnel_address i \<noteq> [] \<and> \<not> ValidTunnelAddress (hi_tunnel_address i) then invalid
               else case stats_loop (hi_rule_stats i) {} of
                 None \<Rightarrow> invalid
               | Some rule_stats \<Rightarrow>
                   Clock (\<lambda>now. case checked_heartbeat (dp_lower dp) (remoteIP req) now i rule_stats of
                     None \<Rightarrow> invalid
                   | Some hb \<Rightarrow>
                       Op (OpHeartbeat nid (TokenHash (dp_crypto dp) credential) hb) (\<lambda>res. case res of
                         Inl ErrNotFound \<Rightarrow> Reply (writeError 401 ''invalid_agent_credentials'')
                       | Inl e \<Rightarrow> Reply (writeError 500 ''storage_error'')
                       | Inr v \<Rightarrow>
                           let version = node_config_version (as_node v)
                           in Reply (writeJSON 200 (HeartbeatBody now version (version \<noteq> hi_config_version i)
                                (heartbeatInterval div go_second)))))))"

definition agentConfig :: "deps \<Rightarrow> web_request \<Rightarrow> prog" where
  "agentConfig dp req =
     (if wr_method req \<noteq> ''GET'' then Reply (methodNotAllowed ''GET'')
      else case requireAgentCredentials req of
        Inl r \<Rightarrow> Reply r
      | Inr (nid, credential) \<Rightarrow>
          Read (\<lambda>m. case ConfigForAgent nid (TokenHash (dp_crypto dp) credential) m of
            Inl ErrNotFound \<Rightarrow> Reply (writeError 401 ''invalid_agent_credentials'')
          | Inl e \<Rightarrow> Reply (writeError 500 ''storage_error'')
          | Inr c \<Rightarrow> Reply (with_header ''Cache-Control'' ''no-store'' (writeJSON 200 (ConfigBody (config_version c) (config_rules c))))))"

section \<open>What passes\<close>

lemma fresh_keys: "\<forall>x \<in> set xs. f x \<notin> insert k S \<Longrightarrow> k \<notin> f ` set xs \<and> (\<forall>x \<in> set xs. f x \<notin> S)"
  by auto

lemma entry_ids [simp]: "conn_id (connection_entry c) = ci_id c" "log_event (log_line e) = gi_id e"
  by (simp_all add: connection_entry_def log_line_def)

lemma stats_loop_Some:
  assumes "stats_loop ss seen = Some out"
  shows "out = ss \<and> (\<forall>s \<in> set out. \<not> stats_invalid s) \<and> distinct (map stats_rule out) \<and> (\<forall>s \<in> set out. stats_rule s \<notin> seen)"
  using assms
proof (induction ss arbitrary: seen out)
  case (Cons s ss)
  obtain rest where r: "stats_loop ss (insert (stats_rule s) seen) = Some rest" "out = s # rest" "\<not> stats_invalid s" "stats_rule s \<notin> seen"
    using Cons.prems by (auto split: if_splits)
  from Cons.IH [OF r(1)] have ih: "rest = ss" "distinct (map stats_rule rest)" "\<forall>x \<in> set rest. stats_rule x \<notin> insert (stats_rule s) seen"
    "\<forall>x \<in> set ss. \<not> stats_invalid x"
    by blast+
  with fresh_keys [OF ih(3)] r(2-4) show ?case by (auto simp: comp_def)
qed simp

lemma connection_loop_Some:
  assumes "connection_loop ul now cs seen = Some out"
  shows "out = map (\<lambda>c. connection_entry (trimmed_connection ul c)) cs
    \<and> (\<forall>c \<in> set cs. \<not> connection_invalid now (trimmed_connection ul c))
    \<and> distinct (map conn_id out) \<and> (\<forall>c \<in> set out. conn_id c \<notin> seen)"
  using assms
proof (induction cs arbitrary: seen out)
  case (Cons c cs)
  let ?c = "trimmed_connection ul c"
  obtain rest where r: "connection_loop ul now cs (insert (ci_id ?c) seen) = Some rest" "out = connection_entry ?c # rest"
      "\<not> connection_invalid now ?c" "ci_id ?c \<notin> seen"
    using Cons.prems by (auto simp: Let_def split: if_splits)
  from Cons.IH [OF r(1)] have ih: "rest = map (\<lambda>c. connection_entry (trimmed_connection ul c)) cs" "distinct (map conn_id rest)" "\<forall>x \<in> set rest. conn_id x \<notin> insert (ci_id ?c) seen"
    "\<forall>x \<in> set cs. \<not> connection_invalid now (trimmed_connection ul x)"
    by blast+
  with fresh_keys [OF ih(3)] r(2-4) show ?case by (auto simp: comp_def)
qed simp

lemma log_loop_Some:
  assumes "log_loop ul now es seen = Some out"
  shows "out = map (\<lambda>e. log_line (trimmed_log ul e)) es \<and> (\<forall>e \<in> set es. \<not> log_invalid now (trimmed_log ul e))
    \<and> distinct (map log_event out) \<and> (\<forall>e \<in> set out. log_event e \<notin> seen)"
  using assms
proof (induction es arbitrary: seen out)
  case (Cons e es)
  let ?e = "trimmed_log ul e"
  obtain rest where r: "log_loop ul now es (insert (gi_id ?e) seen) = Some rest" "out = log_line ?e # rest"
      "\<not> log_invalid now ?e" "gi_id ?e \<notin> seen"
    using Cons.prems by (auto simp: Let_def split: if_splits)
  from Cons.IH [OF r(1)] have ih: "rest = map (\<lambda>e. log_line (trimmed_log ul e)) es" "distinct (map log_event rest)" "\<forall>x \<in> set rest. log_event x \<notin> insert (gi_id ?e) seen"
    "\<forall>x \<in> set es. \<not> log_invalid now (trimmed_log ul x)"
    by blast+
  with fresh_keys [OF ih(3)] r(2-4) show ?case by (auto simp: comp_def)
qed simp

end
