(* ===== verification/ServerRules.thy ===== *)
theory ServerRules
  imports ServerState
begin

text \<open>
  The handlers of forwarding rules (\<open>server.go\<close>, from \<open>forwardRules\<close> to \<open>writeForwardRuleStoreError\<close>), and what holds
  of a rule they hand to the store.
\<close>

definition sensitiveTarget :: "string \<Rightarrow> bool" where
  "sensitiveTarget host =
     (if equal_fold host ''localhost'' \<or> equal_fold host ''metadata.google.internal'' then True
      else case parse_ip host of
        None \<Rightarrow> False
      | Some address \<Rightarrow> is_loopback address \<or> is_link_local_unicast address \<or> is_link_local_multicast address
                        \<or> is_unspecified address)"

definition host_char :: "char \<Rightarrow> bool" where
  "host_char c \<longleftrightarrow> is_lower c \<or> is_upper c \<or> is_digit c \<or> c = CHR ''.'' \<or> c = CHR ''-'' \<or> c = CHR ''_''"

definition validTargetHost :: "string \<Rightarrow> bool" where
  "validTargetHost host =
     (if parse_ip host \<noteq> None then True
      else if host = [] \<or> 253 < length host \<or> has_prefix host ''.'' \<or> has_suffix host ''.'' then False
      else list_all host_char host)"

section \<open>Building a rule\<close>

text \<open>The input with its texts trimmed and the defaults filled in.\<close>

definition normal_rule_input :: "forward_rule_input \<Rightarrow> forward_rule_input" where
  "normal_rule_input i =
     (let host = trim_space (fi_listen_host i); mode = trim_space (fi_mode i)
      in i\<lparr>fi_name := trim_space (fi_name i), fi_mode := (if mode = [] then ForwardDirect else mode),
           fi_ingress := trim_space (fi_ingress i), fi_egress := trim_space (fi_egress i),
           fi_listen_host := (if host = [] then ''0.0.0.0'' else host), fi_target_host := trim_space (fi_target_host i),
           fi_protocol := (if fi_protocol i = [] then ProtocolTCP else fi_protocol i)\<rparr>)"

definition input_rule :: "string \<Rightarrow> forward_rule_input \<Rightarrow> forward_rule" where
  "input_rule rid i = zero_rule\<lparr>rule_id := rid, rule_name := fi_name i, rule_protocol := fi_protocol i, rule_mode := fi_mode i,
     rule_ingress := fi_ingress i, rule_egress := fi_egress i, rule_listen_host := fi_listen_host i,
     rule_listen_port := fi_listen_port i, rule_target_host := fi_target_host i, rule_target_port := fi_target_port i,
     rule_relay_port := fi_relay_port i, rule_enabled := fi_enabled i, rule_bandwidth_kbps := fi_bandwidth_kbps i,
     rule_max_connections := fi_max_connections i, rule_allow_cidrs := fi_allow_cidrs i, rule_deny_cidrs := fi_deny_cidrs i\<rparr>"

text \<open>The checks before the nodes are read: the response of the first that fails.\<close>

definition early_error :: "role \<Rightarrow> forward_rule \<Rightarrow> web_response option" where
  "early_error role r =
     (if 80 < length (rule_name r) \<or> 253 < length (rule_target_host r) \<or> 45 < length (rule_listen_host r)
         \<or> 100 < length (rule_allow_cidrs r) \<or> 100 < length (rule_deny_cidrs r) \<or> 1000000 < rule_max_connections r
         \<or> MaxBandwidthKbps < rule_bandwidth_kbps r then Some (writeError 422 ''invalid_rule'')
      else if rule_protocol r \<noteq> ProtocolTCP \<and> rule_protocol r \<noteq> ProtocolUDP \<and> rule_protocol r \<noteq> ProtocolTCPUDP
        then Some (writeError 422 ''unsupported_rule'')
      else if rule_mode r \<noteq> ForwardDirect \<and> rule_mode r \<noteq> ForwardRelay then Some (writeError 422 ''unsupported_rule'')
      else if rule_mode r = ForwardDirect \<and> rule_egress r \<noteq> [] then Some (writeError 422 ''invalid_rule'')
      else if rule_mode r = ForwardDirect \<and> rule_relay_port r \<noteq> 0 then Some (writeError 422 ''invalid_rule'')
      else if rule_mode r = ForwardRelay \<and> role \<noteq> RoleAdmin then Some (writeError 403 ''permission_denied'')
      else None)"

text \<open>The loop over the nodes: whether the ingress has a tunnel address, and the rule with the egress's as its relay host.\<close>

definition relay_node :: "node \<Rightarrow> bool \<times> forward_rule \<Rightarrow> bool \<times> forward_rule" where
  "relay_node n p =
     (let (ready, r) = p;
          ready' = (if node_id n = rule_ingress r then ValidTunnelAddress (node_tunnel_address n) else ready);
          r' = (if node_id n = rule_egress r then r\<lparr>rule_relay_host := node_tunnel_address n\<rparr> else r)
      in (ready', r'))"

definition with_relay :: "node list \<Rightarrow> forward_rule \<Rightarrow> web_response + forward_rule" where
  "with_relay nodes r =
     (let (ready, r') = fold relay_node nodes
            (False, if rule_relay_port r = 0 then r\<lparr>rule_relay_port := rule_listen_port r\<rparr> else r)
      in if rule_enabled r' \<and> (\<not> ready \<or> \<not> ValidTunnelAddress (rule_relay_host r'))
         then Inl (writeError 422 ''relay_not_provisioned'') else Inr r')"

text \<open>The checks after.\<close>

definition late_error :: "role \<Rightarrow> forward_rule \<Rightarrow> web_response option" where
  "late_error role r =
     (if (case parse_ip (rule_listen_host r) of None \<Rightarrow> True | Some address \<Rightarrow> is_multicast address)
        then Some (writeError 422 ''invalid_listen_host'')
      else if \<not> validTargetHost (rule_target_host r) then Some (writeError 422 ''invalid_target_host'')
      else if role \<noteq> RoleAdmin \<and> sensitiveTarget (rule_target_host r) then Some (writeError 403 ''sensitive_target'')
      else if rule_validate r \<noteq> None then Some (writeError 422 ''invalid_rule'')
      else None)"

definition finish_rule :: "role \<Rightarrow> forward_rule \<Rightarrow> (forward_rule \<Rightarrow> prog) \<Rightarrow> prog" where
  "finish_rule role r k = (case late_error role r of Some e \<Rightarrow> Reply e | None \<Rightarrow> k r)"

definition rule_from :: "role \<Rightarrow> forward_rule_input \<Rightarrow> string \<Rightarrow> (forward_rule \<Rightarrow> prog) \<Rightarrow> prog" where
  "rule_from role i rid k =
     (let r = input_rule rid i in
      case early_error role r of
        Some e \<Rightarrow> Reply e
      | None \<Rightarrow>
          if rule_mode r = ForwardRelay
          then Read (\<lambda>m. case with_relay (ListNodes m) r of Inl e \<Rightarrow> Reply e | Inr r' \<Rightarrow> finish_rule role r' k)
          else finish_rule role r k)"

definition buildForwardRule :: "forward_rule_input \<Rightarrow> string \<Rightarrow> role \<Rightarrow> (forward_rule \<Rightarrow> prog) \<Rightarrow> prog" where
  "buildForwardRule input rid role k =
     (let i = normal_rule_input input in
      if rid = []
      then new_id ''rul'' (\<lambda>r. case r of
             Inl e \<Rightarrow> Reply (writeError 500 ''internal_error'')
           | Inr rid' \<Rightarrow> rule_from role i rid' k)
      else rule_from role i rid k)"

definition writeForwardRuleStoreError :: "store_error \<Rightarrow> web_response" where
  "writeForwardRuleStoreError e =
     (case e of ErrNotFound \<Rightarrow> writeError 404 ''not_found'' | ErrConflict \<Rightarrow> writeError 409 ''listener_conflict''
      | _ \<Rightarrow> writeError 500 ''storage_error'')"

definition rule_details :: "forward_rule \<Rightarrow> (string, detail) gomap" where
  "rule_details r = [(''name'', DText (rule_name r)), (''mode'', DText (rule_mode r)),
     (''ingressNodeId'', DText (rule_ingress r)), (''egressNodeId'', DText (rule_egress r))]"

definition forwardRules :: "deps \<Rightarrow> web_request \<Rightarrow> prog" where
  "forwardRules dp req =
     requireUser dp req [] (\<lambda>u.
       if wr_method req = ''GET'' then Read (\<lambda>m. Reply (writeJSON 200 (RuleItems (ListForwardRules m))))
       else if wr_method req = ''POST''
         then decoded (dp_rule dp) req (\<lambda>input. buildForwardRule input [] (user_role u) (\<lambda>r.
                Op (OpCreateRule r) (\<lambda>res. case res of
                  Inl e \<Rightarrow> Reply (writeForwardRuleStoreError e)
                | Inr v \<Rightarrow>
                    let created = as_rule v in
                    audit req ''user'' (user_id u) ''forward_rule.create'' ''forward_rule'' (rule_id created) (rule_details created)
                      (Reply (writeJSON 201 (RuleBody created))))))
       else Reply (methodNotAllowed ''GET, POST''))"

abbreviation "rules_path \<equiv> ''/api/v1/forward-rules/''"

definition forwardRule :: "deps \<Rightarrow> web_request \<Rightarrow> prog" where
  "forwardRule dp req =
     requireUser dp req [] (\<lambda>u.
       let rid = trim_prefix (wr_path req) rules_path in
       if rid = [] \<or> contains_char rid (CHR ''/'') \<or> 128 < length rid then Reply (writeError 404 ''not_found'')
       else if wr_method req = ''PUT''
         then decoded (dp_rule dp) req (\<lambda>input. buildForwardRule input rid (user_role u) (\<lambda>r.
                Op (OpUpdateRule r) (\<lambda>res. case res of
                  Inl e \<Rightarrow> Reply (writeForwardRuleStoreError e)
                | Inr v \<Rightarrow>
                    let updated = as_rule v in
                    audit req ''user'' (user_id u) ''forward_rule.update'' ''forward_rule'' (rule_id updated) (rule_details updated)
                      (Reply (writeJSON 200 (RuleBody updated))))))
       else if wr_method req = ''DELETE''
         then Op (OpDeleteRule rid) (\<lambda>res. case res of
                Inl e \<Rightarrow> Reply (writeForwardRuleStoreError e)
              | Inr v \<Rightarrow> audit req ''user'' (user_id u) ''forward_rule.delete'' ''forward_rule'' rid [] (Reply no_content))
       else Reply (methodNotAllowed ''PUT, DELETE''))"

section \<open>What a built rule satisfies\<close>

text \<open>Within the limits, valid, and for a member direct and to no sensitive target.\<close>

definition rule_admissible :: "role \<Rightarrow> forward_rule \<Rightarrow> bool" where
  "rule_admissible role r \<longleftrightarrow> rule_validate r = None \<and> validTargetHost (rule_target_host r)
     \<and> (\<exists>address. parse_ip (rule_listen_host r) = Some address \<and> \<not> is_multicast address)
     \<and> length (rule_name r) \<le> 80 \<and> length (rule_target_host r) \<le> 253 \<and> length (rule_listen_host r) \<le> 45
     \<and> length (rule_allow_cidrs r) \<le> 100 \<and> length (rule_deny_cidrs r) \<le> 100 \<and> rule_max_connections r \<le> 1000000
     \<and> rule_bandwidth_kbps r \<le> MaxBandwidthKbps
     \<and> (role \<noteq> RoleAdmin \<longrightarrow> rule_mode r = ForwardDirect \<and> \<not> sensitiveTarget (rule_target_host r))"

lemma late_error_None:
  "late_error role r = None \<longleftrightarrow> (\<exists>address. parse_ip (rule_listen_host r) = Some address \<and> \<not> is_multicast address)
     \<and> validTargetHost (rule_target_host r) \<and> (role \<noteq> RoleAdmin \<longrightarrow> \<not> sensitiveTarget (rule_target_host r))
     \<and> rule_validate r = None"
  by (auto simp: late_error_def split: option.split)

text \<open>A relay changes nothing but the relay endpoint.\<close>

definition without_relay :: "forward_rule \<Rightarrow> forward_rule" where
  "without_relay r = r\<lparr>rule_relay_host := [], rule_relay_port := 0\<rparr>"

lemma relay_node_same: "without_relay (snd (relay_node n p)) = without_relay (snd p)"
  by (simp add: without_relay_def relay_node_def Let_def split_beta)

lemma fold_relay_node_same: "without_relay (snd (fold relay_node ns p)) = without_relay (snd p)"
  by (induction ns arbitrary: p) (simp_all add: relay_node_same)

lemma with_relay_same: "with_relay nodes r = Inr r' \<Longrightarrow> without_relay r' = without_relay r"
  using fold_relay_node_same [of nodes "(False, if rule_relay_port r = 0 then r\<lparr>rule_relay_port := rule_listen_port r\<rparr> else r)"]
  by (auto simp: with_relay_def Let_def split_beta split: if_splits) (simp_all add: without_relay_def)

lemma without_relay_fields:
  assumes "without_relay r' = without_relay r"
  shows "rule_id r' = rule_id r" "rule_name r' = rule_name r" "rule_mode r' = rule_mode r" "rule_target_host r' = rule_target_host r"
    "rule_listen_host r' = rule_listen_host r" "rule_allow_cidrs r' = rule_allow_cidrs r" "rule_deny_cidrs r' = rule_deny_cidrs r"
    "rule_max_connections r' = rule_max_connections r" "rule_bandwidth_kbps r' = rule_bandwidth_kbps r"
  using assms by (cases r; cases r'; simp add: without_relay_def)+

lemma admissible:
  assumes "early_error role r = None" "without_relay r' = without_relay r" "late_error role r' = None"
  shows "rule_admissible role r'"
proof -
  have "\<not> (rule_mode r = ForwardRelay \<and> role \<noteq> RoleAdmin)" "rule_mode r = ForwardDirect \<or> rule_mode r = ForwardRelay"
    using assms(1) by (auto simp: early_error_def split: if_splits)
  moreover have "\<not> (80 < length (rule_name r) \<or> 253 < length (rule_target_host r) \<or> 45 < length (rule_listen_host r)
      \<or> 100 < length (rule_allow_cidrs r) \<or> 100 < length (rule_deny_cidrs r) \<or> 1000000 < rule_max_connections r
      \<or> MaxBandwidthKbps < rule_bandwidth_kbps r)"
    using assms(1) by (auto simp: early_error_def split: if_splits)
  ultimately show ?thesis
    using assms(3) unfolding late_error_None rule_admissible_def
    by (auto simp: without_relay_fields [OF assms(2)] not_less)
qed

lemma admissible_rule_ok: "rule_admissible role r \<Longrightarrow> rule_ok r"
  by (auto simp: rule_admissible_def rule_ok_def rule_validate_def split: if_splits)

lemma early_error_form: "early_error role r = Some e \<Longrightarrow> \<exists>status code. e = writeError status code"
  by (auto simp: early_error_def split: if_splits)

lemma late_error_form: "late_error role r = Some e \<Longrightarrow> \<exists>status code. e = writeError status code"
  by (auto simp: late_error_def split: if_splits)

lemma with_relay_form: "with_relay nodes r = Inl e \<Longrightarrow> \<exists>status code. e = writeError status code"
  by (auto simp: with_relay_def Let_def split_beta split: if_splits)

lemma always_finish_rule:
  assumes "\<And>status code. Q h (writeError status code)" "late_error role r = None \<Longrightarrow> always P Q (k r) h"
  shows "always P Q (finish_rule role r k) h"
proof (cases "late_error role r")
  case (Some e)
  then obtain status code where "e = writeError status code" using late_error_form by blast
  with Some assms(1) show ?thesis by (simp add: finish_rule_def)
qed (simp add: finish_rule_def assms(2))

lemma always_rule_from:
  assumes "\<And>h' status code. set h \<subseteq> set h' \<Longrightarrow> Q h' (writeError status code)"
    and "\<And>h' r. set h \<subseteq> set h' \<Longrightarrow> rule_admissible role r \<Longrightarrow> rule_id r = rid \<Longrightarrow> always P Q (k r) h'"
  shows "always P Q (rule_from role i rid k) h"
proof -
  let ?r = "input_rule rid i"
  have id: "rule_id ?r = rid" by (simp add: input_rule_def)
  have finish: "always P Q (finish_rule role r k) h'"
    if "set h \<subseteq> set h'" "early_error role ?r = None" "without_relay r = without_relay ?r" for h' r
  proof (rule always_finish_rule)
    show "Q h' (writeError status code)" for status code by (rule assms(1) [OF that(1)])
    assume "late_error role r = None"
    then show "always P Q (k r) h'"
      by (rule assms(2) [OF that(1) admissible [OF that(2,3)]]) (simp add: without_relay_fields [OF that(3)] id)
  qed
  have relay: "always P Q (case with_relay nodes ?r of Inl e \<Rightarrow> Reply e | Inr r' \<Rightarrow> finish_rule role r' k) (ERead m # h)"
    if "early_error role ?r = None" for nodes m
  proof (cases "with_relay nodes ?r")
    case (Inl e)
    then obtain status code where "e = writeError status code" using with_relay_form by blast
    with Inl assms(1) [of "ERead m # h"] show ?thesis by auto
  next
    case (Inr r')
    have "always P Q (finish_rule role r' k) (ERead m # h)"
      by (rule finish [OF _ that with_relay_same [OF Inr]]) auto
    with Inr show ?thesis by simp
  qed
  show ?thesis
  proof (cases "early_error role ?r")
    case None
    then show ?thesis using finish [of h ?r] relay by (simp add: rule_from_def Let_def)
  next
    case (Some e)
    then obtain status code where "e = writeError status code" using early_error_form by blast
    with Some assms(1) [of h] show ?thesis by (simp add: rule_from_def Let_def)
  qed
qed

lemma always_buildForwardRule [helper_rules]:
  assumes "\<And>h' status code. set h \<subseteq> set h' \<Longrightarrow> Q h' (writeError status code)"
    and "\<And>h' r. set h \<subseteq> set h' \<Longrightarrow> rule_admissible role r \<Longrightarrow> rid \<noteq> [] \<longrightarrow> rule_id r = rid \<Longrightarrow> always P Q (k r) h'"
  shows "always P Q (buildForwardRule input rid role k) h"
proof -
  have build: "always P Q (rule_from role i rid' k) h'" if "set h \<subseteq> set h'" "rid \<noteq> [] \<longrightarrow> rid' = rid" for h' rid' i
  proof (rule always_rule_from)
    show "Q h'' (writeError status code)" if "set h' \<subseteq> set h''" for h'' status code
      by (rule assms(1)) (use that \<open>set h \<subseteq> set h'\<close> in blast)
    show "always P Q (k r) h''" if "set h' \<subseteq> set h''" "rule_admissible role r" "rule_id r = rid'" for h'' r
      by (rule assms(2)) (use that \<open>set h \<subseteq> set h'\<close> \<open>rid \<noteq> [] \<longrightarrow> rid' = rid\<close> in auto)
  qed
  have "always P Q (case NewID d ''rul'' of Inl e \<Rightarrow> Reply (writeError 500 ''internal_error'') | Inr rid' \<Rightarrow> rule_from role i rid' k)
      (ERandom 12 d # h)" if "rid = []" for d i
    using assms(1) [of "ERandom 12 d # h"] build [of "ERandom 12 d # h"] that by (auto split: sum.split)
  moreover have "always P Q (rule_from role i rid k) h" for i by (rule build) auto
  ultimately show ?thesis by (simp add: buildForwardRule_def new_id_def Let_def)
qed

end
