(* ===== verification/ServerViews.thy ===== *)
theory ServerViews
  imports ServerState
begin

text \<open>
  The reading handlers: nodes, the dashboard, charts, audit records, logs, connections and settings (\<open>server.go\<close>,
  \<open>nodes\<close>, \<open>nodeDetail\<close> and from \<open>dashboardSummary\<close> to \<open>systemSettings\<close>).
\<close>

definition get_only :: "web_request \<Rightarrow> prog \<Rightarrow> prog" where
  "get_only req p = (if wr_method req \<noteq> ''GET'' then Reply (methodNotAllowed ''GET'') else p)"

text \<open>A number of the query between 1 and \<open>most\<close>, and a cursor; the default (the zero time) where it is absent.\<close>

definition query_number :: "web_request \<Rightarrow> string \<Rightarrow> int \<Rightarrow> int \<Rightarrow> string \<Rightarrow> (int \<Rightarrow> prog) \<Rightarrow> prog" where
  "query_number req name missing most code k =
     (let raw = query_value req name in
      if raw = [] then k missing
      else case atoi raw of
        None \<Rightarrow> Reply (writeError 422 code)
      | Some v \<Rightarrow> if v < 1 \<or> most < v then Reply (writeError 422 code) else k v)"

definition query_before :: "deps \<Rightarrow> web_request \<Rightarrow> (time \<Rightarrow> prog) \<Rightarrow> prog" where
  "query_before dp req k =
     (let raw = query_value req ''before'' in
      if raw = [] then k 0
      else case dp_time dp raw of None \<Rightarrow> Reply (writeError 422 ''invalid_cursor'') | Some t \<Rightarrow> k t)"

section \<open>Nodes and charts\<close>

definition nodes_handler :: "deps \<Rightarrow> web_request \<Rightarrow> prog" where
  "nodes_handler dp req =
     get_only req (requireUser dp req [] (\<lambda>u.
       Read (\<lambda>m. Clock (\<lambda>now. Reply (writeJSON 200 (NodeItems (effectiveNodeStatuses now (ListNodes m))))))))"

definition detail_interval :: "int \<Rightarrow> duration" where
  "detail_interval hours =
     (if hours \<le> 6 then 5 * go_minute else if 168 < hours then 6 * go_hour else if 24 < hours then 2 * go_hour else 30 * go_minute)"

abbreviation "nodes_path \<equiv> ''/api/v1/nodes/''"

definition nodeDetail :: "deps \<Rightarrow> web_request \<Rightarrow> prog" where
  "nodeDetail dp req =
     get_only req (requireUser dp req [] (\<lambda>u.
       let nid = trim_space (trim_prefix (wr_path req) nodes_path) in
       if nid = [] \<or> 128 < length nid \<or> contains_char nid (CHR ''/'') then Reply (writeError 404 ''not_found'')
       else query_number req ''hours'' 24 720 ''invalid_range'' (\<lambda>hours.
         Read (\<lambda>m. Clock (\<lambda>now.
           case find (\<lambda>n. node_id n = nid) (effectiveNodeStatuses now (ListNodes m)) of
             None \<Rightarrow> Reply (writeError 404 ''not_found'')
           | Some n \<Rightarrow>
               Clock (\<lambda>to.
                 let from = to - hours * go_hour; interval = detail_interval hours
                 in Read (\<lambda>m2. case NodeMetricHistory nid from to interval m2 of
                      None \<Rightarrow> NoReply
                    | Some points \<Rightarrow>
                        Read (\<lambda>m3. Reply (writeJSON 200 (NodeBody
                          \<lparr>nv_node = n,
                           nv_rules = filter (\<lambda>r. rule_ingress r = nid \<or> rule_egress r = nid) (ListForwardRules m3),
                           nv_from = from, nv_to = to, nv_interval_seconds = go_div interval go_second,
                           nv_upload = sum_list (map point_upload points), nv_download = sum_list (map point_download points),
                           nv_points = points\<rparr>))))))))))"

definition healthy_rule :: "(string, node) gomap \<Rightarrow> forward_rule \<Rightarrow> bool" where
  "healthy_rule by_id r =
     (case map_of by_id (rule_ingress r) of
        None \<Rightarrow> False
      | Some n \<Rightarrow> node_status n = NodeOnline \<and> rule_config_version r \<le> node_applied_config_version n)"

definition summary_of :: "node list \<Rightarrow> forward_rule list \<Rightarrow> traffic_point list \<Rightarrow> summary" where
  "summary_of ns rs traffic =
     (let by_id = fold (\<lambda>n. gput (node_id n) n) ns [];
          enabled = filter rule_enabled rs
      in \<lparr>sum_online = length (filter (\<lambda>n. node_status n = NodeOnline) ns),
          sum_offline = length (filter (\<lambda>n. node_status n \<noteq> NodeOnline) ns),
          sum_healthy = length (filter (healthy_rule by_id) enabled),
          sum_degraded = length (filter (\<lambda>r. \<not> healthy_rule by_id r) enabled),
          sum_stopped = length (filter (\<lambda>r. \<not> rule_enabled r) rs),
          sum_connections = sum_list (map node_active_conns ns),
          sum_upload = sum_list (map traffic_upload traffic), sum_download = sum_list (map traffic_download traffic)\<rparr>)"

definition dashboardSummary :: "deps \<Rightarrow> web_request \<Rightarrow> prog" where
  "dashboardSummary dp req =
     get_only req (requireUser dp req [] (\<lambda>u.
       Read (\<lambda>m. Clock (\<lambda>now. Read (\<lambda>m2. Clock (\<lambda>to. Read (\<lambda>m3.
         case TrafficHistory (to - 24 * go_hour) to (30 * go_minute) m3 of
           None \<Rightarrow> NoReply
         | Some traffic \<Rightarrow>
             Reply (writeJSON 200 (SummaryBody
               (summary_of (effectiveNodeStatuses now (ListNodes m)) (ListForwardRules m2) traffic))))))))))"

definition traffic_interval :: "int \<Rightarrow> duration" where
  "traffic_interval hours = (if hours \<le> 6 then 5 * go_minute else if 24 < hours then 2 * go_hour else 30 * go_minute)"

definition traffic_handler :: "deps \<Rightarrow> web_request \<Rightarrow> prog" where
  "traffic_handler dp req =
     get_only req (requireUser dp req [] (\<lambda>u.
       query_number req ''hours'' 24 168 ''invalid_range'' (\<lambda>hours.
         Clock (\<lambda>to.
           let from = to - hours * go_hour; interval = traffic_interval hours
           in Read (\<lambda>m. case TrafficHistory from to interval m of
                None \<Rightarrow> NoReply
              | Some points \<Rightarrow> Reply (writeJSON 200 (TrafficBody
                  \<lparr>tv_from = from, tv_to = to, tv_interval_seconds = go_div interval go_second,
                   tv_upload = sum_list (map traffic_upload points), tv_download = sum_list (map traffic_download points),
                   tv_points = points\<rparr>)))))))"

section \<open>Audit records, logs and connections\<close>

definition auditEvents :: "deps \<Rightarrow> web_request \<Rightarrow> prog" where
  "auditEvents dp req =
     get_only req (requireUser dp req RoleAdmin (\<lambda>u.
       query_number req ''limit'' 50 200 ''invalid_limit'' (\<lambda>limit. query_before dp req (\<lambda>before.
         Read (\<lambda>m. case ListAudit limit before m of
           None \<Rightarrow> NoReply
         | Some events \<Rightarrow> Reply (writeJSON 200 (AuditItems events
             (if int (length events) = limit then Some (audit_created_at (last events)) else None))))))))"

definition agentLogs :: "deps \<Rightarrow> web_request \<Rightarrow> prog" where
  "agentLogs dp req =
     get_only req (requireUser dp req RoleAdmin (\<lambda>u.
       let nid = trim_space (query_value req ''nodeId'');
           level = to_lower (dp_lower dp) (trim_space (query_value req ''level''))
       in if 128 < length nid \<or> level \<noteq> [] \<and> level \<noteq> ''info'' \<and> level \<noteq> ''warning'' \<and> level \<noteq> ''error''
          then Reply (writeError 422 ''invalid_filter'')
          else query_number req ''limit'' 100 200 ''invalid_limit'' (\<lambda>limit. query_before dp req (\<lambda>before.
            Read (\<lambda>m. case ListAgentLogs \<lparr>filter_node = nid, filter_level = level, filter_limit = limit, filter_before = before\<rparr> m of
              None \<Rightarrow> NoReply
            | Some entries \<Rightarrow> Reply (writeJSON 200 (LogItems entries
                (if int (length entries) = limit then Some (log_occurred_at (last entries)) else None))))))))"

definition activeConnections :: "deps \<Rightarrow> web_request \<Rightarrow> prog" where
  "activeConnections dp req =
     get_only req (requireUser dp req [] (\<lambda>u.
       Read (\<lambda>m. Clock (\<lambda>now. Reply (writeJSON 200 (ConnectionItems (ListActiveConnections m) now))))))"

section \<open>Settings\<close>

definition https_observed :: "web_request \<Rightarrow> bool" where
  "https_observed req \<longleftrightarrow> wr_tls req \<or> equal_fold (trim_space (wr_forwarded_proto req)) ''https''"

definition settings_of :: "server_settings \<Rightarrow> web_request \<Rightarrow> time \<Rightarrow> user list \<Rightarrow> settings_view" where
  "settings_of st req now us =
     (let uptime = time_sub now (ss_started_at st);
          administrators = length (filter (\<lambda>u. user_role u = RoleAdmin \<and> \<not> user_disabled u) us);
          checks = [(''storage_health'', True), (''persistent_storage'', ss_storage_mode st = ''postgres''),
                    (''release_version'', ss_version st \<noteq> [] \<and> ss_version st \<noteq> ''dev''),
                    (''secure_cookies'', ss_secure_cookies st), (''https'', https_observed req),
                    (''active_administrator'', 0 < administrators)]
      in \<lparr>sv_version = ss_version st, sv_started_at = ss_started_at st, sv_server_time = now,
          sv_uptime_seconds = go_div (if uptime < 0 then 0 else uptime) go_second, sv_secure_cookies = ss_secure_cookies st,
          sv_session_seconds = go_div (ss_session_ttl st) go_second, sv_storage_mode = ss_storage_mode st,
          sv_https = https_observed req, sv_administrators = administrators, sv_checks = checks, sv_ready = list_all snd checks\<rparr>)"

definition systemSettings :: "server_settings \<Rightarrow> deps \<Rightarrow> web_request \<Rightarrow> prog" where
  "systemSettings st dp req =
     get_only req (requireUser dp req RoleAdmin (\<lambda>u.
       Clock (\<lambda>now. Read (\<lambda>m. Reply (writeJSON 200 (SettingsBody (settings_of st req now (ListUsers m))))))))"

section \<open>Rules for the helpers\<close>

lemma always_get_only [helper_rules]:
  "Q h (methodNotAllowed ''GET'') \<Longrightarrow> always P Q p h \<Longrightarrow> always P Q (get_only req p) h"
  by (simp add: get_only_def)

lemma always_query_number [helper_rules]:
  "Q h (writeError 422 code) \<Longrightarrow> (\<And>v. v = missing \<or> 1 \<le> v \<and> v \<le> most \<Longrightarrow> always P Q (k v) h)
    \<Longrightarrow> always P Q (query_number req name missing most code k) h"
  by (auto simp: query_number_def Let_def split: option.split)

lemma always_query_before [helper_rules]:
  "Q h (writeError 422 ''invalid_cursor'') \<Longrightarrow> (\<And>t. always P Q (k t) h) \<Longrightarrow> always P Q (query_before dp req k) h"
  by (auto simp: query_before_def Let_def split: option.split)

end
