(* ===== verification/Server.thy ===== *)
theory Server
  imports ServerAccounts ServerAgents ServerRules ServerViews
begin

text \<open>
  The control server as a whole: the routes of \<open>NewServer\<close>, the header middleware of \<open>middleware.go\<close>, and what its
  handlers may do and disclose.
\<close>

section \<open>Routes\<close>

definition routes :: "server_settings \<Rightarrow> deps \<Rightarrow> (string \<times> (web_request \<Rightarrow> prog)) list" where
  "routes st dp =
     [(''/api/v1/health'', health st),
      (''/api/v1/setup/admin'', setupAdmin dp),
      (''/api/v1/setup/status'', setupStatus),
      (''/api/v1/auth/login'', login st dp),
      (''/api/v1/auth/logout'', logout st dp),
      (''/api/v1/auth/me'', me dp),
      (''/api/v1/auth/mfa/setup'', mfaSetup st dp),
      (''/api/v1/auth/mfa/enable'', mfaEnable st dp),
      (''/api/v1/auth/mfa/disable'', mfaDisable st dp),
      (''/api/v1/users'', users dp),
      (''/api/v1/users/'', user_handler dp),
      (''/api/v1/enrollment-tokens'', enrollmentTokens dp),
      (''/api/v1/agent/enroll'', enrollAgent dp),
      (''/api/v1/agent/heartbeat'', agentHeartbeat dp),
      (''/api/v1/agent/config'', agentConfig dp),
      (''/api/v1/nodes'', nodes_handler dp),
      (''/api/v1/nodes/'', nodeDetail dp),
      (''/api/v1/forward-rules'', forwardRules dp),
      (''/api/v1/forward-rules/'', forwardRule dp),
      (''/api/v1/dashboard/summary'', dashboardSummary dp),
      (''/api/v1/metrics/traffic'', traffic_handler dp),
      (''/api/v1/audit-events'', auditEvents dp),
      (''/api/v1/agent-logs'', agentLogs dp),
      (''/api/v1/connections'', activeConnections dp),
      (''/api/v1/system/settings'', systemSettings st dp)]"

text \<open>
  \<open>http.ServeMux\<close>: a pattern that ends in a slash matches the paths under it. No pattern of the table that ends in a
  slash is a prefix of another, so at most one of them matches.
\<close>

definition find_route :: "(string \<times> (web_request \<Rightarrow> prog)) list \<Rightarrow> string \<Rightarrow> (web_request \<Rightarrow> prog) option" where
  "find_route table p =
     (case map_of table p of
        Some f \<Rightarrow> Some f
      | None \<Rightarrow> map_option snd (find (\<lambda>(pattern, f). has_suffix pattern ''/'' \<and> has_prefix p pattern) table))"

text \<open>\<open>path.Clean\<close> of a rooted path: the elements that are left, in reverse.\<close>

fun clean_elements :: "string list \<Rightarrow> string list \<Rightarrow> string list" where
  "clean_elements [] acc = acc"
| "clean_elements (e # es) acc =
     clean_elements es (if e = [] \<or> e = ''.'' then acc else if e = ''..'' then tl acc else e # acc)"

definition clean_path :: "string \<Rightarrow> string" where
  "clean_path p =
     (let rooted = (if has_prefix p ''/'' then p else ''/'' @ p);
          elements = rev (clean_elements (split_on (CHR ''/'') rooted) []);
          cleaned = (if elements = [] then ''/'' else concat (map (\<lambda>e. ''/'' @ e) elements))
      in if p \<noteq> [] \<and> has_suffix rooted ''/'' \<and> cleaned \<noteq> ''/'' then cleaned @ ''/'' else cleaned)"

definition redirect :: "string \<Rightarrow> web_response" where
  "redirect target = \<lparr>wp_status = 301, wp_headers = [(''Location'', target)], wp_cookie = None, wp_body = RedirectBody target\<rparr>"

definition not_found :: web_response where
  "not_found = \<lparr>wp_status = 404, wp_headers = [(''Content-Type'', ''text/plain; charset=utf-8'')], wp_cookie = None, wp_body = NoBody\<rparr>"

definition mux :: "server_settings \<Rightarrow> deps \<Rightarrow> web_request \<Rightarrow> prog" where
  "mux st dp req =
     (if wr_method req \<noteq> ''CONNECT'' \<and> clean_path (wr_path req) \<noteq> wr_path req then Reply (redirect (clean_path (wr_path req)))
      else case find_route (routes st dp) (wr_path req) of None \<Rightarrow> Reply not_found | Some f \<Rightarrow> f req)"

definition securityHeaders :: "(web_request \<Rightarrow> prog) \<Rightarrow> web_request \<Rightarrow> prog" where
  "securityHeaders next_handler req =
     prog_header ''X-Content-Type-Options'' ''nosniff'' (prog_header ''X-Frame-Options'' ''DENY''
       (prog_header ''Referrer-Policy'' ''no-referrer'' (next_handler req)))"

definition serve :: "server_settings \<Rightarrow> deps \<Rightarrow> web_request \<Rightarrow> prog" where
  "serve st dp = securityHeaders (mux st dp)"

section \<open>What handlers may do\<close>

text \<open>The user whose name and password a login request shows, as the store knew it, and the proof of a second factor.\<close>

definition password_shown :: "deps \<Rightarrow> web_request \<Rightarrow> event list \<Rightarrow> login_input \<Rightarrow> user \<Rightarrow> bool" where
  "password_shown dp req h input u \<longleftrightarrow> (\<exists>username m. dp_login dp (wr_body req) = Some input
     \<and> NormalizeUsername (dp_lower dp) (in_username input) = Inr username \<and> ERead m \<in> set h \<and> UserByUsername username m = Inr u
     \<and> \<not> user_disabled u \<and> CheckPassword (dp_crypto dp) (user_password_hash u) (in_password input))"

definition factor_shown :: "server_settings \<Rightarrow> deps \<Rightarrow> event list \<Rightarrow> login_input \<Rightarrow> user \<Rightarrow> bool" where
  "factor_shown st dp h input u \<longleftrightarrow>
     (\<exists>now. EClock now \<in> set h \<and> code_valid st dp u (in_code input) now)
     \<or> (\<exists>m. let op = OpConsumeRecoveryCode (user_id u) (RecoveryCodeHash (dp_crypto dp) (dp_upper dp) (in_recovery input))
             in EOp op m \<in> set h \<and> snd (exec op m) = Inr (VBool True))"

definition own_password :: "deps \<Rightarrow> web_request \<Rightarrow> event list \<Rightarrow> string \<Rightarrow> bool" where
  "own_password dp req h uid \<longleftrightarrow> (\<exists>u input. session_seen dp req h u \<and> user_id u = uid
     \<and> (dp_mfa_setup dp (wr_body req) = Some input \<or> dp_mfa_enable dp (wr_body req) = Some input
        \<or> dp_mfa_disable dp (wr_body req) = Some input)
     \<and> CheckPassword (dp_crypto dp) (user_password_hash u) (mi_password input))"

definition heartbeat_bounded :: "agent_heartbeat \<Rightarrow> bool" where
  "heartbeat_bounded hb \<longleftrightarrow>
     \<not> invalidPercent (hb_cpu hb) \<and> \<not> invalidPercent (hb_memory hb) \<and> \<not> invalidPercent (hb_disk hb)
     \<and> \<not> float_lt (hb_load hb) (Fin 0) \<and> \<not> float_is_nan (hb_load hb) \<and> \<not> float_is_inf (hb_load hb)
     \<and> hb_config_version hb \<noteq> 0 \<and> length (hb_config_error hb) \<le> 2000
     \<and> (hb_tunnel_address hb = [] \<or> ValidTunnelAddress (hb_tunnel_address hb))
     \<and> (\<forall>v \<in> {hb_active hb, hb_in hb, hb_out hb, hb_rx hb, hb_tx hb}. \<not> too_large v)
     \<and> length (hb_rule_stats hb) \<le> 10000 \<and> distinct (map stats_rule (hb_rule_stats hb))
     \<and> (\<forall>s \<in> set (hb_rule_stats hb). \<not> stats_invalid s)
     \<and> length (hb_connections hb) \<le> maxConnectionsPerHeartbeat \<and> distinct (map conn_id (hb_connections hb))
     \<and> (\<forall>c \<in> set (hb_connections hb). conn_id c \<noteq> [] \<and> conn_rule c \<noteq> [] \<and> conn_protocol c \<in> {''tcp'', ''udp''}
          \<and> conn_started_at c \<le> conn_last_activity c \<and> conn_last_activity c \<le> hb_received_at hb + 10 * go_minute
          \<and> \<not> too_large (conn_bytes_in c) \<and> \<not> too_large (conn_bytes_out c))
     \<and> length (hb_logs hb) \<le> maxAgentLogsPerHeartbeat \<and> distinct (map log_event (hb_logs hb))
     \<and> (\<forall>e \<in> set (hb_logs hb). log_level e \<in> {''info'', ''warning'', ''error''} \<and> log_message e \<noteq> []
          \<and> length (log_message e) \<le> 2000 \<and> hb_received_at hb - 30 * 24 * go_hour \<le> log_occurred_at e
          \<and> log_occurred_at e \<le> hb_received_at hb + 10 * go_minute)"

fun authorised :: "server_settings \<Rightarrow> deps \<Rightarrow> web_request \<Rightarrow> event list \<Rightarrow> store_op \<Rightarrow> bool" where
  "authorised st dp req h (OpCreateInitialUser u) \<longleftrightarrow> True"
| "authorised st dp req h (OpCreateUser u) \<longleftrightarrow> admin_seen dp req h"
| "authorised st dp req h (OpUpdateUser uid upd) \<longleftrightarrow>
     (\<exists>u. session_seen dp req h u \<and> user_role u = RoleAdmin \<and> user_id u \<noteq> uid)"
| "authorised st dp req h (OpDeleteUser uid) \<longleftrightarrow>
     (\<exists>u. session_seen dp req h u \<and> user_role u = RoleAdmin \<and> user_id u \<noteq> uid)"
| "authorised st dp req h (OpSetUserMFA uid enabled secret hashes) \<longleftrightarrow> own_password dp req h uid"
| "authorised st dp req h (OpConsumeRecoveryCode uid code) \<longleftrightarrow>
     (\<exists>u input. user_id u = uid \<and> password_shown dp req h input u) \<or> own_password dp req h uid"
| "authorised st dp req h (OpCreateSession s) \<longleftrightarrow>
     (\<exists>u input. session_user s = user_id u \<and> password_shown dp req h input u
        \<and> (user_mfa_enabled u \<longrightarrow> factor_shown st dp h input u))"
| "authorised st dp req h (OpDeleteSession code) \<longleftrightarrow> code = TokenHash (dp_crypto dp) (sessionToken req)"
| "authorised st dp req h (OpCreateEnrollmentToken t) \<longleftrightarrow> admin_seen dp req h"
| "authorised st dp req h (OpEnrollAgent code now a) \<longleftrightarrow>
     (\<exists>input. dp_enroll dp (wr_body req) = Some input \<and> code = TokenHash (dp_crypto dp) (ei_token input))"
| "authorised st dp req h (OpHeartbeat nid code hb) \<longleftrightarrow> heartbeat_bounded hb
     \<and> (\<exists>credential. requireAgentCredentials req = Inr (nid, credential) \<and> code = TokenHash (dp_crypto dp) credential)"
| "authorised st dp req h (OpCreateRule r) \<longleftrightarrow> (\<exists>u. session_seen dp req h u \<and> rule_admissible (user_role u) r)"
| "authorised st dp req h (OpUpdateRule r) \<longleftrightarrow> (\<exists>u. session_seen dp req h u \<and> rule_admissible (user_role u) r)"
| "authorised st dp req h (OpDeleteRule rid) \<longleftrightarrow> (\<exists>u. session_seen dp req h u)"
| "authorised st dp req h (OpRecordAudit e) \<longleftrightarrow> audit_remote_ip e = remoteIP req"

text \<open>Who may be told what.\<close>

fun told :: "deps \<Rightarrow> web_request \<Rightarrow> event list \<Rightarrow> body \<Rightarrow> bool" where
  "told dp req h (UserItems us) = admin_seen dp req h"
| "told dp req h (TokenBody tid name raw expires) = admin_seen dp req h"
| "told dp req h (AuditItems es next_before) = admin_seen dp req h"
| "told dp req h (LogItems ls next_before) = admin_seen dp req h"
| "told dp req h (SettingsBody v) = admin_seen dp req h"
| "told dp req h (NodeItems ns) = user_seen dp req h"
| "told dp req h (NodeBody v) = user_seen dp req h"
| "told dp req h (RuleItems rs) = user_seen dp req h"
| "told dp req h (RuleBody r) = user_seen dp req h"
| "told dp req h (SummaryBody v) = user_seen dp req h"
| "told dp req h (TrafficBody v) = user_seen dp req h"
| "told dp req h (ConnectionItems cs now) = user_seen dp req h"
| "told dp req h (MFASecret secret url) = user_seen dp req h"
| "told dp req h (RecoveryCodes codes) = user_seen dp req h"
| "told dp req h (UserBody v) = (user_seen dp req h \<or> (\<exists>u m. EOp (OpCreateInitialUser u) m \<in> set h))"
| "told dp req h (LoggedIn v expires) = (\<exists>s m. EOp (OpCreateSession s) m \<in> set h)"
| "told dp req h (Enrolled n credential) =
     (\<exists>code now a m v. EOp (OpEnrollAgent code now a) m \<in> set h \<and> snd (exec (OpEnrollAgent code now a) m) = Inr v \<and> n = as_node v)"
| "told dp req h (ConfigBody version rs) =
     (\<exists>nid credential m c. requireAgentCredentials req = Inr (nid, credential) \<and> ERead m \<in> set h
        \<and> ConfigForAgent nid (TokenHash (dp_crypto dp) credential) m = Inr c \<and> version = config_version c \<and> rs = config_rules c)"
| "told dp req h b = True"

definition disclosed :: "deps \<Rightarrow> web_request \<Rightarrow> event list \<Rightarrow> web_response \<Rightarrow> bool" where
  "disclosed dp req h r = told dp req h (wp_body r)"

lemma disclosed_headers [simp]: "disclosed dp req h (r\<lparr>wp_headers := hs\<rparr>) = disclosed dp req h r"
  by (simp add: disclosed_def)

lemma disclosed_error [simp]: "disclosed dp req h (writeError status code)"
  by (simp add: disclosed_def writeError_def writeJSON_def)

lemma disclosed_other [simp]: "disclosed dp req h (methodNotAllowed allowed)" "disclosed dp req h no_content"
  "disclosed dp req h (redirect target)" "disclosed dp req h not_found"
  by (simp_all add: disclosed_def methodNotAllowed_def with_header_def writeError_def writeJSON_def no_content_def redirect_def not_found_def)

lemma always_disclosed_header [simp]:
  "always P (disclosed dp req) (prog_header name value p) h = always P (disclosed dp req) p h"
  by (simp add: always_prog_header)

lemma decodeJSON_Inl: "decodeJSON decode req = Inl r \<Longrightarrow> \<exists>status code. r = writeError status code"
  by (auto simp: decodeJSON_def split: if_splits option.splits)

lemma decodeJSON_Inr: "decodeJSON decode req = Inr x \<Longrightarrow> decode (wr_body req) = Some x"
  by (auto simp: decodeJSON_def split: if_splits option.splits)

lemma always_decoded_disclosed:
  "(\<And>x. decode (wr_body req) = Some x \<Longrightarrow> always P (disclosed dp req) (k x) h) \<Longrightarrow> always P (disclosed dp req) (decoded decode req k) h"
  using decodeJSON_Inl [of decode req] decodeJSON_Inr [of decode req] by (auto simp: always_decoded split: sum.split)

abbreviation "guarded st dp req p h \<equiv> always (authorised st dp req) (disclosed dp req) p h"

lemma guarded_audit [simp]:
  "guarded st dp req (audit req actor_type actor action target_type target details k) h \<longleftrightarrow>
     (\<forall>d. (\<forall>bytes. d = Some bytes \<longrightarrow> length bytes = 12) \<longrightarrow>
        (case NewID d ''aud'' of
           Inl e \<Rightarrow> guarded st dp req k (ERandom 12 d # h)
         | Inr eid \<Rightarrow> \<forall>now m. guarded st dp req k
             (EOp (OpRecordAudit \<lparr>audit_id = eid, audit_actor_type = actor_type, audit_actor_id = actor,
             audit_action = action, audit_target_type = target_type, audit_target_id = target, audit_remote_ip = remoteIP req,
             audit_details = details, audit_created_at = now\<rparr>) m # EClock now # ERandom 12 d # h)))"
  by (simp add: audit_def new_id_def split: sum.split)

lemma password_shown_Cons: "password_shown dp req h input u \<Longrightarrow> password_shown dp req (e # h) input u"
  by (auto simp: password_shown_def)

lemma factor_shown_Cons: "factor_shown st dp h input u \<Longrightarrow> factor_shown st dp (e # h) input u"
  by (auto simp: factor_shown_def Let_def)

lemmas seen_later = session_seen_Cons user_seen_Cons admin_seen_Cons password_shown_Cons factor_shown_Cons

lemma disclosed_json [simp]:
  "disclosed dp req h (writeJSON status b) = told dp req h b"
  "disclosed dp req h (setSessionCookie st token expires r) = disclosed dp req h r"
  "disclosed dp req h (clear_cookie st r) = disclosed dp req h r"
  "disclosed dp req h (with_header name value r) = disclosed dp req h r"
  by (simp_all add: disclosed_def writeJSON_def setSessionCookie_def clear_cookie_def with_header_def)

lemma guarded_me: "guarded st dp req (me dp req) []"
  unfolding me_def by (auto intro!: always_requireUser)

lemma guarded_health: "guarded st dp req (health st req) []"
  by (simp add: health_def)

lemma guarded_setupStatus: "guarded st dp req (setupStatus req) []"
  by (simp add: setupStatus_def)

lemma guarded_setupAdmin: "guarded st dp req (setupAdmin dp req) []"
  unfolding setupAdmin_def
  by (auto intro!: always_decoded_disclosed simp: hash_password_def new_id_def Let_def split: sum.split store_error.split)

lemma guarded_logout: "guarded st dp req (logout st dp req) []"
  unfolding logout_def by (auto simp: Let_def split: sum.split prod.split)

lemma guarded_users: "guarded st dp req (users dp req) []"
  unfolding users_def create_user_def
  by (auto intro!: always_requireUser always_decoded_disclosed
    simp: seen_later hash_password_def new_id_def Let_def split: sum.split store_error.split)

lemma guarded_user_handler: "guarded st dp req (user_handler dp req) []"
  unfolding user_handler_def remove_user_def change_user_def
  by (auto intro!: always_requireUser always_decoded_disclosed
    simp: seen_later hash_password_def Let_def split: sum.split store_error.split)
    (metis session_seen_Cons)+

lemma own_password_shown:
  "dp_mfa_setup dp (wr_body req) = Some input \<Longrightarrow> session_seen dp req h u
    \<Longrightarrow> CheckPassword (dp_crypto dp) (user_password_hash u) (mi_password input) \<Longrightarrow> own_password dp req h (user_id u)"
  "dp_mfa_enable dp (wr_body req) = Some input \<Longrightarrow> session_seen dp req h u
    \<Longrightarrow> CheckPassword (dp_crypto dp) (user_password_hash u) (mi_password input) \<Longrightarrow> own_password dp req h (user_id u)"
  "dp_mfa_disable dp (wr_body req) = Some input \<Longrightarrow> session_seen dp req h u
    \<Longrightarrow> CheckPassword (dp_crypto dp) (user_password_hash u) (mi_password input) \<Longrightarrow> own_password dp req h (user_id u)"
  unfolding own_password_def by blast+

lemma always_if:
  "(c \<Longrightarrow> always P Q p h) \<Longrightarrow> (\<not> c \<Longrightarrow> always P Q q h) \<Longrightarrow> always P Q (if c then p else q) h"
  by simp

lemmas handler_intros = always_if always_requireUser always_decoded_disclosed always_get_only always_query_number always_query_before

lemma guarded_mfaSetup: "guarded st dp req (mfaSetup st dp req) []"
  unfolding mfaSetup_def no_store_def always_disclosed_header
  apply (rule always_if, simp)
  unfolding always_disclosed_header
  by (intro handler_intros) (simp_all add: seen_later own_password_shown(1) split: sum.split)

lemma guarded_mfaEnable: "guarded st dp req (mfaEnable st dp req) []"
  unfolding mfaEnable_def no_store_def
  apply (rule always_if, simp)
  unfolding always_disclosed_header
  by (intro handler_intros) (simp_all add: seen_later own_password_shown(2) split: sum.split option.split)

lemma guarded_mfaDisable: "guarded st dp req (mfaDisable st dp req) []"
  unfolding mfaDisable_def disable_mfa_def
  by (intro handler_intros) (simp_all add: seen_later own_password_shown(3) split: sum.split)

lemma guarded_enrollmentTokens: "guarded st dp req (enrollmentTokens dp req) []"
  unfolding enrollmentTokens_def
  by (auto intro!: always_requireUser always_decoded_disclosed
    simp: seen_later new_token_def new_id_def Let_def split: sum.split)

lemma guarded_enrollAgent: "guarded st dp req (enrollAgent dp req) []"
  unfolding enrollAgent_def
  by (auto intro!: always_decoded_disclosed
    simp: new_token_def new_id_def Let_def trimmed_enroll_def split: sum.split store_error.split)

lemma requireAgentCredentials_Inl: "requireAgentCredentials req = Inl r \<Longrightarrow> \<exists>status code. r = writeError status code"
  by (auto simp: requireAgentCredentials_def Let_def split: if_splits)

lemma guarded_agentConfig: "guarded st dp req (agentConfig dp req) []"
  using requireAgentCredentials_Inl [of req] unfolding agentConfig_def
  by (auto split: sum.split store_error.split)

lemma guarded_nodes: "guarded st dp req (nodes_handler dp req) []"
  unfolding nodes_handler_def by (auto intro!: always_requireUser always_get_only simp: seen_later)

lemma guarded_nodeDetail: "guarded st dp req (nodeDetail dp req) []"
  unfolding nodeDetail_def Let_def
  by (intro handler_intros) (simp_all add: seen_later Let_def split: option.split)

lemma guarded_dashboardSummary: "guarded st dp req (dashboardSummary dp req) []"
  unfolding dashboardSummary_def
  by (intro always_requireUser always_get_only) (simp_all add: seen_later Let_def split: option.split)

lemma guarded_traffic: "guarded st dp req (traffic_handler dp req) []"
  unfolding traffic_handler_def
  by (intro always_requireUser always_get_only always_query_number) (simp_all add: seen_later Let_def split: option.split)

lemma guarded_auditEvents: "guarded st dp req (auditEvents dp req) []"
  unfolding auditEvents_def
  by (intro always_requireUser always_get_only always_query_number always_query_before) (simp_all add: seen_later Let_def split: option.split)

lemma guarded_agentLogs: "guarded st dp req (agentLogs dp req) []"
  unfolding agentLogs_def Let_def
  by (intro handler_intros) (simp_all add: seen_later Let_def split: option.split)

lemma guarded_activeConnections: "guarded st dp req (activeConnections dp req) []"
  unfolding activeConnections_def by (auto intro!: always_requireUser always_get_only simp: seen_later)

lemma guarded_systemSettings: "guarded st dp req (systemSettings st dp req) []"
  unfolding systemSettings_def by (auto intro!: always_requireUser always_get_only simp: seen_later)

lemma guarded_buildForwardRule:
  assumes "session_seen dp req h u"
    and "\<And>h' r. session_seen dp req h' u \<Longrightarrow> user_seen dp req h' \<Longrightarrow> rule_admissible (user_role u) r \<Longrightarrow> guarded st dp req (k r) h'"
  shows "guarded st dp req (buildForwardRule input rid (user_role u) k) h"
proof (rule always_buildForwardRule)
  fix h' r
  assume "set h \<subseteq> set h'" "rule_admissible (user_role u) r"
  with session_seen_later [OF assms(1)] show "guarded st dp req (k r) h'"
    by (intro assms(2)) (auto simp: user_seen_def)
qed simp

lemma disclosed_store_error [simp]: "disclosed dp req h (writeForwardRuleStoreError e)"
  by (simp add: writeForwardRuleStoreError_def split: store_error.split)

lemma rule_authorised:
  "session_seen dp req h u \<Longrightarrow> rule_admissible (user_role u) r \<Longrightarrow> \<exists>u. session_seen dp req h u \<and> rule_admissible (user_role u) r"
  by blast

lemma guarded_forwardRules: "guarded st dp req (forwardRules dp req) []"
  unfolding forwardRules_def Let_def
  by (intro handler_intros guarded_buildForwardRule)
    (simp_all add: seen_later split: sum.split, blast)

lemma guarded_forwardRule: "guarded st dp req (forwardRule dp req) []"
  unfolding forwardRule_def Let_def
  by (intro handler_intros guarded_buildForwardRule)
    (simp_all add: seen_later split: sum.split, blast+)

section \<open>Login\<close>

lemma guarded_login_session:
  assumes "password_shown dp req h input u" "user_mfa_enabled u \<longrightarrow> factor_shown st dp h input u"
  shows "guarded st dp req (login_session st dp req key u) h"
proof -
  have "\<exists>v i. user_id u = user_id v \<and> password_shown dp req h' i v \<and> (user_mfa_enabled v \<longrightarrow> factor_shown st dp h' i v)"
    if "\<exists>a b c. h' = a # b # c # h" for h'
    using that assms by (intro exI [of _ u] exI [of _ input]) (auto simp: seen_later)
  then show ?thesis
    by (auto simp: login_session_def new_token_def new_id_def clearLoginFailures_def Let_def split: sum.split)
qed

lemma as_bool_True: "as_bool v \<Longrightarrow> v = VBool True"
  by (cases v) auto

lemma guarded_second_factor:
  assumes "password_shown dp req h input u"
    and "\<And>h'. password_shown dp req h' input u \<Longrightarrow> factor_shown st dp h' input u \<Longrightarrow> guarded st dp req (k True) h'"
    and "\<And>h'. guarded st dp req (k False) h'"
  shows "guarded st dp req (second_factor st dp input u k) h"
proof -
  have "guarded st dp req (k (code_valid st dp u (in_code input) now)) (EClock now # h)" for now
  proof (cases "code_valid st dp u (in_code input) now")
    case True
    have "guarded st dp req (k True) (EClock now # h)"
      by (rule assms(2)) (use assms(1) True in \<open>auto simp: seen_later factor_shown_def\<close>)
    with True show ?thesis by simp
  qed (simp add: assms(3))
  moreover have "guarded st dp req (k (as_bool v)) (EOp op m # h)"
    if "op = OpConsumeRecoveryCode (user_id u) (RecoveryCodeHash (dp_crypto dp) (dp_upper dp) (in_recovery input))"
      "snd (exec op m) = Inr v" for op m v
  proof (cases "as_bool v")
    case True
    then have "v = VBool True" by (rule as_bool_True)
    have "guarded st dp req (k True) (EOp op m # h)"
      by (rule assms(2)) (use assms(1) that \<open>v = VBool True\<close> in \<open>auto simp: seen_later factor_shown_def Let_def\<close>)
    with True show ?thesis by simp
  qed (simp add: assms(3))
  moreover have "\<exists>v i. user_id v = user_id u \<and> password_shown dp req h i v" using assms(1) by blast
  ultimately show ?thesis by (simp add: second_factor_def split: sum.split)
qed

lemma guarded_recordLoginFailure:
  "(\<And>h'. guarded st dp req k h') \<Longrightarrow> guarded st dp req (recordLoginFailure key k) h"
  by (simp add: recordLoginFailure_def)

lemma guarded_login_user:
  assumes "dp_login dp (wr_body req) = Some input" "NormalizeUsername (dp_lower dp) (in_username input) = Inr username"
  shows "guarded st dp req (login_user st dp req input username) []"
proof -
  have shown: "password_shown dp req (ERead m # h) input u"
    if "UserByUsername username m = Inr u" "\<not> user_disabled u" "CheckPassword (dp_crypto dp) (user_password_hash u) (in_password input)" for m h u
    using assms that by (auto simp: password_shown_def)
  show ?thesis
    unfolding login_user_def Let_def loginRateLimited_def
    by (auto simp: invalidCredentials_def intro!: guarded_recordLoginFailure guarded_second_factor guarded_login_session shown
      split: sum.split)
qed

lemma guarded_login: "guarded st dp req (login st dp req) []"
  unfolding login_def no_store_def
  apply (rule always_if, simp)
  unfolding always_disclosed_header
  by (rule always_decoded_disclosed) (simp add: guarded_login_user invalidCredentials_def split: sum.split)

section \<open>Heartbeats\<close>

lemma checked_heartbeat_bounded:
  assumes "heartbeat_metrics_ok i" "heartbeat_counters_ok i" "hi_tunnel_address i = [] \<or> ValidTunnelAddress (hi_tunnel_address i)"
    and "stats_loop (hi_rule_stats i) {} = Some rule_stats" "checked_heartbeat ul ip now i rule_stats = Some hb"
  shows "heartbeat_bounded hb"
proof -
  obtain conns logs where c: "connection_loop ul now (hi_connections i) {} = Some conns" "log_loop ul now (hi_logs i) {} = Some logs"
    using assms(5) by (auto simp: checked_heartbeat_def split: option.splits)
  have hb: "hb_cpu hb = hi_cpu i" "hb_memory hb = hi_memory i" "hb_disk hb = hi_disk i" "hb_load hb = hi_load i"
    "hb_config_version hb = hi_config_version i" "hb_config_error hb = hi_config_error i" "hb_tunnel_address hb = hi_tunnel_address i"
    "hb_active hb = hi_active i" "hb_in hb = hi_in i" "hb_out hb = hi_out i" "hb_rx hb = hi_rx i" "hb_tx hb = hi_tx i"
    "hb_rule_stats hb = rule_stats" "hb_connections hb = conns" "hb_logs hb = logs" "hb_received_at hb = now"
    using assms(5) c by (auto simp: checked_heartbeat_def)
  note conns = connection_loop_Some [OF c(1)] and logs = log_loop_Some [OF c(2)] and stats = stats_loop_Some [OF assms(4)]
  have "\<forall>x \<in> set conns. conn_id x \<noteq> [] \<and> conn_rule x \<noteq> [] \<and> conn_protocol x \<in> {''tcp'', ''udp''}
      \<and> conn_started_at x \<le> conn_last_activity x \<and> conn_last_activity x \<le> now + 10 * go_minute
      \<and> \<not> too_large (conn_bytes_in x) \<and> \<not> too_large (conn_bytes_out x)"
    using conns by (auto simp: connection_entry_def connection_invalid_def)
  moreover have "\<forall>x \<in> set logs. log_level x \<in> {''info'', ''warning'', ''error''} \<and> log_message x \<noteq> []
      \<and> length (log_message x) \<le> 2000 \<and> now - 30 * 24 * go_hour \<le> log_occurred_at x \<and> log_occurred_at x \<le> now + 10 * go_minute"
    using logs by (auto simp: log_line_def log_invalid_def)
  moreover have "length conns = length (hi_connections i)" "length logs = length (hi_logs i)" using conns logs by simp_all
  moreover have "distinct (map conn_id conns)" "distinct (map log_event logs)" "distinct (map stats_rule rule_stats)"
    "length rule_stats = length (hi_rule_stats i)" "\<forall>s \<in> set rule_stats. \<not> stats_invalid s"
    using conns logs stats by blast+
  ultimately show ?thesis
    using assms(1-3) unfolding heartbeat_bounded_def hb heartbeat_metrics_ok_def heartbeat_counters_ok_def
    by (simp add: not_less)
qed

lemma guarded_agentHeartbeat: "guarded st dp req (agentHeartbeat dp req) []"
proof (cases "requireAgentCredentials req")
  case (Inl r)
  then obtain status code where "r = writeError status code" using requireAgentCredentials_Inl by blast
  with Inl show ?thesis by (simp add: agentHeartbeat_def)
next
  case (Inr p)
  obtain nid credential where p: "p = (nid, credential)" by fastforce
  show ?thesis
    unfolding agentHeartbeat_def Let_def Inr p
    by (auto intro!: always_decoded_disclosed simp: checked_heartbeat_bounded Inr p split: option.split sum.split store_error.split)
qed

section \<open>The server\<close>

lemma find_in: "find P xs = Some x \<Longrightarrow> x \<in> set xs \<and> P x"
  by (induction xs) (auto split: if_splits)

lemma find_route_cases:
  "find_route table p = Some f \<Longrightarrow> (p, f) \<in> set table \<or> (\<exists>pattern. (pattern, f) \<in> set table \<and> has_suffix pattern ''/'' \<and> has_prefix p pattern)"
  by (auto simp: find_route_def dest: map_of_SomeD find_in split: option.splits)

lemma find_route_in: "find_route table p = Some f \<Longrightarrow> f \<in> snd ` set table"
  by (force dest: find_route_cases)

lemmas guarded_handlers = guarded_health guarded_setupAdmin guarded_setupStatus guarded_login guarded_logout guarded_me
  guarded_mfaSetup guarded_mfaEnable guarded_mfaDisable guarded_users guarded_user_handler guarded_enrollmentTokens
  guarded_enrollAgent guarded_agentHeartbeat guarded_agentConfig guarded_nodes guarded_nodeDetail guarded_forwardRules
  guarded_forwardRule guarded_dashboardSummary guarded_traffic guarded_auditEvents guarded_agentLogs
  guarded_activeConnections guarded_systemSettings

lemma guarded_serve: "guarded st dp req (serve st dp req) []"
proof -
  have "guarded st dp req (f req) []" if "f \<in> snd ` set (routes st dp)" for f
    using that guarded_handlers unfolding routes_def by auto
  with find_route_in show ?thesis
    by (auto simp: serve_def securityHeaders_def mux_def split: option.split)
qed

lemma serve_authorised: "path (serve st dp req) es (Op op k) \<Longrightarrow> authorised st dp req (rev es) op"
  by (rule always_Op [OF _ guarded_serve])

lemma serve_disclosed: "path (serve st dp req) es (Reply r) \<Longrightarrow> disclosed dp req (rev es) r"
  by (rule always_Reply [OF _ guarded_serve])

end
