(* ===== verification/ServerMachine.thy ===== *)
theory ServerMachine
  imports Server
begin

text \<open>
  The running control server: requests in flight, each at some step of its handler, over one store and one login table.
  Steps of different requests interleave in any order. The history of a request is kept beside it; no step reads it.
\<close>

record server_state =
  sys_store :: memory
  sys_table :: attempts
  sys_live :: "(nat, web_request \<times> event list \<times> prog) gomap"

datatype server_event = Arrive web_request | Did event | Answered web_response

definition server_start :: server_state where
  "server_start = \<lparr>sys_store = NewMemory, sys_table = [], sys_live = []\<rparr>"

text \<open>One step of a program over the store and the login table.\<close>

inductive prog_step :: "prog \<Rightarrow> memory \<Rightarrow> attempts \<Rightarrow> event \<Rightarrow> prog \<Rightarrow> memory \<Rightarrow> attempts \<Rightarrow> bool" where
  step_random: "(\<And>bytes. x = Some bytes \<Longrightarrow> length bytes = n) \<Longrightarrow> prog_step (Random n k) m a (ERandom n x) (k x) m a"
| step_draws: "prog_step (Draws k) m a (EDraws xs) (k xs) m a"
| step_clock: "prog_step (Clock k) m a (EClock t) (k t) m a"
| step_table: "prog_step (Table f k) m a (ETable a) (k a) m (f a)"
| step_read: "prog_step (Read k) m a (ERead m) (k m) m a"
| step_op: "exec op m = (m', res) \<Longrightarrow> prog_step (Op op k) m a (EOp op m) (k res) m' a"

inductive server_step :: "(web_request \<Rightarrow> prog) \<Rightarrow> server_state \<Rightarrow> nat \<Rightarrow> server_event \<Rightarrow> server_state \<Rightarrow> bool" for serve_request where
  arrive: "map_of (sys_live s) i = None \<Longrightarrow>
     server_step serve_request s i (Arrive req) (s\<lparr>sys_live := gput i (req, [], serve_request req) (sys_live s)\<rparr>)"
| progress: "map_of (sys_live s) i = Some (req, h, p) \<Longrightarrow> prog_step p (sys_store s) (sys_table s) e p' m' a' \<Longrightarrow>
     server_step serve_request s i (Did e) \<lparr>sys_store = m', sys_table = a', sys_live = gput i (req, e # h, p') (sys_live s)\<rparr>"
| answer: "map_of (sys_live s) i = Some (req, h, Reply r) \<Longrightarrow>
     server_step serve_request s i (Answered r) (s\<lparr>sys_live := gdel i (sys_live s)\<rparr>)"

inductive server_run :: "(web_request \<Rightarrow> prog) \<Rightarrow> (nat \<times> server_event) list \<Rightarrow> server_state \<Rightarrow> bool" for serve_request where
  run_start: "server_run serve_request [] server_start"
| run_more: "server_run serve_request tr s \<Longrightarrow> server_step serve_request s i e s' \<Longrightarrow> server_run serve_request (tr @ [(i, e)]) s'"

inductive_cases server_stepE: "server_step serve_request s i e s'"
inductive_cases prog_stepE: "prog_step p m a e p' m' a'"

text \<open>The calls that change the store, with their results.\<close>

fun store_calls :: "(nat \<times> server_event) list \<Rightarrow> (store_op \<times> outcome) list" where
  "store_calls [] = []"
| "store_calls ((i, Did (EOp op m)) # tr) = (op, snd (exec op m)) # store_calls tr"
| "store_calls (e # tr) = store_calls tr"

lemma store_calls_append [simp]: "store_calls (tr @ tr') = store_calls tr @ store_calls tr'"
  by (induction tr rule: store_calls.induct) auto

lemma path_snoc:
  "path p es q \<Longrightarrow> prog_step q m a e q' m' a' \<Longrightarrow> path p (es @ [e]) q'"
proof (induction rule: path.induct)
  case (path_here p)
  from path_here show ?case
    by (cases rule: prog_step.cases) (auto intro!: path.intros simp: prod_eq_iff dest: arg_cong [of _ _ snd])
qed (auto intro: path.intros)

text \<open>A request in flight is where its history leads from the start of its handler.\<close>

definition histories_ok :: "(web_request \<Rightarrow> prog) \<Rightarrow> server_state \<Rightarrow> bool" where
  "histories_ok serve_request s \<longleftrightarrow>
     (\<forall>i req h p. map_of (sys_live s) i = Some (req, h, p) \<longrightarrow> path (serve_request req) (rev h) p)"

lemma histories_okD:
  "histories_ok serve_request s \<Longrightarrow> map_of (sys_live s) i = Some (req, h, p) \<Longrightarrow> path (serve_request req) (rev h) p"
  by (simp add: histories_ok_def)

lemma histories_ok_step:
  assumes "server_step serve_request s i e s'" "histories_ok serve_request s"
  shows "histories_ok serve_request s'"
  using assms(1)
proof cases
  case (progress req h p e' p' m' a')
  have "path (serve_request req) (rev h @ [e']) p'"
    by (rule path_snoc [OF histories_okD [OF assms(2) progress(3)] progress(4)])
  with assms(2) show ?thesis unfolding progress(2) by (simp add: histories_ok_def)
qed (use assms(2) in \<open>simp_all add: histories_ok_def path_here\<close>)

lemma histories_ok_run: "server_run serve_request tr s \<Longrightarrow> histories_ok serve_request s"
proof (induction rule: server_run.induct)
  case run_start
  then show ?case by (simp add: histories_ok_def server_start_def)
qed (rule histories_ok_step)

lemma op_ok_authorised: "authorised st dp req h op \<Longrightarrow> op_ok op"
  by (cases op) (auto intro: admissible_rule_ok)

text \<open>What a run of the server does to the store is a run of the store.\<close>

lemma run_store:
  "server_run (serve st dp) tr s \<Longrightarrow> store_run (store_calls tr) (sys_store s)"
proof (induction rule: server_run.induct)
  case run_start
  then show ?case by (simp add: server_start_def run_empty)
next
  case (run_more tr s i e s')
  have paths: "histories_ok (serve st dp) s" using run_more.hyps(1) by (rule histories_ok_run)
  from run_more.hyps(2) show ?case
  proof (cases rule: server_step.cases)
    case (progress req h p e' p' m' a')
    from progress(4) show ?thesis
    proof (cases rule: prog_step.cases)
      case (step_op op res k)
      have "path (serve st dp req) (rev h) (Op op k)"
        using paths progress(3) step_op(1) unfolding histories_ok_def by blast
      then have "op_ok op" using serve_authorised op_ok_authorised by blast
      then have "store_step (sys_store s) op res m'" using step_op by (simp add: store_step_iff)
      then have "store_run (store_calls tr @ [(op, res)]) m'" using run_more.IH by (rule run_step [rotated])
      then show ?thesis using progress step_op by simp
    qed (use progress run_more.IH in simp_all)
  qed (use run_more.IH in simp_all)
qed

end
