(* ===== verification/ServerGuarantees.thy ===== *)
theory ServerGuarantees
  imports ServerMachine
begin

text \<open>
  What the control server guarantees, for every request, every order of the steps of concurrent requests and every
  answer of the clock and the source of randomness.
\<close>

section \<open>Every request is answered\<close>

text \<open>No handler panics: it always has a next step until it replies.\<close>

primrec replies :: "prog \<Rightarrow> bool" where
  "replies (Reply r) \<longleftrightarrow> True"
| "replies (Random n k) \<longleftrightarrow> (\<forall>x. replies (k x))"
| "replies (Draws k) \<longleftrightarrow> (\<forall>x. replies (k x))"
| "replies (Clock k) \<longleftrightarrow> (\<forall>x. replies (k x))"
| "replies (Table f k) \<longleftrightarrow> (\<forall>x. replies (k x))"
| "replies (Read k) \<longleftrightarrow> (\<forall>x. replies (k x))"
| "replies (Op op k) \<longleftrightarrow> (\<forall>x. replies (k x))"
| "replies NoReply \<longleftrightarrow> False"

lemma replies_path: "path p es q \<Longrightarrow> replies p \<Longrightarrow> replies q"
  by (induction rule: path.induct) auto

lemma replies_header [simp]: "replies (prog_header name value p) = replies p"
  by (induction p) auto

lemma replies_decoded [simp]: "(\<And>x. replies (k x)) \<Longrightarrow> replies (decoded decode req k)"
  by (simp add: decoded_def split: sum.split)

lemma replies_requireUser [simp]: "(\<And>u. replies (k u)) \<Longrightarrow> replies (requireUser dp req role k)"
  by (auto simp: requireUser_def Let_def split: sum.split)

lemma replies_audit [simp]: "replies (audit req actor_type actor action target_type target details k) = replies k"
  by (auto simp: audit_def new_id_def NewID_def NewToken_def split: sum.split option.split)

lemma replies_get_only [simp]: "replies p \<Longrightarrow> replies (get_only req p)"
  by (simp add: get_only_def)

lemma replies_query_number:
  "(\<And>v. v = missing \<or> 1 \<le> v \<and> v \<le> most \<Longrightarrow> replies (k v)) \<Longrightarrow> replies (query_number req name missing most code k)"
  by (auto simp: query_number_def Let_def split: option.split)

lemma replies_query_before [simp]: "(\<And>t. replies (k t)) \<Longrightarrow> replies (query_before dp req k)"
  by (auto simp: query_before_def Let_def split: option.split)

lemma replies_hash_password [simp]: "(\<And>r. replies (k r)) \<Longrightarrow> replies (hash_password dp password k)"
  by (simp add: hash_password_def)

lemma replies_new [simp]: "(\<And>r. replies (k r)) \<Longrightarrow> replies (new_token n k)" "(\<And>r. replies (k r)) \<Longrightarrow> replies (new_id prefix k)"
  by (simp_all add: new_token_def new_id_def)

lemma replies_rules [simp]:
  "(\<And>r. replies (k r)) \<Longrightarrow> replies (finish_rule role r k)"
  "(\<And>r. replies (k r)) \<Longrightarrow> replies (rule_from role i rid k)"
  "(\<And>r. replies (k r)) \<Longrightarrow> replies (buildForwardRule input rid role k)"
  by (auto simp: finish_rule_def rule_from_def buildForwardRule_def Let_def split: option.split sum.split)

lemma replies_login:
  "replies (login_session st dp req key u)" "(\<And>b. replies (k b)) \<Longrightarrow> replies (second_factor st dp input u k)"
  "(\<And>b. replies (k b)) \<Longrightarrow> replies (loginRateLimited key k)" "replies k' \<Longrightarrow> replies (recordLoginFailure key k')"
  by (auto simp: login_session_def second_factor_def loginRateLimited_def recordLoginFailure_def clearLoginFailures_def Let_def
    split: sum.split)

lemma bucket_unix_Some: "seconds \<noteq> 0 \<Longrightarrow> bucket_unix seconds t \<noteq> None"
  by (simp add: bucket_unix_def)

lemma traffic_loop_Some: "seconds \<noteq> 0 \<Longrightarrow> traffic_loop from to seconds ss acc \<noteq> None"
proof (induction ss arbitrary: acc)
  case (Cons s ss)
  obtain previous points where acc: "acc = (previous, points)" by fastforce
  have "traffic_step from to seconds s (previous, points) \<noteq> None"
    using bucket_unix_Some [OF Cons.prems, of "sample_at s"] by (auto simp: Let_def split: option.split)
  then show ?case using Cons by (auto simp: acc simp del: traffic_step.simps)
qed simp

lemma metric_loop_Some: "seconds \<noteq> 0 \<Longrightarrow> metric_loop from seconds ss prior buckets \<noteq> None"
  by (induction ss arbitrary: prior buckets) (simp_all add: bucket_unix_def Let_def)

lemma TrafficHistory_Some: "go_div interval go_second \<noteq> 0 \<Longrightarrow> TrafficHistory from to interval m \<noteq> None"
  using traffic_loop_Some by (auto simp: TrafficHistory_def)

lemma NodeMetricHistory_Some: "go_div interval go_second \<noteq> 0 \<Longrightarrow> NodeMetricHistory nid from to interval m \<noteq> None"
  using metric_loop_Some by (auto simp: NodeMetricHistory_def Let_def)

lemma interval_seconds: "go_div (detail_interval hours) go_second \<noteq> 0" "go_div (traffic_interval hours) go_second \<noteq> 0"
  "go_div (30 * go_minute) go_second \<noteq> 0"
  by (simp_all add: detail_interval_def traffic_interval_def go_div_nonneg)

lemma replies_history:
  "(\<And>ps. replies (k ps)) \<Longrightarrow> replies (case NodeMetricHistory nid from to (detail_interval hours) m of None \<Rightarrow> NoReply | Some ps \<Rightarrow> k ps)"
  "(\<And>ps. replies (k' ps)) \<Longrightarrow> replies (case TrafficHistory from to (traffic_interval hours) m of None \<Rightarrow> NoReply | Some ps \<Rightarrow> k' ps)"
  "go_div interval go_second \<noteq> 0 \<Longrightarrow> (\<And>ps. replies (k' ps))
    \<Longrightarrow> replies (case TrafficHistory from to interval m of None \<Rightarrow> NoReply | Some ps \<Rightarrow> k' ps)"
  using NodeMetricHistory_Some TrafficHistory_Some interval_seconds by (auto split: option.split)

lemma replies_if: "(c \<Longrightarrow> replies p) \<Longrightarrow> (\<not> c \<Longrightarrow> replies q) \<Longrightarrow> replies (if c then p else q)"
  by simp

lemma replies_accounts:
  "replies (health st req)" "replies (setupStatus req)" "replies (setupAdmin dp req)" "replies (logout st dp req)"
  "replies (me dp req)" "replies (mfaSetup st dp req)" "replies (mfaDisable st dp req)" "replies (users dp req)"
  "replies (user_handler dp req)" "replies (login st dp req)"
  by (simp_all add: health_def setupStatus_def setupAdmin_def logout_def me_def mfaSetup_def mfaDisable_def disable_mfa_def users_def
    create_user_def user_handler_def remove_user_def change_user_def login_def login_user_def no_store_def Let_def replies_login
    split: sum.split store_error.split prod.split)

lemma replies_agents:
  "replies (enrollmentTokens dp req)" "replies (enrollAgent dp req)" "replies (agentHeartbeat dp req)" "replies (agentConfig dp req)"
  by (auto simp: enrollmentTokens_def enrollAgent_def agentHeartbeat_def agentConfig_def Let_def
    split: sum.split store_error.split option.split)

lemma replies_rule_handlers: "replies (forwardRules dp req)" "replies (forwardRule dp req)"
  by (simp_all add: forwardRules_def forwardRule_def Let_def split: sum.split)

lemma replies_views:
  "replies (nodes_handler dp req)" "replies (activeConnections dp req)" "replies (systemSettings st dp req)"
  by (simp_all add: nodes_handler_def activeConnections_def systemSettings_def)

lemma replies_dashboardSummary: "replies (dashboardSummary dp req)"
  unfolding dashboardSummary_def
  by (intro replies_get_only replies_requireUser) (simp add: replies_history(3) go_div_nonneg)

lemma replies_nodeDetail: "replies (nodeDetail dp req)"
  unfolding nodeDetail_def Let_def
  by (intro replies_get_only replies_requireUser replies_if replies_query_number)
    (simp_all add: replies_history split: option.split)

lemma replies_traffic: "replies (traffic_handler dp req)"
  unfolding traffic_handler_def Let_def
  by (intro replies_get_only replies_requireUser replies_query_number) (simp_all add: replies_history)

lemma replies_auditEvents: "replies (auditEvents dp req)"
  unfolding auditEvents_def
  by (intro replies_get_only replies_requireUser replies_query_number replies_query_before)
    (auto simp: ListAudit_def split: option.split)

lemma replies_agentLogs: "replies (agentLogs dp req)"
  unfolding agentLogs_def Let_def
  by (intro replies_get_only replies_requireUser replies_if replies_query_number replies_query_before)
    (auto simp: ListAgentLogs_def Let_def split: option.split)

lemma replies_serve:
  assumes "wr_path req \<noteq> ''/api/v1/auth/mfa/enable''"
  shows "replies (serve st dp req)"
proof -
  have f: "replies (f req)" if "find_route (routes st dp) (wr_path req) = Some f" for f
  proof -
    note found = find_route_cases [OF that]
    have "f \<in> snd ` set (filter (\<lambda>p. fst p \<noteq> ''/api/v1/auth/mfa/enable'') (routes st dp))"
    proof -
      have "\<not> has_suffix ''/api/v1/auth/mfa/enable'' ''/''" by code_simp
      then obtain pattern where "(pattern, f) \<in> set (routes st dp)" "pattern \<noteq> ''/api/v1/auth/mfa/enable''"
        using found assms by metis
      then show ?thesis by force
    qed
    then show ?thesis
      using replies_accounts replies_agents replies_rule_handlers replies_views replies_dashboardSummary replies_nodeDetail replies_traffic replies_auditEvents
        replies_agentLogs by (auto simp: routes_def)
  qed
  then show ?thesis by (auto simp: serve_def securityHeaders_def mux_def split: option.split)
qed

section \<open>Every request ends\<close>

text \<open>One step of a program, whatever the environment answers.\<close>

definition prog_next :: "prog \<Rightarrow> prog \<Rightarrow> bool" where
  "prog_next p q \<longleftrightarrow> (\<exists>m a e m' a'. prog_step p m a e q m' a')"

lemma prog_next_cases:
  "\<not> prog_next (Reply r) q" "\<not> prog_next NoReply q" "prog_next (Random n k) q \<Longrightarrow> \<exists>x. q = k x"
  "prog_next (Draws k') q \<Longrightarrow> \<exists>x. q = k' x" "prog_next (Clock ck) q \<Longrightarrow> \<exists>x. q = ck x" "prog_next (Table f tk) q \<Longrightarrow> \<exists>x. q = tk x"
  "prog_next (Read rk) q \<Longrightarrow> \<exists>x. q = rk x" "prog_next (Op op ok) q \<Longrightarrow> \<exists>x. q = ok x"
  by (auto simp: prog_next_def elim: prog_stepE)

lemma no_infinite: "\<forall>i. prog_next (f i) (f (Suc i)) \<Longrightarrow> f 0 \<noteq> p"
proof (induction p arbitrary: f)
  case (Reply r)
  then show ?case using prog_next_cases(1) by metis
next
  case (Random n k)
  then show ?case using prog_next_cases(3) [of n k "f 1"] Random.IH [of _ "\<lambda>i. f (Suc i)"] by (metis One_nat_def rangeI)
next
  case (Draws k)
  then show ?case using prog_next_cases(4) [of k "f 1"] Draws.IH [of _ "\<lambda>i. f (Suc i)"] by (metis One_nat_def rangeI)
next
  case (Clock k)
  then show ?case using prog_next_cases(5) [of k "f 1"] Clock.IH [of _ "\<lambda>i. f (Suc i)"] by (metis One_nat_def rangeI)
next
  case (Table g k)
  then show ?case using prog_next_cases(6) [of g k "f 1"] Table.IH [of _ "\<lambda>i. f (Suc i)"] by (metis One_nat_def rangeI)
next
  case (Read k)
  then show ?case using prog_next_cases(7) [of k "f 1"] Read.IH [of _ "\<lambda>i. f (Suc i)"] by (metis One_nat_def rangeI)
next
  case (Op op k)
  then show ?case using prog_next_cases(8) [of op k "f 1"] Op.IH [of _ "\<lambda>i. f (Suc i)"] by (metis One_nat_def rangeI)
next
  case NoReply
  then show ?case using prog_next_cases(2) by metis
qed

lemma can_step: "replies p \<Longrightarrow> (\<exists>r. p = Reply r) \<or> (\<exists>e p' m' a'. prog_step p m a e p' m' a')"
proof (cases p)
  case (Random n k)
  have "prog_step (Random n k) m a (ERandom n None) (k None) m a" by (rule step_random) simp
  with Random show ?thesis by blast
next
  case (Op op k)
  obtain m' res where "exec op m = (m', res)" by fastforce
  then show ?thesis using Op step_op by blast
next
  case (Draws k)
  then show ?thesis using step_draws by blast
next
  case (Clock k)
  then show ?thesis using step_clock by blast
next
  case (Table f k)
  then show ?thesis using step_table by blast
next
  case (Read k)
  then show ?thesis using step_read by blast
qed auto

section \<open>Reaching a handler\<close>

lemma path_header: "path p es q \<Longrightarrow> path (prog_header name value p) es (prog_header name value q)"
  by (induction rule: path.induct) (auto intro: path.intros)

definition routed :: "server_settings \<Rightarrow> deps \<Rightarrow> web_request \<Rightarrow> (web_request \<Rightarrow> prog) \<Rightarrow> bool" where
  "routed st dp req f \<longleftrightarrow> clean_path (wr_path req) = wr_path req \<and> find_route (routes st dp) (wr_path req) = Some f"

lemma serve_routed:
  "routed st dp req f \<Longrightarrow> serve st dp req =
     prog_header ''X-Content-Type-Options'' ''nosniff'' (prog_header ''X-Frame-Options'' ''DENY''
       (prog_header ''Referrer-Policy'' ''no-referrer'' (f req)))"
  by (simp add: routed_def serve_def securityHeaders_def mux_def)

lemma serve_path_op: "routed st dp req f \<Longrightarrow> path (f req) es (Op op k) \<Longrightarrow> \<exists>k'. path (serve st dp req) es (Op op k')"
  using path_header [OF path_header [OF path_header]] by (fastforce simp: serve_routed)

lemma serve_path_reply:
  "routed st dp req f \<Longrightarrow> path (f req) es (Reply r) \<Longrightarrow> \<exists>r'. path (serve st dp req) es (Reply r') \<and> wp_body r' = wp_body r \<and> wp_status r' = wp_status r"
  using path_header [OF path_header [OF path_header]] by (fastforce simp: serve_routed)

section \<open>Guarantees\<close>



text \<open>
  C3: a session needs the password and, where it is enabled, the second factor. The server creates a session only for the
  user it found under the name of the request, who was not disabled and whose password the request shows; and if that
  user has MFA enabled, only after a one-time code of the request was valid at the time of the clock, or after the store
  has consumed the recovery code of the request.
\<close>

theorem sessions_need_credentials:
  assumes "path (serve st dp req) es (Op (OpCreateSession s) k)"
  shows "\<exists>u input username m. dp_login dp (wr_body req) = Some input
    \<and> NormalizeUsername (dp_lower dp) (in_username input) = Inr username \<and> ERead m \<in> set es \<and> UserByUsername username m = Inr u
    \<and> session_user s = user_id u \<and> \<not> user_disabled u \<and> CheckPassword (dp_crypto dp) (user_password_hash u) (in_password input)
    \<and> (user_mfa_enabled u \<longrightarrow>
         (\<exists>now. EClock now \<in> set es \<and> code_valid st dp u (in_code input) now)
         \<or> (\<exists>m' m2. EOp (OpConsumeRecoveryCode (user_id u) (RecoveryCodeHash (dp_crypto dp) (dp_upper dp) (in_recovery input))) m' \<in> set es
              \<and> ConsumeRecoveryCode (user_id u) (RecoveryCodeHash (dp_crypto dp) (dp_upper dp) (in_recovery input)) m' = (m2, Inr True)))"
proof -
  have consumed: "\<exists>m2. ConsumeRecoveryCode uid code m' = (m2, Inr True)"
    if "snd (exec (OpConsumeRecoveryCode uid code) m') = Inr (VBool True)" for uid code m'
    using that by (cases "ConsumeRecoveryCode uid code m'"; cases "snd (ConsumeRecoveryCode uid code m')") (auto simp: lift_result_def)
  show ?thesis
    using serve_authorised [OF assms] consumed by (fastforce simp: password_shown_def factor_shown_def Let_def)
qed


text \<open>
  C6: a heartbeat reaches the store only with bounded data: percentages between 0 and 100, a load that is a number, counters
  below 2 ^ 63, a tunnel address that is a private IPv4 address or absent, at most 10000 rule statistics, 2000 connections
  and 100 log lines, each list without duplicate identifiers, connection times in order and log times within thirty days
  before and ten minutes after the time of the clock; and only with the node and the credential of the request's headers.
\<close>

theorem heartbeats_bounded:
  assumes "path (serve st dp req) es (Op (OpHeartbeat nid code hb) k)"
  shows "heartbeat_bounded hb
    \<and> (\<exists>credential. requireAgentCredentials req = Inr (nid, credential) \<and> code = TokenHash (dp_crypto dp) credential)"
  using serve_authorised [OF assms] by simp



section \<open>The limit of failed logins\<close>

lemma login_blocked:
  assumes "path (login_user st dp req input username) (EClock now # ETable table # es) q" "limited (attempt_key req username) now table"
  shows "es = [] \<and> q = Reply (with_header ''Retry-After'' ''900'' (writeError 429 ''login_rate_limited''))"
  using assms by (auto simp: login_user_def loginRateLimited_def Let_def elim!: path_consE) (auto elim: path.cases)

lemma count_failure_many:
  assumes "map_of table key = Some a" "\<forall>t \<in> set ts. \<not> window_over t a"
  shows "map_of (fold (\<lambda>t. count_failure key t t) ts table) key = Some (a\<lparr>la_count := la_count a + int (length ts)\<rparr>)"
  using assms
proof (induction ts arbitrary: table a)
  case (Cons t ts)
  have "map_of (count_failure key t t table) key = Some (a\<lparr>la_count := la_count a + 1\<rparr>)"
    using Cons.prems by (simp add: count_failure_def)
  moreover have "\<forall>t \<in> set ts. \<not> window_over t (a\<lparr>la_count := la_count a + 1\<rparr>)"
    using Cons.prems(2) by (simp add: window_over_def)
  ultimately have "map_of (fold (\<lambda>t. count_failure key t t) ts (count_failure key t t table)) key
      = Some ((a\<lparr>la_count := la_count a + 1\<rparr>)\<lparr>la_count := la_count (a\<lparr>la_count := la_count a + 1\<rparr>) + int (length ts)\<rparr>)"
    by (rule Cons.IH)
  then show ?case by (simp add: algebra_simps)
qed simp

lemma window_over_iff: "\<not> window_over t a \<longleftrightarrow> t < la_start a + 15 * go_minute"
  using time_sub_ge_iff [of "15 * go_minute" t "la_start a"] by (simp add: window_over_def loginFailureWindow_def not_le)


section \<open>The cookie of a login\<close>

definition issued :: "server_settings \<Rightarrow> deps \<Rightarrow> user \<Rightarrow> event list \<Rightarrow> string \<Rightarrow> session \<Rightarrow> bool" where
  "issued st dp u h raw s \<longleftrightarrow> raw \<noteq> [] \<and> session_user s = user_id u \<and> session_token_hash s = TokenHash (dp_crypto dp) raw
     \<and> (\<exists>m now. EOp (OpCreateSession s) m \<in> set h \<and> EClock now \<in> set h \<and> session_expires_at s = now + ss_session_ttl st)"

lemma login_session_issues:
  "always (\<lambda>h op. True) (\<lambda>h r. \<forall>ck. wp_cookie r = Some ck \<longrightarrow> (\<exists>s. issued st dp u h (ck_value ck) s)) (login_session st dp req key u) []"
proof -
  let ?s = "\<lambda>sid raw now. \<lparr>session_id = sid, session_user = user_id u, session_token_hash = TokenHash (dp_crypto dp) raw,
      session_expires_at = now + ss_session_ttl st, session_created_at = now\<rparr>"
  have drawn: "raw \<noteq> []" if "NewToken d = Inr raw" "\<forall>bytes. d = Some bytes \<longrightarrow> length bytes = 32" for d raw
  proof -
    note token = that
    obtain bytes where b: "d = Some bytes" "length bytes = 32" "raw = base64url_encode bytes"
      using token by (auto simp: NewToken_def split: option.splits)
    then have "length raw = 43" by (simp add: base64url_encode_def length_encode_digits)
    then show ?thesis by auto
  qed
  have "\<exists>s. issued st dp u h raw s"
    if "EOp (OpCreateSession (?s sid raw now)) m \<in> set h" "EClock now \<in> set h" "raw \<noteq> []" for h m sid raw now
    unfolding issued_def by (rule exI [of _ "?s sid raw now"]) (use that in auto)
  then show ?thesis
    using drawn by (auto simp: login_session_def new_token_def new_id_def clearLoginFailures_def audit_def Let_def setSessionCookie_def
      writeError_def writeJSON_def split: sum.split)
qed

text \<open>
  C14: a login lets its user in. When a login sets a cookie, it has created a session that names the user, and as long as the
  store has that session, the user exists and is not disabled, and the lifetime of sessions has not passed, every request
  that carries the cookie is taken for a request of that user.
\<close>

theorem login_authenticates:
  assumes "path (login_session st dp req key u) es (Reply r)" "wp_cookie r = Some ck"
  shows "\<exists>s m now. EOp (OpCreateSession s) m \<in> set es \<and> EClock now \<in> set es \<and> session_user s = user_id u
    \<and> map_of (mem_sessions (fst (exec (OpCreateSession s) m))) (TokenHash (dp_crypto dp) (ck_value ck)) = Some s
    \<and> (\<forall>req' t m' v. wr_cookie req' = Some (ck_value ck) \<longrightarrow> t < now + ss_session_ttl st
         \<longrightarrow> map_of (mem_sessions m') (TokenHash (dp_crypto dp) (ck_value ck)) = Some s
         \<longrightarrow> map_of (mem_users m') (user_id u) = Some v \<longrightarrow> \<not> user_disabled v
         \<longrightarrow> (\<forall>k. path (requireUser dp req' [] k) [EClock t, ERead m'] (k v)))"
proof -
  obtain s where s: "issued st dp u (rev es) (ck_value ck) s"
    using always_Reply [OF assms(1) login_session_issues] assms(2) by blast
  then obtain m now where "EOp (OpCreateSession s) m \<in> set es" "EClock now \<in> set es" "session_expires_at s = now + ss_session_ttl st"
    unfolding issued_def set_rev by blast
  moreover have "session_user s = user_id u" "session_token_hash s = TokenHash (dp_crypto dp) (ck_value ck)" "ck_value ck \<noteq> []"
    using s by (simp_all add: issued_def)
  moreover have "map_of (mem_sessions (fst (exec (OpCreateSession s) m))) (TokenHash (dp_crypto dp) (ck_value ck)) = Some s"
    using calculation by (simp add: CreateSession_def)
  moreover have "path (requireUser dp req' [] k) [EClock t, ERead m'] (k v)"
    if "wr_cookie req' = Some (ck_value ck)" "t < now + ss_session_ttl st" "map_of (mem_users m') (user_id u) = Some v" "\<not> user_disabled v"
      "map_of (mem_sessions m') (TokenHash (dp_crypto dp) (ck_value ck)) = Some s" for req' t m' v k
  proof -
    have "SessionUserByTokenHash (TokenHash (dp_crypto dp) (ck_value ck)) t m' = Inr (s, v)" "sessionToken req' = ck_value ck"
      using that calculation by (simp_all add: SessionUserByTokenHash_def sessionToken_def)
    with \<open>ck_value ck \<noteq> []\<close> show ?thesis
      by (auto simp: requireUser_def intro!: path_clock path_read intro: path_here)
  qed
  ultimately show ?thesis by blast
qed

end
