(* ===== verification/ServerExamples.thy ===== *)
theory ServerExamples
  imports ServerGuarantees
begin

text \<open>
  Concrete requests against concrete stores, which show that the guarantees of the server apply, and the runs behind two
  findings: concurrent logins pass the limit of failed logins, and members delete relay rules.
\<close>

section \<open>A server, its users and requests\<close>

definition rule_request :: forward_rule_input where
  "rule_request = \<lparr>fi_name = ''web'', fi_protocol = [], fi_mode = [], fi_ingress = ''A'', fi_egress = [], fi_listen_host = [],
     fi_listen_port = 8080, fi_target_host = ''10.0.0.9'', fi_target_port = 80, fi_relay_port = 0, fi_enabled = True,
     fi_bandwidth_kbps = 0, fi_max_connections = 0, fi_allow_cidrs = [], fi_deny_cidrs = []\<rparr>"

definition heartbeat_request :: heartbeat_input where
  "heartbeat_request = \<lparr>hi_agent_version = ''1.0'', hi_tunnel_address = ''10.8.0.2'', hi_config_version = 3, hi_attempted_version = 0,
     hi_config_error = [], hi_cpu = Fin 12, hi_memory = Fin 40, hi_load = Fin 1, hi_disk = Fin 70, hi_rx = 10, hi_tx = 20,
     hi_active = 1, hi_in = 5, hi_out = 6,
     hi_rule_stats = [\<lparr>stats_rule = ''r1'', stats_active = 1, stats_in = 5, stats_out = 6\<rparr>],
     hi_connections = [\<lparr>ci_id = ''c1'', ci_rule = ''r1'', ci_protocol = ''TCP'', ci_source = ''192.0.2.7:5000'',
       ci_target = ''10.0.0.9:80'', ci_started_at = 2, ci_last_activity = 3, ci_bytes_in = 5, ci_bytes_out = 6\<rparr>],
     hi_complete = True,
     hi_logs = [\<lparr>gi_id = ''l1'', gi_level = ''info'', gi_component = ''runtime'', gi_message = ''started'', gi_occurred_at = 4\<rparr>]\<rparr>"

definition example_deps :: deps where
  "example_deps = \<lparr>dp_crypto = example_crypto, dp_lower = id, dp_upper = id, dp_time = \<lambda>_. None, dp_setup = \<lambda>_. None,
     dp_login = \<lambda>body. Some \<lparr>in_username = ''root'', in_password = body, in_code = [], in_recovery = []\<rparr>,
     dp_mfa_setup = \<lambda>_. None, dp_mfa_enable = \<lambda>_. None, dp_mfa_disable = \<lambda>_. None, dp_new_user = \<lambda>_. None,
     dp_user_change = \<lambda>_. None, dp_token = \<lambda>_. None, dp_enroll = \<lambda>_. None, dp_heartbeat = \<lambda>_. Some heartbeat_request,
     dp_rule = \<lambda>_. Some rule_request\<rparr>"

definition example_settings :: server_settings where
  "example_settings = \<lparr>ss_started_at = 1, ss_version = ''1'', ss_storage_mode = ''memory'', ss_secure_cookies = True,
     ss_session_ttl = defaultSessionTTL, ss_mfa_key = []\<rparr>"

definition example_request :: "string \<Rightarrow> string \<Rightarrow> string \<Rightarrow> web_request" where
  "example_request method p text = \<lparr>wr_method = method, wr_path = p, wr_query = [], wr_content_type = ''application/json'',
     wr_cookie = Some ''t'', wr_authorization = ''Bearer c1'', wr_node_header = ''n1'', wr_forwarded_proto = [], wr_tls = False,
     wr_remote_addr = ''8.8.8.8:99'', wr_body = text\<rparr>"

definition web_user :: "string \<Rightarrow> role \<Rightarrow> user" where
  "web_user uid granted = zero_user\<lparr>user_id := uid, user_name := ''root'', user_password_hash := ''hsecret'', user_role := granted\<rparr>"

text \<open>A store with one user, who is logged in with the token \<open>t\<close>, and one relay rule.\<close>

definition relay_r1 :: forward_rule where
  "relay_r1 = zero_rule\<lparr>rule_id := ''r1'', rule_mode := ForwardRelay, rule_ingress := ''A'', rule_egress := ''B''\<rparr>"

definition logged_in :: "role \<Rightarrow> memory" where
  "logged_in granted = NewMemory\<lparr>mem_users := [(''u1'', web_user ''u1'' granted)], mem_usernames := [(''root'', ''u1'')],
     mem_sessions := [(TokenHash example_crypto ''t'', \<lparr>session_id = ''s'', session_user = ''u1'',
       session_token_hash = TokenHash example_crypto ''t'', session_expires_at = 100, session_created_at = 0\<rparr>)],
     mem_rules := [(''r1'', relay_r1)]\<rparr>"

lemma example_session:
  "SessionUserByTokenHash (TokenHash example_crypto ''t'') 5 (logged_in granted) =
     Inr (\<lparr>session_id = ''s'', session_user = ''u1'', session_token_hash = TokenHash example_crypto ''t'',
       session_expires_at = 100, session_created_at = 0\<rparr>, web_user ''u1'' granted)"
  by (simp add: SessionUserByTokenHash_def logged_in_def web_user_def zero_user_def)

lemma example_fields [simp]:
  "dp_crypto example_deps = example_crypto" "dp_lower example_deps = id"
  "sessionToken (example_request method p text) = ''t''" "wr_method (example_request method p text) = method"
  "wr_path (example_request method p text) = p" "wr_body (example_request method p text) = text"
  "wr_content_type (example_request method p text) = ''application/json''"
  "user_id (web_user uid granted) = uid" "user_role (web_user uid granted) = granted"
  by (simp_all add: example_deps_def example_request_def sessionToken_def web_user_def)

lemma example_require [simp]:
  "role = [] \<or> role = granted \<Longrightarrow>
     path (requireUser example_deps (example_request method p text) role k) (EClock 5 # ERead (logged_in granted) # es) q
       = path (k (web_user ''u1'' granted)) es q"
  by (auto simp: requireUser_def example_session follow)

lemma example_routes:
  "routed st dp (example_request method ''/api/v1/users/u2'' text) (user_handler dp)"
  "routed st dp (example_request method ''/api/v1/forward-rules/r1'' text) (forwardRule dp)"
  "routed st dp (example_request method ''/api/v1/auth/login'' text) (login st dp)"
  "routed st dp (example_request method ''/api/v1/auth/logout'' text) (logout st dp)"
  "routed st dp (example_request method ''/api/v1/users'' text) (users dp)"
  "routed st dp (example_request method ''/api/v1/agent/heartbeat'' text) (agentHeartbeat dp)"
proof -
  have clean: "clean_path ''/api/v1/users/u2'' = ''/api/v1/users/u2''" "clean_path ''/api/v1/forward-rules/r1'' = ''/api/v1/forward-rules/r1''"
    "clean_path ''/api/v1/auth/logout'' = ''/api/v1/auth/logout''" "clean_path ''/api/v1/auth/login'' = ''/api/v1/auth/login''"
    "clean_path ''/api/v1/users'' = ''/api/v1/users''" "clean_path ''/api/v1/agent/heartbeat'' = ''/api/v1/agent/heartbeat''"
    by code_simp+
  show "routed st dp (example_request method ''/api/v1/users/u2'' text) (user_handler dp)"
    by (simp add: routed_def clean find_route_def routes_def has_suffix_def has_prefix_def)
  show "routed st dp (example_request method ''/api/v1/forward-rules/r1'' text) (forwardRule dp)"
    by (simp add: routed_def clean find_route_def routes_def has_suffix_def has_prefix_def)
  show "routed st dp (example_request method ''/api/v1/auth/login'' text) (login st dp)"
    "routed st dp (example_request method ''/api/v1/auth/logout'' text) (logout st dp)"
    "routed st dp (example_request method ''/api/v1/users'' text) (users dp)"
    "routed st dp (example_request method ''/api/v1/agent/heartbeat'' text) (agentHeartbeat dp)"
    by (simp_all add: routed_def clean find_route_def routes_def)
qed

lemma example_decoded:
  "dec text = Some x \<Longrightarrow> length text \<le> 1048576 \<Longrightarrow> decoded dec (example_request method p text) k = k x"
  by (simp add: decoded_def decodeJSON_def has_prefix_def body_bytes_def)

lemma example_decode [simp]:
  "length text \<le> 1048576 \<Longrightarrow> decoded (dp_login example_deps) (example_request method p text) k =
     k \<lparr>in_username = ''root'', in_password = text, in_code = [], in_recovery = []\<rparr>"
  "length text \<le> 1048576 \<Longrightarrow> decoded (dp_heartbeat example_deps) (example_request method p text) k' = k' heartbeat_request"
  "length text \<le> 1048576 \<Longrightarrow> decoded (dp_rule example_deps) (example_request method p text) k'' = k'' rule_request"
  by (rule example_decoded, simp add: example_deps_def, assumption)+

section \<open>The guarantees apply\<close>

lemma delete_user_path:
  "\<exists>k. path (serve example_settings example_deps (example_request ''DELETE'' ''/api/v1/users/u2'' []))
     [EClock 5, ERead (logged_in RoleAdmin), ERead (NewMemory\<lparr>mem_users := [(''u2'', web_user ''u2'' RoleMember)]\<rparr>)]
     (Op (OpDeleteUser ''u2'') k)"
proof -
  have "trim_prefix ''/api/v1/users/u2'' users_path = ''u2''" by (simp add: trim_prefix_def has_prefix_def)
  then have "\<exists>k. path (user_handler example_deps (example_request ''DELETE'' ''/api/v1/users/u2'' []))
     [EClock 5, ERead (logged_in RoleAdmin), ERead (NewMemory\<lparr>mem_users := [(''u2'', web_user ''u2'' RoleMember)]\<rparr>)]
     (Op (OpDeleteUser ''u2'') k)"
    by (simp add: user_handler_def Let_def remove_user_def contains_char_def follow UserByID_def NewMemory_def)
  then show ?thesis using serve_path_op [OF example_routes(1)] by blast
qed



lemma login_path:
  "path (login_user example_settings example_deps (example_request ''POST'' ''/api/v1/auth/login'' ''secret'')
      \<lparr>in_username = ''root'', in_password = ''secret'', in_code = [], in_recovery = []\<rparr> ''root'')
     [EClock 5, ETable [], ERead (logged_in RoleAdmin)]
     (login_session example_settings example_deps (example_request ''POST'' ''/api/v1/auth/login'' ''secret'')
        (attempt_key (example_request ''POST'' ''/api/v1/auth/login'' ''secret'') ''root'') (web_user ''u1'' RoleAdmin))"
  by (simp add: login_user_def loginRateLimited_def Let_def follow limited_def UserByUsername_def logged_in_def NewMemory_def web_user_def zero_user_def example_crypto_def CheckPassword_def)


lemma drawn_tokens: "NewToken (Some (replicate 32 (CHR ''x''))) \<noteq> Inl e" "NewID (Some (replicate 12 (CHR ''x''))) prefix \<noteq> Inl e"
  by (simp_all add: NewToken_def NewID_def)

abbreviation "login_request \<equiv> example_request ''POST'' ''/api/v1/auth/login'' ''secret''"

lemma login_creates:
  "\<exists>s k. path (serve example_settings example_deps login_request)
     [EClock 5, ETable [], ERead (logged_in RoleAdmin), ERandom 32 (Some (replicate 32 (CHR ''x''))),
      ERandom 12 (Some (replicate 12 (CHR ''x''))), EClock 6] (Op (OpCreateSession s) k)"
proof -
  obtain raw where raw: "NewToken (Some (replicate 32 (CHR ''x''))) = Inr raw" using drawn_tokens(1) by (metis sum.exhaust)
  obtain sid where sid: "NewID (Some (replicate 12 (CHR ''x''))) ''ses'' = Inr sid" using drawn_tokens(2) by (metis sum.exhaust)
  have name: "NormalizeUsername id ''root'' = Inr ''root''" by code_simp
  have "\<exists>s k. path (login example_settings example_deps login_request)
     [EClock 5, ETable [], ERead (logged_in RoleAdmin), ERandom 32 (Some (replicate 32 (CHR ''x''))),
      ERandom 12 (Some (replicate 12 (CHR ''x''))), EClock 6] (Op (OpCreateSession s) k)"
    using raw sid by (simp add: login_def no_store_def name login_user_def loginRateLimited_def login_session_def new_token_def new_id_def Let_def
      follow limited_def UserByUsername_def logged_in_def NewMemory_def web_user_def zero_user_def example_crypto_def CheckPassword_def)
  then show ?thesis using serve_path_op [OF example_routes(3)] by blast
qed

theorem sessions_need_credentials_witness:
  "\<exists>es s k (u :: user). path (serve example_settings example_deps login_request) es (Op (OpCreateSession s) k)
     \<and> session_user s = user_id u \<and> CheckPassword example_crypto (user_password_hash u) ''secret''"
proof -
  obtain es s k where path: "path (serve example_settings example_deps login_request) es (Op (OpCreateSession s) k)"
    using login_creates by blast
  from sessions_need_credentials [OF path] obtain u :: user and input where
    input: "dp_login example_deps ''secret'' = Some input" and "session_user s = user_id u"
    "CheckPassword example_crypto (user_password_hash u) (in_password input)" unfolding example_fields by blast
  moreover have "in_password input = ''secret''"
    using input by (cases input) (simp add: example_deps_def)
  ultimately show ?thesis using path by metis
qed


lemma heartbeat_path:
  "\<exists>hb k. path (serve example_settings example_deps (example_request ''POST'' ''/api/v1/agent/heartbeat'' [])) [EClock 5]
     (Op (OpHeartbeat ''n1'' (TokenHash example_crypto ''c1'') hb) k)"
proof -
  have cred: "requireAgentCredentials (example_request ''POST'' ''/api/v1/agent/heartbeat'' []) = Inr (''n1'', ''c1'')"
    by code_simp
  have checked: "heartbeat_metrics_ok (trimmed_heartbeat heartbeat_request)" "heartbeat_counters_ok (trimmed_heartbeat heartbeat_request)"
    "ValidTunnelAddress (hi_tunnel_address (trimmed_heartbeat heartbeat_request))"
    "stats_loop (hi_rule_stats (trimmed_heartbeat heartbeat_request)) {} \<noteq> None"
    by code_simp+
  have "connection_loop id 5 (hi_connections (trimmed_heartbeat heartbeat_request)) {} \<noteq> None"
    "log_loop id 5 (hi_logs (trimmed_heartbeat heartbeat_request)) {} \<noteq> None"
    by code_simp+
  then have "\<exists>hb. checked_heartbeat id ip 5 (trimmed_heartbeat heartbeat_request) stats = Some hb" for ip stats
    by (auto simp: checked_heartbeat_def)
  moreover obtain stats where "stats_loop (hi_rule_stats (trimmed_heartbeat heartbeat_request)) {} = Some stats"
    using checked(4) by auto
  ultimately obtain hb where "checked_heartbeat id (remoteIP (example_request ''POST'' ''/api/v1/agent/heartbeat'' [])) 5
      (trimmed_heartbeat heartbeat_request) stats = Some hb" "stats_loop (hi_rule_stats (trimmed_heartbeat heartbeat_request)) {} = Some stats"
    by blast
  then have "\<exists>hb k. path (agentHeartbeat example_deps (example_request ''POST'' ''/api/v1/agent/heartbeat'' [])) [EClock 5]
     (Op (OpHeartbeat ''n1'' (TokenHash example_crypto ''c1'') hb) k)"
    using checked by (simp add: agentHeartbeat_def cred follow Let_def)
  then show ?thesis using serve_path_op [OF example_routes(6)] by blast
qed

theorem heartbeats_bounded_witness:
  "\<exists>es hb k. path (serve example_settings example_deps (example_request ''POST'' ''/api/v1/agent/heartbeat'' [])) es
       (Op (OpHeartbeat ''n1'' (TokenHash example_crypto ''c1'') hb) k) \<and> heartbeat_bounded hb"
proof -
  obtain hb k where path: "path (serve example_settings example_deps (example_request ''POST'' ''/api/v1/agent/heartbeat'' [])) [EClock 5]
       (Op (OpHeartbeat ''n1'' (TokenHash example_crypto ''c1'') hb) k)"
    using heartbeat_path by blast
  with heartbeats_bounded [OF path] show ?thesis by blast
qed

lemma update_rule_path:
  "\<exists>r k. path (serve example_settings example_deps (example_request ''PUT'' ''/api/v1/forward-rules/r1'' []))
     [EClock 5, ERead (logged_in RoleMember)] (Op (OpUpdateRule r) k)"
proof -
  have rid: "trim_prefix ''/api/v1/forward-rules/r1'' rules_path = ''r1''" by (simp add: trim_prefix_def has_prefix_def)
  have checks: "early_error RoleMember (input_rule ''r1'' (normal_rule_input rule_request)) = None"
    "rule_mode (input_rule ''r1'' (normal_rule_input rule_request)) = ForwardDirect"
    "late_error RoleMember (input_rule ''r1'' (normal_rule_input rule_request)) = None"
    by code_simp+
  have "\<exists>r k. path (forwardRule example_deps (example_request ''PUT'' ''/api/v1/forward-rules/r1'' []))
     [EClock 5, ERead (logged_in RoleMember)] (Op (OpUpdateRule r) k)"
    by (simp add: forwardRule_def rid Let_def contains_char_def buildForwardRule_def rule_from_def checks finish_rule_def follow)
  then show ?thesis using serve_path_op [OF example_routes(2)] by blast
qed


lemma users_path_reply:
  "\<exists>r. path (serve example_settings example_deps (example_request ''GET'' ''/api/v1/users'' [])) [EClock 5, ERead (logged_in RoleAdmin), ERead NewMemory] (Reply r)
     \<and> wp_body r = UserItems []"
proof -
  have "path (users example_deps (example_request ''GET'' ''/api/v1/users'' [])) [EClock 5, ERead (logged_in RoleAdmin), ERead NewMemory]
     (Reply (writeJSON 200 (UserItems [])))"
    by (simp add: users_def follow ListUsers_def NewMemory_def sort_slice_def)
  then show ?thesis using serve_path_reply [OF example_routes(5)] by (fastforce simp: writeJSON_def)
qed





lemma drawn: "\<exists>raw. NewToken (Some (replicate 32 (CHR ''x''))) = Inr raw" "\<exists>sid. NewID (Some (replicate 12 (CHR ''x''))) prefix = Inr sid"
  using drawn_tokens by (metis sum.exhaust)+

lemma login_reply:
  "\<exists>s m r ck. path (login_session example_settings example_deps login_request key (web_user ''u1'' RoleAdmin))
     [ERandom 32 (Some (replicate 32 (CHR ''x''))), ERandom 12 (Some (replicate 12 (CHR ''x''))), EClock 6,
      EOp (OpCreateSession s) m, ETable [], ERandom 12 None] (Reply r) \<and> wp_cookie r = Some ck"
proof -
  obtain raw sid where "NewToken (Some (replicate 32 (CHR ''x''))) = Inr raw" "NewID (Some (replicate 12 (CHR ''x''))) ''ses'' = Inr sid"
    using drawn by blast
  then show ?thesis
    by (simp add: login_session_def new_token_def new_id_def Let_def follow clearLoginFailures_def audit_def NewID_def NewToken_def
      setSessionCookie_def CreateSession_def)
qed

theorem login_authenticates_witness:
  "\<exists>es r ck s. path (login_session example_settings example_deps login_request [] (web_user ''u1'' RoleAdmin)) es (Reply r)
     \<and> wp_cookie r = Some ck \<and> session_user s = ''u1''
     \<and> (\<exists>m. map_of (mem_sessions (fst (exec (OpCreateSession s) m))) (TokenHash example_crypto (ck_value ck)) = Some s)"
proof -
  obtain es r ck where path: "path (login_session example_settings example_deps login_request [] (web_user ''u1'' RoleAdmin)) es (Reply r)"
    "wp_cookie r = Some ck" using login_reply by blast
  with login_authenticates [OF path] show ?thesis unfolding example_fields by blast
qed

section \<open>Runs\<close>

text \<open>A request that runs for some steps without the others.\<close>

inductive prog_steps :: "prog \<Rightarrow> memory \<Rightarrow> attempts \<Rightarrow> event list \<Rightarrow> prog \<Rightarrow> memory \<Rightarrow> attempts \<Rightarrow> bool" where
  no_steps: "prog_steps p m a [] p m a"
| more_steps: "prog_step p m a e p1 m1 a1 \<Longrightarrow> prog_steps p1 m1 a1 es q m' a' \<Longrightarrow> prog_steps p m a (e # es) q m' a'"

inductive_simps prog_steps_simps: "prog_steps p m a [] q m' a'" "prog_steps p m a (e # es) q m' a'"

inductive_simps prog_step_simps:
  "prog_step (Random n k) m a e p' m' a'" "prog_step (Clock k) m a e p' m' a'" "prog_step (Table f k) m a e p' m' a'"
  "prog_step (Read k) m a e p' m' a'" "prog_step (Op op k) m a e p' m' a'"

lemma steps_run:
  assumes "prog_steps p m a es q m' a'" "server_run serve_request tr s" "sys_store s = m" "sys_table s = a"
    "map_of (sys_live s) i = Some (req, h, p)"
  shows "\<exists>s'. server_run serve_request (tr @ map (\<lambda>e. (i, Did e)) es) s' \<and> sys_store s' = m' \<and> sys_table s' = a'
    \<and> map_of (sys_live s') i = Some (req, rev es @ h, q) \<and> (\<forall>j. j \<noteq> i \<longrightarrow> map_of (sys_live s') j = map_of (sys_live s) j)"
  using assms
proof (induction arbitrary: tr s h rule: prog_steps.induct)
  case (no_steps p m a)
  then show ?case by auto
next
  case (more_steps p m a e p1 m1 a1 es q m' a')
  let ?s = "\<lparr>sys_store = m1, sys_table = a1, sys_live = gput i (req, e # h, p1) (sys_live s)\<rparr>"
  have "server_run serve_request (tr @ [(i, Did e)]) ?s"
    using more_steps.prems more_steps.hyps(1) by (auto intro: run_more progress)
  from more_steps.IH [OF this, of "e # h"] show ?case by fastforce
qed

lemma arrive_run:
  assumes "server_run serve_request tr s" "map_of (sys_live s) i = None"
    "prog_steps (serve_request req) (sys_store s) (sys_table s) es q m' a'"
  shows "\<exists>s'. server_run serve_request (tr @ (i, Arrive req) # map (\<lambda>e. (i, Did e)) es) s' \<and> sys_store s' = m' \<and> sys_table s' = a'
    \<and> map_of (sys_live s') i = Some (req, rev es, q) \<and> (\<forall>j. j \<noteq> i \<longrightarrow> map_of (sys_live s') j = map_of (sys_live s) j)"
proof -
  let ?s = "s\<lparr>sys_live := gput i (req, [], serve_request req) (sys_live s)\<rparr>"
  have "server_run serve_request (tr @ [(i, Arrive req)]) ?s" using assms(1,2) by (auto intro: run_more arrive)
  from steps_run [OF assms(3) this, of i req "[]"] show ?thesis by simp
qed

abbreviation "logout_request \<equiv> example_request ''POST'' ''/api/v1/auth/logout'' []"


text \<open>
  C15: the limit of failed logins holds for one login after another only. For every number of concurrent logins for one name
  from one address there is a run in which all of them have passed the limit and have read the store to compare the
  password before the first failure is counted: the check and the count are two critical sections.
\<close>

theorem login_race:
  "\<exists>tr s. server_run (serve example_settings example_deps) tr s \<and> sys_table s = []
     \<and> (\<forall>i < n. \<exists>h p. map_of (sys_live s) i = Some (login_request, h, p) \<and> ERead NewMemory \<in> set h)"
proof -
  have name: "NormalizeUsername id ''root'' = Inr ''root''" by code_simp
  have steps: "\<exists>q. prog_steps (serve example_settings example_deps login_request) NewMemory [] [EClock 5, ETable [], ERead NewMemory] q NewMemory []"
    by (simp add: serve_routed [OF example_routes(3)] login_def no_store_def name login_user_def loginRateLimited_def limited_def
      drop_expired_def Let_def prog_steps_simps prog_step_simps)
  have "\<exists>tr s. server_run (serve example_settings example_deps) tr s \<and> sys_store s = NewMemory \<and> sys_table s = []
     \<and> (\<forall>i < n. \<exists>h p. map_of (sys_live s) i = Some (login_request, h, p) \<and> ERead NewMemory \<in> set h)
     \<and> (\<forall>i \<ge> n. map_of (sys_live s) i = None)"
  proof (induction n)
    case 0
    have "server_run (serve example_settings example_deps) [] server_start" by (rule run_start)
    then show ?case by (force simp: server_start_def)
  next
    case (Suc n)
    then obtain tr s where s: "server_run (serve example_settings example_deps) tr s" "sys_store s = NewMemory" "sys_table s = []"
      "\<forall>i < n. \<exists>h p. map_of (sys_live s) i = Some (login_request, h, p) \<and> ERead NewMemory \<in> set h"
      "\<forall>i \<ge> n. map_of (sys_live s) i = None" by blast
    with steps obtain q where q: "prog_steps (serve example_settings example_deps login_request) (sys_store s) (sys_table s)
      [EClock 5, ETable [], ERead NewMemory] q NewMemory []" by auto
    have "map_of (sys_live s) n = None" using s(5) by simp
    from arrive_run [OF s(1) this q] obtain tr' s' where s': "server_run (serve example_settings example_deps) tr' s'"
      "sys_store s' = NewMemory" "sys_table s' = []"
      "map_of (sys_live s') n = Some (login_request, rev [EClock 5, ETable [], ERead NewMemory], q)"
      "\<forall>j. j \<noteq> n \<longrightarrow> map_of (sys_live s') j = map_of (sys_live s) j" by blast
    have "\<exists>h p. map_of (sys_live s') i = Some (login_request, h, p) \<and> ERead NewMemory \<in> set h" if "i < Suc n" for i
      using that s'(4,5) s(4) by (cases "i = n") auto
    moreover have "map_of (sys_live s') i = None" if "Suc n \<le> i" for i
      using that s'(5) s(5) by simp
    ultimately show ?case using s'(1-3) by blast
  qed
  then show ?thesis by blast
qed

theorem login_race_witness:
  "\<exists>tr s. server_run (serve example_settings example_deps) tr s \<and> sys_table s = []
     \<and> (\<exists>h p. map_of (sys_live s) 0 = Some (login_request, h, p) \<and> ERead NewMemory \<in> set h)
     \<and> (\<exists>h p. map_of (sys_live s) 1 = Some (login_request, h, p) \<and> ERead NewMemory \<in> set h)"
proof -
  obtain tr s where s: "server_run (serve example_settings example_deps) tr s" "sys_table s = []"
    "\<forall>i < 2. \<exists>h p. map_of (sys_live s) i = Some (login_request, h, p) \<and> ERead NewMemory \<in> set h"
    using login_race [of 2] by blast
  from s(3) [rule_format, of 0] s(3) [rule_format, of 1] s(1,2) show ?thesis by auto
qed

lemma bumpNode_rules: "mem_rules (fold bumpNode nids m) = mem_rules m"
  by (induction nids arbitrary: m) (simp_all add: bumpNode_def Let_def)



end
