(* ===== verification/Fleet.thy ===== *)
theory Fleet
  imports AgentMain ServerExamples
begin

text \<open>
  The control server and its agents together: which configurations the running server hands out, what agents make of
  them, and what happens to a heartbeat on its way from the loop of an agent to the server.
\<close>

section \<open>Invariants of the store under the server\<close>

text \<open>
  An invariant of the store that every call the server makes keeps, holds of the store, and of every state of the store
  a request in flight has seen.
\<close>

definition seen_memories :: "event list \<Rightarrow> memory set" where
  "seen_memories h = {m. ERead m \<in> set h} \<union> {m. \<exists>op. EOp op m \<in> set h}"

lemma seen_memories_Cons:
  "seen_memories (e # h) = (case e of ERead m \<Rightarrow> {m} | EOp op m \<Rightarrow> {m} | _ \<Rightarrow> {}) \<union> seen_memories h"
  by (cases e) (auto simp: seen_memories_def)

definition store_holds :: "(memory \<Rightarrow> bool) \<Rightarrow> server_state \<Rightarrow> bool" where
  "store_holds I s \<longleftrightarrow> I (sys_store s)
     \<and> (\<forall>i req h p. map_of (sys_live s) i = Some (req, h, p) \<longrightarrow> (\<forall>m \<in> seen_memories h. I m))"

lemma server_run_invariant:
  assumes start: "I NewMemory"
    and call: "\<And>op h req m. I m \<Longrightarrow> authorised st dp req h op \<Longrightarrow> I (fst (exec op m))"
    and run: "server_run (serve st dp) tr s"
  shows "store_holds I s"
  using run
proof (induction rule: server_run.induct)
  case run_start
  then show ?case using start by (simp add: store_holds_def server_start_def)
next
  case (run_more tr s i e s')
  have paths: "histories_ok (serve st dp) s" using run_more.hyps(1) by (rule histories_ok_run)
  from run_more.hyps(2) show ?case
  proof (cases rule: server_step.cases)
    case (progress req h p e' p' m' a')
    have seen: "\<forall>m \<in> seen_memories h. I m" and now: "I (sys_store s)"
      using run_more.IH progress(3) unfolding store_holds_def by blast+
    have "I m' \<and> (\<forall>m \<in> seen_memories (e' # h). I m)"
      using progress(4)
    proof (cases rule: prog_step.cases)
      case (step_op op res k)
      have "path (serve st dp req) (rev h) (Op op k)"
        using paths progress(3) step_op(1) unfolding histories_ok_def by blast
      then have "I (fst (exec op (sys_store s)))" by (rule call [OF now serve_authorised])
      then show ?thesis using step_op seen now by (simp add: seen_memories_Cons)
    qed (use seen now in \<open>simp_all add: seen_memories_Cons\<close>)
    then show ?thesis using run_more.IH progress(2) unfolding store_holds_def by (simp add: map_of_gput)
  qed (use run_more.IH in \<open>auto simp: store_holds_def seen_memories_def\<close>)
qed

section \<open>Every configuration is valid but for tunnel addresses\<close>

definition nearly_valid :: "forward_rule \<Rightarrow> bool" where
  "nearly_valid r \<longleftrightarrow> rule_validate r = None \<or> rule_validate r = Some RelayTunnelRequired"

definition rules_valid :: "memory \<Rightarrow> bool" where
  "rules_valid m \<longleftrightarrow> (\<forall>rid r. (rid, r) \<in> set (mem_rules m) \<longrightarrow> rule_validate r = None)
     \<and> (\<forall>nid c r. (nid, c) \<in> set (mem_configs m) \<longrightarrow> r \<in> set (config_rules c) \<longrightarrow> nearly_valid r)"

lemma in_gput: "(x, y) \<in> set (gput k v m) \<Longrightarrow> x = k \<and> y = v \<or> (x, y) \<in> set m"
  by (induction m) (auto simp: gput_Cons split: if_splits)

lemma in_gdel: "(x, y) \<in> set (gdel k m) \<Longrightarrow> (x, y) \<in> set m"
  by (induction m) (auto simp: gdel_Cons split: if_splits)

lemma validate_counters [simp]:
  "rule_validate (r\<lparr>rule_config_version := v\<rparr>) = rule_validate r"
  "rule_validate (r\<lparr>rule_config_version := v, rule_egress_config_version := w\<rparr>) = rule_validate r"
  "rule_validate (r\<lparr>rule_active_conns := a, rule_runtime_updated := t\<rparr>) = rule_validate r"
  "rule_validate (r\<lparr>rule_active_conns := a, rule_bytes_in := b, rule_bytes_out := c, rule_runtime_updated := t\<rparr>) = rule_validate r"
  "rule_validate (stats_rule_update hb x r) = rule_validate r"
  "rule_validate (r\<lparr>rule_config_version := v, rule_egress_config_version := w, rule_active_conns := a, rule_bytes_in := b,
     rule_bytes_out := c, rule_runtime_updated := t\<rparr>) = rule_validate r"
  by (simp_all add: rule_validate_def stats_rule_update_def)

lemma with_relay_host_valid: "rule_validate r = None \<Longrightarrow> nearly_valid (with_relay_host m r)"
  unfolding nearly_valid_def with_relay_host_def rule_validate_def
  by (cases "rule_mode r = ForwardRelay"; cases "rule_enabled r"; simp split: if_split_asm)

lemma rules_valid_rebuild: "rules_valid m \<Longrightarrow> rules_valid (rebuildAgentConfig nid m)"
  using with_relay_host_valid
  by (auto simp: rules_valid_def rebuild_cases built_config_def dest!: in_gput split: option.splits)

lemma rules_valid_rebuilds: "rules_valid m \<Longrightarrow> rules_valid (fold rebuildAgentConfig nids m)"
  by (induction nids arbitrary: m) (simp_all add: rules_valid_rebuild)

lemma rules_valid_cong: "mem_rules m' = mem_rules m \<Longrightarrow> mem_configs m' = mem_configs m \<Longrightarrow> rules_valid m' = rules_valid m"
  by (simp add: rules_valid_def)

lemma bump_rules: "mem_rules (fold bumpNode nids m) = mem_rules m" "mem_configs (fold bumpNode nids m) = mem_configs m"
  by (induction nids arbitrary: m) (simp_all add: bumpNode_def Let_def)

lemma rules_valid_stored:
  assumes "rules_valid m" "rule_validate r = None" "mem_rules m1 = mem_rules m" "mem_configs m1 = mem_configs m"
  shows "rules_valid (m1\<lparr>mem_rules := gput rid r (mem_rules m)\<rparr>)"
  using assms by (auto simp: rules_valid_def dest!: in_gput)

lemma rules_valid_deleted:
  assumes "rules_valid m" "mem_rules m' = gdel rid (mem_rules m)" "mem_configs m' = mem_configs m"
  shows "rules_valid m'"
  using assms by (auto simp: rules_valid_def dest!: in_gdel)

lemma rules_valid_Create: "rules_valid m \<Longrightarrow> rule_validate r = None \<Longrightarrow> rules_valid (fst (CreateForwardRule r m))"
  by (auto simp: CreateForwardRule_def Let_def bump_rules intro!: rules_valid_rebuilds rules_valid_stored)

lemma rules_valid_Delete: "rules_valid m \<Longrightarrow> rules_valid (fst (DeleteForwardRule rid m))"
  by (auto simp: DeleteForwardRule_def Let_def bump_rules intro!: rules_valid_rebuilds intro: rules_valid_deleted split: option.split)

lemma rules_valid_Update:
  assumes "rules_valid m" "rule_validate r = None"
  shows "rules_valid (fst (UpdateForwardRule r m))"
proof (cases "map_of (mem_rules m) (rule_id r)")
  case None
  then show ?thesis using assms by (simp add: UpdateForwardRule_def)
next
  case (Some previous)
  with assms show ?thesis
    by (auto simp: UpdateForwardRule_def Let_def intro!: rules_valid_rebuilds rules_valid_stored)
qed

lemma rules_valid_Enroll: "rules_valid m \<Longrightarrow> rules_valid (fst (EnrollAgent h now a m))"
  by (auto simp: EnrollAgent_def Let_def rules_valid_def dest!: in_gput split: option.split)

lemma rules_valid_stats:
  "\<forall>rid r. (rid, r) \<in> set rules \<longrightarrow> rule_validate r = None \<Longrightarrow> apply_stats nid hb xs (rules, seen) = (rules', seen')
    \<Longrightarrow> (rid, r) \<in> set rules' \<Longrightarrow> rule_validate r = None"
proof (induction xs arbitrary: rules seen)
  case (Cons x xs)
  show ?case
  proof (cases "map_of rules (stats_rule x)")
    case (Some q)
    then have "rule_validate q = None" using Cons.prems(1) map_of_SomeD by metis
    then have "\<forall>rid r. (rid, r) \<in> set (gput (rule_id q) (stats_rule_update hb x q) rules) \<longrightarrow> rule_validate r = None"
      using Cons.prems(1) by (auto dest!: in_gput)
    then show ?thesis using Some Cons.IH Cons.prems by (auto split: if_splits)
  qed (use Cons in simp)
qed simp

lemma rules_valid_Heartbeat:
  assumes "rules_valid m"
  shows "rules_valid (fst (UpdateAgentHeartbeat nid code hb m))"
proof (cases rule: UpdateAgentHeartbeat_cases [of nid code hb m])
  case (accepted n)
  let ?m = "heartbeat_connections nid hb (recordAgentLogs nid hb (recordMetric nid hb
      (m\<lparr>mem_nodes := gput nid (heartbeat_node hb n) (mem_nodes m)\<rparr>)))"
  obtain rules seen where st: "apply_stats nid hb (hb_rule_stats hb) (mem_rules m, {}) = (rules, seen)" by fastforce
  have "rule_validate r = None" if "(rid, r) \<in> set rules" for rid r
    using rules_valid_stats [OF _ st that] assms by (simp add: rules_valid_def)
  then have "rules_valid (heartbeat_rules nid hb ?m)"
    using assms st by (auto simp: rules_valid_def heartbeat_rules_def gmap_vals_def)
  with accepted(4) show ?thesis by simp
qed (use assms in simp)

text \<open>The calls the server makes carry validated rules; \<open>rules_valid\<close> holds after every run of such calls.\<close>

fun valid_op :: "store_op \<Rightarrow> bool" where
  "valid_op (OpCreateRule r) = (rule_validate r = None)"
| "valid_op (OpUpdateRule r) = (rule_validate r = None)"
| "valid_op op = True"

lemma authorised_valid: "authorised st dp req h op \<Longrightarrow> valid_op op"
  by (cases op) (auto simp: rule_admissible_def)

lemma valid_op_keeps:
  assumes "rules_valid m" "valid_op op"
  shows "rules_valid (fst (exec op m))"
proof (cases "is_account_op op")
  case True
  then show ?thesis using assms(1) rules_valid_cong [OF account_op_frame(2,3)] by blast
next
  case False
  with assms show ?thesis
    by (cases op) (auto simp: rules_valid_Create rules_valid_Update rules_valid_Delete rules_valid_Enroll rules_valid_Heartbeat)
qed

definition served_store :: "memory \<Rightarrow> bool" where
  "served_store m \<longleftrightarrow> (\<exists>t. store_run t m \<and> (\<forall>p \<in> set t. valid_op (fst p)))"

lemma served_store_valid: "served_store m \<Longrightarrow> rules_valid m"
proof -
  have "store_run t m \<Longrightarrow> \<forall>p \<in> set t. valid_op (fst p) \<Longrightarrow> rules_valid m" for t
  proof (induction rule: store_run.induct)
    case run_empty
    then show ?case by (simp add: rules_valid_def NewMemory_def)
  next
    case (run_step t m op res m')
    then have "rules_valid (fst (exec op m))" by (intro valid_op_keeps) simp_all
    with run_step(2) show ?case by (simp add: store_step_iff)
  qed
  then show "served_store m \<Longrightarrow> rules_valid m" by (auto simp: served_store_def)
qed

text \<open>In every run of the server, the store and every state of it a request in flight has read are such.\<close>

lemma served_reads: "server_run (serve st dp) tr s \<Longrightarrow> store_holds served_store s"
proof (rule server_run_invariant)
  show "served_store NewMemory" unfolding served_store_def using run_empty by fastforce
  show "served_store (fst (exec op m))" if m: "served_store m" and op: "authorised st dp req h op" for op h req m
  proof -
    obtain t where t: "store_run t m" "\<forall>p \<in> set t. valid_op (fst p)" using m unfolding served_store_def by blast
    obtain m' res where e: "exec op m = (m', res)" by fastforce
    then have "store_step m op res m'" using op_ok_authorised [OF op] by (simp add: store_step_iff)
    from run_step [OF t(1) this] show ?thesis
      using e t(2) authorised_valid [OF op] unfolding served_store_def by fastforce
  qed
qed

section \<open>What an agent makes of its configuration\<close>

lemma claim_listeners_error: "claim_listeners rid addr nets ls = Inl e \<Longrightarrow> \<exists>other net. e = BothListen other rid net addr"
  by (induction nets arbitrary: ls) (auto simp: Let_def split: option.splits)

lemma prepare_loop_invalid:
  "prepare_loop nid rs desired ls = Inl (InvalidRule rid e) \<Longrightarrow> \<exists>r \<in> set rs. rule_validate r = Some e"
proof (induction rs arbitrary: desired ls)
  case (Cons r rs)
  then show ?case
    by (auto split: option.splits if_splits sum.splits dest: claim_listeners_error)
qed simp

text \<open>In every store a run reaches, only an invalid rule or two claims of one listener stop an agent.\<close>

lemma config_refusals:
  assumes "store_run t m" "ConfigForAgent nid credential m = Inr c" "prepareRules (config_rules c) nid = Inl e"
  shows "(\<exists>rid err. e = InvalidRule rid err) \<or> (\<exists>a b net addr. e = BothListen a b net addr)"
proof -
  have exact: "sorted_wrt (<) (map rule_id (config_rules c))"
    "set (map config_view (config_rules c)) = {config_view r |rid r. map_of (mem_rules m) rid = Some r \<and> involves nid r}"
    using config_exact [OF assms(1,2)] by simp_all
  have "effective_rule nid r \<noteq> None" if "r \<in> set (config_rules c)" for r
  proof -
    have "config_view r \<in> set (map config_view (config_rules c))" using that by simp
    then obtain r' where r': "config_view r = config_view r'" "involves nid r'" unfolding exact(2) by blast
    have "rule_mode (config_view r) = rule_mode (config_view r')" "rule_ingress (config_view r) = rule_ingress (config_view r')"
      "rule_egress (config_view r) = rule_egress (config_view r')"
      unfolding r'(1) by (rule refl)+
    then have "rule_mode r = rule_mode r'" "rule_ingress r = rule_ingress r'" "rule_egress r = rule_egress r'"
      by (simp_all add: config_view_def)
    with r'(2) show ?thesis by (auto simp: involves_def effective_rule_def)
  qed
  moreover have "distinct (map rule_id (config_rules c))" using exact(1) by (simp add: strict_sorted_iff)
  ultimately show ?thesis
    using prepare_loop_errors [of "config_rules c" "[]" nid "[]" e] assms(3) by (simp add: prepareRules_def)
qed


section \<open>From the agent's heartbeat to the server\<close>

text \<open>
  A heartbeat as the server reads it: the fields of the agent's message under the same names of the JSON text. Encoding
  and decoding are \<open>encoding/json\<close>, so that a request carries a message is a hypothesis on the decoder.
\<close>

definition received :: "heartbeat_message \<Rightarrow> heartbeat_input" where
  "received h = \<lparr>hi_agent_version = hm_agent_version h, hi_tunnel_address = hm_tunnel h, hi_config_version = hm_config_version h,
     hi_attempted_version = hm_attempted h, hi_config_error = hm_error h, hi_cpu = sm_cpu (hm_metrics h),
     hi_memory = sm_memory (hm_metrics h), hi_load = sm_load (hm_metrics h), hi_disk = sm_disk (hm_metrics h),
     hi_rx = sm_rx (hm_metrics h), hi_tx = sm_tx (hm_metrics h), hi_active = hm_active h, hi_in = hm_in h, hi_out = hm_out h,
     hi_rule_stats = map (\<lambda>r. \<lparr>stats_rule = rr_rule r, stats_active = rr_active r, stats_in = rr_in r, stats_out = rr_out r\<rparr>) (hm_rules h),
     hi_connections = map (\<lambda>c. \<lparr>ci_id = cs_id c, ci_rule = cs_rule c, ci_protocol = cs_protocol c, ci_source = cs_source c,
       ci_target = cs_target c, ci_started_at = cs_started c, ci_last_activity = cs_activity c, ci_bytes_in = cs_in c,
       ci_bytes_out = cs_out c\<rparr>) (hm_connections h),
     hi_complete = hm_complete h,
     hi_logs = map (\<lambda>e. \<lparr>gi_id = le_id e, gi_level = le_level e, gi_component = le_component e, gi_message = le_message e,
       gi_occurred_at = le_occurred_at e\<rparr>) (hm_logs h)\<rparr>"

definition outside_window :: "time \<Rightarrow> time \<Rightarrow> bool" where
  "outside_window now t \<longleftrightarrow> t < now - 30 * 24 * go_hour \<or> now + 10 * go_minute < t"

lemma log_loop_outside:
  "e \<in> set es \<Longrightarrow> outside_window now (gi_occurred_at e) \<Longrightarrow> log_loop ul now es seen = None"
  by (induction es arbitrary: seen) (auto simp: Let_def log_invalid_def trimmed_log_def outside_window_def)

lemma heartbeat_outside:
  assumes "dp_heartbeat dp (wr_body req) = Some i" "e \<in> set (hi_logs i)"
  shows "always (\<lambda>h op. \<not> (\<forall>now. EClock now \<in> set h \<longrightarrow> outside_window now (gi_occurred_at e)))
    (\<lambda>h r. (\<forall>now. EClock now \<in> set h \<longrightarrow> outside_window now (gi_occurred_at e)) \<longrightarrow> 400 \<le> wp_status r) (agentHeartbeat dp req) []"
proof -
  have late: "\<not> outside_window now (gi_occurred_at e)" if "checked_heartbeat ul ip now (trimmed_heartbeat i) stats = Some hb" for ul ip now stats hb
    using log_loop_outside [OF assms(2)] that by (fastforce simp: checked_heartbeat_def trimmed_heartbeat_def split: option.splits)
  have refused: "400 \<le> wp_status r" if "requireAgentCredentials req = Inl r" for r
    using that by (auto simp: requireAgentCredentials_def Let_def writeError_def writeJSON_def split: if_splits)
  show ?thesis
    using refused assms(1)
    by (auto dest: late simp: agentHeartbeat_def decoded_def decodeJSON_def Let_def methodNotAllowed_def with_header_def writeError_def writeJSON_def
      split: sum.split option.split store_error.split)
qed


definition late_agent :: runtime where
  "late_agent = example_agent\<lparr>rt_logs := Some \<lparr>lb_capacity = 1000, lb_prefix = ''p'', lb_sequence = 1,
     lb_entries = [\<lparr>le_id = ''p-1'', le_level = ''info'', le_component = ''agent'', le_message = ''started'',
       le_occurred_at = 5 + 11 * go_minute\<rparr>]\<rparr>\<rparr>"

definition late_env :: sync_env where
  "late_env = example_env\<lparr>se_reply := Some \<lparr>reply_code = 422, reply_status = ''422'', reply_body = []\<rparr>\<rparr>"

definition late_deps :: deps where
  "late_deps = example_deps\<lparr>dp_heartbeat := \<lambda>_. Some (received (sent_heartbeat example_lib late_env example_cfg late_agent))\<rparr>"

lemma late_path:
  "path (agentHeartbeat late_deps (example_request ''POST'' ''/api/v1/agent/heartbeat'' [])) [EClock 5]
     (Reply (writeError 422 ''invalid_heartbeat''))"
proof -
  have cred: "requireAgentCredentials (example_request ''POST'' ''/api/v1/agent/heartbeat'' []) = Inr (''n1'', ''c1'')"
    by code_simp
  let ?i = "trimmed_heartbeat (received (sent_heartbeat example_lib late_env example_cfg late_agent))"
  have checked: "heartbeat_metrics_ok ?i" "heartbeat_counters_ok ?i" "hi_tunnel_address ?i = [] \<or> ValidTunnelAddress (hi_tunnel_address ?i)"
    "stats_loop (hi_rule_stats ?i) {} \<noteq> None"
    by code_simp+
  have "log_loop id 5 (hi_logs ?i) {} = None" by code_simp
  then have "checked_heartbeat id ip 5 ?i stats = None" for ip stats
    by (simp add: checked_heartbeat_def split: option.split)
  then show ?thesis
    using checked by (auto simp: agentHeartbeat_def cred follow Let_def decoded_def decodeJSON_def late_deps_def example_deps_def has_prefix_def body_bytes_def)
qed


section \<open>A served configuration that is refused\<close>

definition fleet_key :: string where
  "fleet_key = TokenHash example_crypto ''c1''"

definition fleet_ops :: "store_op list" where
  "fleet_ops =
     [OpCreateEnrollmentToken (example_token ''t1''),
      OpEnrollAgent ''t1'' 5 ((example_identity ''A'')\<lparr>agent_credential_hash := fleet_key\<rparr>),
      OpCreateEnrollmentToken (example_token ''t2''),
      OpEnrollAgent ''t2'' 6 ((example_identity ''B'')\<lparr>agent_credential_hash := fleet_key\<rparr>),
      OpHeartbeat ''A'' fleet_key (example_heartbeat ''10.0.0.1'' 7), OpHeartbeat ''B'' fleet_key (example_heartbeat ''10.0.0.2'' 8),
      OpCreateRule example_relay, OpCreateRule (example_rule ''r2'')]"

definition fleet_store :: memory where
  "fleet_store = snd (run_ops fleet_ops NewMemory)"

lemma run_ops_calls: "map fst (fst (run_ops ops m)) = ops"
proof (induction ops arbitrary: m)
  case (Cons op ops)
  obtain m1 res where "exec op m = (m1, res)" by fastforce
  moreover obtain t m2 where "run_ops ops m1 = (t, m2)" by fastforce
  ultimately show ?case using Cons.IH [of m1] by simp
qed simp

lemma fleet_served: "served_store fleet_store"
proof -
  have "store_run (fst (run_ops fleet_ops NewMemory)) fleet_store"
    unfolding fleet_store_def
    by (rule store_run_ops) (simp add: fleet_ops_def example_relay_def example_rule_def rule_ok_def)
  moreover have "rule_validate example_relay = None" "rule_validate (example_rule ''r2'') = None" by code_simp+
  then have "list_all valid_op fleet_ops" by (simp add: fleet_ops_def)
  then have "\<forall>p \<in> set (fst (run_ops fleet_ops NewMemory)). valid_op (fst p)"
    using run_ops_calls [of fleet_ops NewMemory] by (metis in_set_zip list.set_map image_eqI list_all_iff)
  ultimately show ?thesis unfolding served_store_def by blast
qed

definition config_request :: web_request where
  "config_request = (example_request ''GET'' ''/api/v1/agent/config'' [])\<lparr>wr_node_header := ''B''\<rparr>"

lemma config_path:
  "\<exists>r rules version e. path (serve example_settings example_deps config_request) [ERead fleet_store] (Reply r)
     \<and> wp_body r = ConfigBody version rules \<and> prepareRules rules ''B'' = Inl e"
proof -
  have "map_sum (\<lambda>_. ()) (\<lambda>c. case prepareRules (config_rules c) ''B'' of Inl e \<Rightarrow> True | Inr x \<Rightarrow> False)
    (ConfigForAgent ''B'' (TokenHash example_crypto ''c1'') fleet_store) = Inr True"
    by code_simp
  then obtain c e where c: "ConfigForAgent ''B'' (TokenHash example_crypto ''c1'') fleet_store = Inr c" "prepareRules (config_rules c) ''B'' = Inl e"
    by (cases "ConfigForAgent ''B'' (TokenHash example_crypto ''c1'') fleet_store") (auto split: sum.splits)
  have cred: "requireAgentCredentials config_request = Inr (''B'', ''c1'')" by code_simp
  have clean: "clean_path ''/api/v1/agent/config'' = ''/api/v1/agent/config''" by code_simp
  have route: "routed example_settings example_deps config_request (agentConfig example_deps)"
    by (simp add: routed_def config_request_def example_request_def clean find_route_def routes_def)
  have "path (agentConfig example_deps config_request) [ERead fleet_store]
      (Reply (with_header ''Cache-Control'' ''no-store'' (writeJSON 200 (ConfigBody (config_version c) (config_rules c)))))"
    using c(1) by (simp add: agentConfig_def cred follow) (simp add: config_request_def)
  from serve_path_reply [OF route this] c(2) show ?thesis by (fastforce simp: with_header_def writeJSON_def)
qed


end
