(* ===== verification/Postgres.thy ===== *)
theory Postgres
  imports StoreMachine
begin

text \<open>
  The PostgreSQL store, \<open>internal/store/postgres/postgres.go\<close>, over the tables of its migrations. A table is a map from
  its primary key to its rows; the statements are written out with the constraints of the tables, and a method is a
  transaction of them. Every method that changes the store locks what it reads for its decision (row locks, advisory
  locks, unique indexes), so transactions are taken one after the other; the read of a configuration is two statements
  outside any transaction and is modelled as such. A column that may be NULL and is written with \<open>nullable\<close> and read
  with \<open>COALESCE\<close> holds the empty value instead. JSON columns hold the lists they encode.
\<close>

section \<open>Tables\<close>

record node_row =
  nr_node :: node
  nr_credential :: string

record stats_row =
  sr_node :: string
  sr_active :: u64
  sr_in :: u64
  sr_out :: u64
  sr_updated :: time

record tables =
  t_users :: "(string, user) gomap"
  t_sessions :: "(string, session) gomap"
  t_tokens :: "(string, enrollment_token) gomap"
  t_nodes :: "(string, node_row) gomap"
  t_rules :: "(string, forward_rule) gomap"
  t_stats :: "(string, stats_row) gomap"
  t_samples :: "(string \<times> time, metric_sample) gomap"
  t_logs :: "(string \<times> string, agent_log) gomap"
  t_connections :: "(string \<times> string, active_connection) gomap"
  t_audits :: "(string, audit_event) gomap"

definition empty_tables :: tables where
  "empty_tables = \<lparr>t_users = [], t_sessions = [], t_tokens = [], t_nodes = [], t_rules = [], t_stats = [], t_samples = [],
     t_logs = [], t_connections = [], t_audits = []\<rparr>"

section \<open>Errors and transactions\<close>

datatype sql_error = UniqueViolation | ForeignKeyViolation | CheckViolation | BadValue

datatype pg_error = Known store_error | Sql sql_error | Lost

text \<open>
  What may go wrong around a transaction: the connection fails before the commit, and nothing is committed, or it fails
  after the server has committed, and the caller sees an error all the same.
\<close>

datatype fault = NoFault | RolledBack | CommitLost

definition transact :: "fault \<Rightarrow> (tables \<Rightarrow> pg_error + tables \<times> 'a) \<Rightarrow> tables \<Rightarrow> tables \<times> (pg_error + 'a)" where
  "transact f body T =
     (case f of
        RolledBack \<Rightarrow> (T, Inl Lost)
      | NoFault \<Rightarrow> (case body T of Inl e \<Rightarrow> (T, Inl e) | Inr (T', x) \<Rightarrow> (T', Inr x))
      | CommitLost \<Rightarrow> (case body T of Inl e \<Rightarrow> (T, Inl e) | Inr (T', x) \<Rightarrow> (T', Inl Lost)))"

text \<open>The driver sends a time in microseconds.\<close>

definition micro :: "time \<Rightarrow> time" where
  "micro t = t - t mod 1000"

text \<open>Integers are \<open>BIGINT\<close>: what does not fit is an error of the driver.\<close>

abbreviation fits :: "u64 \<Rightarrow> bool" where
  "fits v \<equiv> v < 2 ^ 63"

section \<open>Users\<close>

text \<open>The row an \<open>INSERT\<close> makes of a user: the MFA columns have their defaults.\<close>

definition user_row :: "user \<Rightarrow> user" where
  "user_row u = u\<lparr>user_mfa_enabled := False, user_mfa_secret := [], user_recovery_hashes := [],
     user_created_at := micro (user_created_at u)\<rparr>"

definition role_ok :: "role \<Rightarrow> bool" where
  "role_ok role \<longleftrightarrow> role = RoleAdmin \<or> role = RoleMember"

definition insert_user :: "user \<Rightarrow> tables \<Rightarrow> sql_error + tables" where
  "insert_user u T =
     (if \<not> role_ok (user_role u) then Inl CheckViolation
      else if ghas (t_users T) (user_id u) \<or> list_ex (\<lambda>(uid, v). user_name v = user_name u) (t_users T) then Inl UniqueViolation
      else Inr (T\<lparr>t_users := gput (user_id u) (user_row u) (t_users T)\<rparr>))"

definition pg_CreateInitialUser :: "user \<Rightarrow> tables \<Rightarrow> pg_error + tables \<times> unit" where
  "pg_CreateInitialUser u T =
     (if length (t_users T) \<noteq> 0 then Inl (Known ErrBootstrapCompleted)
      else case insert_user u T of Inl e \<Rightarrow> Inl (Sql e) | Inr T' \<Rightarrow> Inr (T', ()))"

definition pg_CreateUser :: "user \<Rightarrow> tables \<Rightarrow> pg_error + tables \<times> unit" where
  "pg_CreateUser u T =
     (case insert_user u T of
        Inl UniqueViolation \<Rightarrow> Inl (Known ErrConflict)
      | Inl e \<Rightarrow> Inl (Sql e)
      | Inr T' \<Rightarrow> Inr (T', ()))"

definition pg_UserByID :: "string \<Rightarrow> tables \<Rightarrow> pg_error + user" where
  "pg_UserByID uid T = (case map_of (t_users T) uid of None \<Rightarrow> Inl (Known ErrNotFound) | Some u \<Rightarrow> Inr u)"

definition pg_UserByUsername :: "string \<Rightarrow> tables \<Rightarrow> pg_error + user" where
  "pg_UserByUsername name T =
     (case find (\<lambda>(uid, u). user_name u = name) (t_users T) of None \<Rightarrow> Inl (Known ErrNotFound) | Some (uid, u) \<Rightarrow> Inr u)"

text \<open>\<open>lt\<close> is the order of the database's collation, which \<open>ORDER BY\<close> uses on text and the code does not choose.\<close>

definition pg_ListUsers :: "(string \<Rightarrow> string \<Rightarrow> bool) \<Rightarrow> tables \<Rightarrow> user list" where
  "pg_ListUsers lt T = sort_slice (\<lambda>a b. if user_created_at a = user_created_at b then lt (user_name a) (user_name b)
     else user_created_at a < user_created_at b) (map snd (t_users T))"

definition pg_UpdateUser :: "string \<Rightarrow> user_update \<Rightarrow> tables \<Rightarrow> pg_error + tables \<times> user" where
  "pg_UpdateUser uid upd T =
     (case map_of (t_users T) uid of
        None \<Rightarrow> Inl (Known ErrNotFound)
      | Some previous \<Rightarrow>
          if user_role previous = RoleAdmin \<and> \<not> user_disabled previous \<and> (upd_role upd \<noteq> RoleAdmin \<or> upd_disabled upd)
             \<and> length (filter (\<lambda>(k, v). user_role v = RoleAdmin \<and> \<not> user_disabled v) (t_users T)) \<le> 1
          then Inl (Known ErrLastAdministrator)
          else let password = (if upd_password_hash upd \<noteq> [] then upd_password_hash upd else user_password_hash previous);
                   reset = upd_reset_mfa upd;
                   updated = previous\<lparr>user_password_hash := password, user_role := upd_role upd, user_disabled := upd_disabled upd,
                     user_mfa_enabled := (if reset then False else user_mfa_enabled previous),
                     user_mfa_secret := (if reset then [] else user_mfa_secret previous),
                     user_recovery_hashes := (if reset then [] else user_recovery_hashes previous)\<rparr>
               in if \<not> role_ok (upd_role upd) then Inl (Sql CheckViolation)
                  else Inr (T\<lparr>t_users := gput uid updated (t_users T),
                              t_sessions := gdel_where (\<lambda>s. session_user s = uid) (t_sessions T)\<rparr>, updated))"

text \<open>The foreign key of sessions deletes with the user; that of tokens refuses, so the tokens are deleted before.\<close>

definition pg_DeleteUser :: "string \<Rightarrow> tables \<Rightarrow> pg_error + tables \<times> unit" where
  "pg_DeleteUser uid T =
     (case map_of (t_users T) uid of
        None \<Rightarrow> Inl (Known ErrNotFound)
      | Some u \<Rightarrow>
          if user_role u = RoleAdmin \<and> \<not> user_disabled u
             \<and> length (filter (\<lambda>(k, v). user_role v = RoleAdmin \<and> \<not> user_disabled v) (t_users T)) \<le> 1
          then Inl (Known ErrLastAdministrator)
          else Inr (T\<lparr>t_users := gdel uid (t_users T),
                      t_tokens := gdel_where (\<lambda>t. token_created_by t = uid) (t_tokens T),
                      t_sessions := gdel_where (\<lambda>s. session_user s = uid) (t_sessions T)\<rparr>, ()))"

definition pg_SetUserMFA :: "string \<Rightarrow> bool \<Rightarrow> string \<Rightarrow> string list \<Rightarrow> tables \<Rightarrow> pg_error + tables \<times> user" where
  "pg_SetUserMFA uid enabled secret hashes T =
     (case map_of (t_users T) uid of
        None \<Rightarrow> Inl (Known ErrNotFound)
      | Some u \<Rightarrow>
          let u' = u\<lparr>user_mfa_enabled := enabled, user_mfa_secret := secret, user_recovery_hashes := hashes\<rparr>
          in Inr (T\<lparr>t_users := gput uid u' (t_users T)\<rparr>, u'))"

text \<open>The loop over the codes: whether the code was found, and the codes that remain.\<close>

fun remaining_codes :: "string \<Rightarrow> string list \<Rightarrow> bool \<Rightarrow> bool \<times> string list" where
  "remaining_codes hash [] found = (found, [])"
| "remaining_codes hash (c # cs) found =
     (if \<not> found \<and> c = hash then remaining_codes hash cs True
      else let (found', rest) = remaining_codes hash cs found in (found', c # rest))"

definition pg_ConsumeRecoveryCode :: "string \<Rightarrow> string \<Rightarrow> tables \<Rightarrow> pg_error + tables \<times> bool" where
  "pg_ConsumeRecoveryCode uid hash T =
     (case map_of (t_users T) uid of
        None \<Rightarrow> Inl (Known ErrNotFound)
      | Some u \<Rightarrow>
          let (found, rest) = remaining_codes hash (user_recovery_hashes u) False
          in if \<not> found then Inr (T, False)
             else Inr (T\<lparr>t_users := gput uid (u\<lparr>user_recovery_hashes := rest\<rparr>) (t_users T)\<rparr>, True))"

section \<open>Sessions and enrollment\<close>

definition session_row :: "session \<Rightarrow> session" where
  "session_row s = s\<lparr>session_expires_at := micro (session_expires_at s), session_created_at := micro (session_created_at s)\<rparr>"

definition pg_CreateSession :: "session \<Rightarrow> tables \<Rightarrow> pg_error + tables \<times> unit" where
  "pg_CreateSession s T =
     (if ghas (t_sessions T) (session_id s)
         \<or> list_ex (\<lambda>(i, v). session_token_hash v = session_token_hash s) (t_sessions T) then Inl (Sql UniqueViolation)
      else if \<not> ghas (t_users T) (session_user s) then Inl (Sql ForeignKeyViolation)
      else Inr (T\<lparr>t_sessions := gput (session_id s) (session_row s) (t_sessions T)\<rparr>, ()))"

definition pg_SessionUserByTokenHash :: "string \<Rightarrow> time \<Rightarrow> tables \<Rightarrow> pg_error + session \<times> user" where
  "pg_SessionUserByTokenHash hash now T =
     (case List.map_filter (\<lambda>(i, s). case map_of (t_users T) (session_user s) of
             None \<Rightarrow> None
           | Some u \<Rightarrow> if session_token_hash s = hash \<and> micro now < session_expires_at s \<and> \<not> user_disabled u then Some (s, u) else None)
           (t_sessions T) of
        [] \<Rightarrow> Inl (Known ErrNotFound)
      | p # ps \<Rightarrow> Inr p)"

definition pg_DeleteSession :: "string \<Rightarrow> tables \<Rightarrow> pg_error + tables \<times> unit" where
  "pg_DeleteSession hash T = Inr (T\<lparr>t_sessions := gdel_where (\<lambda>s. session_token_hash s = hash) (t_sessions T)\<rparr>, ())"

definition token_row :: "enrollment_token \<Rightarrow> enrollment_token" where
  "token_row t = t\<lparr>token_expires_at := micro (token_expires_at t), token_created_at := micro (token_created_at t), token_used_at := None\<rparr>"

definition pg_CreateEnrollmentToken :: "enrollment_token \<Rightarrow> tables \<Rightarrow> pg_error + tables \<times> unit" where
  "pg_CreateEnrollmentToken t T =
     (if ghas (t_tokens T) (token_id t) \<or> list_ex (\<lambda>(i, v). token_hash v = token_hash t) (t_tokens T) then Inl (Sql UniqueViolation)
      else if \<not> ghas (t_users T) (token_created_by t) then Inl (Sql ForeignKeyViolation)
      else Inr (T\<lparr>t_tokens := gput (token_id t) (token_row t) (t_tokens T)\<rparr>, ()))"

text \<open>
  \<open>inet\<close> is the reading of an address by PostgreSQL and its printing by \<open>host\<close>: \<open>None\<close> where the text is no address.
\<close>

definition insert_node :: "(string \<Rightarrow> string option) \<Rightarrow> agent_identity \<Rightarrow> time \<Rightarrow> tables \<Rightarrow> sql_error + tables" where
  "insert_node inet a now T =
     (case inet (agent_public_ip a) of
        None \<Rightarrow> Inl BadValue
      | Some ip \<Rightarrow>
          if ghas (t_nodes T) (agent_id a)
             \<or> list_ex (\<lambda>(i, r). node_name (nr_node r) = agent_name a \<or> nr_credential r = agent_credential_hash a) (t_nodes T)
          then Inl UniqueViolation
          else Inr (T\<lparr>t_nodes := gput (agent_id a)
                 \<lparr>nr_node = zero_node\<lparr>node_id := agent_id a, node_name := agent_name a, node_region := agent_region a,
                    node_public_ip := ip, node_status := NodeOnline, node_architecture := agent_architecture a,
                    node_agent_version := agent_version a, node_last_heartbeat := micro now, node_config_version := 1,
                    node_applied_config_version := 1, node_attempted_config_version := 1\<rparr>,
                  nr_credential = agent_credential_hash a\<rparr> (t_nodes T)\<rparr>))"

definition token_open :: "string \<Rightarrow> time \<Rightarrow> enrollment_token \<Rightarrow> bool" where
  "token_open hash now t \<longleftrightarrow> token_hash t = hash \<and> token_used_at t = None \<and> micro now < token_expires_at t"

definition pg_EnrollAgent :: "(string \<Rightarrow> string option) \<Rightarrow> string \<Rightarrow> time \<Rightarrow> agent_identity \<Rightarrow> tables \<Rightarrow> pg_error + tables \<times> node" where
  "pg_EnrollAgent inet hash now a T =
     (let rows = filter (\<lambda>(i, t). token_open hash now t) (t_tokens T);
          T1 = T\<lparr>t_tokens := gmap_vals (\<lambda>i t. if token_open hash now t then t\<lparr>token_used_at := Some (micro now)\<rparr> else t) (t_tokens T)\<rparr>
      in if length rows \<noteq> 1 then Inl (Known ErrTokenInvalid)
         else case insert_node inet a now T1 of
           Inl e \<Rightarrow> Inl (Sql e)
         | Inr T' \<Rightarrow> Inr (T', zero_node\<lparr>node_id := agent_id a, node_name := agent_name a, node_region := agent_region a,
             node_public_ip := agent_public_ip a, node_status := NodeOnline, node_architecture := agent_architecture a,
             node_agent_version := agent_version a, node_last_heartbeat := now, node_config_version := 1,
             node_applied_config_version := 1\<rparr>))"

section \<open>Rules\<close>

text \<open>The columns of a rule: the relay host and the counters are joined in when a rule is read.\<close>

definition rule_row :: "forward_rule \<Rightarrow> forward_rule" where
  "rule_row r = config_view r"

text \<open>
  The constraints on a rule. A \<open>CHECK\<close> that evaluates to \<open>NULL\<close> passes, and \<open>NULL\<close> is equal to nothing in a unique
  index: a relay rule without a relay port, which is stored as \<open>NULL\<close>, would pass both.
\<close>

definition base_checks :: "forward_rule \<Rightarrow> bool" where
  "base_checks r \<longleftrightarrow> (rule_protocol r = ProtocolTCP \<or> rule_protocol r = ProtocolUDP \<or> rule_protocol r = ProtocolTCPUDP)
     \<and> (rule_mode r = ForwardDirect \<or> rule_mode r = ForwardRelay) \<and> rule_listen_port r \<noteq> 0 \<and> rule_target_port r \<noteq> 0
     \<and> fits (rule_bandwidth_kbps r) \<and> rule_max_connections r < 2 ^ 31 \<and> rule_config_version r \<noteq> 0 \<and> fits (rule_config_version r)
     \<and> (rule_mode r = ForwardDirect \<and> rule_egress r = [] \<or> rule_mode r = ForwardRelay \<and> rule_egress r \<noteq> [])
     \<and> (rule_egress r = [] \<or> rule_ingress r \<noteq> rule_egress r)"

definition relay_checks :: "forward_rule \<Rightarrow> bool" where
  "relay_checks r \<longleftrightarrow> fits (rule_egress_config_version r)
     \<and> (rule_mode r = ForwardDirect \<and> rule_relay_port r = 0 \<and> rule_egress_config_version r = 0 \<or> rule_mode r = ForwardRelay)"

definition listener_taken :: "forward_rule \<Rightarrow> forward_rule \<Rightarrow> bool" where
  "listener_taken r q \<longleftrightarrow> rule_ingress q = rule_ingress r \<and> rule_protocol q = rule_protocol r
     \<and> rule_listen_host q = rule_listen_host r \<and> rule_listen_port q = rule_listen_port r"

definition relay_taken :: "forward_rule \<Rightarrow> forward_rule \<Rightarrow> bool" where
  "relay_taken r q \<longleftrightarrow> rule_mode q = ForwardRelay \<and> rule_mode r = ForwardRelay \<and> rule_egress q = rule_egress r
     \<and> rule_relay_port r \<noteq> 0 \<and> rule_relay_port q = rule_relay_port r"

definition insert_rule :: "forward_rule \<Rightarrow> tables \<Rightarrow> sql_error + tables" where
  "insert_rule r T =
     (if \<not> base_checks r \<or> \<not> relay_checks r then Inl CheckViolation
      else if ghas (t_rules T) (rule_id r) \<or> list_ex (\<lambda>(i, q). listener_taken r q \<or> relay_taken r q) (t_rules T) then Inl UniqueViolation
      else if \<not> ghas (t_nodes T) (rule_ingress r) \<or> rule_egress r \<noteq> [] \<and> \<not> ghas (t_nodes T) (rule_egress r) then Inl ForeignKeyViolation
      else Inr (T\<lparr>t_rules := gput (rule_id r) (rule_row r) (t_rules T)\<rparr>))"

definition update_rule :: "forward_rule \<Rightarrow> tables \<Rightarrow> sql_error + tables" where
  "update_rule r T =
     (if \<not> base_checks r \<or> \<not> relay_checks r then Inl CheckViolation
      else if list_ex (\<lambda>(i, q). i \<noteq> rule_id r \<and> (listener_taken r q \<or> relay_taken r q)) (t_rules T) then Inl UniqueViolation
      else if \<not> ghas (t_nodes T) (rule_ingress r) \<or> rule_egress r \<noteq> [] \<and> \<not> ghas (t_nodes T) (rule_egress r) then Inl ForeignKeyViolation
      else Inr (T\<lparr>t_rules := gput (rule_id r) (rule_row r) (t_rules T)\<rparr>))"

definition ensureListenerAvailable :: "forward_rule \<Rightarrow> string \<Rightarrow> tables \<Rightarrow> bool" where
  "ensureListenerAvailable r excluded T \<longleftrightarrow> \<not> list_ex (\<lambda>(i, q). rule_ingress q = rule_ingress r
     \<and> rule_listen_host q = rule_listen_host r \<and> rule_listen_port q = rule_listen_port r \<and> i \<noteq> excluded
     \<and> (rule_protocol q = rule_protocol r \<or> rule_protocol q = ProtocolTCPUDP \<or> rule_protocol r = ProtocolTCPUDP)) (t_rules T)"

definition bumpNodeConfig :: "string \<Rightarrow> tables \<Rightarrow> pg_error + tables \<times> u64" where
  "bumpNodeConfig nid T =
     (case map_of (t_nodes T) nid of
        None \<Rightarrow> Inl (Known ErrNotFound)
      | Some row \<Rightarrow>
          if node_status (nr_node row) = NodeDisabled then Inl (Known ErrNotFound)
          else let version = node_config_version (nr_node row) + 1
               in if \<not> fits version then Inl (Sql BadValue)
                  else Inr (T\<lparr>t_nodes := gput nid (row\<lparr>nr_node := (nr_node row)\<lparr>node_config_version := version\<rparr>\<rparr>) (t_nodes T)\<rparr>, version))"

fun bump_all :: "string list \<Rightarrow> tables \<Rightarrow> pg_error + tables \<times> (string, u64) gomap" where
  "bump_all [] T = Inr (T, [])"
| "bump_all (nid # nids) T =
     (case bumpNodeConfig nid T of
        Inl e \<Rightarrow> Inl e
      | Inr (T1, v) \<Rightarrow>
          (case bump_all nids T1 of Inl e \<Rightarrow> Inl e | Inr (T2, vs) \<Rightarrow> Inr (T2, (nid, v) # vs)))"

text \<open>\<open>sortedUniqueNodeIDs\<close>: nodes are locked in one order.\<close>

definition sortedUniqueNodeIDs :: "string list \<Rightarrow> string list" where
  "sortedUniqueNodeIDs nids = sort_slice (<) (remdups nids)"

definition pg_CreateForwardRule :: "forward_rule \<Rightarrow> tables \<Rightarrow> pg_error + tables \<times> forward_rule" where
  "pg_CreateForwardRule r T =
     (if \<not> ensureListenerAvailable r [] T then Inl (Known ErrConflict)
      else case bump_all (sortedUniqueNodeIDs (ruleNodeIDs r)) T of
        Inl e \<Rightarrow> Inl e
      | Inr (T1, versions) \<Rightarrow>
          let r1 = (case map_of versions (rule_ingress r) of None \<Rightarrow> r | Some v \<Rightarrow> r\<lparr>rule_config_version := v\<rparr>);
              r2 = (case map_of versions (rule_egress r) of None \<Rightarrow> r1 | Some v \<Rightarrow> r1\<lparr>rule_egress_config_version := v\<rparr>)
          in case insert_rule r2 T1 of
               Inl UniqueViolation \<Rightarrow> Inl (Known ErrConflict)
             | Inl e \<Rightarrow> Inl (Sql e)
             | Inr T2 \<Rightarrow> Inr (T2, r2))"

text \<open>\<open>versions[id]\<close> is zero where the node was not bumped.\<close>

definition version_of :: "(string, u64) gomap \<Rightarrow> string \<Rightarrow> u64" where
  "version_of versions nid = (case map_of versions nid of None \<Rightarrow> 0 | Some v \<Rightarrow> v)"

definition pg_UpdateForwardRule :: "forward_rule \<Rightarrow> tables \<Rightarrow> pg_error + tables \<times> forward_rule" where
  "pg_UpdateForwardRule r T =
     (case map_of (t_rules T) (rule_id r) of
        None \<Rightarrow> Inl (Known ErrNotFound)
      | Some previous \<Rightarrow>
          if \<not> ensureListenerAvailable r (rule_id r) T then Inl (Known ErrConflict)
          else case bump_all (sortedUniqueNodeIDs (ruleNodeIDs previous @ ruleNodeIDs r)) T of
            Inl e \<Rightarrow> Inl e
          | Inr (T1, versions) \<Rightarrow>
              let r1 = r\<lparr>rule_config_version := version_of versions (rule_ingress r)\<rparr>;
                  r2 = (if rule_mode r = ForwardRelay then r1\<lparr>rule_egress_config_version := version_of versions (rule_egress r)\<rparr> else r1)
              in case update_rule r2 T1 of
                   Inl UniqueViolation \<Rightarrow> Inl (Known ErrConflict)
                 | Inl e \<Rightarrow> Inl (Sql e)
                 | Inr T2 \<Rightarrow> Inr (T2, r2))"

definition pg_DeleteForwardRule :: "string \<Rightarrow> tables \<Rightarrow> pg_error + tables \<times> unit" where
  "pg_DeleteForwardRule rid T =
     (case map_of (t_rules T) rid of
        None \<Rightarrow> Inl (Known ErrNotFound)
      | Some r \<Rightarrow>
          (case bump_all (sortedUniqueNodeIDs (ruleNodeIDs r)) T of
             Inl e \<Rightarrow> Inl e
           | Inr (T1, versions) \<Rightarrow> Inr (T1\<lparr>t_rules := gdel rid (t_rules T1), t_stats := gdel rid (t_stats T1)\<rparr>, ())))"

end
