(* ===== verification/PostgresRuntime.thy ===== *)
theory PostgresRuntime
  imports Postgres
begin

text \<open>
  Heartbeats, configurations, lists and the audit log in the PostgreSQL store (\<open>postgres.go\<close>), and one body per
  operation of the store. \<open>inet\<close> is the reading and printing of addresses by the database; \<open>lt\<close> is the order of its
  collation, which \<open>ORDER BY\<close> uses on text and the code does not choose.
\<close>

section \<open>The statements of a heartbeat\<close>

text \<open>The \<open>CHECK\<close> constraints on percentages and loads: to the database not-a-number is the largest value.\<close>

definition percent_ok :: "float64 \<Rightarrow> bool" where
  "percent_ok x \<longleftrightarrow> \<not> float_lt x (Fin 0) \<and> \<not> float_lt (Fin 100) x \<and> \<not> float_is_nan x"

definition measures_ok :: "agent_heartbeat \<Rightarrow> bool" where
  "measures_ok hb \<longleftrightarrow> percent_ok (hb_cpu hb) \<and> percent_ok (hb_memory hb) \<and> percent_ok (hb_disk hb)
     \<and> \<not> float_lt (hb_load hb) (Fin 0)"

definition measures_fit :: "agent_heartbeat \<Rightarrow> bool" where
  "measures_fit hb \<longleftrightarrow> fits (hb_rx hb) \<and> fits (hb_tx hb) \<and> fits (hb_active hb) \<and> fits (hb_in hb) \<and> fits (hb_out hb)"

definition least :: "u64 \<Rightarrow> u64 \<Rightarrow> u64" where
  "least a b = (if a < b then a else b)"

definition tunnel_column :: "(string \<Rightarrow> string option) \<Rightarrow> string \<Rightarrow> string option" where
  "tunnel_column inet t = (if t = [] then Some [] else inet t)"

text \<open>The assignments of the \<open>UPDATE\<close>.\<close>

definition heartbeat_columns :: "string \<Rightarrow> string \<Rightarrow> agent_heartbeat \<Rightarrow> node \<Rightarrow> node" where
  "heartbeat_columns ip tunnel hb n = n\<lparr>node_public_ip := ip, node_agent_version := hb_agent_version hb,
     node_status := NodeOnline, node_last_heartbeat := micro (hb_received_at hb), node_cpu_percent := hb_cpu hb,
     node_memory_percent := hb_memory hb, node_load_one := hb_load hb, node_disk_percent := hb_disk hb,
     node_network_rx_bps := hb_rx hb, node_network_tx_bps := hb_tx hb, node_active_conns := hb_active hb,
     node_bytes_in := hb_in hb, node_bytes_out := hb_out hb,
     node_applied_config_version := least (hb_config_version hb) (node_config_version n),
     node_attempted_config_version := least (hb_attempted_version hb) (node_config_version n),
     node_last_config_error := hb_config_error hb, node_last_config_attempt := micro (hb_received_at hb),
     node_tunnel_address := tunnel\<rparr>"

definition update_node :: "(string \<Rightarrow> string option) \<Rightarrow> string \<Rightarrow> string \<Rightarrow> agent_heartbeat \<Rightarrow> tables
    \<Rightarrow> pg_error + tables \<times> node" where
  "update_node inet nid credential hb T =
     (if \<not> measures_fit hb \<or> \<not> fits (hb_config_version hb) \<or> \<not> fits (hb_attempted_version hb) then Inl (Sql BadValue)
      else case inet (hb_public_ip hb) of
        None \<Rightarrow> Inl (Sql BadValue)
      | Some ip \<Rightarrow>
          (case map_of (t_nodes T) nid of
             None \<Rightarrow> Inl (Known ErrNotFound)
           | Some row \<Rightarrow>
               let n = nr_node row
               in if nr_credential row \<noteq> credential \<or> node_status n = NodeDisabled then Inl (Known ErrNotFound)
                  else case tunnel_column inet (hb_tunnel_address hb) of
                    None \<Rightarrow> Inl (Sql BadValue)
                  | Some tunnel \<Rightarrow>
                      if \<not> measures_ok hb \<or> least (hb_config_version hb) (node_config_version n) = 0
                         \<or> least (hb_attempted_version hb) (node_config_version n) = 0 then Inl (Sql CheckViolation)
                      else let n' = heartbeat_columns ip tunnel hb n
                           in Inr (T\<lparr>t_nodes := gput nid (row\<lparr>nr_node := n'\<rparr>) (t_nodes T)\<rparr>, n')))"

definition upsert_sample :: "string \<Rightarrow> agent_heartbeat \<Rightarrow> tables \<Rightarrow> tables" where
  "upsert_sample nid hb T =
     (let bucket = time_truncate (hb_received_at hb) go_minute;
          rows = gput (nid, bucket) (heartbeat_sample nid bucket hb) (t_samples T)
      in T\<lparr>t_samples := gdel_where (\<lambda>s. sample_at s < bucket - NodeMetricRetention) rows\<rparr>)"

text \<open>The constraint of the level is checked before the conflict on the key is found.\<close>

fun insert_logs :: "string \<Rightarrow> time \<Rightarrow> agent_log list \<Rightarrow> (string \<times> string, agent_log) gomap
    \<Rightarrow> pg_error + (string \<times> string, agent_log) gomap" where
  "insert_logs nid received [] rows = Inr rows"
| "insert_logs nid received (e # es) rows =
     (if log_level e \<notin> {''info'', ''warning'', ''error''} then Inl (Sql CheckViolation)
      else if ghas rows (nid, log_event e) then insert_logs nid received es rows
      else insert_logs nid received es
             (gput (nid, log_event e) (e\<lparr>log_node := nid, log_occurred_at := micro (log_occurred_at e),
                                         log_received_at := micro received\<rparr>) rows))"

definition expire_log_rows :: "time \<Rightarrow> (string \<times> string, agent_log) gomap \<Rightarrow> (string \<times> string, agent_log) gomap" where
  "expire_log_rows received rows = gdel_where (\<lambda>e. log_received_at e < micro (received - AgentLogRetention)) rows"

definition connection_row :: "string \<Rightarrow> time \<Rightarrow> active_connection \<Rightarrow> active_connection" where
  "connection_row nid received c = c\<lparr>conn_node := nid, conn_started_at := micro (conn_started_at c),
     conn_last_activity := micro (conn_last_activity c), conn_observed_at := micro received\<rparr>"

fun upsert_connections :: "string \<Rightarrow> time \<Rightarrow> active_connection list \<Rightarrow> (string \<times> string, active_connection) gomap
    \<Rightarrow> pg_error + (string \<times> string, active_connection) gomap" where
  "upsert_connections nid received [] rows = Inr rows"
| "upsert_connections nid received (c # cs) rows =
     (if \<not> fits (conn_bytes_in c) \<or> \<not> fits (conn_bytes_out c) then Inl (Sql BadValue)
      else if conn_protocol c \<notin> {''tcp'', ''udp''} then Inl (Sql CheckViolation)
      else upsert_connections nid received cs (gput (nid, conn_id c) (connection_row nid received c) rows))"

text \<open>\<open>ORDER BY observed_at DESC, last_activity DESC, connection_id OFFSET 4000\<close> are the rows to delete.\<close>

definition stale_before :: "(string \<Rightarrow> string \<Rightarrow> bool) \<Rightarrow> active_connection \<Rightarrow> active_connection \<Rightarrow> bool" where
  "stale_before lt a b =
     (if conn_observed_at a = conn_observed_at b
      then (if conn_last_activity a = conn_last_activity b then lt (conn_id a) (conn_id b)
            else conn_last_activity b < conn_last_activity a)
      else conn_observed_at b < conn_observed_at a)"

definition surplus :: "(string \<Rightarrow> string \<Rightarrow> bool) \<Rightarrow> string \<Rightarrow> (string \<times> string, active_connection) gomap \<Rightarrow> active_connection list" where
  "surplus lt nid rows = drop MaxStoredConnectionsPerNode
     (sort_slice (stale_before lt) (map snd (filter (\<lambda>(k, c). fst k = nid) rows)))"

definition trim_rows :: "(string \<Rightarrow> string \<Rightarrow> bool) \<Rightarrow> string \<Rightarrow> (string \<times> string, active_connection) gomap
    \<Rightarrow> (string \<times> string, active_connection) gomap" where
  "trim_rows lt nid rows = filter (\<lambda>(k, c). \<not> (fst k = nid \<and> snd k \<in> conn_id ` set (surplus lt nid rows))) rows"

definition replace_connections :: "(string \<Rightarrow> string \<Rightarrow> bool) \<Rightarrow> string \<Rightarrow> agent_heartbeat \<Rightarrow> tables \<Rightarrow> pg_error + tables" where
  "replace_connections lt nid hb T =
     (let rows = (if hb_complete hb then filter (\<lambda>(k, c). fst k \<noteq> nid) (t_connections T) else t_connections T)
      in case upsert_connections nid (hb_received_at hb) (hb_connections hb) rows of
           Inl e \<Rightarrow> Inl e
         | Inr rows' \<Rightarrow> Inr (T\<lparr>t_connections := trim_rows lt nid rows'\<rparr>))"

text \<open>The upsert of the counters of a rule does not write the column \<open>node_id\<close> when the row exists.\<close>

fun upsert_stats :: "string \<Rightarrow> time \<Rightarrow> rule_stats list \<Rightarrow> (string, forward_rule) gomap \<Rightarrow> (string, stats_row) gomap
    \<Rightarrow> pg_error + (string, stats_row) gomap" where
  "upsert_stats nid received [] rules rows = Inr rows"
| "upsert_stats nid received (x # xs) rules rows =
     (if \<not> fits (stats_active x) \<or> \<not> fits (stats_in x) \<or> \<not> fits (stats_out x) then Inl (Sql BadValue)
      else case map_of rules (stats_rule x) of
        None \<Rightarrow> upsert_stats nid received xs rules rows
      | Some r \<Rightarrow>
          if rule_ingress r \<noteq> nid then upsert_stats nid received xs rules rows
          else let owner = (case map_of rows (stats_rule x) of None \<Rightarrow> nid | Some old \<Rightarrow> sr_node old)
               in upsert_stats nid received xs rules
                    (gput (stats_rule x) \<lparr>sr_node = owner, sr_active = stats_active x, sr_in = stats_in x,
                       sr_out = stats_out x, sr_updated = micro received\<rparr> rows))"

definition reset_stats :: "string \<Rightarrow> time \<Rightarrow> (string, stats_row) gomap \<Rightarrow> (string, stats_row) gomap" where
  "reset_stats nid received rows =
     gmap_vals (\<lambda>rid s. if sr_node s = nid then s\<lparr>sr_active := 0, sr_updated := micro received\<rparr> else s) rows"

definition pg_UpdateAgentHeartbeat :: "(string \<Rightarrow> string option) \<Rightarrow> (string \<Rightarrow> string \<Rightarrow> bool) \<Rightarrow> string \<Rightarrow> string
    \<Rightarrow> agent_heartbeat \<Rightarrow> tables \<Rightarrow> pg_error + tables \<times> node" where
  "pg_UpdateAgentHeartbeat inet lt nid credential hb T =
     (case update_node inet nid credential hb T of
        Inl e \<Rightarrow> Inl e
      | Inr (T1, n) \<Rightarrow>
          let T2 = upsert_sample nid hb T1
          in case insert_logs nid (hb_received_at hb) (hb_logs hb) (t_logs T2) of
               Inl e \<Rightarrow> Inl e
             | Inr logs \<Rightarrow>
                 (case replace_connections lt nid hb (T2\<lparr>t_logs := expire_log_rows (hb_received_at hb) logs\<rparr>) of
                    Inl e \<Rightarrow> Inl e
                  | Inr T3 \<Rightarrow>
                      (case upsert_stats nid (hb_received_at hb) (hb_rule_stats hb) (t_rules T3)
                              (reset_stats nid (hb_received_at hb) (t_stats T3)) of
                         Inl e \<Rightarrow> Inl e
                       | Inr stats \<Rightarrow> Inr (T3\<lparr>t_stats := stats\<rparr>, n))))"

section \<open>Reads\<close>

text \<open>The join with the egress node: the relay host of a rule is the tunnel address of that node now.\<close>

definition joined_host :: "tables \<Rightarrow> forward_rule \<Rightarrow> string" where
  "joined_host T r =
     (if rule_egress r = [] then []
      else case map_of (t_nodes T) (rule_egress r) of None \<Rightarrow> [] | Some row \<Rightarrow> node_tunnel_address (nr_node row))"

text \<open>
  \<open>ConfigForAgent\<close> reads the version and then the rules, outside a transaction: the version is that of the tables \<open>T1\<close>
  of the first statement, the rules are those of the tables \<open>T2\<close> of the second.
\<close>

definition pg_ConfigForAgent :: "(string \<Rightarrow> string \<Rightarrow> bool) \<Rightarrow> string \<Rightarrow> string \<Rightarrow> tables \<Rightarrow> tables
    \<Rightarrow> pg_error + agent_config" where
  "pg_ConfigForAgent lt nid credential T1 T2 =
     (case map_of (t_nodes T1) nid of
        None \<Rightarrow> Inl (Known ErrNotFound)
      | Some row \<Rightarrow>
          if nr_credential row \<noteq> credential \<or> node_status (nr_node row) = NodeDisabled then Inl (Known ErrNotFound)
          else Inr \<lparr>config_version = node_config_version (nr_node row),
                 config_rules = sort_slice (\<lambda>a b. lt (rule_id a) (rule_id b))
                   (map (\<lambda>r. r\<lparr>rule_relay_host := joined_host T2 r\<rparr>) (filter (involves nid) (map snd (t_rules T2))))\<rparr>)"

definition pg_ListNodes :: "(string \<Rightarrow> string \<Rightarrow> bool) \<Rightarrow> tables \<Rightarrow> node list" where
  "pg_ListNodes lt T = sort_slice (\<lambda>a b. lt (node_name a) (node_name b)) (map (\<lambda>(i, row). nr_node row) (t_nodes T))"

text \<open>\<open>scanForwardRule\<close> on the join of a rule with its counters and its egress node.\<close>

definition scanForwardRule :: "tables \<Rightarrow> forward_rule \<Rightarrow> forward_rule" where
  "scanForwardRule T r =
     (let r1 = r\<lparr>rule_relay_host := joined_host T r\<rparr>
      in case map_of (t_stats T) (rule_id r) of
           None \<Rightarrow> r1
         | Some s \<Rightarrow> r1\<lparr>rule_active_conns := sr_active s, rule_bytes_in := sr_in s, rule_bytes_out := sr_out s,
             rule_runtime_updated := sr_updated s\<rparr>)"

definition pg_ListForwardRules :: "(string \<Rightarrow> string \<Rightarrow> bool) \<Rightarrow> tables \<Rightarrow> forward_rule list" where
  "pg_ListForwardRules lt T =
     sort_slice (\<lambda>a b. lt (rule_name a) (rule_name b)) (map (\<lambda>(i, r). scanForwardRule T r) (t_rules T))"

definition pg_RecordAudit :: "audit_event \<Rightarrow> tables \<Rightarrow> pg_error + tables \<times> unit" where
  "pg_RecordAudit e T =
     (if ghas (t_audits T) (audit_id e) then Inl (Sql UniqueViolation)
      else Inr (T\<lparr>t_audits := gput (audit_id e) (e\<lparr>audit_created_at := micro (audit_created_at e)\<rparr>) (t_audits T)\<rparr>, ()))"

definition audit_newer :: "(string \<Rightarrow> string \<Rightarrow> bool) \<Rightarrow> audit_event \<Rightarrow> audit_event \<Rightarrow> bool" where
  "audit_newer lt a b =
     (if audit_created_at a = audit_created_at b then lt (audit_id b) (audit_id a) else audit_created_at b < audit_created_at a)"

text \<open>A negative \<open>LIMIT\<close> is refused by the database, a \<open>LIMIT\<close> of 0 selects nothing.\<close>

definition pg_ListAudit :: "(string \<Rightarrow> string \<Rightarrow> bool) \<Rightarrow> int \<Rightarrow> time \<Rightarrow> tables \<Rightarrow> pg_error + audit_event list" where
  "pg_ListAudit lt limit before T =
     (if limit < 0 then Inl (Sql BadValue)
      else Inr (take (nat limit) (sort_slice (audit_newer lt)
             (filter (\<lambda>e. before = 0 \<or> audit_created_at e < micro before) (map snd (t_audits T))))))"

definition log_newer :: "(string \<Rightarrow> string \<Rightarrow> bool) \<Rightarrow> agent_log \<Rightarrow> agent_log \<Rightarrow> bool" where
  "log_newer lt a b =
     (if log_occurred_at a = log_occurred_at b then lt (log_event b) (log_event a) else log_occurred_at b < log_occurred_at a)"

definition pg_ListAgentLogs :: "(string \<Rightarrow> string \<Rightarrow> bool) \<Rightarrow> log_filter \<Rightarrow> tables \<Rightarrow> pg_error + agent_log list" where
  "pg_ListAgentLogs lt f T =
     (if filter_limit f < 0 then Inl (Sql BadValue)
      else Inr (take (nat (filter_limit f)) (sort_slice (log_newer lt)
             (filter (\<lambda>e. (filter_node f = [] \<or> log_node e = filter_node f) \<and> (filter_level f = [] \<or> log_level e = filter_level f)
                \<and> (filter_before f = 0 \<or> log_occurred_at e < micro (filter_before f))) (map snd (t_logs T))))))"

definition pg_connection_before :: "(string \<Rightarrow> string \<Rightarrow> bool) \<Rightarrow> active_connection \<Rightarrow> active_connection \<Rightarrow> bool" where
  "pg_connection_before lt a b =
     (if conn_last_activity a = conn_last_activity b
      then (if conn_node a = conn_node b then lt (conn_id a) (conn_id b) else lt (conn_node a) (conn_node b))
      else conn_last_activity b < conn_last_activity a)"

definition pg_ListActiveConnections :: "(string \<Rightarrow> string \<Rightarrow> bool) \<Rightarrow> tables \<Rightarrow> active_connection list" where
  "pg_ListActiveConnections lt T = sort_slice (pg_connection_before lt) (map snd (t_connections T))"

section \<open>Operations\<close>

definition with_value :: "('a \<Rightarrow> store_value) \<Rightarrow> pg_error + tables \<times> 'a \<Rightarrow> pg_error + tables \<times> store_value" where
  "with_value f = map_sum (\<lambda>e. e) (\<lambda>(T, x). (T, f x))"

fun pg_body :: "(string \<Rightarrow> string option) \<Rightarrow> (string \<Rightarrow> string \<Rightarrow> bool) \<Rightarrow> store_op \<Rightarrow> tables
    \<Rightarrow> pg_error + tables \<times> store_value" where
  "pg_body inet lt (OpCreateInitialUser u) T = with_value (\<lambda>_. VUnit) (pg_CreateInitialUser u T)"
| "pg_body inet lt (OpCreateUser u) T = with_value (\<lambda>_. VUnit) (pg_CreateUser u T)"
| "pg_body inet lt (OpUpdateUser uid upd) T = with_value VUser (pg_UpdateUser uid upd T)"
| "pg_body inet lt (OpDeleteUser uid) T = with_value (\<lambda>_. VUnit) (pg_DeleteUser uid T)"
| "pg_body inet lt (OpSetUserMFA uid e s hs) T = with_value VUser (pg_SetUserMFA uid e s hs T)"
| "pg_body inet lt (OpConsumeRecoveryCode uid h) T = with_value VBool (pg_ConsumeRecoveryCode uid h T)"
| "pg_body inet lt (OpCreateSession s) T = with_value (\<lambda>_. VUnit) (pg_CreateSession s T)"
| "pg_body inet lt (OpDeleteSession h) T = with_value (\<lambda>_. VUnit) (pg_DeleteSession h T)"
| "pg_body inet lt (OpCreateEnrollmentToken t) T = with_value (\<lambda>_. VUnit) (pg_CreateEnrollmentToken t T)"
| "pg_body inet lt (OpEnrollAgent h now a) T = with_value VNode (pg_EnrollAgent inet h now a T)"
| "pg_body inet lt (OpHeartbeat nid cred hb) T = with_value VNode (pg_UpdateAgentHeartbeat inet lt nid cred hb T)"
| "pg_body inet lt (OpCreateRule r) T = with_value VRule (pg_CreateForwardRule r T)"
| "pg_body inet lt (OpUpdateRule r) T = with_value VRule (pg_UpdateForwardRule r T)"
| "pg_body inet lt (OpDeleteRule rid) T = with_value (\<lambda>_. VUnit) (pg_DeleteForwardRule rid T)"
| "pg_body inet lt (OpRecordAudit e) T = with_value (\<lambda>_. VUnit) (pg_RecordAudit e T)"

text \<open>
  A run of the database from the empty tables: each operation is one transaction, with what goes wrong around it and
  what its caller is told.
\<close>

type_synonym pg_event = "store_op \<times> fault \<times> (pg_error + store_value)"

text \<open>The control plane validates a rule before it stores it.\<close>

fun checked :: "store_op \<Rightarrow> bool" where
  "checked (OpCreateRule r) = (rule_validate r = None)"
| "checked (OpUpdateRule r) = (rule_validate r = None)"
| "checked op = True"

lemma checked_ok: "checked op \<Longrightarrow> op_ok op"
  by (cases op) (simp_all add: rule_valid_ok)

inductive pg_step :: "(string \<Rightarrow> string option) \<Rightarrow> (string \<Rightarrow> string \<Rightarrow> bool) \<Rightarrow> tables \<Rightarrow> pg_event \<Rightarrow> tables \<Rightarrow> bool"
  for inet lt where
  "checked op \<Longrightarrow> transact f (pg_body inet lt op) T = (T', res) \<Longrightarrow> pg_step inet lt T (op, f, res) T'"

inductive_simps pg_step_iff: "pg_step inet lt T (op, f, res) T'"

inductive pg_steps :: "(string \<Rightarrow> string option) \<Rightarrow> (string \<Rightarrow> string \<Rightarrow> bool) \<Rightarrow> tables \<Rightarrow> pg_event list \<Rightarrow> tables \<Rightarrow> bool"
  for inet lt where
  pg_steps_none: "pg_steps inet lt T [] T"
| pg_steps_more: "pg_steps inet lt T es T1 \<Longrightarrow> pg_step inet lt T1 e T2 \<Longrightarrow> pg_steps inet lt T (es @ [e]) T2"

text \<open>The operations that took effect: their callers were answered, or the answer was lost after the commit.\<close>

definition took_effect :: "pg_event \<Rightarrow> bool" where
  "took_effect e = (case e of (op, f, Inr v) \<Rightarrow> True | (op, f, Inl err) \<Rightarrow> f = CommitLost \<and> err = Lost)"

definition committed :: "pg_event list \<Rightarrow> store_op list" where
  "committed es = map fst (filter took_effect es)"

end
