(* ===== verification/PostgresStore.thy ===== *)
theory PostgresStore
  imports PostgresRuntime
begin

text \<open>
  The PostgreSQL store implements the in-memory store: \<open>represents\<close> relates the tables to a state of \<open>memory.go\<close>, and
  every transaction that commits is matched by the same operation of the in-memory store, on the values the database
  keeps of its arguments. Agent logs, connections and the counters of rules are left out of the relation.
\<close>

section \<open>Two indexes of one set of rows\<close>

text \<open>The database keys sessions and tokens by their identifier, the in-memory store by their hash.\<close>

definition filed :: "('v \<Rightarrow> string) \<Rightarrow> ('v \<Rightarrow> string) \<Rightarrow> (string, 'v) gomap \<Rightarrow> (string, 'v) gomap \<Rightarrow> bool" where
  "filed hash ident rows index \<longleftrightarrow> gomap_ok rows \<and> gomap_ok index
     \<and> (\<forall>h v. map_of index h = Some v \<longleftrightarrow> hash v = h \<and> map_of rows (ident v) = Some v)
     \<and> (\<forall>i v. map_of rows i = Some v \<longrightarrow> ident v = i)"

lemma filedD:
  assumes "filed hash ident rows index"
  shows "gomap_ok rows" "gomap_ok index"
    and "map_of index h = Some v \<longleftrightarrow> hash v = h \<and> map_of rows (ident v) = Some v"
    and "map_of rows i = Some v \<Longrightarrow> ident v = i"
  using assms by (simp_all add: filed_def)

lemma filed_rowD:
  assumes "filed hash ident rows index" "map_of rows i = Some v"
  shows "ident v = i \<and> map_of index (hash v) = Some v"
  using assms filedD by metis

lemma filed_empty [simp]: "filed hash ident [] []"
  by (simp add: filed_def)

lemma filed_put:
  assumes f: "filed hash ident rows index" and fresh: "map_of rows (ident v) = None" "map_of index (hash v) = None"
  shows "filed hash ident (gput (ident v) v rows) (gput (hash v) v index)"
  unfolding filed_def
proof (intro conjI allI impI)
  fix h w
  show "map_of (gput (hash v) v index) h = Some w \<longleftrightarrow> hash w = h \<and> map_of (gput (ident v) v rows) (ident w) = Some w"
    using filedD(3) [OF f, of h w] fresh by auto
qed (use f fresh filedD [OF f] in \<open>auto split: if_splits\<close>)

lemma filed_replace:
  assumes f: "filed hash ident rows index" and old: "map_of index h = Some v" and same: "hash v' = h" "ident v' = ident v"
  shows "filed hash ident (gput (ident v) v' rows) (gput h v' index)"
  unfolding filed_def
proof (intro conjI allI impI)
  fix k w
  show "map_of (gput h v' index) k = Some w \<longleftrightarrow> hash w = k \<and> map_of (gput (ident v) v' rows) (ident w) = Some w"
    using filedD(3) [OF f, of k w] filedD(3) [OF f, of h v] old same by auto
qed (use f same filedD [OF f] in \<open>auto split: if_splits\<close>)

lemma filed_del_where:
  assumes f: "filed hash ident rows index"
  shows "filed hash ident (gdel_where P rows) (gdel_where P index)"
  unfolding filed_def
proof (intro conjI allI impI)
  have row: "map_of (gdel_where P rows) i = Some v \<longleftrightarrow> map_of rows i = Some v \<and> \<not> P v" for i v
    using filedD(1) [OF f] by (auto simp: map_of_gdel_where split: option.splits if_splits)
  have entry: "map_of (gdel_where P index) h = Some v \<longleftrightarrow> map_of index h = Some v \<and> \<not> P v" for h v
    using filedD(2) [OF f] by (auto simp: map_of_gdel_where split: option.splits if_splits)
  show "map_of (gdel_where P index) h = Some v \<longleftrightarrow> hash v = h \<and> map_of (gdel_where P rows) (ident v) = Some v" for h v
    unfolding row entry using filedD(3) [OF f, of h v] by blast
  show "map_of (gdel_where P rows) i = Some v \<Longrightarrow> ident v = i" for i v
    unfolding row using filedD(4) [OF f] by blast
qed (use filedD [OF f] in simp_all)

lemma gdel_where_key:
  assumes "gomap_ok m" "\<And>k v. map_of m k = Some v \<Longrightarrow> P v \<longleftrightarrow> k = h"
  shows "map_of (gdel_where P m) = map_of (gdel h m)"
  using assms by (intro ext) (auto simp: map_of_gdel_where split: option.split)

lemma filed_cong:
  "filed hash ident rows index \<Longrightarrow> gomap_ok rows' \<Longrightarrow> gomap_ok index' \<Longrightarrow> map_of rows' = map_of rows \<Longrightarrow>
   map_of index' = map_of index \<Longrightarrow> filed hash ident rows' index'"
  by (simp add: filed_def)

section \<open>The relation\<close>

definition same_accounts :: "tables \<Rightarrow> memory \<Rightarrow> bool" where
  "same_accounts T m \<longleftrightarrow> t_users T = mem_users m
     \<and> filed session_token_hash session_id (t_sessions T) (mem_sessions m)
     \<and> filed token_hash token_id (t_tokens T) (mem_tokens m)"

definition same_nodes :: "tables \<Rightarrow> memory \<Rightarrow> bool" where
  "same_nodes T m \<longleftrightarrow> gomap_ok (t_nodes T)
     \<and> (\<forall>nid. map_of (mem_nodes m) nid = map_option nr_node (map_of (t_nodes T) nid))
     \<and> (\<forall>nid. map_of (mem_credentials m) nid = map_option nr_credential (map_of (t_nodes T) nid))"

definition same_rules :: "tables \<Rightarrow> memory \<Rightarrow> bool" where
  "same_rules T m \<longleftrightarrow> gomap_ok (t_rules T)
     \<and> (\<forall>rid. map_of (t_rules T) rid = map_option config_view (map_of (mem_rules m) rid))"

definition same_history :: "tables \<Rightarrow> memory \<Rightarrow> bool" where
  "same_history T m \<longleftrightarrow> t_samples T = map (\<lambda>s. ((sample_node s, sample_at s), s)) (mem_samples m)
     \<and> t_audits T = map (\<lambda>e. (audit_id e, e)) (mem_audits m)"

definition represents :: "tables \<Rightarrow> memory \<Rightarrow> bool" where
  "represents T m \<longleftrightarrow> same_accounts T m \<and> same_nodes T m \<and> same_rules T m \<and> same_history T m"

lemmas represents_defs = represents_def same_accounts_def same_nodes_def same_rules_def same_history_def

lemma represents_empty: "represents empty_tables NewMemory"
  by (simp add: represents_defs empty_tables_def NewMemory_def)

lemma representsD:
  assumes "represents T m"
  shows "t_users T = mem_users m" "filed session_token_hash session_id (t_sessions T) (mem_sessions m)"
    "filed token_hash token_id (t_tokens T) (mem_tokens m)" "gomap_ok (t_nodes T)"
    "map_of (mem_nodes m) nid = map_option nr_node (map_of (t_nodes T) nid)"
    "map_of (mem_credentials m) nid = map_option nr_credential (map_of (t_nodes T) nid)"
    "gomap_ok (t_rules T)" "map_of (t_rules T) rid = map_option config_view (map_of (mem_rules m) rid)"
    "t_samples T = map (\<lambda>s. ((sample_node s, sample_at s), s)) (mem_samples m)"
    "t_audits T = map (\<lambda>e. (audit_id e, e)) (mem_audits m)"
  using assms by (simp_all add: represents_defs)

text \<open>What the database keeps of the arguments of an operation.\<close>

definition kept_heartbeat :: "(string \<Rightarrow> string option) \<Rightarrow> agent_heartbeat \<Rightarrow> agent_heartbeat" where
  "kept_heartbeat inet hb = hb\<lparr>hb_public_ip := the (inet (hb_public_ip hb)),
     hb_tunnel_address := the (tunnel_column inet (hb_tunnel_address hb)), hb_received_at := micro (hb_received_at hb)\<rparr>"

fun kept :: "(string \<Rightarrow> string option) \<Rightarrow> store_op \<Rightarrow> store_op" where
  "kept inet (OpCreateInitialUser u) = OpCreateInitialUser (user_row u)"
| "kept inet (OpCreateUser u) = OpCreateUser (user_row u)"
| "kept inet (OpCreateSession s) = OpCreateSession (session_row s)"
| "kept inet (OpCreateEnrollmentToken t) = OpCreateEnrollmentToken (token_row t)"
| "kept inet (OpEnrollAgent h now a) =
     OpEnrollAgent h (micro now) (a\<lparr>agent_public_ip := the (inet (agent_public_ip a))\<rparr>)"
| "kept inet (OpHeartbeat nid cred hb) = OpHeartbeat nid cred (kept_heartbeat inet hb)"
| "kept inet (OpRecordAudit e) = OpRecordAudit (e\<lparr>audit_created_at := micro (audit_created_at e)\<rparr>)"
| "kept inet op = op"

lemma kept_ok: "op_ok (kept inet op) = op_ok op"
  by (cases op) simp_all

text \<open>
  Which answers agree: the same values, except that the node of an enrollment is answered with the address and the time
  that were sent, and a rule is answered without the counters it has.
\<close>

definition node_key :: "node \<Rightarrow> string \<times> string \<times> u64 \<times> u64" where
  "node_key n = (node_id n, node_name n, node_config_version n, node_applied_config_version n)"

fun answers_agree :: "store_value \<Rightarrow> store_value \<Rightarrow> bool" where
  "answers_agree (VNode a) (VNode b) \<longleftrightarrow> node_key a = node_key b"
| "answers_agree (VRule a) (VRule b) \<longleftrightarrow> config_view a = config_view b"
| "answers_agree v w \<longleftrightarrow> v = w"

definition matched :: "store_op \<Rightarrow> store_value \<Rightarrow> tables \<Rightarrow> memory \<Rightarrow> bool" where
  "matched op v T m \<longleftrightarrow> (\<exists>m' w. exec op m = (m', Inr w) \<and> represents T m' \<and> answers_agree v w)"

lemma matchedI:
  "snd (exec op m) = Inr w \<Longrightarrow> answers_agree v w \<Longrightarrow> represents T (fst (exec op m)) \<Longrightarrow> matched op v T m"
  unfolding matched_def by (metis prod.collapse)

section \<open>Accounts\<close>

lemma user_row_simps [simp]: "user_id (user_row u) = user_id u" "user_name (user_row u) = user_name u"
  by (simp_all add: user_row_def)

lemma match_CreateInitialUser:
  assumes R: "represents T m" and ok: "pg_CreateInitialUser u T = Inr (T', x)"
  shows "matched (OpCreateInitialUser (user_row u)) VUnit T' m"
proof -
  from ok have e: "t_users T = []" and T': "T' = T\<lparr>t_users := gput (user_id u) (user_row u) (t_users T)\<rparr>"
    by (auto simp: pg_CreateInitialUser_def insert_user_def split: if_splits sum.splits)
  show ?thesis
    by (rule matchedI [where w = "VUnit"]) (use R e T' in \<open>auto simp: lift_result_def CreateInitialUser_def represents_defs\<close>)
qed

lemma match_CreateUser:
  assumes R: "represents T m" and inv: "accounts_inv m" "maps_ok m" and ok: "pg_CreateUser u T = Inr (T', x)"
  shows "matched (OpCreateUser (user_row u)) VUnit T' m"
proof -
  from ok have fresh: "\<not> ghas (t_users T) (user_id u)" "\<not> list_ex (\<lambda>(uid, v). user_name v = user_name u) (t_users T)"
    and T': "T' = T\<lparr>t_users := gput (user_id u) (user_row u) (t_users T)\<rparr>"
    by (auto simp: pg_CreateUser_def insert_user_def split: if_splits sum.splits sql_error.splits)
  have "map_of (mem_usernames m) (user_name u) = None"
  proof (rule ccontr)
    assume "map_of (mem_usernames m) (user_name u) \<noteq> None"
    then obtain uid v where "map_of (mem_users m) uid = Some v" "user_name v = user_name u"
      using inv(1) unfolding accounts_inv_def by (metis not_Some_eq)
    then have "list_ex (\<lambda>(uid, v). user_name v = user_name u) (t_users T)"
      using map_of_SomeD by (fastforce simp: list_ex_iff representsD(1) [OF R])
    with fresh show False by simp
  qed
  then have absent: "\<not> ghas (mem_users m) (user_id u)" "\<not> ghas (mem_usernames m) (user_name u)"
    using fresh(1) by (simp_all add: representsD(1) [OF R] ghas_def)
  show ?thesis
    by (rule matchedI [where w = "VUnit"]) (use R absent T' in \<open>simp_all add: lift_result_def CreateUser_def represents_defs\<close>)
qed

lemma active_admins: "length (filter (\<lambda>(k, v). user_role v = RoleAdmin \<and> \<not> user_disabled v) us) = count_admins us"
  by (induction us rule: count_admins.induct) (simp_all add: active_admin_def)

lemma match_UpdateUser:
  assumes R: "represents T m" and ok: "pg_UpdateUser uid upd T = Inr (T', u)"
  shows "matched (OpUpdateUser uid upd) (VUser u) T' m"
proof -
  note users = representsD(1) [OF R]
  from ok obtain p where p: "map_of (mem_users m) uid = Some p"
    by (auto simp: pg_UpdateUser_def users split: option.splits)
  have guard: "\<not> (active_admin p \<and> (upd_role upd \<noteq> RoleAdmin \<or> upd_disabled upd) \<and> count_admins (mem_users m) \<le> 1)"
    using ok p by (auto simp: pg_UpdateUser_def users active_admins active_admin_def Let_def split: if_splits)
  have u: "u = apply_update upd p" and T': "T' = T\<lparr>t_users := gput uid u (t_users T),
      t_sessions := gdel_where (\<lambda>s. session_user s = uid) (t_sessions T)\<rparr>"
    using ok p by (auto simp: pg_UpdateUser_def users apply_update_def Let_def split: if_splits)
  show ?thesis
    by (rule matchedI [where w = "VUser u"]) (use R p guard u T' in
        \<open>auto simp: lift_result_def UpdateUser_def Let_def represents_defs intro: filed_del_where\<close>)
qed

lemma match_DeleteUser:
  assumes R: "represents T m" and ok: "pg_DeleteUser uid T = Inr (T', x)"
  shows "matched (OpDeleteUser uid) VUnit T' m"
proof -
  note users = representsD(1) [OF R]
  from ok obtain p where p: "map_of (mem_users m) uid = Some p"
    by (auto simp: pg_DeleteUser_def users split: option.splits)
  have guard: "\<not> (active_admin p \<and> count_admins (mem_users m) \<le> 1)"
    using ok p by (auto simp: pg_DeleteUser_def users active_admins active_admin_def split: if_splits)
  have T': "T' = T\<lparr>t_users := gdel uid (t_users T), t_tokens := gdel_where (\<lambda>t. token_created_by t = uid) (t_tokens T),
      t_sessions := gdel_where (\<lambda>s. session_user s = uid) (t_sessions T)\<rparr>"
    using ok p by (auto simp: pg_DeleteUser_def users split: if_splits)
  show ?thesis
    by (rule matchedI [where w = "VUnit"]) (use R p guard T' in
        \<open>auto simp: lift_result_def DeleteUser_def represents_defs intro: filed_del_where\<close>)
qed

lemma match_SetUserMFA:
  assumes R: "represents T m" and ok: "pg_SetUserMFA uid e s hs T = Inr (T', u)"
  shows "matched (OpSetUserMFA uid e s hs) (VUser u) T' m"
proof -
  note users = representsD(1) [OF R]
  from ok obtain p where p: "map_of (mem_users m) uid = Some p"
    and u: "u = p\<lparr>user_mfa_enabled := e, user_mfa_secret := s, user_recovery_hashes := hs\<rparr>"
    and T': "T' = T\<lparr>t_users := gput uid u (t_users T)\<rparr>"
    by (auto simp: pg_SetUserMFA_def users Let_def split: option.splits)
  show ?thesis
    by (rule matchedI [where w = "VUser u"]) (use R p u T' in \<open>simp_all add: lift_result_def SetUserMFA_def Let_def represents_defs\<close>)
qed

lemma remaining_codes_found: "remaining_codes h cs True = (True, cs)"
  by (induction cs) simp_all

lemma remaining_codes_eq:
  "remaining_codes h cs False = (case consume_hash h cs of None \<Rightarrow> (False, cs) | Some rest \<Rightarrow> (True, rest))"
  by (induction cs) (auto simp: remaining_codes_found split: option.splits)

lemma match_ConsumeRecoveryCode:
  assumes R: "represents T m" and ok: "pg_ConsumeRecoveryCode uid h T = Inr (T', b)"
  shows "matched (OpConsumeRecoveryCode uid h) (VBool b) T' m"
proof -
  note users = representsD(1) [OF R]
  from ok obtain p where p: "map_of (mem_users m) uid = Some p"
    by (auto simp: pg_ConsumeRecoveryCode_def users split: option.splits)
  show ?thesis
  proof (cases "consume_hash h (user_recovery_hashes p)")
    case None
    with ok p R show ?thesis
      by (intro matchedI [where w = "VBool b"]) (auto simp: pg_ConsumeRecoveryCode_def users remaining_codes_eq ConsumeRecoveryCode_def lift_result_def)
  next
    case (Some rest)
    with ok p have T': "T' = T\<lparr>t_users := gput uid (p\<lparr>user_recovery_hashes := rest\<rparr>) (t_users T)\<rparr>" "b"
      by (auto simp: pg_ConsumeRecoveryCode_def users remaining_codes_eq)
    show ?thesis
      by (rule matchedI [where w = "VBool b"]) (use R p Some T' in \<open>simp_all add: lift_result_def ConsumeRecoveryCode_def represents_defs\<close>)
  qed
qed

section \<open>Sessions and enrollment\<close>

lemma row_simps [simp]:
  "session_id (session_row s) = session_id s" "session_token_hash (session_row s) = session_token_hash s"
  "token_id (token_row t) = token_id t" "token_hash (token_row t) = token_hash t"
  by (simp_all add: session_row_def token_row_def)

lemma fresh_hash:
  assumes f: "filed hash ident rows index" and no: "\<not> list_ex (\<lambda>(i, v). hash v = h) rows"
  shows "map_of index h = None"
proof (rule ccontr)
  assume "map_of index h \<noteq> None"
  then obtain v where "map_of index h = Some v" by blast
  then have "hash v = h \<and> map_of rows (ident v) = Some v" using filedD(3) [OF f] by blast
  then have "hash v = h \<and> (ident v, v) \<in> set rows" using map_of_SomeD by fast
  with no show False by (auto simp: list_ex_iff)
qed

lemma match_CreateSession:
  assumes R: "represents T m" and ok: "pg_CreateSession s T = Inr (T', x)"
  shows "matched (OpCreateSession (session_row s)) VUnit T' m"
proof -
  note f = representsD(2) [OF R]
  from ok have fresh: "\<not> ghas (t_sessions T) (session_id s)"
      "\<not> list_ex (\<lambda>(i, v). session_token_hash v = session_token_hash s) (t_sessions T)"
    and T': "T' = T\<lparr>t_sessions := gput (session_id s) (session_row s) (t_sessions T)\<rparr>"
    by (auto simp: pg_CreateSession_def split: if_splits)
  have "filed session_token_hash session_id (gput (session_id s) (session_row s) (t_sessions T))
      (gput (session_token_hash s) (session_row s) (mem_sessions m))"
    using filed_put [OF f, of "session_row s"] fresh(1) fresh_hash [OF f fresh(2)] by (simp add: ghas_def)
  then show ?thesis
    by (intro matchedI [where w = VUnit]) (use R T' in \<open>simp_all add: CreateSession_def represents_defs\<close>)
qed

lemma match_DeleteSession:
  assumes R: "represents T m" and ok: "pg_DeleteSession h T = Inr (T', x)"
  shows "matched (OpDeleteSession h) VUnit T' m"
proof -
  note f = representsD(2) [OF R]
  from ok have T': "T' = T\<lparr>t_sessions := gdel_where (\<lambda>s. session_token_hash s = h) (t_sessions T)\<rparr>"
    by (simp add: pg_DeleteSession_def)
  have "map_of (gdel h (mem_sessions m)) = map_of (gdel_where (\<lambda>s. session_token_hash s = h) (mem_sessions m))"
    using filedD(2,3) [OF f] by (intro gdel_where_key [symmetric]) auto
  from filed_cong [OF filed_del_where [OF f] _ _ refl this] filedD(1,2) [OF f]
  have "filed session_token_hash session_id (gdel_where (\<lambda>s. session_token_hash s = h) (t_sessions T)) (gdel h (mem_sessions m))"
    by simp
  then show ?thesis
    by (intro matchedI [where w = VUnit]) (use R T' in \<open>simp_all add: DeleteSessionByTokenHash_def represents_defs\<close>)
qed

lemma match_CreateEnrollmentToken:
  assumes R: "represents T m" and ok: "pg_CreateEnrollmentToken t T = Inr (T', x)"
  shows "matched (OpCreateEnrollmentToken (token_row t)) VUnit T' m"
proof -
  note f = representsD(3) [OF R]
  from ok have fresh: "\<not> ghas (t_tokens T) (token_id t)" "\<not> list_ex (\<lambda>(i, v). token_hash v = token_hash t) (t_tokens T)"
    and T': "T' = T\<lparr>t_tokens := gput (token_id t) (token_row t) (t_tokens T)\<rparr>"
    by (auto simp: pg_CreateEnrollmentToken_def split: if_splits)
  have absent: "map_of (mem_tokens m) (token_hash t) = None" by (rule fresh_hash [OF f fresh(2)])
  have "filed token_hash token_id (gput (token_id t) (token_row t) (t_tokens T))
      (gput (token_hash t) (token_row t) (mem_tokens m))"
    using filed_put [OF f, of "token_row t"] fresh(1) absent by (simp add: ghas_def)
  then show ?thesis
    by (intro matchedI [where w = VUnit])
       (use R T' absent in \<open>simp_all add: CreateEnrollmentToken_def lift_result_def ghas_def represents_defs\<close>)
qed

text \<open>The \<open>UPDATE\<close> of the open token with a hash touches one row.\<close>

lemma filed_update_where:
  assumes f: "filed hash ident rows index" and v: "map_of index h = Some v" "P v"
    and only: "\<And>w. P w \<Longrightarrow> hash w = h" and same: "\<And>w. hash (g w) = hash w" "\<And>w. ident (g w) = ident w"
  shows "filed hash ident (gmap_vals (\<lambda>i w. if P w then g w else w) rows) (gput h (g v) index)"
proof (rule filed_cong [OF filed_replace [OF f v(1)]])
  have row: "map_of rows (ident v) = Some v" "hash v = h" using filedD(3) [OF f] v(1) by blast+
  show "map_of (gmap_vals (\<lambda>i w. if P w then g w else w) rows) = map_of (gput (ident v) (g v) rows)"
  proof
    fix i
    show "map_of (gmap_vals (\<lambda>i w. if P w then g w else w) rows) i = map_of (gput (ident v) (g v) rows) i"
    proof (cases "map_of rows i")
      case None
      with row show ?thesis by (auto simp: map_of_gmap_vals)
    next
      case (Some w)
      show ?thesis
      proof (cases "P w")
        case True
        then have "map_of index h = Some w" using filed_rowD [OF f Some] only by metis
        then have "w = v" using v(1) by simp
        with True Some filed_rowD [OF f Some] show ?thesis by (simp add: map_of_gmap_vals)
      next
        case False
        then have "i \<noteq> ident v" using Some row v(2) by auto
        with False Some show ?thesis by (simp add: map_of_gmap_vals)
      qed
    qed
  qed
  show "hash (g v) = h" "ident (g v) = ident v" using row same by simp_all
qed (use filedD [OF f] in simp_all)

lemma match_EnrollAgent:
  assumes R: "represents T m" and ok: "pg_EnrollAgent inet h now a T = Inr (T', n)"
  shows "matched (OpEnrollAgent h (micro now) (a\<lparr>agent_public_ip := the (inet (agent_public_ip a))\<rparr>)) (VNode n) T' m"
proof -
  note f = representsD(3) [OF R]
  let ?rows = "filter (\<lambda>(i, t). token_open h now t) (t_tokens T)"
  let ?used = "gmap_vals (\<lambda>i t. if token_open h now t then t\<lparr>token_used_at := Some (micro now)\<rparr> else t) (t_tokens T)"
  let ?a = "a\<lparr>agent_public_ip := the (inet (agent_public_ip a))\<rparr>"
  from ok have one: "length ?rows = 1" by (auto simp: pg_EnrollAgent_def Let_def split: if_splits)
  then obtain i t where "(i, t) \<in> set ?rows" by (cases ?rows) auto
  then have t: "map_of (t_tokens T) i = Some t" "token_open h now t"
    using in_set_map_of [OF filedD(1) [OF f]] by auto
  then have mt: "map_of (mem_tokens m) h = Some t"
    using filed_rowD [OF f t(1)] by (simp add: token_open_def)
  from ok one obtain ip where ip: "inet (agent_public_ip a) = Some ip"
    and new: "map_of (t_nodes T) (agent_id a) = None"
    and T': "T' = T\<lparr>t_tokens := ?used, t_nodes := gput (agent_id a)
        \<lparr>nr_node = enrolled_node ?a (micro now), nr_credential = agent_credential_hash a\<rparr> (t_nodes T)\<rparr>"
    and n: "node_key n = node_key (enrolled_node ?a (micro now))"
    by (auto simp: pg_EnrollAgent_def insert_node_def enrolled_node_def ghas_def node_key_def Let_def
        split: if_splits option.splits sum.splits)
  have tokens: "filed token_hash token_id ?used (gput h (t\<lparr>token_used_at := Some (micro now)\<rparr>) (mem_tokens m))"
    by (rule filed_update_where [where P = "token_open h now" and g = "\<lambda>t. t\<lparr>token_used_at := Some (micro now)\<rparr>"])
       (use f mt t(2) in \<open>simp_all add: token_open_def\<close>)
  have "map_of (mem_nodes m) (agent_id a) = None" using representsD(5) [OF R] new by simp
  with mt t(2) have step: "EnrollAgent h (micro now) ?a m =
      (m\<lparr>mem_tokens := gput h (t\<lparr>token_used_at := Some (micro now)\<rparr>) (mem_tokens m),
         mem_nodes := gput (agent_id a) (enrolled_node ?a (micro now)) (mem_nodes m),
         mem_credentials := gput (agent_id a) (agent_credential_hash a) (mem_credentials m),
         mem_configs := gput (agent_id a) \<lparr>config_version = 1, config_rules = []\<rparr> (mem_configs m)\<rparr>,
       Inr (enrolled_node ?a (micro now)))"
    by (simp add: EnrollAgent_def token_open_def ghas_def enrolled_node_def Let_def)
  show ?thesis
    by (rule matchedI [where w = "VNode (enrolled_node ?a (micro now))"])
       (use R T' n tokens in \<open>simp_all add: step lift_result_def represents_defs\<close>)
qed

section \<open>Audit log\<close>

lemma match_RecordAudit:
  assumes R: "represents T m" and ok: "pg_RecordAudit e T = Inr (T', x)"
  shows "matched (OpRecordAudit (e\<lparr>audit_created_at := micro (audit_created_at e)\<rparr>)) VUnit T' m"
proof -
  let ?e = "e\<lparr>audit_created_at := micro (audit_created_at e)\<rparr>"
  have put: "gput k v rows = rows @ [(k, v)]" if "\<not> ghas rows k" for k :: string and v :: audit_event and rows
    using that by (induction rows) (auto simp: gput_Cons ghas_def)
  from ok have "\<not> ghas (t_audits T) (audit_id e)" and T': "T' = T\<lparr>t_audits := gput (audit_id e) ?e (t_audits T)\<rparr>"
    by (auto simp: pg_RecordAudit_def split: if_splits)
  then have "T' = T\<lparr>t_audits := t_audits T @ [(audit_id e, ?e)]\<rparr>" by (simp add: put)
  with R show ?thesis
    by (intro matchedI [where w = VUnit]) (simp_all add: RecordAudit_def represents_defs)
qed

end
