(* ===== verification/PostgresRules.thy ===== *)
theory PostgresRules
  imports PostgresStore
begin

text \<open>
  Heartbeats and changes of rules in the PostgreSQL store are matched by the in-memory store: the same node, the same
  sample, the same rules and the same configuration versions.
\<close>

section \<open>Heartbeats\<close>

lemma truncate_micro: "time_truncate (micro t) go_minute = time_truncate t go_minute"
proof -
  have a: "micro t = 1000 * (t div 1000)"
    by (simp add: micro_def minus_mod_eq_mult_div)
  have "(1000 * (t div 1000)) div (1000 * 60000000) = (t div 1000) div 60000000"
    by (simp only: div_mult_mult1_if) simp
  also have "\<dots> = t div (1000 * 60000000)" by (simp only: zdiv_zmult2_eq)
  finally have b: "(1000 * (t div 1000)) div 60000000000 = t div 60000000000" by simp
  have "time_truncate x go_minute = 60000000000 * (x div 60000000000)" for x
    by (simp add: time_truncate_def minus_mod_eq_mult_div)
  then show ?thesis by (simp only: a b)
qed

lemma gput_keyed:
  assumes "distinct (map f xs)"
  shows "gput (f x) x (map (\<lambda>y. (f y, y)) xs) =
     map (\<lambda>y. (f y, y)) (if f x \<in> f ` set xs then map (\<lambda>y. if f y = f x then x else y) xs else xs @ [x])"
  using assms
proof (induction xs)
  case Nil
  then show ?case by simp
next
  case (Cons y xs)
  show ?case
  proof (cases "f y = f x")
    case True
    then have "map (\<lambda>y. if f y = f x then x else y) xs = xs"
      using Cons.prems by (intro map_idI) (force simp: image_iff)
    with True show ?thesis by (simp add: gput_Cons)
  next
    case False
    with Cons show ?thesis by (auto simp: gput_Cons)
  qed
qed

lemma kept_heartbeat_simps [simp]:
  "hb_received_at (kept_heartbeat inet hb) = micro (hb_received_at hb)"
  "heartbeat_sample nid b (kept_heartbeat inet hb) = heartbeat_sample nid b hb"
  by (simp_all add: kept_heartbeat_def heartbeat_sample_def)

lemma upsert_sample_eq:
  assumes ok: "samples_ok m" and rows: "t_samples T = map (\<lambda>s. ((sample_node s, sample_at s), s)) (mem_samples m)"
  shows "upsert_sample nid hb T =
     T\<lparr>t_samples := map (\<lambda>s. ((sample_node s, sample_at s), s)) (mem_samples (recordMetric nid (kept_heartbeat inet hb) m))\<rparr>"
proof -
  let ?key = "\<lambda>s. (sample_node s, sample_at s)"
  define b where "b = time_truncate (hb_received_at hb) go_minute"
  define x where "x = heartbeat_sample nid b hb"
  define repl where "repl = (\<lambda>s. if sample_node s = nid \<and> sample_at s = b then x else s)"
  have key: "?key x = (nid, b)" by (simp add: x_def)
  have live: "\<not> b < b - NodeMetricRetention" by (simp add: NodeMetricRetention_def)
  have repl': "(\<lambda>s. if ?key s = ?key x then x else s) = repl" by (auto simp: repl_def key)
  have present: "?key x \<in> ?key ` set (mem_samples m) \<longleftrightarrow> (\<exists>s \<in> set (mem_samples m). sample_node s = nid \<and> sample_at s = b)"
    by (auto simp: key)
  have at: "sample_at (repl s) = sample_at s" for s by (simp add: repl_def x_def)
  have kept: "kept_samples nid (kept_heartbeat inet hb) m
      = map repl (filter (\<lambda>s. \<not> sample_at s < b - NodeMetricRetention) (mem_samples m))"
    by (simp add: kept_samples_def truncate_micro Let_def b_def repl_def x_def)
  have same: "map repl (filter P (mem_samples m)) = filter P (mem_samples m)"
    if "?key x \<notin> ?key ` set (mem_samples m)" for P
    using that by (intro map_idI) (auto simp: repl_def key)
  have S: "mem_samples (recordMetric nid (kept_heartbeat inet hb) m) =
      (let ks = map repl (filter (\<lambda>s. \<not> sample_at s < b - NodeMetricRetention) (mem_samples m))
       in if \<exists>s \<in> set (mem_samples m). sample_node s = nid \<and> sample_at s = b then ks else ks @ [x])"
    unfolding samples_recordMetric kept kept_heartbeat_simps truncate_micro b_def [symmetric] x_def by (simp add: Let_def)
  have "mem_samples (recordMetric nid (kept_heartbeat inet hb) m) =
      filter (\<lambda>s. \<not> sample_at s < b - NodeMetricRetention)
        (if ?key x \<in> ?key ` set (mem_samples m) then map repl (mem_samples m) else mem_samples m @ [x])"
  proof (cases "?key x \<in> ?key ` set (mem_samples m)")
    case True
    with present have "\<exists>s \<in> set (mem_samples m). sample_node s = nid \<and> sample_at s = b" by blast
    with True show ?thesis by (simp add: S Let_def filter_map comp_def at)
  next
    case False
    with present have no: "\<not> (\<exists>s \<in> set (mem_samples m). sample_node s = nid \<and> sample_at s = b)" by blast
    have "sample_at x = b" by (simp add: x_def)
    with False live show ?thesis unfolding S Let_def if_not_P [OF no] same [OF False] if_not_P [OF False] by simp
  qed
  moreover have "gput (nid, b) x (t_samples T) =
      map (\<lambda>s. (?key s, s)) (if ?key x \<in> ?key ` set (mem_samples m) then map repl (mem_samples m) else mem_samples m @ [x])"
    using gput_keyed [of ?key "mem_samples m" x] ok unfolding samples_ok_def rows repl' unfolding key by blast
  ultimately show ?thesis
    by (simp add: upsert_sample_def gdel_where_def filter_map comp_def flip: b_def x_def)
qed

lemma heartbeat_columns_eq:
  assumes "inet (hb_public_ip hb) = Some ip" "tunnel_column inet (hb_tunnel_address hb) = Some tunnel"
    and "least (hb_attempted_version hb) (node_config_version n) \<noteq> 0"
  shows "heartbeat_columns ip tunnel hb n = heartbeat_node (kept_heartbeat inet hb) n"
proof -
  have "hb_attempted_version hb \<noteq> 0"
    using assms(3) by (auto simp: least_def word_gt_0 split: if_splits)
  then show ?thesis
    using assms(1,2) by (cases n) (auto simp: heartbeat_columns_def heartbeat_node_def kept_heartbeat_def least_def Let_def not_less)
qed

lemma update_node_ok:
  assumes "update_node inet nid cred hb T = Inr (T1, n)"
  obtains row where "map_of (t_nodes T) nid = Some row" "nr_credential row = cred" "node_status (nr_node row) \<noteq> NodeDisabled"
    "n = heartbeat_node (kept_heartbeat inet hb) (nr_node row)"
    "T1 = T\<lparr>t_nodes := gput nid (row\<lparr>nr_node := n\<rparr>) (t_nodes T)\<rparr>"
  using assms heartbeat_columns_eq
  by (auto simp: update_node_def Let_def split: if_splits option.splits)

lemma heartbeat_parts:
  assumes "pg_UpdateAgentHeartbeat inet lt nid cred hb T = Inr (T', n)"
  obtains T1 logs conns stats where "update_node inet nid cred hb T = Inr (T1, n)"
    "T' = (upsert_sample nid hb T1)\<lparr>t_logs := logs, t_connections := conns, t_stats := stats\<rparr>"
  using assms
  by (auto simp: pg_UpdateAgentHeartbeat_def replace_connections_def Let_def split: sum.splits prod.splits)

lemma view_without_counters:
  "map_option without_counters a = map_option without_counters b \<Longrightarrow> map_option config_view a = map_option config_view b"
  by (cases a; cases b) (auto dest: without_counters_same(2))

lemma match_Heartbeat:
  assumes R: "represents T m" and inv: "store_inv m" and ok: "pg_UpdateAgentHeartbeat inet lt nid cred hb T = Inr (T', n)"
  shows "matched (OpHeartbeat nid cred (kept_heartbeat inet hb)) (VNode n) T' m"
proof -
  let ?hb = "kept_heartbeat inet hb"
  from heartbeat_parts [OF ok] obtain T1 logs conns stats where T1: "update_node inet nid cred hb T = Inr (T1, n)"
    and T': "T' = (upsert_sample nid hb T1)\<lparr>t_logs := logs, t_connections := conns, t_stats := stats\<rparr>" .
  from update_node_ok [OF T1] obtain row where row: "map_of (t_nodes T) nid = Some row" "nr_credential row = cred"
      "node_status (nr_node row) \<noteq> NodeDisabled" and n: "n = heartbeat_node ?hb (nr_node row)"
    and T1': "T1 = T\<lparr>t_nodes := gput nid (row\<lparr>nr_node := n\<rparr>) (t_nodes T)\<rparr>" .
  have mn: "map_of (mem_nodes m) nid = Some (nr_node row)" using representsD(5) [OF R] row by simp
  have mc: "map_of (mem_credentials m) nid = Some cred" using representsD(6) [OF R] row by simp
  let ?m0 = "m\<lparr>mem_nodes := gput nid n (mem_nodes m)\<rparr>"
  let ?m1 = "heartbeat_connections nid ?hb (recordAgentLogs nid ?hb (recordMetric nid ?hb ?m0))"
  have step: "UpdateAgentHeartbeat nid cred ?hb m = (heartbeat_rules nid ?hb ?m1, Inr n)"
    using mn mc row(3) n by (simp add: UpdateAgentHeartbeat_def credential_at_def Let_def)
  have "rules_inv m" "samples_ok m" using inv by (simp_all add: store_inv_def runtime_inv_def)
  note parts = rules_invD [OF this(1)] and samples = this(2)
  have ids: "rule_id r = k" if "map_of (mem_rules m) k = Some r" for k r
    using that parts(2) unfolding nodes_wf_def by blast
  have "forget_counters (mem_rules (heartbeat_rules nid ?hb ?m1)) = forget_counters (mem_rules m)"
    using forget_counters_heartbeat [of ?m1 nid ?hb] maps_okD(8) [OF parts(1)] ids by simp
  then have "map_option without_counters (map_of (mem_rules (heartbeat_rules nid ?hb ?m1)) rid)
      = map_option without_counters (map_of (mem_rules m) rid)" for rid
    by (simp flip: map_of_forget)
  then have rules: "map_option config_view (map_of (mem_rules (heartbeat_rules nid ?hb ?m1)) rid)
      = map_option config_view (map_of (mem_rules m) rid)" for rid
    by (rule view_without_counters)
  have "samples_ok ?m0" using samples by (simp add: samples_ok_def)
  from upsert_sample_eq [OF this, of T1 nid hb inet] representsD(9) [OF R]
  have T'': "T' = T1\<lparr>t_samples := map (\<lambda>s. ((sample_node s, sample_at s), s)) (mem_samples (recordMetric nid ?hb ?m0)),
      t_logs := logs, t_connections := conns, t_stats := stats\<rparr>"
    by (simp add: T' T1')
  have "represents T' (heartbeat_rules nid ?hb ?m1)"
    unfolding represents_def
  proof (intro conjI)
    show "same_accounts T' (heartbeat_rules nid ?hb ?m1)"
      using R by (simp add: represents_def same_accounts_def T'' T1')
    show "same_nodes T' (heartbeat_rules nid ?hb ?m1)"
      using R row(1,2) by (simp add: represents_def same_nodes_def T'' T1')
    show "same_rules T' (heartbeat_rules nid ?hb ?m1)"
      using R rules by (simp add: represents_def same_rules_def T'' T1')
    show "same_history T' (heartbeat_rules nid ?hb ?m1)"
      using R by (simp add: represents_def same_history_def T'' T1')
  qed
  then show ?thesis
    by (intro matchedI [where w = "VNode n"]) (simp_all add: step lift_result_def)
qed

section \<open>Bumping the nodes of a rule\<close>

definition row_bumped :: "node_row \<Rightarrow> node_row" where
  "row_bumped row = row\<lparr>nr_node := bumped (nr_node row)\<rparr>"

lemma row_bumped_simps [simp]:
  "nr_node (row_bumped row) = bumped (nr_node row)" "nr_credential (row_bumped row) = nr_credential row"
  by (simp_all add: row_bumped_def)

lemma bumpNodeConfig_ok:
  assumes "bumpNodeConfig nid T = Inr (T1, v)"
  obtains row where "map_of (t_nodes T) nid = Some row" "node_status (nr_node row) \<noteq> NodeDisabled"
    "v = node_config_version (nr_node row) + 1" "fits v" "T1 = T\<lparr>t_nodes := gput nid (row_bumped row) (t_nodes T)\<rparr>"
  using assms by (auto simp: bumpNodeConfig_def row_bumped_def bumped_def Let_def split: option.splits if_splits)

lemma bump_all_ok:
  assumes "bump_all nids T = Inr (T1, vs)" "distinct nids"
  shows "\<exists>rows. T1 = T\<lparr>t_nodes := rows\<rparr> \<and> (gomap_ok (t_nodes T) \<longrightarrow> gomap_ok rows)
    \<and> (\<forall>nid \<in> set nids. \<exists>row. map_of (t_nodes T) nid = Some row \<and> node_status (nr_node row) \<noteq> NodeDisabled
         \<and> map_of rows nid = Some (row_bumped row) \<and> map_of vs nid = Some (node_config_version (nr_node row) + 1)
         \<and> fits (node_config_version (nr_node row) + 1))
    \<and> (\<forall>nid. nid \<notin> set nids \<longrightarrow> map_of rows nid = map_of (t_nodes T) nid \<and> map_of vs nid = None)"
  using assms
proof (induction nids arbitrary: T vs)
  case Nil
  then show ?case by (intro exI [of _ "t_nodes T"]) auto
next
  case (Cons a nids)
  obtain T0 v vs' where a: "bumpNodeConfig a T = Inr (T0, v)" and rest: "bump_all nids T0 = Inr (T1, vs')"
    and vs: "vs = (a, v) # vs'"
    using Cons.prems(1) by (auto split: sum.splits prod.splits)
  from bumpNodeConfig_ok [OF a] obtain row where row: "map_of (t_nodes T) a = Some row"
      "node_status (nr_node row) \<noteq> NodeDisabled" "v = node_config_version (nr_node row) + 1" "fits v"
    and T0: "T0 = T\<lparr>t_nodes := gput a (row_bumped row) (t_nodes T)\<rparr>" .
  from Cons.IH [OF rest] Cons.prems(2) obtain rows where
    T1: "T1 = T0\<lparr>t_nodes := rows\<rparr>" "gomap_ok (t_nodes T0) \<longrightarrow> gomap_ok rows"
    and ins: "\<forall>nid \<in> set nids. \<exists>row. map_of (t_nodes T0) nid = Some row \<and> node_status (nr_node row) \<noteq> NodeDisabled
         \<and> map_of rows nid = Some (row_bumped row) \<and> map_of vs' nid = Some (node_config_version (nr_node row) + 1)
         \<and> fits (node_config_version (nr_node row) + 1)"
    and outs: "\<forall>nid. nid \<notin> set nids \<longrightarrow> map_of rows nid = map_of (t_nodes T0) nid \<and> map_of vs' nid = None" by auto
  show ?case
  proof (intro exI [of _ rows] conjI ballI allI impI)
    show "T1 = T\<lparr>t_nodes := rows\<rparr>" using T1 T0 by simp
    show "gomap_ok rows" if "gomap_ok (t_nodes T)" using that T1(2) T0 by simp
  next
    fix nid assume nid: "nid \<in> set (a # nids)"
    show "\<exists>row. map_of (t_nodes T) nid = Some row \<and> node_status (nr_node row) \<noteq> NodeDisabled
         \<and> map_of rows nid = Some (row_bumped row) \<and> map_of vs nid = Some (node_config_version (nr_node row) + 1)
         \<and> fits (node_config_version (nr_node row) + 1)"
    proof (cases "nid = a")
      case True
      with row outs Cons.prems(2) show ?thesis by (simp add: vs T0)
    next
      case False
      with nid have "nid \<in> set nids" by simp
      from bspec [OF ins this] False show ?thesis by (simp add: vs T0)
    qed
  next
    fix nid assume "nid \<notin> set (a # nids)"
    with outs show "map_of rows nid = map_of (t_nodes T) nid" "map_of vs nid = None" by (simp_all add: vs T0)
  qed
qed

lemma bump_match:
  assumes R: "represents T m" and bump: "bump_all nids T = Inr (T1, vs)" and dist: "distinct nids" "distinct ns" "set ns = set nids"
  shows "represents T1 (fold bumpNodeAt ns m)" "t_rules T1 = t_rules T"
    "\<forall>nid \<in> set ns. \<exists>n. map_of (mem_nodes m) nid = Some n \<and> node_status n \<noteq> NodeDisabled"
    "nid \<in> set ns \<Longrightarrow> map_of vs nid = Some (node_config_version (node_at (fold bumpNodeAt ns m) nid))"
    "nid \<notin> set ns \<Longrightarrow> map_of vs nid = None"
proof -
  from bump_all_ok [OF bump dist(1)] obtain rows where T1: "T1 = T\<lparr>t_nodes := rows\<rparr>" "gomap_ok (t_nodes T) \<longrightarrow> gomap_ok rows"
    and ins: "\<forall>nid \<in> set ns. \<exists>row. map_of (t_nodes T) nid = Some row \<and> node_status (nr_node row) \<noteq> NodeDisabled
         \<and> map_of rows nid = Some (row_bumped row) \<and> map_of vs nid = Some (node_config_version (nr_node row) + 1)
         \<and> fits (node_config_version (nr_node row) + 1)"
    and outs: "\<forall>nid. nid \<notin> set ns \<longrightarrow> map_of rows nid = map_of (t_nodes T) nid \<and> map_of vs nid = None"
    unfolding dist(3) by blast
  note node = representsD(5) [OF R] and cred = representsD(6) [OF R]
  show avail: "\<forall>nid \<in> set ns. \<exists>n. map_of (mem_nodes m) nid = Some n \<and> node_status n \<noteq> NodeDisabled"
    using ins by (fastforce simp: node)
  then have present: "\<forall>nid \<in> set ns. map_of (mem_nodes m) nid \<noteq> None" by fastforce
  note nodes = fold_bump_nodes [OF dist(2) this]
  have "map_of (mem_nodes (fold bumpNodeAt ns m)) nid = map_option nr_node (map_of rows nid)
      \<and> map_of (mem_credentials m) nid = map_option nr_credential (map_of rows nid)" for nid
    using ins outs by (cases "nid \<in> set ns") (fastforce simp: nodes node cred)+
  then show "represents T1 (fold bumpNodeAt ns m)"
    using R T1 by (simp add: represents_defs)
  show "t_rules T1 = t_rules T" by (simp add: T1)
  show "map_of vs nid = Some (node_config_version (node_at (fold bumpNodeAt ns m) nid))" if "nid \<in> set ns" for nid
    using ins that by (fastforce simp: node_at_def nodes node)
  show "map_of vs nid = None" if "nid \<notin> set ns" for nid using outs that by blast
qed

lemma represents_put_rule:
  assumes R: "represents T m" and same: "config_view r' = config_view r"
  shows "represents (T\<lparr>t_rules := gput rid (rule_row r') (t_rules T)\<rparr>)
     (fold rebuildAgentConfig ns (m\<lparr>mem_rules := gput rid r (mem_rules m)\<rparr>))"
  using R same by (simp add: represents_defs rule_row_def)

lemma represents_del_rule:
  assumes R: "represents T m"
  shows "represents (T\<lparr>t_rules := gdel rid (t_rules T), t_stats := stats\<rparr>)
     (fold rebuildAgentConfig ns (m\<lparr>mem_rules := gdel rid (mem_rules m)\<rparr>))"
  using R by (simp add: represents_defs)

lemma sortedUnique [simp]: "distinct (sortedUniqueNodeIDs nids)" "set (sortedUniqueNodeIDs nids) = set nids"
  by (simp_all add: sortedUniqueNodeIDs_def)

section \<open>Changes of rules\<close>

lemma view_places [simp]:
  "rule_mode (config_view r) = rule_mode r" "rule_ingress (config_view r) = rule_ingress r"
  "rule_egress (config_view r) = rule_egress r" "rule_protocol (config_view r) = rule_protocol r"
  "rule_listen_host (config_view r) = rule_listen_host r" "rule_listen_port (config_view r) = rule_listen_port r"
  "rule_relay_port (config_view r) = rule_relay_port r" "ruleNodeIDs (config_view r) = ruleNodeIDs r"
  by (simp_all add: config_view_def ruleNodeIDs_def)

text \<open>The query for the listener and the unique index on relay endpoints find what the in-memory store looks for.\<close>

lemma no_conflict:
  assumes R: "represents T m" and maps: "maps_ok m" and free: "ensureListenerAvailable r x T"
    and index: "\<And>i q. map_of (t_rules T) i = Some q \<Longrightarrow> i \<noteq> x \<Longrightarrow> \<not> relay_taken r' q"
    and port: "rule_mode r = ForwardRelay \<Longrightarrow> rule_relay_port r \<noteq> 0"
    and same: "rule_mode r' = rule_mode r" "rule_egress r' = rule_egress r" "rule_relay_port r' = rule_relay_port r"
  shows "\<not> listenerConflict m r x"
proof
  assume "listenerConflict m r x"
  then obtain i q where q: "map_of (mem_rules m) i = Some q" "i \<noteq> x" "listener_clash q r \<or> relay_clash q r"
    using listenerConflict_iff [OF maps_okD(8) [OF maps]] by blast
  have row: "map_of (t_rules T) i = Some (config_view q)" using representsD(8) [OF R] q(1) by simp
  from q(3) show False
  proof
    assume "listener_clash q r"
    with map_of_SomeD [OF row] q(2) free show False
      by (force simp: ensureListenerAvailable_def list_ex_iff listener_clash_def ProtocolsOverlap_def split: if_splits)
  next
    assume "relay_clash q r"
    with index [OF row q(2)] same port show False by (simp add: relay_taken_def relay_clash_def)
  qed
qed

lemma insert_rule_ok:
  assumes "insert_rule r T = Inr T'"
  shows "base_checks r \<and> relay_checks r" "map_of (t_rules T) (rule_id r) = None" "map_of (t_rules T) i = Some q \<Longrightarrow> \<not> relay_taken r q"
    "T' = T\<lparr>t_rules := gput (rule_id r) (rule_row r) (t_rules T)\<rparr>"
  using assms by (auto simp: insert_rule_def ghas_def list_ex_iff dest: map_of_SomeD split: if_splits)

lemma update_rule_ok:
  assumes "update_rule r T = Inr T'"
  shows "base_checks r \<and> relay_checks r" "map_of (t_rules T) i = Some q \<Longrightarrow> i \<noteq> rule_id r \<Longrightarrow> \<not> relay_taken r q"
    "T' = T\<lparr>t_rules := gput (rule_id r) (rule_row r) (t_rules T)\<rparr>"
  using assms by (auto simp: update_rule_def list_ex_iff dest: map_of_SomeD split: if_splits)

lemma checksD:
  assumes "base_checks r \<and> relay_checks r"
  shows "rule_mode r = ForwardDirect \<and> rule_egress r = [] \<and> rule_egress_config_version r = 0
     \<or> rule_mode r = ForwardRelay \<and> rule_egress r \<noteq> [] \<and> rule_ingress r \<noteq> rule_egress r"
    "rule_config_version r \<noteq> 0"
  using assms by (auto simp: base_checks_def relay_checks_def)

lemma match_CreateRule:
  assumes R: "represents T m" and inv: "rules_inv m" and port: "rule_mode r = ForwardRelay \<Longrightarrow> rule_relay_port r \<noteq> 0"
    and ok: "pg_CreateForwardRule r T = Inr (T', r2)"
  shows "matched (OpCreateRule r) (VRule r2) T' m"
proof -
  note parts = rules_invD [OF inv]
  let ?ns = "ruleNodeIDs r" and ?in = "rule_ingress r" and ?eg = "rule_egress r"
  from ok obtain T1 vs where free: "ensureListenerAvailable r [] T" and bump: "bump_all (sortedUniqueNodeIDs ?ns) T = Inr (T1, vs)"
    and r2: "r2 = (let r1 = (case map_of vs ?in of None \<Rightarrow> r | Some v \<Rightarrow> r\<lparr>rule_config_version := v\<rparr>)
       in case map_of vs ?eg of None \<Rightarrow> r1 | Some v \<Rightarrow> r1\<lparr>rule_egress_config_version := v\<rparr>)"
    and ins: "insert_rule r2 T1 = Inr T'"
    by (auto simp: pg_CreateForwardRule_def Let_def split: if_splits sum.splits prod.splits sql_error.splits)
  let ?m1 = "fold bumpNodeAt ?ns m"
  have "distinct (sortedUniqueNodeIDs ?ns)" "distinct ?ns" "set ?ns = set (sortedUniqueNodeIDs ?ns)" by simp_all
  note B = bump_match [OF R bump this]
  have in_ns: "?in \<in> set ?ns" by (simp add: ruleNodeIDs_def)
  note v_in = B(4) [OF in_ns]
  have places: "rule_id r2 = rule_id r" "rule_mode r2 = rule_mode r" "rule_egress r2 = rule_egress r"
    "rule_ingress r2 = rule_ingress r" "rule_relay_port r2 = rule_relay_port r"
    by (simp_all add: r2 Let_def split: option.split)
  note I = insert_rule_ok [OF ins]
  let ?r1 = "r\<lparr>rule_config_version := node_config_version (node_at ?m1 ?in)\<rparr>"
  have r2_eq: "r2 = (if rule_mode r = ForwardRelay then ?r1\<lparr>rule_egress_config_version := node_config_version (node_at ?m1 ?eg)\<rparr> else ?r1)"
  proof (cases "rule_mode r = ForwardRelay")
    case True
    then have "?eg \<noteq> []" "?in \<noteq> ?eg" using checksD(1) [OF I(1)] places by auto
    with True have "?eg \<in> set ?ns" by (simp add: ruleNodeIDs_def)
    from B(4) [OF this] v_in True show ?thesis by (simp add: r2 Let_def)
  next
    case False
    then have direct: "?eg = []" "rule_egress_config_version r2 = 0" using checksD(1) [OF I(1)] places by auto
    have "map_of vs ?eg = None"
    proof (rule ccontr)
      assume "map_of vs ?eg \<noteq> None"
      then have "?eg \<in> set ?ns" by (rule contrapos_np) (rule B(5))
      with False have "?eg = ?in" by (simp add: ruleNodeIDs_def)
      with v_in have "rule_config_version r2 = rule_egress_config_version r2" by (simp add: r2 Let_def)
      with direct(2) checksD(2) [OF I(1)] show False by simp
    qed
    with v_in False show ?thesis by (simp add: r2 Let_def)
  qed
  have fresh: "map_of (mem_rules m) (rule_id r) = None"
    using I(2) representsD(8) [OF R] B(2) places by simp
  have conflict: "\<not> listenerConflict m r []"
    using I(3) B(2) places port by (intro no_conflict [OF R parts(1) free, where r' = r2]) simp_all
  have avail: "ruleNodesAvailable m r" using B(3) ruleNodesAvailable_iff by blast
  have "fold bumpNode ?ns m = ?m1"
    using B(3) by (intro fold_bumpNode_eq [OF parts(2)]) fastforce
  then have step: "CreateForwardRule r m =
      (fold rebuildAgentConfig ?ns (?m1\<lparr>mem_rules := gput (rule_id r) r2 (mem_rules ?m1)\<rparr>), Inr r2)"
    using fresh conflict avail by (simp add: CreateForwardRule_def ghas_def Let_def r2_eq)
  show ?thesis
    using represents_put_rule [OF B(1) refl, of "rule_id r" r2 ?ns] I(4) places
    by (intro matchedI [where w = "VRule r2"]) (simp_all add: step lift_result_def)
qed

lemma version_of_bumped:
  "map_of vs nid = Some v \<Longrightarrow> version_of vs nid = v"
  by (simp add: version_of_def)

lemma match_UpdateRule:
  assumes R: "represents T m" and inv: "rules_inv m" and port: "rule_mode r = ForwardRelay \<Longrightarrow> rule_relay_port r \<noteq> 0"
    and ok: "pg_UpdateForwardRule r T = Inr (T', r2)"
  shows "matched (OpUpdateRule r) (VRule r2) T' m"
proof -
  note parts = rules_invD [OF inv]
  let ?in = "rule_ingress r" and ?eg = "rule_egress r"
  from ok obtain row where "map_of (t_rules T) (rule_id r) = Some row"
    by (auto simp: pg_UpdateForwardRule_def split: option.splits)
  then obtain prev where prev: "map_of (mem_rules m) (rule_id r) = Some prev" and row: "map_of (t_rules T) (rule_id r) = Some (config_view prev)"
    using representsD(8) [OF R] by auto
  let ?ns = "remdups (ruleNodeIDs prev @ ruleNodeIDs r)"
  from ok row obtain T1 vs where free: "ensureListenerAvailable r (rule_id r) T"
    and bump: "bump_all (sortedUniqueNodeIDs (ruleNodeIDs prev @ ruleNodeIDs r)) T = Inr (T1, vs)"
    and r2: "r2 = (let r1 = r\<lparr>rule_config_version := version_of vs ?in\<rparr>
       in if rule_mode r = ForwardRelay then r1\<lparr>rule_egress_config_version := version_of vs ?eg\<rparr> else r1)"
    and upd: "update_rule r2 T1 = Inr T'"
    by (auto simp: pg_UpdateForwardRule_def Let_def split: if_splits sum.splits prod.splits sql_error.splits)
  let ?m1 = "fold bumpNodeAt ?ns m"
  have "distinct (sortedUniqueNodeIDs (ruleNodeIDs prev @ ruleNodeIDs r))" "distinct ?ns"
    "set ?ns = set (sortedUniqueNodeIDs (ruleNodeIDs prev @ ruleNodeIDs r))" by simp_all
  note B = bump_match [OF R bump this]
  have "?in \<in> set ?ns" by (simp add: ruleNodeIDs_def)
  note v_in = B(4) [OF this, THEN version_of_bumped]
  have places: "rule_id r2 = rule_id r" "rule_mode r2 = rule_mode r" "rule_egress r2 = rule_egress r"
    "rule_ingress r2 = rule_ingress r" "rule_relay_port r2 = rule_relay_port r"
    by (simp_all add: r2 Let_def)
  note U = update_rule_ok [OF upd]
  let ?r0 = "r\<lparr>rule_active_conns := rule_active_conns prev, rule_bytes_in := rule_bytes_in prev,
      rule_bytes_out := rule_bytes_out prev, rule_runtime_updated := rule_runtime_updated prev\<rparr>"
  define w where "w = ?r0\<lparr>rule_config_version := node_config_version (node_at ?m1 ?in),
      rule_egress_config_version := (if rule_mode r = ForwardRelay then node_config_version (node_at ?m1 ?eg) else 0)\<rparr>"
  have view: "config_view r2 = config_view w"
  proof (cases "rule_mode r = ForwardRelay")
    case True
    then have "?eg \<noteq> []" "?in \<noteq> ?eg" using checksD(1) [OF U(1)] places by auto
    with True have "?eg \<in> set ?ns" by (simp add: ruleNodeIDs_def)
    from B(4) [OF this, THEN version_of_bumped] v_in True show ?thesis
      by (simp add: r2 Let_def w_def config_view_def)
  next
    case False
    then have "rule_egress_config_version r = 0" using checksD(1) [OF U(1)] places by (auto simp: r2 Let_def)
    with v_in False show ?thesis by (cases r) (simp add: r2 Let_def w_def config_view_def)
  qed
  have conflict: "\<not> listenerConflict m r (rule_id r)"
    using U(2) B(2) places port by (intro no_conflict [OF R parts(1) free, where r' = r2]) simp_all
  have avail: "ruleNodesAvailable m r" using B(3) unfolding ruleNodesAvailable_iff by simp
  have nodes: "ruleNodeIDs ?r0 = ruleNodeIDs r" by (simp add: ruleNodeIDs_def)
  have step: "UpdateForwardRule r m =
      (fold rebuildAgentConfig ?ns (?m1\<lparr>mem_rules := gput (rule_id r) w (mem_rules ?m1)\<rparr>), Inr w)"
    using prev conflict avail by (simp add: UpdateForwardRule_def Let_def nodes w_def)
  show ?thesis
    using represents_put_rule [OF B(1) view, of "rule_id r" ?ns] U(3) places view
    by (intro matchedI [where w = "VRule w"]) (simp_all add: step lift_result_def)
qed

lemma match_DeleteRule:
  assumes R: "represents T m" and inv: "rules_inv m" and ok: "pg_DeleteForwardRule rid T = Inr (T', x)"
  shows "matched (OpDeleteRule rid) VUnit T' m"
proof -
  note parts = rules_invD [OF inv]
  from ok obtain row where "map_of (t_rules T) rid = Some row"
    by (auto simp: pg_DeleteForwardRule_def split: option.splits)
  then obtain r where r: "map_of (mem_rules m) rid = Some r" and row: "map_of (t_rules T) rid = Some (config_view r)"
    using representsD(8) [OF R] by auto
  from ok row obtain T1 vs where bump: "bump_all (sortedUniqueNodeIDs (ruleNodeIDs r)) T = Inr (T1, vs)"
    and T': "T' = T1\<lparr>t_rules := gdel rid (t_rules T1), t_stats := gdel rid (t_stats T1)\<rparr>"
    by (auto simp: pg_DeleteForwardRule_def split: sum.splits prod.splits)
  have "distinct (sortedUniqueNodeIDs (ruleNodeIDs r))" "distinct (ruleNodeIDs r)"
    "set (ruleNodeIDs r) = set (sortedUniqueNodeIDs (ruleNodeIDs r))" by simp_all
  note B = bump_match [OF R bump this]
  have "fold bumpNode (ruleNodeIDs r) m = fold bumpNodeAt (ruleNodeIDs r) m"
    using B(3) by (intro fold_bumpNode_eq [OF parts(2)]) fastforce
  with r represents_del_rule [OF B(1)] T' show ?thesis
    by (intro matchedI [where w = VUnit]) (simp_all add: DeleteForwardRule_def lift_result_def Let_def)
qed

end
