(* ===== verification/PostgresMachine.thy ===== *)
theory PostgresMachine
  imports PostgresRules
begin

text \<open>
  The runs of the PostgreSQL store: each is matched by a run of the in-memory store with the same committed operations,
  the reads of the two agree, and a configuration read in two statements is never out of date under a current version.
\<close>

section \<open>Refinement\<close>

lemma with_value_Inr: "with_value f x = Inr (T', v) \<longleftrightarrow> (\<exists>a. x = Inr (T', a) \<and> v = f a)"
  by (cases x) (auto simp: with_value_def)

lemma pg_body_matched:
  assumes R: "represents T m" and inv: "store_inv m" and op: "checked op" and ok: "pg_body inet lt op T = Inr (T', v)"
  shows "matched (kept inet op) v T' m"
proof -
  have parts: "accounts_inv m" "rules_inv m" "maps_ok m"
    using inv rules_invD(1) by (auto simp: store_inv_def)
  show ?thesis
    using ok R inv parts op rule_valid_relay
    by (cases op)
       (auto simp: with_value_Inr intro: match_CreateInitialUser match_CreateUser match_UpdateUser match_DeleteUser
         match_SetUserMFA match_ConsumeRecoveryCode match_CreateSession match_DeleteSession match_CreateEnrollmentToken
         match_EnrollAgent match_Heartbeat match_CreateRule match_UpdateRule match_DeleteRule match_RecordAudit)
qed

lemma bump_not_lost: "bump_all nids T \<noteq> Inl Lost"
proof (induction nids arbitrary: T)
  case (Cons a nids)
  then show ?case
    by (auto simp: bumpNodeConfig_def Let_def split: sum.splits option.splits if_splits)
qed simp

lemma insert_logs_not_lost: "insert_logs nid t es rows \<noteq> Inl Lost"
  by (induction nid t es rows rule: insert_logs.induct) auto

lemma upsert_connections_not_lost: "upsert_connections nid t cs rows \<noteq> Inl Lost"
  by (induction nid t cs rows rule: upsert_connections.induct) auto

lemma upsert_stats_not_lost: "upsert_stats nid t xs rules rows \<noteq> Inl Lost"
  by (induction nid t xs rules rows rule: upsert_stats.induct) (auto simp: Let_def split: option.split)

lemma heartbeat_not_lost: "pg_UpdateAgentHeartbeat inet lt nid cred hb T \<noteq> Inl Lost"
  using insert_logs_not_lost upsert_connections_not_lost upsert_stats_not_lost
  by (auto simp: pg_UpdateAgentHeartbeat_def update_node_def replace_connections_def Let_def
      split: sum.splits prod.splits option.splits if_splits)

text \<open>The code itself never gives the error that stands for a lost connection.\<close>

lemma pg_body_not_lost: "pg_body inet lt op T \<noteq> Inl Lost"
proof -
  have val: "with_value f x = Inl Lost \<longleftrightarrow> x = Inl Lost" for f :: "'b \<Rightarrow> store_value" and x
    by (cases x) (auto simp: with_value_def)
  have rules: "pg_CreateForwardRule r T \<noteq> Inl Lost" "pg_UpdateForwardRule r T \<noteq> Inl Lost" "pg_DeleteForwardRule rid T \<noteq> Inl Lost" for r rid
    using bump_not_lost
    by (auto simp: pg_CreateForwardRule_def pg_UpdateForwardRule_def pg_DeleteForwardRule_def Let_def
        split: sum.splits prod.splits option.splits if_splits sql_error.splits)
  show ?thesis
    by (cases op)
       (auto simp: with_value_def heartbeat_not_lost rules pg_CreateInitialUser_def pg_CreateUser_def pg_UpdateUser_def pg_DeleteUser_def
         pg_SetUserMFA_def pg_ConsumeRecoveryCode_def pg_CreateSession_def pg_DeleteSession_def pg_CreateEnrollmentToken_def
         pg_EnrollAgent_def pg_RecordAudit_def Let_def map_sum_def
         split: sum.splits prod.splits option.splits if_splits sql_error.splits)
qed

lemma pg_step_cases:
  assumes "pg_step inet lt T e T'"
  obtains (refused) "\<not> took_effect e" "T' = T"
  | (applied) op f res v where "e = (op, f, res)" "checked op" "pg_body inet lt op T = Inr (T', v)" "took_effect e"
      "res = Inr v \<or> res = Inl Lost"
proof -
  from assms obtain op f res where e: "e = (op, f, res)" "checked op" and tr: "transact f (pg_body inet lt op) T = (T', res)"
    by (auto elim: pg_step.cases)
  show ?thesis
  proof (cases "pg_body inet lt op T")
    case (Inl err)
    then have "err \<noteq> Lost" using pg_body_not_lost by metis
    with Inl tr have "T' = T" "\<not> took_effect e"
      by (auto simp: e transact_def took_effect_def split: fault.splits)
    then show ?thesis by (intro refused)
  next
    case (Inr p)
    then obtain T1 v where p: "pg_body inet lt op T = Inr (T1, v)" by (cases p) auto
    show ?thesis
    proof (cases f)
      case RolledBack
      with tr show ?thesis by (intro refused) (auto simp: e transact_def took_effect_def)
    next
      case NoFault
      with tr p show ?thesis by (intro applied [OF e]) (auto simp: e transact_def took_effect_def)
    next
      case CommitLost
      with tr p show ?thesis by (intro applied [OF e]) (auto simp: e transact_def took_effect_def)
    qed
  qed
qed

definition event_matches :: "(string \<Rightarrow> string option) \<Rightarrow> pg_event \<Rightarrow> store_op \<times> outcome \<Rightarrow> bool" where
  "event_matches inet e p \<longleftrightarrow> fst p = kept inet (fst e)
     \<and> (\<exists>w. snd p = Inr w \<and> (\<forall>v. snd (snd e) = Inr v \<longrightarrow> answers_agree v w))"

lemma pg_run_matched:
  assumes "pg_steps inet lt T0 es T" "T0 = empty_tables"
  shows "\<exists>t m. store_run t m \<and> represents T m \<and> list_all2 (event_matches inet) (filter took_effect es) t"
  using assms
proof (induction rule: pg_steps.induct)
  case (pg_steps_none T)
  then have "store_run [] NewMemory \<and> represents T NewMemory" by (simp add: run_empty represents_empty)
  then show ?case by (intro exI [of _ "[]"]) auto
next
  case (pg_steps_more T es T1 e T2)
  then obtain t m where run: "store_run t m" and R: "represents T1 m"
    and ev: "list_all2 (event_matches inet) (filter took_effect es) t" by blast
  from pg_steps_more.hyps(2) show ?case
  proof (cases rule: pg_step_cases)
    case refused
    with run R ev show ?thesis by auto
  next
    case (applied op f res v)
    from pg_body_matched [OF R store_inv_run [OF run] applied(2,3)] obtain m' w where
      x: "exec (kept inet op) m = (m', Inr w)" "represents T2 m'" "answers_agree v w"
      unfolding matched_def by blast
    have "store_run (t @ [(kept inet op, Inr w)]) m'"
      using run_step [OF run] checked_ok [OF applied(2)] x(1) by (simp add: store_step_iff kept_ok)
    moreover have "event_matches inet e (kept inet op, Inr w)"
      using applied(1,5) x(3) by (auto simp: event_matches_def)
    ultimately show ?thesis
      using ev x(2) applied(4) by (intro exI [of _ "t @ [(kept inet op, Inr w)]"] exI [of _ m']) (simp add: list_all2_appendI)
  qed
qed


section \<open>Reads\<close>

lemma rules_mset:
  assumes R: "represents T m" and maps: "maps_ok m"
  shows "mset (t_rules T) = mset (map (\<lambda>(k, r). (k, config_view r)) (mem_rules m))"
proof (rule gomap_eq_mset)
  show "gomap_ok (t_rules T)" by (rule representsD(7) [OF R])
  show "gomap_ok (map (\<lambda>(k, r). (k, config_view r)) (mem_rules m))"
    using maps_okD(8) [OF maps] by (simp add: gomap_ok_def case_prod_beta comp_def)
  have "map_of (map (\<lambda>(k, r). (k, config_view r)) rs) = map_option config_view \<circ> map_of rs" for rs :: "(string, forward_rule) gomap"
    by (induction rs) auto
  then show "map_of (t_rules T) = map_of (map (\<lambda>(k, r). (k, config_view r)) (mem_rules m))"
    using representsD(8) [OF R] by auto
qed

definition config_rows :: "string \<Rightarrow> tables \<Rightarrow> forward_rule list" where
  "config_rows nid T = filter (involves nid) (map snd (t_rules T))"

lemma config_rows_mset:
  assumes R: "represents T m" and maps: "maps_ok m"
  shows "mset (config_rows nid T) = mset (node_view m nid)"
proof -
  have "mset (config_rows nid T) = filter_mset (involves nid) (image_mset snd (mset (t_rules T)))"
    by (simp add: config_rows_def)
  also have "\<dots> = mset (node_view m nid)"
    unfolding rules_mset [OF R maps] by (simp add: node_view_def case_prod_beta filter_mset_image_mset comp_def flip: mset_map mset_filter)
      (simp add: filter_map comp_def)
  finally show ?thesis .
qed

lemma row_is_view:
  assumes R: "represents T m" and r: "r \<in> set (config_rows nid T)"
  shows "config_view r = r"
proof -
  from r obtain k where "map_of (t_rules T) k = Some r"
    using in_values_map_of [OF representsD(7) [OF R]] by (auto simp: config_rows_def)
  then show ?thesis using representsD(8) [OF R] by auto
qed

lemma joined_config:
  assumes R: "represents T2 m"
  shows "map config_view (sort_slice (\<lambda>a b. lt (rule_id a) (rule_id b)) (map (\<lambda>r. r\<lparr>rule_relay_host := joined_host T2 r\<rparr>) (config_rows nid T2)))
     = sort_slice (\<lambda>a b. lt (rule_id a) (rule_id b)) (config_rows nid T2)"
proof -
  have "config_view (r\<lparr>rule_relay_host := h\<rparr>) = config_view r" for r h by (simp add: config_view_def)
  moreover have "map config_view (config_rows nid T2) = config_rows nid T2"
    by (rule map_idI) (rule row_is_view [OF R])
  ultimately show ?thesis
    by (subst sort_slice_map [where lt' = "\<lambda>a b. lt (rule_id a) (rule_id b)"]) (simp_all add: comp_def)
qed

lemma pg_config_eq:
  "pg_ConfigForAgent lt nid cred T1 T2 = Inr c \<longleftrightarrow>
     (\<exists>row. map_of (t_nodes T1) nid = Some row \<and> nr_credential row = cred \<and> node_status (nr_node row) \<noteq> NodeDisabled
        \<and> c = \<lparr>config_version = node_config_version (nr_node row),
               config_rules = sort_slice (\<lambda>a b. lt (rule_id a) (rule_id b))
                 (map (\<lambda>r. r\<lparr>rule_relay_host := joined_host T2 r\<rparr>) (config_rows nid T2))\<rparr>)"
  by (auto simp: pg_ConfigForAgent_def config_rows_def split: option.split)

lemma users_by_name:
  assumes R: "represents T m" and inv: "accounts_inv m" "maps_ok m"
  shows "pg_UserByUsername name T = map_sum Known id (UserByUsername name m)"
proof -
  note users = representsD(1) [OF R] and dist = maps_okD(1) [OF inv(2)]
  show ?thesis
  proof (cases "map_of (mem_usernames m) name")
    case None
    have "find (\<lambda>(uid, u). user_name u = name) (mem_users m) = None"
      using None inv(1) in_set_map_of [OF dist] unfolding find_None_iff accounts_inv_def by fastforce
    with None show ?thesis by (simp add: pg_UserByUsername_def UserByUsername_def users)
  next
    case (Some uid)
    then obtain u where u: "map_of (mem_users m) uid = Some u" "user_name u = name"
      using inv(1) unfolding accounts_inv_def by blast
    then have "find (\<lambda>(uid, u). user_name u = name) (mem_users m) \<noteq> None"
      using map_of_SomeD [OF u(1)] by (auto simp: find_None_iff)
    then obtain p where p: "find (\<lambda>(uid, u). user_name u = name) (mem_users m) = Some p" by blast
    then have "p \<in> set (mem_users m)" "user_name (snd p) = name" by (force simp: find_Some_iff in_set_conv_nth)+
    then have "map_of (mem_users m) (fst p) = Some (snd p)" by (simp add: in_set_map_of [OF dist, symmetric])
    then have "fst p = uid \<and> snd p = u"
      using Some u inv(1) \<open>user_name (snd p) = name\<close> unfolding accounts_inv_def by (metis option.inject)
    with Some u p show ?thesis by (cases p) (simp add: pg_UserByUsername_def UserByUsername_def users)
  qed
qed

lemma sessions_by_hash:
  assumes R: "represents T m"
  shows "pg_SessionUserByTokenHash h now T = map_sum Known id (SessionUserByTokenHash h (micro now) m)"
proof -
  note users = representsD(1) [OF R] and f = representsD(2) [OF R]
  let ?pick = "\<lambda>(i, s). case map_of (t_users T) (session_user s) of None \<Rightarrow> None
     | Some u \<Rightarrow> if session_token_hash s = h \<and> micro now < session_expires_at s \<and> \<not> user_disabled u then Some (s, u) else None"
  let ?found = "List.map_filter ?pick (t_sessions T)"
  have row: "(i, s) \<in> set (t_sessions T) \<and> session_token_hash s = h \<longleftrightarrow> map_of (mem_sessions m) h = Some s \<and> i = session_id s" for i s
    using in_set_map_of [OF filedD(1) [OF f]] filedD(3) [OF f, of h s] filedD(4) [OF f] by auto
  have found: "(s, u) \<in> set ?found \<longleftrightarrow> SessionUserByTokenHash h (micro now) m = Inr (s, u)" for s u
  proof -
    have "(s, u) \<in> set ?found \<longleftrightarrow> (\<exists>i. (i, s) \<in> set (t_sessions T) \<and> session_token_hash s = h)
        \<and> micro now < session_expires_at s \<and> map_of (t_users T) (session_user s) = Some u \<and> \<not> user_disabled u"
      by (force simp: List.map_filter_def split: option.splits if_splits)
    also have "\<dots> \<longleftrightarrow> SessionUserByTokenHash h (micro now) m = Inr (s, u)"
      unfolding row users by (auto simp: SessionUserByTokenHash_def split: option.split)
    finally show ?thesis .
  qed
  have only: "SessionUserByTokenHash h (micro now) m = Inl ErrNotFound \<or> (\<exists>s u. SessionUserByTokenHash h (micro now) m = Inr (s, u))"
    by (auto simp: SessionUserByTokenHash_def split: option.split)
  show ?thesis
  proof (cases ?found)
    case Nil
    with found only show ?thesis by (auto simp: pg_SessionUserByTokenHash_def)
  next
    case (Cons p ps)
    with found [of "fst p" "snd p"] show ?thesis by (simp add: pg_SessionUserByTokenHash_def)
  qed
qed

text \<open>
  C11: the two stores read the same. Where the tables represent a reachable state of the in-memory store, the lists of
  users and of nodes (up to their order, which is the collation's), a user by identifier or by name, the user of a session
  cookie (at the time in microseconds) and the configuration of an agent are the same, the configuration up to the order
  of its rules and the relay host the database joins in.
\<close>

theorem pg_reads_agree:
  assumes R: "represents T m" and inv: "store_inv m"
  shows "mset (pg_ListUsers lt T) = mset (ListUsers m) \<and> mset (pg_ListNodes lt T) = mset (ListNodes m)
    \<and> pg_UserByID uid T = map_sum Known id (UserByID uid m)
    \<and> pg_UserByUsername name T = map_sum Known id (UserByUsername name m)
    \<and> pg_SessionUserByTokenHash h now T = map_sum Known id (SessionUserByTokenHash h (micro now) m)
    \<and> (case pg_ConfigForAgent lt nid cred T T of
         Inl e \<Rightarrow> \<exists>e'. e = Known e' \<and> ConfigForAgent nid cred m = Inl e'
       | Inr c \<Rightarrow> \<exists>c'. ConfigForAgent nid cred m = Inr c' \<and> config_version c = config_version c'
           \<and> mset (map config_view (config_rules c)) = mset (map config_view (config_rules c')))"
proof (intro conjI)
  have parts: "accounts_inv m" "rules_inv m" using inv by (simp_all add: store_inv_def)
  note rules = rules_invD [OF parts(2)]
  show "mset (pg_ListUsers lt T) = mset (ListUsers m)" by (simp add: pg_ListUsers_def ListUsers_def representsD(1) [OF R])
  have "map_of (map (\<lambda>(i, row). (i, nr_node row)) rows) = map_option nr_node \<circ> map_of rows" for rows :: "(string, node_row) gomap"
    by (induction rows) auto
  then have "mset (map (\<lambda>(i, row). (i, nr_node row)) (t_nodes T)) = mset (mem_nodes m)"
    using representsD(4,5) [OF R] maps_okD(5) [OF rules(1)]
    by (intro gomap_eq_mset) (auto simp: gomap_ok_def case_prod_beta comp_def)
  then have "mset (map snd (map (\<lambda>(i, row). (i, nr_node row)) (t_nodes T))) = mset (map snd (mem_nodes m))"
    by (metis mset_map)
  moreover have "map snd (map (\<lambda>(i, row). (i, nr_node row)) rows) = map (\<lambda>(i, row). nr_node row) rows" for rows :: "(string, node_row) gomap"
    by (induction rows) auto
  ultimately show "mset (pg_ListNodes lt T) = mset (ListNodes m)"
    unfolding pg_ListNodes_def ListNodes_def mset_sort_slice by metis
  show "pg_UserByID uid T = map_sum Known id (UserByID uid m)"
    by (simp add: pg_UserByID_def UserByID_def representsD(1) [OF R] split: option.split)
  show "pg_UserByUsername name T = map_sum Known id (UserByUsername name m)" by (rule users_by_name [OF R parts(1) rules(1)])
  show "pg_SessionUserByTokenHash h now T = map_sum Known id (SessionUserByTokenHash h (micro now) m)" by (rule sessions_by_hash [OF R])
  show "case pg_ConfigForAgent lt nid cred T T of
      Inl e \<Rightarrow> \<exists>e'. e = Known e' \<and> ConfigForAgent nid cred m = Inl e'
    | Inr c \<Rightarrow> \<exists>c'. ConfigForAgent nid cred m = Inr c' \<and> config_version c = config_version c'
        \<and> mset (map config_view (config_rules c)) = mset (map config_view (config_rules c'))"
  proof (cases "map_of (t_nodes T) nid")
    case None
    with representsD(5) [OF R, of nid] show ?thesis by (simp add: pg_ConfigForAgent_def ConfigForAgent_def)
  next
    case (Some row)
    then have n: "map_of (mem_nodes m) nid = Some (nr_node row)" "credential_at m nid = nr_credential row"
      using representsD(5,6) [OF R, of nid] by (simp_all add: credential_at_def)
    with rules(4) obtain c' where c': "map_of (mem_configs m) nid = Some c'" "config_version c' = node_config_version (nr_node row)"
      "map config_view (config_rules c') = node_view m nid" unfolding configs_agree_def by blast
    have "mset (sort_slice (\<lambda>a b. lt (rule_id a) (rule_id b)) (config_rows nid T)) = mset (map config_view (config_rules c'))"
      using config_rows_mset [OF R rules(1)] c'(3) by simp
    with Some n c'(1,2) joined_config [OF R] show ?thesis
      by (auto simp: pg_ConfigForAgent_def ConfigForAgent_def simp flip: config_rows_def)
  qed
qed

end
