(* ===== verification/PostgresConfig.thy ===== *)
theory PostgresConfig
  imports PostgresMachine
begin

text \<open>
  Configuration versions in the PostgreSQL store: they only grow, and a node's rules change only with its version, so
  that the version an agent was given tells whether its rules are current. And the counters of rules, which stay with
  the node that reported them first.
\<close>

section \<open>Versions and rules of a node\<close>

definition versions_fit :: "tables \<Rightarrow> bool" where
  "versions_fit T \<longleftrightarrow> (\<forall>nid row. map_of (t_nodes T) nid = Some row \<longrightarrow> fits (node_config_version (nr_node row)))"

text \<open>From \<open>T\<close> to \<open>T'\<close> no version went back, and the rules of a node whose version stayed are the same.\<close>

definition forward :: "tables \<Rightarrow> tables \<Rightarrow> bool" where
  "forward T T' \<longleftrightarrow> (\<forall>nid row. map_of (t_nodes T) nid = Some row \<longrightarrow>
     (\<exists>row'. map_of (t_nodes T') nid = Some row'
        \<and> node_config_version (nr_node row) \<le> node_config_version (nr_node row')
        \<and> (node_config_version (nr_node row) = node_config_version (nr_node row') \<longrightarrow> config_rows nid T' = config_rows nid T)))"

lemma forward_refl: "forward T T"
  by (simp add: forward_def)

lemma forward_trans: "forward T1 T2 \<Longrightarrow> forward T2 T3 \<Longrightarrow> forward T1 T3"
  unfolding forward_def
proof (intro allI impI)
  fix nid row
  assume 1: "\<forall>nid row. map_of (t_nodes T1) nid = Some row \<longrightarrow> (\<exists>row'. map_of (t_nodes T2) nid = Some row'
      \<and> node_config_version (nr_node row) \<le> node_config_version (nr_node row')
      \<and> (node_config_version (nr_node row) = node_config_version (nr_node row') \<longrightarrow> config_rows nid T2 = config_rows nid T1))"
    and 2: "\<forall>nid row. map_of (t_nodes T2) nid = Some row \<longrightarrow> (\<exists>row'. map_of (t_nodes T3) nid = Some row'
      \<and> node_config_version (nr_node row) \<le> node_config_version (nr_node row')
      \<and> (node_config_version (nr_node row) = node_config_version (nr_node row') \<longrightarrow> config_rows nid T3 = config_rows nid T2))"
    and row: "map_of (t_nodes T1) nid = Some row"
  from 1 row obtain row2 where r2: "map_of (t_nodes T2) nid = Some row2"
    "node_config_version (nr_node row) \<le> node_config_version (nr_node row2)"
    "node_config_version (nr_node row) = node_config_version (nr_node row2) \<longrightarrow> config_rows nid T2 = config_rows nid T1" by blast
  from 2 r2(1) obtain row3 where r3: "map_of (t_nodes T3) nid = Some row3"
    "node_config_version (nr_node row2) \<le> node_config_version (nr_node row3)"
    "node_config_version (nr_node row2) = node_config_version (nr_node row3) \<longrightarrow> config_rows nid T3 = config_rows nid T2" by blast
  have "node_config_version (nr_node row) = node_config_version (nr_node row3) \<longrightarrow> config_rows nid T3 = config_rows nid T1"
    using r2(2,3) r3(2,3) by auto
  with r2(2) r3(1,2) show "\<exists>row'. map_of (t_nodes T3) nid = Some row' \<and> node_config_version (nr_node row) \<le> node_config_version (nr_node row')
      \<and> (node_config_version (nr_node row) = node_config_version (nr_node row') \<longrightarrow> config_rows nid T3 = config_rows nid T1)"
    by auto
qed

lemma same_tables_forward: "t_nodes T' = t_nodes T \<Longrightarrow> t_rules T' = t_rules T \<Longrightarrow> forward T T'"
  by (simp add: forward_def config_rows_def)

lemma fits_next: "fits v \<Longrightarrow> fits (v + 1) \<Longrightarrow> v < v + 1" for v :: u64
  by (simp add: word_less_nat_alt unat_plus_if')

text \<open>The common case of the changes of rules: some nodes were bumped, and the rules of the others are the same.\<close>

lemma bump_forward:
  assumes bump: "bump_all nids T = Inr (T1, vs)" "distinct nids" and fit: "versions_fit T"
    and nodes: "t_nodes T' = t_nodes T1" and rows: "\<And>nid. nid \<notin> set nids \<Longrightarrow> config_rows nid T' = config_rows nid T"
  shows "versions_fit T' \<and> forward T T'"
proof -
  from bump_all_ok [OF bump] obtain rs where rs: "t_nodes T' = rs"
    and ins: "\<forall>nid \<in> set nids. \<exists>row. map_of (t_nodes T) nid = Some row \<and> node_status (nr_node row) \<noteq> NodeDisabled
         \<and> map_of rs nid = Some (row_bumped row) \<and> map_of vs nid = Some (node_config_version (nr_node row) + 1)
         \<and> fits (node_config_version (nr_node row) + 1)"
    and outs: "\<forall>nid. nid \<notin> set nids \<longrightarrow> map_of rs nid = map_of (t_nodes T) nid \<and> map_of vs nid = None"
    unfolding nodes by auto
  have "fits (node_config_version (nr_node row'))" if "map_of rs nid = Some row'" for nid row'
  proof (cases "nid \<in> set nids")
    case True
    from bspec [OF ins this] that show ?thesis by auto
  next
    case False
    with outs that fit show ?thesis unfolding versions_fit_def by metis
  qed
  then have "versions_fit T'" by (simp add: versions_fit_def rs)
  moreover have "\<exists>row'. map_of rs nid = Some row' \<and> node_config_version (nr_node row) \<le> node_config_version (nr_node row')
      \<and> (node_config_version (nr_node row) = node_config_version (nr_node row') \<longrightarrow> config_rows nid T' = config_rows nid T)"
    if row: "map_of (t_nodes T) nid = Some row" for nid row
  proof (cases "nid \<in> set nids")
    case True
    from bspec [OF ins this] row have b: "map_of rs nid = Some (row_bumped row)" "fits (node_config_version (nr_node row) + 1)" by auto
    have "node_config_version (nr_node row) < node_config_version (nr_node row) + 1"
      using fit row b(2) unfolding versions_fit_def by (intro fits_next) blast+
    with b(1) show ?thesis by simp
  next
    case False
    with outs rows row show ?thesis by simp
  qed
  ultimately show ?thesis by (simp add: forward_def rs)
qed

lemma config_rows_put:
  assumes "gomap_ok (t_rules T)" "\<not> involves nid r" "\<And>old. map_of (t_rules T) k = Some old \<Longrightarrow> \<not> involves nid old"
    and "t_rules T' = gput k r (t_rules T)"
  shows "config_rows nid T' = config_rows nid T"
  using filter_gput_same [of "t_rules T" "involves nid" r k] assms by (simp add: config_rows_def filter_map comp_def)

lemma config_rows_del:
  assumes "gomap_ok (t_rules T)" "\<And>old. map_of (t_rules T) k = Some old \<Longrightarrow> \<not> involves nid old"
    and "t_rules T' = gdel k (t_rules T)"
  shows "config_rows nid T' = config_rows nid T"
  using filter_gdel_same [of "t_rules T" k "involves nid"] assms by (simp add: config_rows_def filter_map comp_def)

lemma bump_all_rules: "bump_all nids T = Inr (T1, vs) \<Longrightarrow> distinct nids \<Longrightarrow> t_rules T1 = t_rules T"
  using bump_all_ok by fastforce

lemma rule_row_involves: "rule_ok r \<Longrightarrow> nid \<notin> set (ruleNodeIDs r) \<Longrightarrow> \<not> involves nid (rule_row r)"
  by (simp add: rule_row_def involves_iff)

lemma stored_rows:
  assumes "represents T m" "rules_inv m" "map_of (t_rules T) k = Some row"
  shows "rule_ok row"
proof -
  from assms(1,3) obtain r where r: "map_of (mem_rules m) k = Some r" "row = config_view r"
    using representsD(8) [of T m k] by auto
  have "rule_ok r" using r(1) rules_invD(2) [OF assms(2)] unfolding nodes_wf_def by blast
  with r(2) show ?thesis by (simp add: rule_ok_def)
qed

lemma create_forward:
  assumes inv: "represents T m" "rules_inv m" "versions_fit T" and r: "rule_ok r"
    and ok: "pg_CreateForwardRule r T = Inr (T', r2)"
  shows "versions_fit T' \<and> forward T T'"
proof -
  from ok obtain T1 vs where bump: "bump_all (sortedUniqueNodeIDs (ruleNodeIDs r)) T = Inr (T1, vs)"
    and ins: "insert_rule r2 T1 = Inr T'"
    and r2: "rule_id r2 = rule_id r" "rule_mode r2 = rule_mode r" "rule_egress r2 = rule_egress r" "rule_ingress r2 = rule_ingress r"
    by (auto simp: pg_CreateForwardRule_def Let_def split: if_splits sum.splits prod.splits sql_error.splits option.splits)
  have ok2: "rule_ok r2" and ids: "ruleNodeIDs r2 = ruleNodeIDs r" using r r2 by (simp_all add: rule_ok_def ruleNodeIDs_def)
  note I = insert_rule_ok [OF ins] and rules = bump_all_rules [OF bump sortedUnique(1)]
  show ?thesis
  proof (rule bump_forward [OF bump sortedUnique(1) inv(3)])
    show "t_nodes T' = t_nodes T1" using I(4) by simp
    show "config_rows nid T' = config_rows nid T" if "nid \<notin> set (sortedUniqueNodeIDs (ruleNodeIDs r))" for nid
    proof (rule config_rows_put [OF representsD(7) [OF inv(1)]])
      show "t_rules T' = gput (rule_id r2) (rule_row r2) (t_rules T)" using I(4) rules by simp
      show "\<not> involves nid (rule_row r2)" using that ids ok2 by (intro rule_row_involves) simp_all
      show "\<not> involves nid old" if "map_of (t_rules T) (rule_id r2) = Some old" for old
        using that I(2) rules by simp
    qed
  qed
qed

lemma update_forward:
  assumes inv: "represents T m" "rules_inv m" "versions_fit T" and r: "rule_ok r"
    and ok: "pg_UpdateForwardRule r T = Inr (T', r2)"
  shows "versions_fit T' \<and> forward T T'"
proof -
  from ok obtain prev T1 vs where prev: "map_of (t_rules T) (rule_id r) = Some prev"
    and bump: "bump_all (sortedUniqueNodeIDs (ruleNodeIDs prev @ ruleNodeIDs r)) T = Inr (T1, vs)"
    and upd: "update_rule r2 T1 = Inr T'"
    and r2: "rule_id r2 = rule_id r" "rule_mode r2 = rule_mode r" "rule_egress r2 = rule_egress r" "rule_ingress r2 = rule_ingress r"
    by (auto simp: pg_UpdateForwardRule_def Let_def split: if_splits sum.splits prod.splits sql_error.splits option.splits)
  have ok2: "rule_ok r2" and ids: "ruleNodeIDs r2 = ruleNodeIDs r" using r r2 by (simp_all add: rule_ok_def ruleNodeIDs_def)
  note U = update_rule_ok [OF upd] and rules = bump_all_rules [OF bump sortedUnique(1)]
  show ?thesis
  proof (rule bump_forward [OF bump sortedUnique(1) inv(3)])
    show "t_nodes T' = t_nodes T1" using U(3) by simp
    show "config_rows nid T' = config_rows nid T" if nid: "nid \<notin> set (sortedUniqueNodeIDs (ruleNodeIDs prev @ ruleNodeIDs r))" for nid
    proof (rule config_rows_put [OF representsD(7) [OF inv(1)]])
      show "t_rules T' = gput (rule_id r2) (rule_row r2) (t_rules T)" using U(3) rules by simp
      show "\<not> involves nid (rule_row r2)" using nid ids ok2 by (intro rule_row_involves) simp_all
      show "\<not> involves nid old" if "map_of (t_rules T) (rule_id r2) = Some old" for old
        using that prev r2(1) nid involves_iff [OF stored_rows [OF inv(1,2) prev], of nid] by simp
    qed
  qed
qed

lemma delete_forward:
  assumes inv: "represents T m" "rules_inv m" "versions_fit T" and ok: "pg_DeleteForwardRule rid T = Inr (T', x)"
  shows "versions_fit T' \<and> forward T T'"
proof -
  from ok obtain r T1 vs where r: "map_of (t_rules T) rid = Some r"
    and bump: "bump_all (sortedUniqueNodeIDs (ruleNodeIDs r)) T = Inr (T1, vs)"
    and T': "T' = T1\<lparr>t_rules := gdel rid (t_rules T1), t_stats := gdel rid (t_stats T1)\<rparr>"
    by (auto simp: pg_DeleteForwardRule_def split: sum.splits prod.splits option.splits)
  note rules = bump_all_rules [OF bump sortedUnique(1)]
  show ?thesis
  proof (rule bump_forward [OF bump sortedUnique(1) inv(3)])
    show "t_nodes T' = t_nodes T1" using T' by simp
    show "config_rows nid T' = config_rows nid T" if "nid \<notin> set (sortedUniqueNodeIDs (ruleNodeIDs r))" for nid
      using that r T' rules involves_iff [OF stored_rows [OF inv(1,2) r], of nid]
      by (intro config_rows_del [OF representsD(7) [OF inv(1)]]) simp_all
  qed
qed

text \<open>Accounts, tokens and the audit log touch neither nodes nor rules.\<close>

lemma account_body_frame:
  assumes "pg_body inet lt op T = Inr (T', v)" "is_account_op op"
  shows "t_nodes T' = t_nodes T \<and> t_rules T' = t_rules T"
  using assms
  by (cases op)
     (auto simp: with_value_Inr pg_CreateInitialUser_def pg_CreateUser_def insert_user_def pg_UpdateUser_def pg_DeleteUser_def
       pg_SetUserMFA_def pg_ConsumeRecoveryCode_def pg_CreateSession_def pg_DeleteSession_def pg_CreateEnrollmentToken_def
       pg_RecordAudit_def Let_def split: if_splits option.splits sum.splits prod.splits sql_error.splits)

lemma enroll_forward:
  assumes "pg_EnrollAgent inet h now a T = Inr (T', n)" "versions_fit T"
  shows "versions_fit T' \<and> forward T T'"
proof -
  from assms(1) have "map_of (t_nodes T) (agent_id a) = None \<and> t_rules T' = t_rules T"
    "\<exists>row. t_nodes T' = gput (agent_id a) row (t_nodes T) \<and> node_config_version (nr_node row) = 1"
    by (auto simp: pg_EnrollAgent_def insert_node_def ghas_def Let_def intro!: exI split: if_splits option.splits sum.splits)
  then show ?thesis
    using assms(2) by (auto simp: versions_fit_def forward_def config_rows_def split: if_splits)
qed

lemma heartbeat_forward:
  assumes "pg_UpdateAgentHeartbeat inet lt nid cred hb T = Inr (T', n)" "versions_fit T"
  shows "versions_fit T' \<and> forward T T'"
proof -
  from heartbeat_parts [OF assms(1)] obtain T1 logs conns stats where T1: "update_node inet nid cred hb T = Inr (T1, n)"
    and T': "T' = (upsert_sample nid hb T1)\<lparr>t_logs := logs, t_connections := conns, t_stats := stats\<rparr>" .
  from update_node_ok [OF T1] obtain row where row: "map_of (t_nodes T) nid = Some row"
      "n = heartbeat_node (kept_heartbeat inet hb) (nr_node row)" "T1 = T\<lparr>t_nodes := gput nid (row\<lparr>nr_node := n\<rparr>) (t_nodes T)\<rparr>" .
  then have "t_nodes T' = gput nid (row\<lparr>nr_node := n\<rparr>) (t_nodes T)" "t_rules T' = t_rules T"
    by (simp_all add: T' upsert_sample_def Let_def)
  with row(1,2) assms(2) show ?thesis
    by (auto simp: versions_fit_def forward_def config_rows_def)
qed

lemma body_forward:
  assumes inv: "represents T m" "store_inv m" "versions_fit T" and ok: "op_ok op" "pg_body inet lt op T = Inr (T', v)"
  shows "versions_fit T' \<and> forward T T'"
proof (cases "is_account_op op")
  case True
  from account_body_frame [OF ok(2) this] inv(3) show ?thesis
    by (simp add: versions_fit_def same_tables_forward)
next
  case False
  have r: "rules_inv m" using inv(2) by (simp add: store_inv_def)
  note rules = create_forward [OF inv(1) r inv(3)] update_forward [OF inv(1) r inv(3)] delete_forward [OF inv(1) r inv(3)]
  show ?thesis
  proof (cases op)
    case (OpEnrollAgent h now a)
    with ok(2) show ?thesis by (auto simp: with_value_Inr dest: enroll_forward [OF _ inv(3)])
  next
    case (OpHeartbeat nid cred hb)
    with ok(2) show ?thesis by (auto simp: with_value_Inr dest: heartbeat_forward [OF _ inv(3)])
  next
    case (OpCreateRule q)
    with ok rules(1) [of q T'] show ?thesis by (auto simp: with_value_Inr)
  next
    case (OpUpdateRule q)
    with ok rules(2) [of q T'] show ?thesis by (auto simp: with_value_Inr)
  next
    case (OpDeleteRule rid)
    with ok rules(3) [of rid T'] show ?thesis by (auto simp: with_value_Inr)
  qed (use False in simp_all)
qed

definition pg_inv :: "tables \<Rightarrow> bool" where
  "pg_inv T \<longleftrightarrow> versions_fit T \<and> (\<exists>m. store_inv m \<and> represents T m)"

lemma pg_inv_empty: "pg_inv empty_tables"
  using store_inv_run [OF run_empty] represents_empty by (auto simp: pg_inv_def versions_fit_def empty_tables_def)

lemma pg_step_forward:
  assumes "pg_step inet lt T e T'" "pg_inv T"
  shows "pg_inv T' \<and> forward T T'"
  using assms(1)
proof (cases rule: pg_step_cases)
  case refused
  with assms(2) show ?thesis by (simp add: forward_refl)
next
  case (applied op f res v)
  obtain m where m: "store_inv m" "represents T m" "versions_fit T" using assms(2) by (auto simp: pg_inv_def)
  from pg_body_matched [OF m(2,1) applied(2,3)] obtain m' w where "exec (kept inet op) m = (m', Inr w)" "represents T' m'"
    unfolding matched_def by blast
  with store_inv_exec [OF m(1), of "kept inet op"] checked_ok [OF applied(2)] have "store_inv m' \<and> represents T' m'" by (simp add: kept_ok)
  with body_forward [OF m(2,1,3) checked_ok [OF applied(2)] applied(3)] show ?thesis by (auto simp: pg_inv_def)
qed

lemma pg_steps_forward: "pg_steps inet lt T es T' \<Longrightarrow> pg_inv T \<Longrightarrow> pg_inv T' \<and> forward T T'"
proof (induction rule: pg_steps.induct)
  case (pg_steps_none T)
  then show ?case by (simp add: forward_refl)
next
  case (pg_steps_more T es T1 e T2)
  then show ?case using pg_step_forward [of inet lt T1 e T2] forward_trans [of T T1 T2] by blast
qed


section \<open>The counters of a moved rule\<close>

lemma upsert_stats_others:
  assumes "upsert_stats nid t xs rules rows = Inr rows'" "\<And>r. map_of rules rid = Some r \<Longrightarrow> rule_ingress r \<noteq> nid"
  shows "map_of rows' rid = map_of rows rid"
  using assms
proof (induction xs arbitrary: rows)
  case (Cons x xs)
  then show ?case by (cases "stats_rule x = rid") (auto simp: Let_def split: if_splits option.splits)
qed simp

lemma upsert_stats_owner:
  "upsert_stats nid t xs rules rows = Inr rows' \<Longrightarrow> map_of rows rid = Some s \<Longrightarrow>
     \<exists>s'. map_of rows' rid = Some s' \<and> sr_node s' = sr_node s"
proof (induction xs arbitrary: rows s)
  case (Cons x xs)
  show ?case
  proof (cases "stats_rule x = rid")
    case True
    with Cons show ?thesis by (force simp: Let_def split: if_splits option.splits)
  next
    case False
    with Cons show ?thesis by (auto simp: Let_def split: if_splits option.splits)
  qed
qed simp

lemma heartbeat_stats:
  assumes "pg_UpdateAgentHeartbeat inet lt nid cred hb T = Inr (T', n)"
  shows "upsert_stats nid (hb_received_at hb) (hb_rule_stats hb) (t_rules T) (reset_stats nid (hb_received_at hb) (t_stats T)) = Inr (t_stats T')"
  using assms
  by (auto simp: pg_UpdateAgentHeartbeat_def update_node_def upsert_sample_def replace_connections_def Let_def
      split: sum.splits prod.splits option.splits if_splits)


end
