(* ===== verification/PostgresCharts.thy ===== *)
theory PostgresCharts
  imports PostgresMachine
begin

text \<open>
  The charts of the PostgreSQL store, \<open>TrafficHistory\<close> and \<open>NodeMetricHistory\<close> of \<open>postgres.go\<close>: the increments of the
  counters with \<open>LAG\<close> over the samples of a node, the buckets with \<open>date_bin\<close>, the sums and averages of a bucket.
\<close>

section \<open>Samples and increments\<close>

text \<open>\<open>ORDER BY sampled_at DESC LIMIT 1\<close>.\<close>

definition latest :: "metric_sample list \<Rightarrow> metric_sample option" where
  "latest ss = fold (\<lambda>s best. case best of None \<Rightarrow> Some s | Some b \<Rightarrow> if sample_at b < sample_at s then Some s else best) ss None"

text \<open>\<open>LAG\<close> over the samples of the same node in the order of their times.\<close>

definition lag_of :: "metric_sample list \<Rightarrow> metric_sample \<Rightarrow> metric_sample option" where
  "lag_of rows s = latest (filter (\<lambda>p. sample_node p = sample_node s \<and> sample_at p < sample_at s) rows)"

definition growth :: "(metric_sample \<Rightarrow> u64) \<Rightarrow> metric_sample list \<Rightarrow> metric_sample \<Rightarrow> nat" where
  "growth f rows s =
     (case lag_of rows s of None \<Rightarrow> 0 | Some p \<Rightarrow> if f p \<le> f s then unat (f s) - unat (f p) else unat (f s))"

definition date_bin :: "int \<Rightarrow> time \<Rightarrow> time" where
  "date_bin seconds t = unix_time (time_unix t div seconds * seconds)"

text \<open>\<open>prior\<close> and \<open>selected\<close>: the last sample of each node before the range, and the samples in it.\<close>

definition prior_samples :: "time \<Rightarrow> metric_sample list \<Rightarrow> metric_sample list" where
  "prior_samples from rows =
     List.map_filter (\<lambda>n. latest (filter (\<lambda>s. sample_node s = n \<and> sample_at s < from) rows)) (remdups (map sample_node rows))"

definition ordered_samples :: "time \<Rightarrow> time \<Rightarrow> metric_sample list \<Rightarrow> metric_sample list" where
  "ordered_samples from to rows = prior_samples from rows @ filter (\<lambda>s. from \<le> sample_at s \<and> sample_at s \<le> to) rows"

text \<open>\<open>GROUP BY 1 ORDER BY 1\<close>: the buckets that occur, each with its samples.\<close>

definition buckets_of :: "int \<Rightarrow> metric_sample list \<Rightarrow> (time \<times> metric_sample list) list" where
  "buckets_of seconds shown =
     map (\<lambda>b. (b, filter (\<lambda>s. date_bin seconds (sample_at s) = b) shown))
       (sort_slice (<) (remdups (map (\<lambda>s. date_bin seconds (sample_at s)) shown)))"

text \<open>A sum is a \<open>NUMERIC\<close>; reading it into 64 bits fails where it does not fit.\<close>

definition numeric_u64 :: "nat \<Rightarrow> u64 option" where
  "numeric_u64 n = (if int n < 2 ^ 64 then Some (of_nat n) else None)"

fun all_some :: "'a option list \<Rightarrow> 'a list option" where
  "all_some [] = Some []"
| "all_some (None # xs) = None"
| "all_some (Some x # xs) = map_option (\<lambda>ys. x # ys) (all_some xs)"

section \<open>The queries\<close>

definition traffic_of :: "metric_sample list \<Rightarrow> time \<times> metric_sample list \<Rightarrow> traffic_point option" where
  "traffic_of rows g =
     (case (numeric_u64 (\<Sum>s\<leftarrow>snd g. growth sample_in rows s), numeric_u64 (\<Sum>s\<leftarrow>snd g. growth sample_out rows s)) of
        (Some up, Some down) \<Rightarrow> Some \<lparr>traffic_time = fst g, traffic_upload = up, traffic_download = down\<rparr>
      | _ \<Rightarrow> None)"

definition pg_TrafficHistory :: "time \<Rightarrow> time \<Rightarrow> duration \<Rightarrow> tables \<Rightarrow> pg_error + traffic_point list" where
  "pg_TrafficHistory from to interval T =
     (let seconds = go_div interval go_second;
          rows = ordered_samples (micro from) (micro to) (map snd (t_samples T));
          shown = filter (\<lambda>s. micro from \<le> sample_at s) rows
      in if shown \<noteq> [] \<and> seconds \<le> 0 then Inl (Sql BadValue)
         else case all_some (map (traffic_of rows) (buckets_of seconds shown)) of
           None \<Rightarrow> Inl (Sql BadValue)
         | Some points \<Rightarrow> Inr points)"

definition average :: "(metric_sample \<Rightarrow> float64) \<Rightarrow> metric_sample list \<Rightarrow> float64" where
  "average f ss = float_div_count (foldl float_add (Fin 0) (map f ss)) (length ss)"

text \<open>\<open>ROUND(AVG(x))::bigint\<close>, of values that are not negative.\<close>

definition rounded_average :: "(metric_sample \<Rightarrow> u64) \<Rightarrow> metric_sample list \<Rightarrow> u64" where
  "rounded_average f ss = word_of_int \<lfloor>(of_nat (\<Sum>s\<leftarrow>ss. unat (f s)) / of_nat (length ss) + 1 / 2 :: rat)\<rfloor>"

definition metrics_of :: "metric_sample list \<Rightarrow> time \<times> metric_sample list \<Rightarrow> metric_point option" where
  "metrics_of rows g =
     (let ss = snd g
      in case (numeric_u64 (\<Sum>s\<leftarrow>ss. growth sample_in rows s), numeric_u64 (\<Sum>s\<leftarrow>ss. growth sample_out rows s)) of
        (Some up, Some down) \<Rightarrow>
          Some \<lparr>point_time = fst g, point_cpu = average sample_cpu ss, point_memory = average sample_memory ss,
            point_load = average sample_load ss, point_disk = average sample_disk ss,
            point_rx = rounded_average sample_rx ss, point_tx = rounded_average sample_tx ss,
            point_active = (case latest ss of None \<Rightarrow> 0 | Some s \<Rightarrow> sample_active s),
            point_upload = up, point_download = down\<rparr>
      | _ \<Rightarrow> None)"

definition pg_NodeMetricHistory :: "string \<Rightarrow> time \<Rightarrow> time \<Rightarrow> duration \<Rightarrow> tables \<Rightarrow> pg_error + metric_point list" where
  "pg_NodeMetricHistory nid from to interval T =
     (let seconds = go_div interval go_second;
          rows = ordered_samples (micro from) (micro to) (filter (\<lambda>s. sample_node s = nid) (map snd (t_samples T)));
          shown = filter (\<lambda>s. micro from \<le> sample_at s) rows
      in if shown \<noteq> [] \<and> seconds \<le> 0 then Inl (Sql BadValue)
         else case all_some (map (metrics_of rows) (buckets_of seconds shown)) of
           None \<Rightarrow> Inl (Sql BadValue)
         | Some points \<Rightarrow> Inr points)"

section \<open>The previous sample\<close>

lemma latest_fold:
  "fold (\<lambda>s best. case best of None \<Rightarrow> Some s | Some b \<Rightarrow> if sample_at b < sample_at s then Some s else best) ss (Some b) = Some r \<Longrightarrow>
     r \<in> insert b (set ss) \<and> (\<forall>s \<in> insert b (set ss). sample_at s \<le> sample_at r)"
proof (induction ss arbitrary: b)
  case Nil
  then show ?case by simp
next
  case (Cons s ss)
  show ?case
  proof (cases "sample_at b < sample_at s")
    case True
    with Cons.IH [of s] Cons.prems show ?thesis by fastforce
  next
    case False
    with Cons.IH [of b] Cons.prems show ?thesis by fastforce
  qed
qed

lemma latest_fold_Some:
  "\<exists>r. fold (\<lambda>s best. case best of None \<Rightarrow> Some s | Some b \<Rightarrow> if sample_at b < sample_at s then Some s else best) ss (Some b) = Some r"
  by (induction ss arbitrary: b) auto

lemma latest_None [simp]: "latest ss = None \<longleftrightarrow> ss = []"
proof (cases ss)
  case (Cons s ss')
  with latest_fold_Some [of ss' s] show ?thesis by (auto simp: latest_def)
qed (simp add: latest_def)

lemma latest_Nil [simp]: "latest [] = None"
  by simp

lemma latest_SomeD: "latest ss = Some r \<Longrightarrow> r \<in> set ss \<and> (\<forall>s \<in> set ss. sample_at s \<le> sample_at r)"
  using latest_fold [of "tl ss" "hd ss" r] by (cases ss) (simp_all add: latest_def)

text \<open>Where times are distinct the latest sample is a matter of the set of samples.\<close>

lemma latest_eq:
  assumes "inj_on sample_at (set ss)" "r \<in> set ss" "\<And>s. s \<in> set ss \<Longrightarrow> sample_at s \<le> sample_at r"
  shows "latest ss = Some r"
proof (cases "latest ss")
  case None
  with assms(2) show ?thesis by simp
next
  case (Some q)
  from latest_SomeD [OF this] assms(2,3) have "q \<in> set ss" "sample_at q = sample_at r" by (auto intro: antisym)
  with assms(1,2) Some show ?thesis by (auto dest: inj_onD)
qed

section \<open>The totals of the two charts\<close>

definition gain :: "(metric_sample \<Rightarrow> u64) \<Rightarrow> metric_sample option \<Rightarrow> metric_sample \<Rightarrow> u64" where
  "gain f prev s = (case prev of None \<Rightarrow> 0 | Some p \<Rightarrow> counter_delta (f s) (f p))"

lemma growth_gain: "of_nat (growth f rows s) = gain f (lag_of rows s) s"
proof (cases "lag_of rows s")
  case (Some p)
  have "of_nat (unat a - unat b) = a - b" if "b \<le> a" for a b :: u64
    using that by (simp add: unat_sub [symmetric])
  with Some show ?thesis by (simp add: growth_def gain_def counter_delta_def)
qed (simp add: growth_def gain_def)

abbreviation earlier :: "metric_sample list \<Rightarrow> metric_sample \<Rightarrow> metric_sample option" where
  "earlier xs s \<equiv> latest (filter (\<lambda>p. sample_at p < sample_at s) xs)"

lemma option_eqI: "(\<And>r. a = Some r \<longleftrightarrow> b = Some r) \<Longrightarrow> a = b"
  by (metis not_Some_eq)

lemma earlier_cong:
  assumes "inj_on sample_at (set xs)" "inj_on sample_at (set ys)"
    and "\<And>r. (r \<in> set xs \<and> sample_at r < sample_at s \<and> (\<forall>p \<in> set xs. sample_at p < sample_at s \<longrightarrow> sample_at p \<le> sample_at r))
       \<longleftrightarrow> (r \<in> set ys \<and> sample_at r < sample_at s \<and> (\<forall>p \<in> set ys. sample_at p < sample_at s \<longrightarrow> sample_at p \<le> sample_at r))"
  shows "earlier xs s = earlier ys s"
proof -
  have char: "earlier zs s = Some r \<longleftrightarrow>
      r \<in> set zs \<and> sample_at r < sample_at s \<and> (\<forall>p \<in> set zs. sample_at p < sample_at s \<longrightarrow> sample_at p \<le> sample_at r)"
    if "inj_on sample_at (set zs)" for zs r
  proof
    assume "earlier zs s = Some r"
    from latest_SomeD [OF this] show "r \<in> set zs \<and> sample_at r < sample_at s
        \<and> (\<forall>p \<in> set zs. sample_at p < sample_at s \<longrightarrow> sample_at p \<le> sample_at r)" by simp
  next
    assume "r \<in> set zs \<and> sample_at r < sample_at s \<and> (\<forall>p \<in> set zs. sample_at p < sample_at s \<longrightarrow> sample_at p \<le> sample_at r)"
    moreover have "inj_on sample_at (set (filter (\<lambda>p. sample_at p < sample_at s) zs))"
      using that by (rule inj_on_subset) simp
    ultimately show "earlier zs s = Some r" by (intro latest_eq) auto
  qed
  have "earlier xs s = Some r \<longleftrightarrow> earlier ys s = Some r" for r
    unfolding char [OF assms(1)] char [OF assms(2)] by (rule assms(3))
  then show ?thesis by (rule option_eqI)
qed

lemma increase_earlier:
  assumes "sorted_wrt (\<lambda>a b. sample_at a < sample_at b) (ps @ xs)" "length ps \<le> 1"
  shows "increase f from (map_option f (latest ps)) xs =
     (\<Sum>s\<leftarrow>filter (\<lambda>s. from \<le> sample_at s) xs. gain f (earlier (ps @ xs) s) s)"
  using assms
proof (induction xs arbitrary: ps)
  case Nil
  then show ?case by simp
next
  case (Cons x xs)
  have sorted: "sorted_wrt (\<lambda>a b. sample_at a < sample_at b) ([x] @ xs)" using Cons.prems(1) by (simp add: sorted_wrt_append)
  have inj: "inj_on sample_at (set ys)" if "sorted_wrt (\<lambda>a b. sample_at a < sample_at b) ys" for ys
    using that unfolding sorted_wrt_map [symmetric] strict_sorted_iff distinct_map by blast
  have "filter (\<lambda>p. sample_at p < sample_at x) (ps @ x # xs) = ps"
    using Cons.prems(1) by (auto simp: sorted_wrt_append filter_id_conv filter_empty_conv)
  then have first: "earlier (ps @ x # xs) x = latest ps" by simp
  have "earlier (ps @ x # xs) s = earlier ([x] @ xs) s" if s: "s \<in> set xs" for s
  proof (rule earlier_cong)
    show "inj_on sample_at (set (ps @ x # xs))" "inj_on sample_at (set ([x] @ xs))"
      using inj [OF Cons.prems(1)] inj [OF sorted] by simp_all
    show "(r \<in> set (ps @ x # xs) \<and> sample_at r < sample_at s \<and> (\<forall>p \<in> set (ps @ x # xs). sample_at p < sample_at s \<longrightarrow> sample_at p \<le> sample_at r))
       \<longleftrightarrow> (r \<in> set ([x] @ xs) \<and> sample_at r < sample_at s \<and> (\<forall>p \<in> set ([x] @ xs). sample_at p < sample_at s \<longrightarrow> sample_at p \<le> sample_at r))" for r
    proof -
      have old: "sample_at p < sample_at x" if "p \<in> set ps" for p using that Cons.prems(1) by (simp add: sorted_wrt_append)
      have x: "sample_at x < sample_at s" using s Cons.prems(1) by (simp add: sorted_wrt_append)
      show ?thesis
      proof (intro iffI; elim conjE)
        assume r: "r \<in> set (ps @ x # xs)" "sample_at r < sample_at s"
          "\<forall>p \<in> set (ps @ x # xs). sample_at p < sample_at s \<longrightarrow> sample_at p \<le> sample_at r"
        then have "sample_at x \<le> sample_at r" using x by simp
        then have "r \<notin> set ps" using old [of r] by auto
        with r show "r \<in> set ([x] @ xs) \<and> sample_at r < sample_at s
            \<and> (\<forall>p \<in> set ([x] @ xs). sample_at p < sample_at s \<longrightarrow> sample_at p \<le> sample_at r)" by simp
      next
        assume r: "r \<in> set ([x] @ xs)" "sample_at r < sample_at s"
          "\<forall>p \<in> set ([x] @ xs). sample_at p < sample_at s \<longrightarrow> sample_at p \<le> sample_at r"
        then have "sample_at x \<le> sample_at r" using x by simp
        then have "sample_at p \<le> sample_at r" if "p \<in> set ps" for p using old [OF that] by simp
        with r show "r \<in> set (ps @ x # xs) \<and> sample_at r < sample_at s
            \<and> (\<forall>p \<in> set (ps @ x # xs). sample_at p < sample_at s \<longrightarrow> sample_at p \<le> sample_at r)" by auto
      qed
    qed
  qed
  then have rest: "map (\<lambda>s. gain f (earlier (ps @ x # xs) s) s) (filter (\<lambda>s. from \<le> sample_at s) xs) =
      map (\<lambda>s. gain f (earlier ([x] @ xs) s) s) (filter (\<lambda>s. from \<le> sample_at s) xs)"
    by (intro map_cong refl) simp
  have "latest [x] = Some x" by (simp add: latest_def)
  with Cons.IH [OF sorted] have "increase f from (Some (f x)) xs = (\<Sum>s\<leftarrow>filter (\<lambda>s. from \<le> sample_at s) xs. gain f (earlier ([x] @ xs) s) s)"
    by simp
  moreover have "(case map_option f (latest ps) of Some v \<Rightarrow> if sample_at x < from then 0 else counter_delta (f x) v | None \<Rightarrow> 0)
      = (if from \<le> sample_at x then gain f (earlier (ps @ x # xs) x) x else 0)"
    unfolding first by (cases "latest ps") (simp_all add: gain_def)
  ultimately have "increase f from (map_option f (latest ps)) (x # xs) =
      (if from \<le> sample_at x then gain f (earlier (ps @ x # xs) x) x else 0)
        + (\<Sum>s\<leftarrow>filter (\<lambda>s. from \<le> sample_at s) xs. gain f (earlier (ps @ x # xs) s) s)"
    unfolding rest by (simp only: increase.simps)
  also have "\<dots> = (\<Sum>s\<leftarrow>filter (\<lambda>s. from \<le> sample_at s) (x # xs). gain f (earlier (ps @ x # xs) s) s)"
    by (cases "from \<le> sample_at x") (simp_all only: filter.simps if_True if_False list.map sum_list.Cons add_0)
  finally show ?case .
qed

text \<open>Sums over groups.\<close>

lemma sum_groups:
  fixes G :: "'a \<Rightarrow> u64"
  assumes "finite K" "\<forall>s \<in> set xs. k s \<in> K"
  shows "(\<Sum>b\<in>K. \<Sum>s\<leftarrow>filter (\<lambda>s. k s = b) xs. G s) = (\<Sum>s\<leftarrow>xs. G s)"
  using assms(2)
proof (induction xs)
  case Nil
  then show ?case by simp
next
  case (Cons x xs)
  have "(\<Sum>b\<in>K. \<Sum>s\<leftarrow>filter (\<lambda>s. k s = b) (x # xs). G s) = (\<Sum>b\<in>K. (if k x = b then G x else 0) + (\<Sum>s\<leftarrow>filter (\<lambda>s. k s = b) xs. G s))"
    by (intro sum.cong) auto
  also have "\<dots> = G x + (\<Sum>s\<leftarrow>xs. G s)"
    using Cons assms(1) by (simp add: sum.distrib)
  finally show ?case by simp
qed

lemma sum_list_mset_eq:
  fixes G :: "'a \<Rightarrow> u64"
  shows "mset xs = mset ys \<Longrightarrow> (\<Sum>s\<leftarrow>xs. G s) = (\<Sum>s\<leftarrow>ys. G s)"
  by (metis mset_map sum_mset_sum_list)

lemma of_nat_sum_list: "of_nat (\<Sum>s\<leftarrow>xs. g s) = (\<Sum>s\<leftarrow>xs. of_nat (g s) :: u64)"
  by (induction xs) simp_all

lemma all_some_map: "all_some (map h xs) = Some ys \<Longrightarrow> list_all2 (\<lambda>x y. h x = Some y) xs ys"
proof (induction xs arbitrary: ys)
  case (Cons x xs)
  then show ?case by (cases "h x") auto
qed simp

lemma sum_buckets:
  fixes G :: "metric_sample \<Rightarrow> u64"
  shows "(\<Sum>g\<leftarrow>buckets_of seconds shown. \<Sum>s\<leftarrow>snd g. G s) = (\<Sum>s\<leftarrow>shown. G s)"
proof -
  let ?k = "\<lambda>s. date_bin seconds (sample_at s)" and ?bs = "sort_slice (<) (remdups (map (\<lambda>s. date_bin seconds (sample_at s)) shown))"
  have "distinct ?bs" by simp
  then have "(\<Sum>b\<leftarrow>?bs. \<Sum>s\<leftarrow>filter (\<lambda>s. ?k s = b) shown. G s) = (\<Sum>b\<in>set ?bs. \<Sum>s\<leftarrow>filter (\<lambda>s. ?k s = b) shown. G s)"
    by (rule sum.distinct_set_conv_list [symmetric])
  also have "\<dots> = (\<Sum>s\<leftarrow>shown. G s)" by (rule sum_groups) simp_all
  finally show ?thesis by (simp add: buckets_of_def comp_def)
qed

section \<open>One node\<close>

abbreviation keys_distinct :: "metric_sample list \<Rightarrow> bool" where
  "keys_distinct rows \<equiv> distinct (map (\<lambda>s. (sample_node s, sample_at s)) rows)"

lemma node_inj: "keys_distinct rows \<Longrightarrow> inj_on sample_at {s \<in> set rows. sample_node s = n}"
  unfolding distinct_map inj_on_def by auto

lemma prior_iff:
  "p \<in> set (prior_samples from rows) \<longleftrightarrow> latest (filter (\<lambda>s. sample_node s = sample_node p \<and> sample_at s < from) rows) = Some p"
proof
  assume "p \<in> set (prior_samples from rows)"
  then obtain n where n: "latest (filter (\<lambda>s. sample_node s = n \<and> sample_at s < from) rows) = Some p"
    by (auto simp: prior_samples_def List.map_filter_def)
  from latest_SomeD [OF this] have "sample_node p = n" by simp
  with n show "latest (filter (\<lambda>s. sample_node s = sample_node p \<and> sample_at s < from) rows) = Some p" by simp
next
  assume l: "latest (filter (\<lambda>s. sample_node s = sample_node p \<and> sample_at s < from) rows) = Some p"
  from latest_SomeD [OF this] have "p \<in> set rows" by simp
  with l show "p \<in> set (prior_samples from rows)"
    by (auto simp: prior_samples_def List.map_filter_def intro!: image_eqI [where x = "sample_node p"])
qed

lemma priorD: "p \<in> set (prior_samples from rows) \<Longrightarrow> p \<in> set rows \<and> sample_at p < from"
  unfolding prior_iff using latest_SomeD by fastforce

lemma lag_ordered:
  assumes dist: "keys_distinct rows" and ns: "set ns = {s \<in> set rows. sample_node s = n \<and> sample_at s \<le> to}"
    and s: "s \<in> set ns" "from \<le> sample_at s"
  shows "earlier ns s = lag_of (ordered_samples from to rows) s"
proof -
  let ?ys = "filter (\<lambda>p. sample_node p = n) (ordered_samples from to rows)"
  have node: "sample_node s = n" "sample_at s \<le> to" using s(1) ns by auto
  have inj: "inj_on sample_at {s \<in> set rows. sample_node s = n}" by (rule node_inj [OF dist])
  have ys: "p \<in> set ?ys \<longleftrightarrow> sample_node p = n \<and> (p \<in> set (prior_samples from rows) \<or> p \<in> set rows \<and> from \<le> sample_at p \<and> sample_at p \<le> to)" for p
    by (auto simp: ordered_samples_def)
  have sub: "set ?ys \<subseteq> set ns"
    using priorD s(2) node(2) unfolding ns ys subset_iff by fastforce
  have "earlier ns s = earlier ?ys s"
  proof (rule earlier_cong)
    show "inj_on sample_at (set ns)" using inj by (rule inj_on_subset) (auto simp: ns)
    then show "inj_on sample_at (set ?ys)" using sub by (rule inj_on_subset)
    fix r
    show "(r \<in> set ns \<and> sample_at r < sample_at s \<and> (\<forall>p \<in> set ns. sample_at p < sample_at s \<longrightarrow> sample_at p \<le> sample_at r))
       \<longleftrightarrow> (r \<in> set ?ys \<and> sample_at r < sample_at s \<and> (\<forall>p \<in> set ?ys. sample_at p < sample_at s \<longrightarrow> sample_at p \<le> sample_at r))"
    proof (intro iffI; elim conjE)
      assume r: "r \<in> set ns" "sample_at r < sample_at s" and top: "\<forall>p \<in> set ns. sample_at p < sample_at s \<longrightarrow> sample_at p \<le> sample_at r"
      have "r \<in> set ?ys"
      proof (cases "from \<le> sample_at r")
        case True
        with r(1) show ?thesis unfolding ys ns by simp
      next
        case False
        have "latest (filter (\<lambda>q. sample_node q = n \<and> sample_at q < from) rows) = Some r"
        proof (rule latest_eq)
          show "inj_on sample_at (set (filter (\<lambda>q. sample_node q = n \<and> sample_at q < from) rows))"
            using inj by (rule inj_on_subset) auto
          show "r \<in> set (filter (\<lambda>q. sample_node q = n \<and> sample_at q < from) rows)" using r(1) False unfolding ns by simp
          show "sample_at q \<le> sample_at r" if "q \<in> set (filter (\<lambda>q. sample_node q = n \<and> sample_at q < from) rows)" for q
            using that s(2) node(2) top unfolding ns by simp
        qed
        with r(1) show ?thesis unfolding ys prior_iff ns by simp
      qed
      with r(2) top sub show "r \<in> set ?ys \<and> sample_at r < sample_at s \<and> (\<forall>p \<in> set ?ys. sample_at p < sample_at s \<longrightarrow> sample_at p \<le> sample_at r)"
        by blast
    next
      assume r: "r \<in> set ?ys" "sample_at r < sample_at s" and top: "\<forall>p \<in> set ?ys. sample_at p < sample_at s \<longrightarrow> sample_at p \<le> sample_at r"
      have "sample_at p \<le> sample_at r" if p: "p \<in> set ns" "sample_at p < sample_at s" for p
      proof (cases "from \<le> sample_at p")
        case True
        with p have "p \<in> set ?ys" unfolding ys ns by simp
        with top p(2) show ?thesis by blast
      next
        case False
        let ?old = "filter (\<lambda>q. sample_node q = n \<and> sample_at q < from) rows"
        have "p \<in> set ?old" using p(1) False unfolding ns by simp
        then have "latest ?old \<noteq> None" by (metis empty_iff empty_set latest_None)
        then obtain q where q: "latest ?old = Some q" by blast
        note L = latest_SomeD [OF q]
        then have "sample_at p \<le> sample_at q" using \<open>p \<in> set ?old\<close> by blast
        moreover have "q \<in> set ?ys" using L q unfolding ys prior_iff by auto
        then have "sample_at q \<le> sample_at r" using top L s(2) by fastforce
        ultimately show ?thesis by simp
      qed
      with r sub show "r \<in> set ns \<and> sample_at r < sample_at s \<and> (\<forall>p \<in> set ns. sample_at p < sample_at s \<longrightarrow> sample_at p \<le> sample_at r)"
        by blast
    qed
  qed
  also have "\<dots> = lag_of (ordered_samples from to rows) s"
    by (simp add: lag_of_def node(1) conj_commute)
  finally show ?thesis .
qed

section \<open>The charts\<close>

definition shown_samples :: "time \<Rightarrow> time \<Rightarrow> metric_sample list \<Rightarrow> metric_sample list" where
  "shown_samples from to rows = filter (\<lambda>s. from \<le> sample_at s) (ordered_samples from to rows)"

lemma shown_eq: "shown_samples from to rows = filter (\<lambda>s. from \<le> sample_at s \<and> sample_at s \<le> to) rows"
proof -
  have "filter (\<lambda>s. from \<le> sample_at s) (prior_samples from rows) = []"
    using priorD by (fastforce simp: filter_empty_conv)
  then show ?thesis by (auto simp: shown_samples_def ordered_samples_def intro: filter_cong)
qed

lemma node_samples_sorted_aux:
  "keys_distinct ss \<Longrightarrow> sorted_wrt (\<lambda>a b. \<not> sample_before b a) ss \<Longrightarrow>
     sorted_wrt (\<lambda>a b. sample_at a < sample_at b) (node_samples n to ss)"
proof (induction ss)
  case (Cons x ss)
  have "sample_at x < sample_at y" if y: "y \<in> set ss" "sample_node x = n" "sample_node y = n" for y
  proof -
    have "\<not> sample_before y x" using Cons.prems(2) y(1) by simp
    then have "sample_at x \<le> sample_at y" using y by (simp add: sample_before_def)
    moreover have "sample_at x \<noteq> sample_at y" using Cons.prems(1) y by (auto simp: image_iff)
    ultimately show ?thesis by simp
  qed
  with Cons show ?case by (auto simp: node_samples_def)
qed simp

lemma node_samples_sorted:
  assumes "keys_distinct rows"
  shows "sorted_wrt (\<lambda>a b. sample_at a < sample_at b) (node_samples n to (sort_slice sample_before rows))"
proof (rule node_samples_sorted_aux)
  have "mset (map (\<lambda>s. (sample_node s, sample_at s)) (sort_slice sample_before rows)) = mset (map (\<lambda>s. (sample_node s, sample_at s)) rows)" by simp
  then show "keys_distinct (sort_slice sample_before rows)" using assms mset_eq_imp_distinct_iff by blast
qed (rule sample.sorted_sort_slice)

lemma node_total:
  assumes dist: "keys_distinct rows"
  shows "(\<Sum>s\<leftarrow>filter (\<lambda>s. sample_node s = n) (shown_samples from to rows). of_nat (growth f (ordered_samples from to rows) s))
     = increase f from None (node_samples n to (sort_slice sample_before rows))"
proof -
  let ?ns = "node_samples n to (sort_slice sample_before rows)" and ?ord = "ordered_samples from to rows"
  have ns: "set ?ns = {s \<in> set rows. sample_node s = n \<and> sample_at s \<le> to}" by (auto simp: node_samples_def)
  have "sorted_wrt (\<lambda>a b. sample_at a < sample_at b) ([] @ ?ns)" using node_samples_sorted [OF dist] by simp
  from increase_earlier [OF this, of f "from"] have "increase f from None ?ns = (\<Sum>s\<leftarrow>filter (\<lambda>s. from \<le> sample_at s) ?ns. gain f (earlier ?ns s) s)"
    by simp
  also have "\<dots> = (\<Sum>s\<leftarrow>filter (\<lambda>s. from \<le> sample_at s) ?ns. of_nat (growth f ?ord s))"
    using lag_ordered [OF dist ns] by (intro arg_cong [where f = sum_list] map_cong refl) (auto simp: growth_gain)
  also have "\<dots> = (\<Sum>s\<leftarrow>filter (\<lambda>s. sample_node s = n) (shown_samples from to rows). of_nat (growth f ?ord s))"
  proof (rule sum_list_mset_eq)
    have "filter (\<lambda>s. from \<le> sample_at s) ?ns = filter (\<lambda>s. sample_node s = n \<and> from \<le> sample_at s \<and> sample_at s \<le> to) (sort_slice sample_before rows)"
      by (auto simp: node_samples_def intro: filter_cong)
    then have "mset (filter (\<lambda>s. from \<le> sample_at s) ?ns) = mset (filter (\<lambda>s. sample_node s = n \<and> from \<le> sample_at s \<and> sample_at s \<le> to) rows)"
      by (simp only: mset_filter mset_sort_slice)
    also have "filter (\<lambda>s. sample_node s = n \<and> from \<le> sample_at s \<and> sample_at s \<le> to) rows = filter (\<lambda>s. sample_node s = n) (shown_samples from to rows)"
      by (simp add: shown_eq conj_commute)
    finally show "mset (filter (\<lambda>s. from \<le> sample_at s) ?ns) = mset (filter (\<lambda>s. sample_node s = n) (shown_samples from to rows))" .
  qed
  finally show ?thesis by simp
qed

lemma shown_total:
  assumes "keys_distinct rows"
  shows "(\<Sum>s\<leftarrow>shown_samples from to rows. of_nat (growth f (ordered_samples from to rows) s))
     = (\<Sum>n\<in>sample_node ` set rows. increase f from None (node_samples n to (sort_slice sample_before rows)))"
proof -
  have "(\<Sum>s\<leftarrow>shown_samples from to rows. of_nat (growth f (ordered_samples from to rows) s))
      = (\<Sum>n\<in>sample_node ` set rows. \<Sum>s\<leftarrow>filter (\<lambda>s. sample_node s = n) (shown_samples from to rows). of_nat (growth f (ordered_samples from to rows) s) :: u64)"
    by (rule sum_groups [symmetric]) (auto simp: shown_eq)
  then show ?thesis by (simp only: node_total [OF assms])
qed

lemma pg_traffic_sums:
  assumes "pg_TrafficHistory from to interval T = Inr ps" "rows = map snd (t_samples T)"
  shows "(\<Sum>p\<leftarrow>ps. traffic_upload p) = (\<Sum>s\<leftarrow>shown_samples (micro from) (micro to) rows. of_nat (growth sample_in (ordered_samples (micro from) (micro to) rows) s))
    \<and> (\<Sum>p\<leftarrow>ps. traffic_download p) = (\<Sum>s\<leftarrow>shown_samples (micro from) (micro to) rows. of_nat (growth sample_out (ordered_samples (micro from) (micro to) rows) s))"
proof -
  let ?ord = "ordered_samples (micro from) (micro to) rows" and ?shown = "shown_samples (micro from) (micro to) rows"
  let ?bs = "buckets_of (go_div interval go_second) ?shown"
  have "all_some (map (traffic_of ?ord) ?bs) = Some ps"
    using assms by (auto simp: pg_TrafficHistory_def shown_samples_def Let_def split: if_splits option.splits)
  from all_some_map [OF this] have "list_all2 (\<lambda>g p. traffic_upload p = of_nat (\<Sum>s\<leftarrow>snd g. growth sample_in ?ord s)
      \<and> traffic_download p = of_nat (\<Sum>s\<leftarrow>snd g. growth sample_out ?ord s)) ?bs ps"
    by (rule list_all2_mono) (auto simp: traffic_of_def numeric_u64_def split: option.splits if_splits)
  then have "map traffic_upload ps = map (\<lambda>g. of_nat (\<Sum>s\<leftarrow>snd g. growth sample_in ?ord s)) ?bs
      \<and> map traffic_download ps = map (\<lambda>g. of_nat (\<Sum>s\<leftarrow>snd g. growth sample_out ?ord s)) ?bs"
    by (induction rule: list_all2_induct) auto
  then show ?thesis by (simp only: of_nat_sum_list sum_buckets simp_thms)
qed

text \<open>
  C12: the traffic charts of the two stores have the same totals. Where the tables represent a state of the in-memory
  store, the uploads of all points of the database's chart add up (modulo 64 bits) to the uploads of all points of the
  in-memory chart, and so do the downloads, although one walks the samples and the other joins the last sample before the
  range to the samples in it and subtracts with \<open>LAG\<close>.
\<close>

theorem pg_traffic_agrees:
  assumes "represents T m" "store_inv m"
    and "pg_TrafficHistory from to interval T = Inr ps" "TrafficHistory (micro from) (micro to) interval m = Some qs"
  shows "(\<Sum>p\<leftarrow>ps. traffic_upload p) = (\<Sum>q\<leftarrow>qs. traffic_upload q)
    \<and> (\<Sum>p\<leftarrow>ps. traffic_download p) = (\<Sum>q\<leftarrow>qs. traffic_download q)"
proof -
  have rows: "mem_samples m = map snd (t_samples T)" using representsD(9) [OF assms(1)] by (simp add: comp_def)
  have "keys_distinct (mem_samples m)" using assms(2) by (simp add: store_inv_def runtime_inv_def samples_ok_def)
  note total = shown_total [OF this]
  from TrafficHistory_total [OF assms(4)] pg_traffic_sums [OF assms(3) rows] show ?thesis
    by (simp only: total simp_thms)
qed

end
