(* ===== verification/PostgresExamples.thy ===== *)
theory PostgresExamples
  imports PostgresConfig PostgresCharts
begin

text \<open>
  Runs of the PostgreSQL store on concrete operations.
\<close>

section \<open>Executing operations\<close>

text \<open>Addresses are kept as they are, and the collation is the order of bytes.\<close>

abbreviation "example_body \<equiv> pg_body Some (<)"

fun pg_run_ops :: "(store_op \<times> fault) list \<Rightarrow> tables \<Rightarrow> pg_event list \<times> tables" where
  "pg_run_ops [] T = ([], T)"
| "pg_run_ops ((op, f) # ops) T =
     (let (T1, res) = transact f (example_body op) T; (es, T2) = pg_run_ops ops T1 in ((op, f, res) # es, T2))"

lemma pg_steps_Cons:
  assumes "pg_step inet lt T e T1" "pg_steps inet lt T1 es T2"
  shows "pg_steps inet lt T (e # es) T2"
  using assms(2,1)
proof (induction rule: pg_steps.induct)
  case (pg_steps_none T1)
  from pg_steps.pg_steps_more [OF pg_steps.pg_steps_none this] show ?case by simp
next
  case (pg_steps_more T1 es T2 e' T3)
  from pg_steps.pg_steps_more [OF pg_steps_more.IH [OF pg_steps_more.prems] pg_steps_more.hyps(2)] show ?case by simp
qed

lemma pg_run_ops_steps:
  "list_all (\<lambda>(op, f). checked op) ops \<Longrightarrow> pg_steps Some (<) T (fst (pg_run_ops ops T)) (snd (pg_run_ops ops T))"
proof (induction ops T rule: pg_run_ops.induct)
  case (1 T)
  then show ?case by (simp add: pg_steps_none)
next
  case (2 op f ops T)
  obtain T1 res where t: "transact f (example_body op) T = (T1, res)" by fastforce
  with 2 have "pg_step Some (<) T (op, f, res) T1" by (simp add: pg_step_iff)
  from pg_steps_Cons [OF this] 2 t show ?case by (simp add: split_beta)
qed

text \<open>
  Two agents enroll, a rule is created on the second and its agent reports three connections; then the rule is moved to
  the first agent. One operation is refused and one is committed without its caller being told.
\<close>

definition pg_token :: "string \<Rightarrow> enrollment_token" where
  "pg_token h = (example_token h)\<lparr>token_expires_at := 100000\<rparr>"

definition pg_agent :: "string \<Rightarrow> agent_identity" where
  "pg_agent nid = (example_identity nid)\<lparr>agent_public_ip := ''192.0.2.1'', agent_credential_hash := nid @ ''-key''\<rparr>"

definition pg_heartbeat :: "string \<Rightarrow> rule_stats list \<Rightarrow> time \<Rightarrow> agent_heartbeat" where
  "pg_heartbeat tunnel stats t = (example_heartbeat tunnel t)\<lparr>hb_public_ip := ''192.0.2.1'', hb_attempted_version := 1, hb_rule_stats := stats\<rparr>"

definition pg_stats :: "u64 \<Rightarrow> rule_stats list" where
  "pg_stats n = [\<lparr>stats_rule = ''r2'', stats_active = n, stats_in = 30, stats_out = 40\<rparr>]"

definition pg_setup :: "(store_op \<times> fault) list" where
  "pg_setup = [(OpCreateInitialUser example_user, NoFault), (OpCreateUser (example_user\<lparr>user_id := ''v''\<rparr>), NoFault),
     (OpCreateEnrollmentToken (pg_token ''t1''), CommitLost), (OpEnrollAgent ''t1'' 5000 (pg_agent ''A''), NoFault),
     (OpCreateEnrollmentToken (pg_token ''t2''), NoFault), (OpEnrollAgent ''t2'' 6000 (pg_agent ''B''), NoFault),
     (OpHeartbeat ''B'' ''B-key'' (pg_heartbeat ''10.0.0.2'' [] 7500), NoFault), (OpCreateRule (example_rule ''r2''), NoFault)]"

definition pg_report :: "(store_op \<times> fault) list" where
  "pg_report = [(OpHeartbeat ''B'' ''B-key'' (pg_heartbeat ''10.0.0.2'' (pg_stats 3) 9000), NoFault)]"

definition pg_move :: "(store_op \<times> fault) list" where
  "pg_move = [(OpUpdateRule ((example_rule ''r2'')\<lparr>rule_ingress := ''A''\<rparr>), NoFault)]"

definition tables1 :: tables where "tables1 = snd (pg_run_ops pg_setup empty_tables)"
definition tables2 :: tables where "tables2 = snd (pg_run_ops pg_report tables1)"
definition tables3 :: tables where "tables3 = snd (pg_run_ops pg_move tables2)"

lemma pg_steps_setup: "pg_steps Some (<) empty_tables (fst (pg_run_ops pg_setup empty_tables)) tables1"
  unfolding tables1_def by (rule pg_run_ops_steps) code_simp

lemma pg_steps_report: "pg_steps Some (<) tables1 (fst (pg_run_ops pg_report tables1)) tables2"
  unfolding tables2_def by (rule pg_run_ops_steps) (simp add: pg_report_def)

lemma pg_steps_move: "pg_steps Some (<) tables2 (fst (pg_run_ops pg_move tables2)) tables3"
  unfolding tables3_def by (rule pg_run_ops_steps) code_simp

section \<open>The properties on the runs\<close>


theorem pg_reads_agree_witness:
  "\<exists>m u c. represents tables1 m \<and> UserByUsername ''root'' m = Inr u \<and> user_id u = ''u'' \<and> ConfigForAgent ''B'' ''B-key'' m = Inr c
     \<and> config_version c = 2"
proof -
  obtain t m where m: "store_run t m" "represents tables1 m"
    using pg_run_matched [OF pg_steps_setup refl] by blast
  note agree = pg_reads_agree [OF m(2) store_inv_run [OF m(1)]]
  have "map_sum id user_id (pg_UserByUsername ''root'' tables1) = Inr ''u''"
    "map_sum id config_version (pg_ConfigForAgent (<) ''B'' ''B-key'' tables1 tables1) = Inr 2" by code_simp+
  then obtain u c where u: "pg_UserByUsername ''root'' tables1 = Inr u" "user_id u = ''u''"
    and c: "pg_ConfigForAgent (<) ''B'' ''B-key'' tables1 tables1 = Inr c" "config_version c = 2"
    by (cases "pg_UserByUsername ''root'' tables1"; cases "pg_ConfigForAgent (<) ''B'' ''B-key'' tables1 tables1") auto
  have "map_sum Known id (UserByUsername ''root'' m) = Inr u" using agree u(1) by simp
  then have "UserByUsername ''root'' m = Inr u" by (cases "UserByUsername ''root'' m") auto
  moreover obtain c' where "ConfigForAgent ''B'' ''B-key'' m = Inr c'" "config_version c' = 2"
    using agree [where lt = "(<)" and nid = "''B''" and cred = "''B-key''" and uid = "[]" and name = "[]" and h = "[]" and now = 0] c by auto
  ultimately show ?thesis using m(2) u(2) by blast
qed



text \<open>Three minutes later the agent of B reports 50 bytes more.\<close>

definition pg_later :: "(store_op \<times> fault) list" where
  "pg_later = [(OpHeartbeat ''B'' ''B-key'' ((pg_heartbeat ''10.0.0.2'' [] (3 * go_minute))\<lparr>hb_in := 60\<rparr>), NoFault)]"

definition tables4 :: tables where "tables4 = snd (pg_run_ops pg_later tables2)"

lemma pg_steps_append:
  assumes "pg_steps inet lt T1 es T2" "pg_steps inet lt T2 fs T3"
  shows "pg_steps inet lt T1 (es @ fs) T3"
  using assms(2,1)
proof (induction rule: pg_steps.induct)
  case (pg_steps_more T2 fs T3 e T4)
  from pg_steps.pg_steps_more [OF pg_steps_more.IH [OF pg_steps_more.prems] pg_steps_more.hyps(2)] show ?case by simp
qed simp

theorem pg_traffic_agrees_witness:
  "\<exists>ps qs m. pg_TrafficHistory 0 (10 * go_minute) go_minute tables4 = Inr ps \<and> TrafficHistory 0 (10 * go_minute) go_minute m = Some qs
     \<and> represents tables4 m \<and> (\<Sum>p\<leftarrow>ps. traffic_upload p) = 50 \<and> (\<Sum>q\<leftarrow>qs. traffic_upload q) = 50"
proof -
  have "pg_steps Some (<) tables2 (fst (pg_run_ops pg_later tables2)) tables4"
    unfolding tables4_def by (rule pg_run_ops_steps) (simp add: pg_later_def)
  from pg_run_matched [OF pg_steps_append [OF pg_steps_append [OF pg_steps_setup pg_steps_report] this] refl] obtain t m where
    m: "store_run t m" "represents tables4 m" by blast
  have "map_sum id (\<lambda>ps. \<Sum>p\<leftarrow>ps. traffic_upload p) (pg_TrafficHistory 0 (10 * go_minute) go_minute tables4) = Inr 50" by code_simp
  then obtain ps where ps: "pg_TrafficHistory 0 (10 * go_minute) go_minute tables4 = Inr ps" "(\<Sum>p\<leftarrow>ps. traffic_upload p) = 50"
    by (cases "pg_TrafficHistory 0 (10 * go_minute) go_minute tables4") auto
  have "mem_samples m = map snd (t_samples tables4)" using representsD(9) [OF m(2)] by (simp add: comp_def)
  then have "TrafficHistory 0 (10 * go_minute) go_minute m
      = TrafficHistory 0 (10 * go_minute) go_minute (NewMemory\<lparr>mem_samples := map snd (t_samples tables4)\<rparr>)"
    by (simp add: TrafficHistory_def)
  moreover have "TrafficHistory 0 (10 * go_minute) go_minute (NewMemory\<lparr>mem_samples := map snd (t_samples tables4)\<rparr>) \<noteq> None" by code_simp
  ultimately obtain qs where qs: "TrafficHistory 0 (10 * go_minute) go_minute m = Some qs" by auto
  have "TrafficHistory (micro 0) (micro (10 * go_minute)) go_minute m = Some qs" using qs by (simp add: micro_def)
  from pg_traffic_agrees [OF m(2) store_inv_run [OF m(1)] ps(1) this] ps qs m(2) show ?thesis by auto
qed

end
