(* ===== verification/PostgresOpen.thy ===== *)
theory PostgresOpen
  imports Prelude
begin

text \<open>
  Opening the database, \<open>Open\<close> and \<open>migrate\<close> of \<open>postgres.go\<close>: the scripts of the program are run once each, in the order
  of their names, each in a transaction with the row that records it. A schema is what the scripts run so far have made
  of it, so it is the list of them; every statement may fail, and a commit may succeed without the program learning it.
\<close>

section \<open>Migrations\<close>

record entry =
  entry_name :: string
  entry_dir :: bool
  entry_contents :: string

record schema =
  sc_recorded :: "string list"
  sc_scripts :: "string list"

datatype migrate_error = CreateTableFailed | CheckFailed string | BeginFailed string | ApplyFailed string | CommitFailed string

text \<open>What the database does to the migration of one script.\<close>

datatype migration_fault = Applies | CheckFails | BeginFails | ScriptFails | CommitFails | AnswerLost

definition apply_entry :: "entry \<Rightarrow> schema \<Rightarrow> schema" where
  "apply_entry e db = db\<lparr>sc_recorded := sc_recorded db @ [entry_name e], sc_scripts := sc_scripts db @ [entry_contents e]\<rparr>"

definition migrate_entry :: "migration_fault \<Rightarrow> entry \<Rightarrow> schema \<Rightarrow> schema \<times> migrate_error option" where
  "migrate_entry fault e db =
     (if fault = CheckFails then (db, Some (CheckFailed (entry_name e)))
      else if entry_name e \<in> set (sc_recorded db) then (db, None)
      else case fault of
        BeginFails \<Rightarrow> (db, Some (BeginFailed (entry_name e)))
      | ScriptFails \<Rightarrow> (db, Some (ApplyFailed (entry_name e)))
      | CommitFails \<Rightarrow> (db, Some (CommitFailed (entry_name e)))
      | AnswerLost \<Rightarrow> (apply_entry e db, Some (CommitFailed (entry_name e)))
      | _ \<Rightarrow> (apply_entry e db, None))"

fun migrate_loop :: "(string \<Rightarrow> migration_fault) \<Rightarrow> entry list \<Rightarrow> schema \<Rightarrow> schema \<times> migrate_error option" where
  "migrate_loop faults [] db = (db, None)"
| "migrate_loop faults (e # es) db =
     (if entry_dir e then migrate_loop faults es db
      else case migrate_entry (faults (entry_name e)) e db of
        (db', Some err) \<Rightarrow> (db', Some err)
      | (db', None) \<Rightarrow> migrate_loop faults es db')"

definition migrate :: "bool \<Rightarrow> (string \<Rightarrow> migration_fault) \<Rightarrow> entry list \<Rightarrow> schema \<Rightarrow> schema \<times> migrate_error option" where
  "migrate creates faults entries db =
     (if \<not> creates then (db, Some CreateTableFailed)
      else migrate_loop faults (sort_slice (\<lambda>a b. entry_name a < entry_name b) entries) db)"

datatype open_error = DriverFailed | PingFailed | MigrateFailed migrate_error

text \<open>\<open>connects\<close> and \<open>answers\<close> are the outcomes of \<open>sql.Open\<close> and of the ping.\<close>

definition Open :: "bool \<Rightarrow> bool \<Rightarrow> bool \<Rightarrow> (string \<Rightarrow> migration_fault) \<Rightarrow> entry list \<Rightarrow> schema \<Rightarrow> schema \<times> open_error option" where
  "Open connects answers creates faults entries db =
     (if \<not> connects then (db, Some DriverFailed)
      else if \<not> answers then (db, Some PingFailed)
      else case migrate creates faults entries db of
        (db', Some e) \<Rightarrow> (db', Some (MigrateFailed e))
      | (db', None) \<Rightarrow> (db', None))"

section \<open>Migrations are run once each, in order\<close>

definition scripts_of :: "entry list \<Rightarrow> entry list" where
  "scripts_of entries = filter (\<lambda>e. \<not> entry_dir e) (sort_slice (\<lambda>a b. entry_name a < entry_name b) entries)"

definition schema_of :: "entry list \<Rightarrow> schema" where
  "schema_of es = \<lparr>sc_recorded = map entry_name es, sc_scripts = map entry_contents es\<rparr>"

lemma migrate_loop_dirs: "migrate_loop faults es db = migrate_loop faults (filter (\<lambda>e. \<not> entry_dir e) es) db"
  by (induction es arbitrary: db) (simp_all split: prod.split option.split)

lemma migrate_loop_recorded:
  assumes "\<forall>e \<in> set es. \<not> entry_dir e \<and> entry_name e \<in> set (sc_recorded db)"
  shows "migrate_loop faults (es @ rest) db = migrate_loop faults rest db
    \<or> (\<exists>e. migrate_loop faults (es @ rest) db = (db, Some e))"
  using assms by (induction es) (auto simp: migrate_entry_def)

lemma apply_entry_schema: "apply_entry e (schema_of es) = schema_of (es @ [e])"
  by (simp add: apply_entry_def schema_of_def)

text \<open>From a schema made of the first scripts, the loop over the rest leaves a schema made of the first scripts.\<close>

lemma migrate_loop_prefix:
  assumes "distinct (map entry_name (past @ es))" "\<forall>e \<in> set es. \<not> entry_dir e"
  shows "\<exists>new. (\<exists>rest. es = new @ rest) \<and> fst (migrate_loop faults es (schema_of past)) = schema_of (past @ new)
     \<and> (snd (migrate_loop faults es (schema_of past)) = None \<longrightarrow> new = es)"
  using assms
proof (induction es arbitrary: past)
  case Nil
  then show ?case by simp
next
  case (Cons e es)
  have fresh: "entry_name e \<notin> set (sc_recorded (schema_of past))" and dir: "\<not> entry_dir e"
    using Cons.prems by (auto simp: schema_of_def)
  let ?r = "migrate_entry (faults (entry_name e)) e (schema_of past)"
  consider (stopped) err where "?r = (schema_of past, Some err)" | (lost) err where "?r = (schema_of (past @ [e]), Some err)"
    | (applied) "?r = (schema_of (past @ [e]), None)"
    using fresh by (cases "faults (entry_name e)") (simp_all add: migrate_entry_def apply_entry_schema)
  then show ?case
  proof cases
    case stopped
    with dir show ?thesis by (intro exI [of _ "[]"]) simp
  next
    case lost
    with dir show ?thesis by (intro exI [of _ "[e]"]) simp
  next
    case applied
    have "\<exists>new. (\<exists>rest. es = new @ rest) \<and> fst (migrate_loop faults es (schema_of (past @ [e]))) = schema_of ((past @ [e]) @ new)
        \<and> (snd (migrate_loop faults es (schema_of (past @ [e]))) = None \<longrightarrow> new = es)"
      by (rule Cons.IH) (use Cons.prems in simp_all)
    then obtain new where m: "\<exists>rest. es = new @ rest"
      "fst (migrate_loop faults es (schema_of (past @ [e]))) = schema_of (past @ e # new)"
      "snd (migrate_loop faults es (schema_of (past @ [e]))) = None \<longrightarrow> new = es" by (metis append.assoc append_Cons append_Nil)
    with applied dir show ?thesis by (intro exI [of _ "e # new"]) auto
  qed
qed

lemma migrate_prefix:
  assumes dist: "distinct (map entry_name entries)" and start: "scripts_of entries = past @ todo"
  shows "\<exists>new. (\<exists>rest. todo = new @ rest) \<and> fst (migrate creates faults entries (schema_of past)) = schema_of (past @ new)
     \<and> (snd (migrate creates faults entries (schema_of past)) = None \<longrightarrow> new = todo)"
proof (cases creates)
  case False
  then show ?thesis by (intro exI [of _ "[]"]) (simp add: migrate_def)
next
  case True
  have "distinct (map entry_name (sort_slice (\<lambda>a b. entry_name a < entry_name b) entries))"
    using dist by (metis mset_map mset_sort_slice mset_eq_imp_distinct_iff)
  then have d: "distinct (map entry_name (past @ todo))"
    unfolding start [symmetric] scripts_of_def by (rule distinct_map_filter)
  have nodir: "\<forall>e \<in> set (past @ todo). \<not> entry_dir e"
    unfolding start [symmetric] by (simp add: scripts_of_def)
  have run: "migrate creates faults entries (schema_of past) = migrate_loop faults (past @ todo) (schema_of past)"
    using True start migrate_loop_dirs [of faults "sort_slice (\<lambda>a b. entry_name a < entry_name b) entries" "schema_of past"]
    by (simp add: migrate_def scripts_of_def)
  have "\<forall>e \<in> set past. \<not> entry_dir e \<and> entry_name e \<in> set (sc_recorded (schema_of past))"
    using nodir by (simp add: schema_of_def)
  from migrate_loop_recorded [OF this, of faults todo] consider
    "migrate_loop faults (past @ todo) (schema_of past) = migrate_loop faults todo (schema_of past)"
    | err where "migrate_loop faults (past @ todo) (schema_of past) = (schema_of past, Some err)" by blast
  then show ?thesis
  proof cases
    case 1
    with migrate_loop_prefix [OF d, of faults] nodir show ?thesis unfolding run by simp
  next
    case 2
    then show ?thesis unfolding run by (intro exI [of _ "[]"]) simp
  qed
qed

text \<open>
  Starting the program again and again, with any failures, and then once without an error leaves the schema that one
  start without failures makes of an empty database: every script has been run exactly once, in the order of the names.
\<close>

theorem migrations_resume:
  assumes "distinct (map entry_name entries)"
    and "db = fold (\<lambda>(creates, faults) db. fst (migrate creates faults entries db)) starts (schema_of [])"
    and "migrate True faults entries db = (db', None)"
  shows "db' = schema_of (scripts_of entries)"
proof -
  have "\<exists>past todo. scripts_of entries = past @ todo
      \<and> fold (\<lambda>(creates, faults) db. fst (migrate creates faults entries db)) xs (schema_of ds) = schema_of past"
    if "\<exists>ts. scripts_of entries = ds @ ts" for xs ds
    using that
  proof (induction xs arbitrary: ds)
    case Nil
    then show ?case by auto
  next
    case (Cons x xs)
    obtain creates faults where x: "x = (creates, faults)" by fastforce
    from Cons.prems obtain ts where "scripts_of entries = ds @ ts" by blast
    from migrate_prefix [OF assms(1) this, of creates faults] obtain new rest where
      "ts = new @ rest" "fst (migrate creates faults entries (schema_of ds)) = schema_of (ds @ new)" by blast
    with Cons.IH [of "ds @ new"] \<open>scripts_of entries = ds @ ts\<close> show ?case by (simp add: x)
  qed
  from this [of "[]" starts] obtain past todo where d: "scripts_of entries = past @ todo" "db = schema_of past"
    unfolding assms(2) by auto
  from migrate_prefix [OF assms(1) d(1), of True faults] assms(3) d show ?thesis by auto
qed

lemma migration_example:
  "migrate True (\<lambda>n. Applies) [\<lparr>entry_name = ''2'', entry_dir = False, entry_contents = ''b''\<rparr>, \<lparr>entry_name = ''1'', entry_dir = False, entry_contents = ''a''\<rparr>]
     (fst (migrate True (\<lambda>n. if n = ''2'' then ScriptFails else AnswerLost)
       [\<lparr>entry_name = ''2'', entry_dir = False, entry_contents = ''b''\<rparr>, \<lparr>entry_name = ''1'', entry_dir = False, entry_contents = ''a''\<rparr>] (schema_of [])))
   = (\<lparr>sc_recorded = [''1'', ''2''], sc_scripts = [''a'', ''b'']\<rparr>, None)"
  by code_simp

end
