(* ===== verification/ControlMain.thy ===== *)
theory ControlMain
  imports ServerState
begin

text \<open>
  The control program, \<open>cmd/control/main.go\<close>: its flags and environment variables, the choice of the store, the
  encryption key it demands with a persistent store, the options it gives the server, and the health check. Connecting to
  the database and the HTTP client are parameters; serving requests until a signal arrives is the server's part.
\<close>

section \<open>Standard library\<close>

text \<open>\<open>hex.DecodeString\<close>: both cases of letters, an error on an odd length or another character.\<close>

fun hex_decode :: "string \<Rightarrow> string option" where
  "hex_decode [] = Some []"
| "hex_decode [c] = None"
| "hex_decode (a # b # s) =
     (case (hex_val a, hex_val b) of
        (Some x, Some y) \<Rightarrow> map_option (\<lambda>bytes. char_of (16 * x + y) # bytes) (hex_decode s)
      | _ \<Rightarrow> None)"

text \<open>
  \<open>strings.EqualFold(s, "false")\<close>: each letter in either case; under simple folding the long s, U+017F, is an s too.
\<close>

fun fold_matches :: "string list list \<Rightarrow> string \<Rightarrow> bool" where
  "fold_matches [] s = (s = [])"
| "fold_matches (ps # rest) s = list_ex (\<lambda>p. has_prefix s p \<and> fold_matches rest (drop (length p) s)) ps"

definition equal_fold_false :: "string \<Rightarrow> bool" where
  "equal_fold_false = fold_matches [[''f'', ''F''], [''a'', ''A''], [''l'', ''L''], [''s'', ''S'', [CHR 0xC5, CHR 0xBF]], [''e'', ''E'']]"

section \<open>The program\<close>

record control_flags =
  cf_listen :: string
  cf_healthcheck :: string
  cf_version :: bool

text \<open>
  What the program meets: its environment variables, the reply of a GET request (an error or a status), whether the
  database at an address opens and migrates, the clock and the random key.
\<close>

record control_env =
  ce_getenv :: "string \<Rightarrow> string"
  ce_get :: "string \<Rightarrow> string + int"
  ce_opens :: "string \<Rightarrow> bool"
  ce_now :: time
  ce_fresh_key :: "string option"

datatype store_kind = MemoryStore | PostgresStore string

datatype health_error = HealthRequest string | HealthStatus int

definition runHealthcheck :: "control_env \<Rightarrow> string \<Rightarrow> health_error option" where
  "runHealthcheck env address =
     (case ce_get env address of
        Inl e \<Rightarrow> Some (HealthRequest e)
      | Inr status \<Rightarrow> if status \<noteq> 200 then Some (HealthStatus status) else None)"

definition openStore :: "control_env \<Rightarrow> (store_kind \<times> string) option" where
  "openStore env =
     (let url = trim_space (ce_getenv env ''DATABASE_URL'')
      in if url = [] then Some (MemoryStore, ''memory'')
         else if ce_opens env url then Some (PostgresStore url, ''postgres'') else None)"

datatype control_fatal = HealthFailed health_error | StoreFailed | KeyRequired | KeyMalformed

text \<open>The \<open>http.Server\<close> the program runs.\<close>

record http_server =
  hs_addr :: string
  hs_store :: store_kind
  hs_settings :: server_settings
  hs_read_header_timeout :: duration
  hs_read_timeout :: duration
  hs_write_timeout :: duration
  hs_idle_timeout :: duration

datatype control_result =
    ShowVersion string | Healthy | ControlFatal control_fatal | ControlPanic server_panic | Serving http_server

definition mfa_key :: "control_env \<Rightarrow> string \<Rightarrow> control_fatal + string" where
  "mfa_key env mode =
     (let hex = trim_space (ce_getenv env ''PORTFLOW_MFA_ENCRYPTION_KEY'')
      in if mode \<noteq> ''postgres'' then Inr []
         else if hex = [] then Inl KeyRequired
         else case hex_decode hex of
           None \<Rightarrow> Inl KeyMalformed
         | Some key \<Rightarrow> if length key \<noteq> 32 then Inl KeyMalformed else Inr key)"

definition control_main :: "string \<Rightarrow> control_flags \<Rightarrow> control_env \<Rightarrow> control_result" where
  "control_main version fl env =
     (if cf_version fl then ShowVersion version
      else if cf_healthcheck fl \<noteq> [] then
        (case runHealthcheck env (cf_healthcheck fl) of Some e \<Rightarrow> ControlFatal (HealthFailed e) | None \<Rightarrow> Healthy)
      else case openStore env of
        None \<Rightarrow> ControlFatal StoreFailed
      | Some (storage, mode) \<Rightarrow>
          let secure = (\<not> equal_fold_false (ce_getenv env ''PORTFLOW_SECURE_COOKIES''))
          in case mfa_key env mode of
            Inl e \<Rightarrow> ControlFatal e
          | Inr key \<Rightarrow>
              (case NewServer \<lparr>so_version = version, so_has_store = True, so_storage_mode = mode, so_secure_cookies = secure,
                       so_session_ttl = 0, so_mfa_key = key\<rparr> (ce_now env) (ce_fresh_key env) of
                 Inl p \<Rightarrow> ControlPanic p
               | Inr (settings, attempts) \<Rightarrow>
                   Serving \<lparr>hs_addr = cf_listen fl, hs_store = storage, hs_settings = settings,
                     hs_read_header_timeout = 5 * go_second, hs_read_timeout = 15 * go_second,
                     hs_write_timeout = 30 * go_second, hs_idle_timeout = 90 * go_second\<rparr>))"

section \<open>The key of a persistent store\<close>

lemma hex_val_digit: "d < 16 \<Longrightarrow> hex_val (hex_digit d) = Some d"
proof -
  assume "d < 16"
  then have "d \<in> set [0..<16]" by simp
  moreover have "\<forall>d \<in> set [0..<16]. hex_val (hex_digit d) = Some d" by code_simp
  ultimately show "hex_val (hex_digit d) = Some d" by blast
qed

lemma hex_decode_encode: "hex_decode (hex_encode s) = Some s"
proof (induction s)
  case Nil
  then show ?case by (simp add: hex_encode_def)
next
  case (Cons c s)
  have "of_char c < (16 * 16 :: nat)" by simp
  then have "of_char c div 16 < (16 :: nat)" by (rule less_mult_imp_div_less)
  moreover have "of_char c mod 16 < (16 :: nat)" by simp
  ultimately have "hex_val (hex_digit (of_char c div 16)) = Some (of_char c div 16)"
    "hex_val (hex_digit (of_char c mod 16)) = Some (of_char c mod 16)" by (simp_all only: hex_val_digit)
  with Cons show ?case by (simp add: hex_encode_Cons)
qed

text \<open>
  The program serves a persistent store exactly when its address opens and the variable holds the 32 bytes of a key in
  hexadecimal; the key is then the server's, so that every start with the same variable reads the secrets that the last
  one sealed. It never panics with a persistent store.
\<close>

theorem control_serves_persistent:
  "control_main version fl env = Serving hs \<and> hs_store hs = PostgresStore url \<longleftrightarrow>
     \<not> cf_version fl \<and> cf_healthcheck fl = [] \<and> url = trim_space (ce_getenv env ''DATABASE_URL'') \<and> url \<noteq> [] \<and> ce_opens env url
     \<and> (\<exists>key. hex_decode (trim_space (ce_getenv env ''PORTFLOW_MFA_ENCRYPTION_KEY'')) = Some key \<and> length key = 32
          \<and> hs = \<lparr>hs_addr = cf_listen fl, hs_store = PostgresStore url,
                 hs_settings = \<lparr>ss_started_at = ce_now env, ss_version = version, ss_storage_mode = ''postgres'',
                   ss_secure_cookies = (\<not> equal_fold_false (ce_getenv env ''PORTFLOW_SECURE_COOKIES'')),
                   ss_session_ttl = defaultSessionTTL, ss_mfa_key = key\<rparr>,
                 hs_read_header_timeout = 5 * go_second, hs_read_timeout = 15 * go_second,
                 hs_write_timeout = 30 * go_second, hs_idle_timeout = 90 * go_second\<rparr>)"
  by (auto simp: control_main_def openStore_def mfa_key_def NewServer_def NewSecretProtector_def Let_def
      split: if_splits option.splits sum.splits)

text \<open>Without a database the store is lost with the process, and so is the key, which is drawn at random.\<close>

theorem control_serves_memory:
  "control_main version fl env = Serving hs \<and> hs_store hs = MemoryStore \<longleftrightarrow>
     \<not> cf_version fl \<and> cf_healthcheck fl = [] \<and> trim_space (ce_getenv env ''DATABASE_URL'') = []
     \<and> (\<exists>key. ce_fresh_key env = Some key \<and> length key = 32
          \<and> hs = \<lparr>hs_addr = cf_listen fl, hs_store = MemoryStore,
                 hs_settings = \<lparr>ss_started_at = ce_now env, ss_version = version, ss_storage_mode = ''memory'',
                   ss_secure_cookies = (\<not> equal_fold_false (ce_getenv env ''PORTFLOW_SECURE_COOKIES'')),
                   ss_session_ttl = defaultSessionTTL, ss_mfa_key = key\<rparr>,
                 hs_read_header_timeout = 5 * go_second, hs_read_timeout = 15 * go_second,
                 hs_write_timeout = 30 * go_second, hs_idle_timeout = 90 * go_second\<rparr>)"
  by (auto simp: control_main_def openStore_def mfa_key_def NewServer_def NewSecretProtector_def Let_def
      split: if_splits option.splits sum.splits)

lemma equal_fold_false_examples:
  "equal_fold_false ''False''" "\<not> equal_fold_false ''''" "\<not> equal_fold_false ''0''" "\<not> equal_fold_false '' false''"
  by code_simp+

end
