(* ===== verification/Spec2Isabelle.thy ===== *)
theory Spec2Isabelle
  imports Fleet PostgresExamples PostgresOpen ControlMain
begin

text \<open>
  A verification of portflow: a control plane that keeps users, nodes and forwarding rules, and agents that run the
  rules as TCP and UDP forwarders. The control plane stores a rule and rebuilds the configuration of the nodes it
  touches; an agent fetches its configuration (\<open>ConfigForAgent\<close>), prepares it, moves its listeners to it (\<open>Apply\<close>) and
  reports statistics in heartbeats, which the store folds into its tables.

  The theories follow the packages. A Go struct is a record with the fields of the struct under a short prefix, a Go map
  an association list with distinct keys (\<open>gomap\<close>), an error a value of a sum or option type, an unsigned integer a
  word of its width, an \<open>int\<close> and a time an integer (nanoseconds since the epoch); a function with a receiver takes the
  state last and returns it. Mutual exclusion is the granularity: what runs under one lock is one function or one step.

  \<^item> \<open>Prelude\<close>, \<open>GoStrings\<close>, \<open>NetAddr\<close>: what the program uses of Go: maps, sorting with a comparison, division,
    times, strings (\<open>TrimSpace\<close>, ...), the parsing of IP addresses and CIDR blocks, joining and splitting of host and port.
  \<^item> \<open>Domain\<close>: \<open>internal/domain/model.go\<close>, with rule validation.
  \<^item> \<open>StoreState\<close>, \<open>MemUsers\<close>, \<open>MemRules\<close>, \<open>MemHeartbeat\<close>, \<open>MemHistory\<close>, \<open>StoreMachine\<close>: \<open>internal/store\<close>, the
    in-memory store. The first five hold its state, its operations and the lemmas of each; \<open>StoreMachine\<close> makes a
    machine of all operations and proves the invariants of every run.
  \<^item> \<open>Bandwidth\<close>, \<open>LimitedWriter\<close>: \<open>internal/forward/bandwidth.go\<close> and the writer of \<open>tcp.go\<close>: the token bucket never
    grants more than rate and burst allow, and the writer passes exactly the bytes it reports.
  \<^item> \<open>Prepare\<close>, \<open>Manager\<close>: \<open>prepareRules\<close>, \<open>permits\<close>, \<open>Manager.Apply\<close> and \<open>Manager.Close\<close> of \<open>tcp.go\<close>.
  \<^item> \<open>Tcp\<close>, \<open>Udp\<close>: a forwarder of each kind as a machine of its goroutines, one critical section or blocking call a
    step; the invariants hold for every interleaving and every failure of the network.
  \<^item> \<open>ForwardStats\<close>: \<open>Manager.Stats\<close> over the states of \<open>Tcp\<close> and \<open>Udp\<close>.
  \<^item> \<open>AgentConfig\<close>, \<open>LogBuffer\<close>, \<open>ControlClient\<close>, \<open>Metrics\<close>, \<open>AgentRuntime\<close>, \<open>AgentMain\<close>: \<open>internal/agent\<close> and
    \<open>cmd/agent\<close>: the configuration file and its atomic replacement, the queue of log lines, the requests to the control
    plane, the figures read from \<open>/proc\<close>, the synchronisation loop with its roll back, and the start of the program.
  \<^item> \<open>Encoding\<close>, \<open>Auth\<close>: \<open>internal/auth\<close>: hexadecimal, base32 and base64, passwords, names, tokens, one-time codes,
    recovery codes and sealed secrets.
  \<^item> \<open>Http\<close>, \<open>ServerState\<close>, \<open>ServerAccounts\<close>, \<open>ServerAgents\<close>, \<open>ServerRules\<close>, \<open>ServerViews\<close>, \<open>Server\<close>:
    \<open>internal/control\<close>. A handler is a program (\<open>prog\<close>) whose steps are the reading of the clock, draws of random bytes,
    critical sections of the login table and calls of the store; \<open>path\<close> is what the environment answered on the way.
    \<open>Server\<close> has the routes and proves of every handler which calls it may make (\<open>authorised\<close>) and what it may answer
    to whom (\<open>told\<close>).
  \<^item> \<open>ServerMachine\<close>, \<open>ServerGuarantees\<close>, \<open>ServerExamples\<close>: requests in flight over one store and one login table, with
    their steps interleaved; the guarantees of every run, and concrete runs.
  \<^item> \<open>Postgres\<close>, \<open>PostgresRuntime\<close>, \<open>PostgresCharts\<close>, \<open>PostgresOpen\<close>: \<open>internal/store/postgres\<close>. The state is the
    record \<open>tables\<close>; a statement is a function on it that may fail on a constraint, an operation a chain of statements,
    and \<open>transact\<close> runs it with a fault before the commit (nothing changed), after it (changed, but the caller gets an
    error) or with none. \<open>PostgresCharts\<close> has the queries of the charts and \<open>PostgresOpen\<close> the migrations.
  \<^item> \<open>PostgresStore\<close>, \<open>PostgresRules\<close>, \<open>PostgresMachine\<close>, \<open>PostgresConfig\<close>, \<open>PostgresExamples\<close>: \<open>represents T m\<close> relates
    the tables to a state of the in-memory store. Every transaction that takes effect is matched by the operation of the
    in-memory store with an agreeing answer, so the runs of the database refine those of the in-memory store and its reads
    agree; a configuration that is read while rules change is never newer in its version than in its rules.
  \<^item> \<open>ControlMain\<close>: \<open>cmd/control\<close>: when the program serves, with which store, key and settings.
  \<^item> \<open>Fleet\<close> and this theory: the properties that span the store, the server and the agents.

  Bounds. Loops over lists are structural recursions; the waiting loop of the limiter and the writing loop recurse over
  the list of what the environment answers, and the theorems \<open>Wait_returns\<close> and \<open>Write_completes\<close> say how long a list
  is enough. Recovery codes are drawn until enough have the wanted form: the draws are a list, and a list that is too
  short gives no result. A program of the server is a well-founded tree: no handler takes infinitely many steps
  (\<open>requests_answered\<close>). Floating point amounts are exact rationals. Nothing else needs fuel.

  Parameters. The operating system that grants or refuses a listener is an argument of \<open>Apply\<close>; sockets, dials, reads,
  writes, clocks and wake-ups are the choices of the steps of \<open>Tcp\<close>, \<open>Udp\<close> and \<open>Bandwidth\<close>. Cryptography (bcrypt, SHA-256,
  HMAC-SHA1, AES-GCM) is the record \<open>crypto\<close>; the decoders of JSON bodies, the conversion of case outside ASCII and the
  parsing of RFC 3339 times are the record \<open>deps\<close>. The figures of files, replies and file operations an agent meets in one
  round are the record \<open>sync_env\<close>. The collation of the database and its reading of addresses are the arguments \<open>lt\<close> and
  \<open>inet\<close>; what a start of the control program meets is the record \<open>control_env\<close>.

  Not modelled. The texts of error messages and log lines, the encoding of responses as JSON, the request log, and
  requests for the target \<open>*\<close>; the connection pool, the SQL of the migrations beyond the constraints it puts on the tables,
  and the listening, signals and shutdown of the control program. Transactions of the database follow one another: the
  code takes row and advisory locks where two would meet; only the two statements of \<open>ConfigForAgent\<close> are told apart. The
  relation \<open>represents\<close> leaves out the agent logs, the connections and the counters of rules, which the two stores keep
  under different rules.
\<close>

section \<open>From the store to the agent\<close>

text \<open>
  What the control plane hands out is nearly what an agent can run. For every store that a run reaches and every
  node, the agent of the node refuses the configuration it is given only because a rule in it is invalid or because two
  of its rules claim the same listener; it never meets a duplicate identifier or a relay rule of other nodes.
\<close>

theorem agent_refuses_only:
  assumes "store_run t m" "ConfigForAgent nid credential m = Inr c" "prepareRules (config_rules c) nid = Inl e"
  shows "(\<exists>rid err. e = InvalidRule rid err) \<or> (\<exists>a b net addr. e = BothListen a b net addr)"
  by (rule config_refusals [OF assms])

text \<open>
  C19: the store and the agents disagree about conflicts. There is a run of the store that accepts a relay rule whose
  egress is node B, with the relay endpoint at B's tunnel address and port 9000, and then a direct rule of B that
  listens on the same address and port; the conflict check does not compare the two, and B's agent refuses the whole
  configuration it is given, so it runs none of its rules.
\<close>

theorem conflict_reaches_agent:
  "\<exists>t m c. store_run t m \<and> ConfigForAgent ''B'' ''key'' m = Inr c
     \<and> prepareRules (config_rules c) ''B'' = Inl (BothListen ''r1'' ''r2'' ''tcp'' ''10.0.0.2:9000'')"
proof -
  have "map_sum (\<lambda>_. ()) (\<lambda>c. case prepareRules (config_rules c) ''B'' of
      Inl e \<Rightarrow> e = BothListen ''r1'' ''r2'' ''tcp'' ''10.0.0.2:9000'' | Inr x \<Rightarrow> False)
    (ConfigForAgent ''B'' ''key'' example_store) = Inr True"
    by code_simp
  then obtain c where "ConfigForAgent ''B'' ''key'' example_store = Inr c"
      "prepareRules (config_rules c) ''B'' = Inl (BothListen ''r1'' ''r2'' ''tcp'' ''10.0.0.2:9000'')"
    by (cases "ConfigForAgent ''B'' ''key'' example_store") (auto split: sum.splits)
  with example_run show ?thesis by blast
qed

theorem agent_refuses_only_witness:
  "\<exists>c e. ConfigForAgent ''B'' ''key'' example_store = Inr c \<and> prepareRules (config_rules c) ''B'' = Inl e
     \<and> ((\<exists>rid err. e = InvalidRule rid err) \<or> (\<exists>a b net addr. e = BothListen a b net addr))"
proof -
  have "map_sum (\<lambda>_. ()) (\<lambda>c. case prepareRules (config_rules c) ''B'' of Inl e \<Rightarrow> True | Inr x \<Rightarrow> False)
    (ConfigForAgent ''B'' ''key'' example_store) = Inr True"
    by code_simp
  then obtain c e where c: "ConfigForAgent ''B'' ''key'' example_store = Inr c" "prepareRules (config_rules c) ''B'' = Inl e"
    by (cases "ConfigForAgent ''B'' ''key'' example_store") (auto split: sum.splits)
  from agent_refuses_only [OF example_run c] c show ?thesis by blast
qed

text \<open>
  C38: an enrollment with a bad tunnel address burns its token. When the agent's tunnel address is not a private IPv4
  address, the control plane enrolls the node and marks the token as used, and the agent then refuses to save the
  identity it was given: nothing is written, the credential is lost, and every further enrollment with the token fails.
\<close>

theorem enrollment_burns_token:
  assumes "\<not> fl_version fl" "start_token fl env = Inr token" "token \<noteq> []" "\<not> fl_configure_only fl"
    and "trim_space (fl_control_url fl) \<noteq> []" "trim_space (fl_name fl) \<noteq> []"
    and "Enroll (st_parse_url env) (st_enrollment env) (st_message env) (fl_control_url fl) (st_marshals env)
          (st_wellformed env) (st_reply env) = Inr en"
    and "EnrollAgent (TokenHash cr token) now a m = (m', Inr n)"
    and "trim_space (fl_tunnel fl) \<noteq> []" "\<not> ValidTunnelAddress (trim_space (fl_tunnel fl))"
  shows "(\<exists>e. agent_main fl env d = (Fatal (SaveIdentity (SaveInvalid e)), d))
    \<and> EnrollAgent (TokenHash cr token) now' a' m' = (m', Inl ErrTokenInvalid)"
  using enrollment_discarded [OF assms(1-7,9,10)] EnrollAgent_used [OF assms(8)] EnrollAgent_refused by fastforce

theorem enrollment_burns_token_witness:
  "\<exists>e. agent_main (example_flags\<lparr>fl_token := ''t'', fl_tunnel := ''8.8.8.8''\<rparr>) example_start_env [] = (Fatal (SaveIdentity (SaveInvalid e)), [])"
proof -
  let ?fl = "example_flags\<lparr>fl_token := ''t'', fl_tunnel := ''8.8.8.8''\<rparr>"
  let ?a = "\<lparr>agent_id = ''B'', agent_name = ''edge'', agent_region = [], agent_public_ip = [], agent_architecture = [],
     agent_version = [], agent_credential_hash = [], agent_created_at = 1\<rparr>"
  let ?m = "NewMemory\<lparr>mem_tokens := [(TokenHash example_crypto ''t'', \<lparr>token_id = [], token_name = [], token_hash = [],
     token_created_by = [], token_expires_at = 9, token_created_at = 0, token_used_at = None\<rparr>)]\<rparr>"
  have trims: "trim_space ''t'' = ''t''" "trim_space ''https://c/'' = ''https://c/''" "trim_space ''edge'' = ''edge''"
    "trim_space ''8.8.8.8'' = ''8.8.8.8''" "\<not> ValidTunnelAddress ''8.8.8.8''"
    by code_simp+
  have "start_token ?fl example_start_env = Inr ''t''" by (simp add: start_token_def example_flags_def trims)
  moreover have "\<exists>en. Enroll (st_parse_url example_start_env) (st_enrollment example_start_env) (st_message example_start_env)
      (fl_control_url ?fl) (st_marshals example_start_env) (st_wellformed example_start_env) (st_reply example_start_env) = Inr en"
    by (simp add: Enroll_def validateControlURL_def example_start_env_def example_flags_def example_url_def trims)
  moreover have "\<exists>m' n. EnrollAgent (TokenHash example_crypto ''t'') 1 ?a ?m = (m', Inr n)"
    by (simp add: EnrollAgent_def NewMemory_def ghas_def Let_def)
  ultimately show ?thesis
    using enrollment_burns_token [of ?fl example_start_env "''t''" _ example_crypto 1 ?a ?m]
    by (auto simp: example_flags_def trims)
qed

end
